(* ===== verification/Prelude.thy ===== *)
theory Prelude
  imports Main "HOL-Library.Char_ord" "HOL-Library.List_Lexorder" "HOL-Library.Word"
begin

text \<open>
  Shared ground of the development: the part of Go's standard library the modelled packages
  call (byte strings, \<open>strings.Split\<close>, \<open>strings.Join\<close>, \<open>strings.Fields\<close>,
  \<open>strings.ToLower\<close>, \<open>strings.EqualFold\<close>, decimal numbers, sorting), with the lemmas the
  components share. A Go string is a sequence of bytes, so it is modelled as a \<open>char list\<close>:
  lengths, indices and comparisons count bytes, as they do in Go.

  \<open>go_lower\<close> is Go's \<open>strings.ToLower\<close> on ASCII, on the Latin-1 letters in their UTF-8
  encoding, and on the two code points beyond ASCII whose lower case is ASCII; the case of any
  other letter is left alone. No package compares against a letter outside that set.
\<close>

section \<open>Collections of rewrite rules\<close>

named_theorems go_str \<open>evaluation of the string library\<close>
named_theorems go_inv \<open>preservation of the components' invariants\<close>

section \<open>Errors\<close>

text \<open>A fallible Go function returns a value or an error; the model returns a sum.\<close>

definition bind_err :: "'e + 'a \<Rightarrow> ('a \<Rightarrow> 'e + 'b) \<Rightarrow> 'e + 'b" where
  "bind_err r f = (case r of Inl e \<Rightarrow> Inl e | Inr x \<Rightarrow> f x)"

lemma bind_err_simps [simp]:
  "bind_err (Inl e) f = Inl e"
  "bind_err (Inr x) f = f x"
  by (simp_all add: bind_err_def)

lemma bind_err_Inr_iff: "bind_err r f = Inr y \<longleftrightarrow> (\<exists>x. r = Inr x \<and> f x = Inr y)"
  by (cases r) auto

lemma bind_err_InrE [elim]:
  assumes "bind_err r f = Inr y"
  obtains x where "r = Inr x" and "f x = Inr y"
  using assms by (auto simp: bind_err_Inr_iff)

lemma bind_err_cong [fundef_cong]:
  assumes "r = r'" and "\<And>x. r' = Inr x \<Longrightarrow> f x = g x"
  shows "bind_err r f = bind_err r' g"
  using assms by (cases r') auto

section \<open>Byte strings\<close>

abbreviation byte :: "char \<Rightarrow> nat" where
  "byte c \<equiv> of_char c"

definition has_prefix :: "string \<Rightarrow> string \<Rightarrow> bool" where
  "has_prefix s p \<longleftrightarrow> take (length p) s = p"

definition trim_prefix :: "string \<Rightarrow> string \<Rightarrow> string" where
  "trim_prefix s p = (if has_prefix s p then drop (length p) s else s)"

definition has_suffix :: "string \<Rightarrow> string \<Rightarrow> bool" where
  "has_suffix s x \<longleftrightarrow> length x \<le> length s \<and> drop (length s - length x) s = x"

definition trim_suffix :: "string \<Rightarrow> string \<Rightarrow> string" where
  "trim_suffix s x = (if has_suffix s x then take (length s - length x) s else s)"

fun contains :: "string \<Rightarrow> string \<Rightarrow> bool" where
  "contains [] w = (w = [])"
| "contains (c # cs) w = (has_prefix (c # cs) w \<or> contains cs w)"

definition contains_any :: "string \<Rightarrow> string \<Rightarrow> bool" where
  "contains_any s chars = list_ex (\<lambda>c. c \<in> set chars) s"

text \<open>\<open>strings.Cut\<close> with a one-byte separator: the part before, the part after, and whether
  the separator was there.\<close>

fun cut :: "char \<Rightarrow> string \<Rightarrow> string \<times> string \<times> bool" where
  "cut c [] = ([], [], False)"
| "cut c (d # ds) =
     (if c = d then ([], ds, True)
      else (let (a, b, f) = cut c ds in (d # a, b, f)))"

text \<open>\<open>strings.Split\<close> for a non-empty separator.\<close>

function split_at :: "string \<Rightarrow> string \<Rightarrow> string \<Rightarrow> string list" where
  "split_at sep acc [] = [rev acc]"
| "split_at sep acc (c # cs) =
     (if sep \<noteq> [] \<and> has_prefix (c # cs) sep
      then rev acc # split_at sep [] (drop (length sep) (c # cs))
      else split_at sep (c # acc) cs)"
  by pat_completeness auto
termination
  by (relation "measure (\<lambda>(sep, acc, s). length s)") (auto simp: neq_Nil_conv)

definition split_str :: "string \<Rightarrow> string \<Rightarrow> string list" where
  "split_str s sep = split_at sep [] s"

fun join_str :: "string list \<Rightarrow> string \<Rightarrow> string" where
  "join_str [] sep = []"
| "join_str [x] sep = x"
| "join_str (x # y # ys) sep = x @ sep @ join_str (y # ys) sep"

text \<open>The number of bytes of the white-space rune a string starts with, 0 if it starts with
  none: \<open>unicode.IsSpace\<close> over the UTF-8 encoding. A lead byte is never a continuation
  byte, so matching bytes is matching runes.\<close>

fun space_len :: "string \<Rightarrow> nat" where
  "space_len [] = 0"
| "space_len (a # r) =
     (let n = byte a in
      if n = 32 \<or> (9 \<le> n \<and> n \<le> 13) then 1
      else case r of [] \<Rightarrow> 0 | b # r' \<Rightarrow>
        (let m = byte b in
         if n = 0xC2 \<and> (m = 0x85 \<or> m = 0xA0) then 2
         else case r' of [] \<Rightarrow> 0 | c # _ \<Rightarrow>
           (let k = byte c in
            if (n = 0xE1 \<and> m = 0x9A \<and> k = 0x80) \<or>
               (n = 0xE2 \<and> m = 0x80 \<and> (0x80 \<le> k \<and> k \<le> 0x8A \<or> k = 0xA8 \<or> k = 0xA9 \<or> k = 0xAF)) \<or>
               (n = 0xE2 \<and> m = 0x81 \<and> k = 0x9F) \<or>
               (n = 0xE3 \<and> m = 0x80 \<and> k = 0x80) then 3 else 0)))"

text \<open>\<open>strings.Fields\<close>: the maximal runs without white space.\<close>

function fields_at :: "string \<Rightarrow> string \<Rightarrow> string list" where
  "fields_at acc [] = (if acc = [] then [] else [rev acc])"
| "fields_at acc (c # cs) =
     (if space_len (c # cs) = 0 then fields_at (c # acc) cs
      else (if acc = [] then [] else [rev acc]) @ fields_at [] (drop (space_len (c # cs)) (c # cs)))"
  by pat_completeness auto
termination
  by (relation "measure (\<lambda>(acc, s). length s)") (auto simp: Let_def split: list.splits if_splits)

definition fields_str :: "string \<Rightarrow> string list" where
  "fields_str s = fields_at [] s"

section \<open>Letter case\<close>

definition lower_byte :: "char \<Rightarrow> char" where
  "lower_byte c = (if 65 \<le> byte c \<and> byte c \<le> 90 then char_of (byte c + 32) else c)"

definition upper_byte :: "char \<Rightarrow> char" where
  "upper_byte c = (if 97 \<le> byte c \<and> byte c \<le> 122 then char_of (byte c - 32) else c)"

fun go_lower :: "string \<Rightarrow> string" where
  "go_lower [] = []"
| "go_lower [a] = [lower_byte a]"
| "go_lower [a, b] =
     (if byte a = 0xC3 \<and> 0x80 \<le> byte b \<and> byte b \<le> 0x9E \<and> byte b \<noteq> 0x97
      then [a, char_of (byte b + 32)]
      else if byte a = 0xC4 \<and> byte b = 0xB0 then ''i''
      else lower_byte a # go_lower [b])"
| "go_lower (a # b # c # r) =
     (if byte a = 0xC3 \<and> 0x80 \<le> byte b \<and> byte b \<le> 0x9E \<and> byte b \<noteq> 0x97
      then a # char_of (byte b + 32) # go_lower (c # r)
      else if byte a = 0xC4 \<and> byte b = 0xB0 then CHR ''i'' # go_lower (c # r)
      else if byte a = 0xE2 \<and> byte b = 0x84 \<and> byte c = 0xAA then CHR ''k'' # go_lower r
      else lower_byte a # go_lower (b # c # r))"

definition ascii :: "string \<Rightarrow> bool" where
  "ascii s = list_all (\<lambda>c. byte c < 128) s"

text \<open>\<open>strings.EqualFold\<close> on ASCII operands, the only ones the modelled packages fold against.
  \<open>strings.ToUpper\<close> as far as a comparison with an ASCII word goes: the two non-ASCII runes whose
  upper case is ASCII (dotless i, long s) are mapped, the other non-ASCII bytes are kept.\<close>

definition equal_fold :: "string \<Rightarrow> string \<Rightarrow> bool" where
  "equal_fold a b \<longleftrightarrow> map lower_byte a = map lower_byte b"

fun go_upper :: "string \<Rightarrow> string" where
  "go_upper [] = []"
| "go_upper [a] = [upper_byte a]"
| "go_upper (a # b # r) =
     (if byte a = 0xC4 \<and> byte b = 0xB1 then CHR ''I'' # go_upper r
      else if byte a = 0xC5 \<and> byte b = 0xBF then CHR ''S'' # go_upper r
      else upper_byte a # go_upper (b # r))"

text \<open>\<open>strings.TrimSpace\<close>.\<close>

function trim_space_left :: "string \<Rightarrow> string" where
  "trim_space_left s = (if space_len s = 0 then s else trim_space_left (drop (space_len s) s))"
  by auto
termination
proof (relation "measure length")
  fix s :: string assume "space_len s \<noteq> 0"
  then show "(drop (space_len s) s, s) \<in> measure length" by (cases s) auto
qed simp

declare trim_space_left.simps [simp del]

definition space_tail :: "string \<Rightarrow> nat" where
  "space_tail s =
     (case find (\<lambda>k. k \<le> length s \<and> space_len (drop (length s - k) s) = k) [1, 2, 3] of
        Some k \<Rightarrow> k | None \<Rightarrow> 0)"

function trim_space_right :: "string \<Rightarrow> string" where
  "trim_space_right s = (if space_tail s = 0 then s else trim_space_right (take (length s - space_tail s) s))"
  by auto
termination
proof (relation "measure length")
  fix s :: string assume "space_tail s \<noteq> 0"
  then show "(take (length s - space_tail s) s, s) \<in> measure length"
    by (cases s) (auto simp: space_tail_def split: option.splits)
qed simp

declare trim_space_right.simps [simp del]

definition trim_space :: "string \<Rightarrow> string" where
  "trim_space s = trim_space_right (trim_space_left s)"

section \<open>Decimal numbers\<close>

definition is_digit :: "char \<Rightarrow> bool" where
  "is_digit c \<longleftrightarrow> 48 \<le> byte c \<and> byte c \<le> 57"

definition digit_char :: "nat \<Rightarrow> char" where
  "digit_char d = char_of (48 + d)"

fun show_nat :: "nat \<Rightarrow> string" where
  "show_nat n = (if n < 10 then [digit_char n] else show_nat (n div 10) @ [digit_char (n mod 10)])"

declare show_nat.simps [simp del]

definition dec_value :: "string \<Rightarrow> nat" where
  "dec_value s = foldl (\<lambda>acc c. 10 * acc + (byte c - 48)) 0 s"

text \<open>\<open>strconv.ParseUint(s, 10, bits)\<close>: digits only, at least one, in range.\<close>

definition parse_uint :: "nat \<Rightarrow> string \<Rightarrow> nat option" where
  "parse_uint bits s =
     (if s \<noteq> [] \<and> list_all is_digit s \<and> dec_value s < 2 ^ bits then Some (dec_value s) else None)"

text \<open>\<open>fmt.Sprintf("%0*d", w, n)\<close>.\<close>

definition pad_nat :: "nat \<Rightarrow> nat \<Rightarrow> string" where
  "pad_nat w n = replicate (w - length (show_nat n)) (CHR ''0'') @ show_nat n"

section \<open>64-bit integers and time\<close>

text \<open>
  Go's \<open>int64\<close> arithmetic wraps; \<open>wrap64\<close> is the two's complement reading of an
  integer. A \<open>time.Time\<close> is modelled by its distance in nanoseconds from Go's zero time
  (midnight UTC, 1 January of year 1), so that \<open>IsZero\<close> is equality with 0, and
  \<open>Time.Sub\<close> saturates at the ends of \<open>time.Duration\<close>.
\<close>

definition wrap64 :: "int \<Rightarrow> int" where
  "wrap64 x = (x + 2 ^ 63) mod 2 ^ 64 - 2 ^ 63"

definition max_int64 :: int where
  "max_int64 = 2 ^ 63 - 1"

definition min_int64 :: int where
  "min_int64 = - (2 ^ 63)"

definition int64 :: "int \<Rightarrow> bool" where
  "int64 x \<longleftrightarrow> min_int64 \<le> x \<and> x \<le> max_int64"

type_synonym go_time = int
type_synonym duration = int

definition time_sub :: "go_time \<Rightarrow> go_time \<Rightarrow> duration" where
  "time_sub t u = max min_int64 (min max_int64 (t - u))"

lemma wrap64_id: "int64 x \<Longrightarrow> wrap64 x = x"
  by (simp add: wrap64_def int64_def min_int64_def max_int64_def)

lemma int64_wrap64 [simp]: "int64 (wrap64 x)"
proof -
  have "0 \<le> (x + 2 ^ 63) mod 2 ^ 64" and "(x + 2 ^ 63) mod 2 ^ 64 < 2 ^ 64"
    by simp_all
  then show ?thesis by (simp add: wrap64_def int64_def min_int64_def max_int64_def)
qed

section \<open>Facts about the string library\<close>

lemma has_prefix_Nil [simp]: "has_prefix s []"
  by (simp add: has_prefix_def)

lemma has_prefix_append [simp]: "has_prefix (p @ s) p"
  by (simp add: has_prefix_def)

lemma has_prefix_iff: "has_prefix s p \<longleftrightarrow> (\<exists>t. s = p @ t)"
  by (auto simp: has_prefix_def) (metis append_take_drop_id)

lemma trim_prefix_append [simp]: "trim_prefix (p @ s) p = s"
  by (simp add: trim_prefix_def)

lemma has_suffix_iff: "has_suffix s x \<longleftrightarrow> (\<exists>t. s = t @ x)"
proof
  assume h: "has_suffix s x"
  have "s = take (length s - length x) s @ drop (length s - length x) s" by simp
  with h show "\<exists>t. s = t @ x" unfolding has_suffix_def by metis
next
  assume "\<exists>t. s = t @ x"
  then show "has_suffix s x" by (auto simp: has_suffix_def)
qed

lemma trim_suffix_append [simp]: "trim_suffix (s @ x) x = s"
  by (simp add: trim_suffix_def has_suffix_def)

lemma contains_iff: "contains s w \<longleftrightarrow> (\<exists>a b. s = a @ w @ b)"
proof (induction s)
  case Nil
  then show ?case by auto
next
  case (Cons c cs)
  show ?case
  proof
    assume "contains (c # cs) w"
    then consider "has_prefix (c # cs) w" | "contains cs w" by auto
    then show "\<exists>a b. c # cs = a @ w @ b"
    proof cases
      case 1
      then show ?thesis by (metis has_prefix_iff append_Nil)
    next
      case 2
      with Cons.IH show ?thesis by (metis append_Cons)
    qed
  next
    assume "\<exists>a b. c # cs = a @ w @ b"
    then obtain a b where e: "c # cs = a @ w @ b" by blast
    show "contains (c # cs) w"
    proof (cases a)
      case Nil
      with e have "has_prefix (c # cs) w" by (simp add: has_prefix_iff)
      then show ?thesis by simp
    next
      case (Cons d ds)
      with e have "cs = ds @ w @ b" by simp
      with Cons.IH show ?thesis by auto
    qed
  qed
qed

lemma contains_char: "contains s [c] \<longleftrightarrow> c \<in> set s"
  by (auto simp: contains_iff in_set_conv_decomp)

lemma cut_found: "c \<in> set s \<Longrightarrow> cut c s = (a, b, f) \<Longrightarrow> f \<and> s = a @ c # b \<and> c \<notin> set a"
  by (induction s arbitrary: a b f) (auto split: if_splits prod.splits)

lemma cut_missing: "c \<notin> set s \<Longrightarrow> cut c s = (s, [], False)"
  by (induction s) auto

lemma cut_append: "c \<notin> set a \<Longrightarrow> cut c (a @ c # b) = (a, b, True)"
  by (induction a) auto

subsection \<open>Splitting and joining\<close>

declare split_at.simps(2) [simp del]

lemma split_at_not_Nil [simp]: "split_at sep acc s \<noteq> []"
  by (induction sep acc s rule: split_at.induct) (auto simp: split_at.simps(2))

lemma split_str_not_Nil [simp]: "split_str s sep \<noteq> []"
  by (simp add: split_str_def)

lemma join_Cons: "xs \<noteq> [] \<Longrightarrow> join_str (x # xs) sep = x @ sep @ join_str xs sep"
  by (cases xs) auto

lemma join_split_at: "sep \<noteq> [] \<Longrightarrow> join_str (split_at sep acc s) sep = rev acc @ s"
proof (induction sep acc s rule: split_at.induct)
  case (1 sep acc)
  then show ?case by simp
next
  case (2 sep acc c cs)
  show ?case
  proof (cases "has_prefix (c # cs) sep")
    case True
    then obtain t where t: "c # cs = sep @ t" by (auto simp: has_prefix_iff)
    have d: "drop (length sep) (c # cs) = t" by (simp only: t) simp
    have "join_str (split_at sep [] t) sep = t"
      using "2.IH"(1) "2.prems" True d by simp
    moreover have "split_at sep acc (c # cs) = rev acc # split_at sep [] t"
      using True "2.prems" d by (simp add: split_at.simps(2))
    ultimately show ?thesis using t by (simp add: join_Cons)
  next
    case False
    then show ?thesis using "2.IH"(2) "2.prems" by (simp add: split_at.simps(2))
  qed
qed

lemma join_split [simp]: "sep \<noteq> [] \<Longrightarrow> join_str (split_str s sep) sep = s"
  by (simp add: split_str_def join_split_at)

lemma split_at_free:
  "d \<notin> set p \<Longrightarrow> split_at [d] acc (p @ s) = split_at [d] (rev p @ acc) s"
  by (induction p arbitrary: acc) (auto simp: split_at.simps(2) has_prefix_def)

lemma split_at_sep: "split_at [d] acc (d # s) = rev acc # split_at [d] [] s"
  by (simp add: split_at.simps(2) has_prefix_def)

lemma split_join:
  assumes "ps \<noteq> []" and "\<forall>p \<in> set ps. d \<notin> set p"
  shows "split_str (join_str ps [d]) [d] = ps"
  using assms
proof (induction ps)
  case Nil
  then show ?case by simp
next
  case (Cons p ps)
  show ?case
  proof (cases "ps = []")
    case True
    with Cons.prems show ?thesis
      using split_at_free [of d p "[]" "[]"] by (simp add: split_str_def)
  next
    case False
    with Cons show ?thesis
      by (simp add: split_str_def join_Cons split_at_free split_at_sep)
  qed
qed

lemma split_at_parts_free: "d \<notin> set acc \<Longrightarrow> p \<in> set (split_at [d] acc s) \<Longrightarrow> d \<notin> set p"
proof (induction s arbitrary: acc p)
  case Nil
  then show ?case by simp
next
  case (Cons c cs)
  show ?case
  proof (cases "c = d")
    case True
    with Cons.prems(2) have "p = rev acc \<or> p \<in> set (split_at [d] [] cs)"
      by (simp add: split_at_sep)
    with Cons.IH [of "[]" p] Cons.prems(1) show ?thesis by auto
  next
    case False
    with Cons.prems(2) have "p \<in> set (split_at [d] (c # acc) cs)"
      by (simp add: split_at.simps(2) has_prefix_def)
    with Cons.IH [of "c # acc" p] Cons.prems(1) False show ?thesis by simp
  qed
qed

lemma split_parts_free: "p \<in> set (split_str s [d]) \<Longrightarrow> d \<notin> set p"
  using split_at_parts_free [of d "[]" p s] by (simp add: split_str_def)

subsection \<open>Decimal numbers\<close>

lemma is_digit_digit_char [simp]: "d < 10 \<Longrightarrow> is_digit (digit_char d)"
  by (simp add: is_digit_def digit_char_def)

lemma byte_digit_char [simp]: "d < 10 \<Longrightarrow> byte (digit_char d) = 48 + d"
  by (simp add: digit_char_def)

lemma dec_value_Nil [simp]: "dec_value [] = 0"
  by (simp add: dec_value_def)

lemma dec_value_snoc: "dec_value (s @ [c]) = 10 * dec_value s + (byte c - 48)"
  by (simp add: dec_value_def)

lemma show_nat_digits: "list_all is_digit (show_nat n)"
proof (induction n rule: show_nat.induct)
  case (1 n)
  then show ?case
    by (cases "n < 10") (simp_all add: show_nat.simps [of n])
qed

lemma show_nat_not_Nil [simp]: "show_nat n \<noteq> []"
  by (subst show_nat.simps) simp

lemma dec_value_show_nat [simp]: "dec_value (show_nat n) = n"
proof (induction n rule: show_nat.induct)
  case (1 n)
  show ?case
  proof (cases "n < 10")
    case True
    then show ?thesis
      using dec_value_snoc [of "[]" "digit_char n"] by (simp add: show_nat.simps [of n])
  next
    case False
    with 1 show ?thesis by (simp add: show_nat.simps [of n] dec_value_snoc)
  qed
qed

lemma dec_value_zeros: "dec_value (replicate k (CHR ''0'') @ s) = dec_value s"
  by (induction k) (simp_all add: dec_value_def)

lemma dec_value_pad [simp]: "dec_value (pad_nat w n) = n"
  by (simp add: pad_nat_def dec_value_zeros)

lemma pad_nat_digits [simp]: "list_all is_digit (pad_nat w n)"
  by (auto simp: pad_nat_def list_all_iff is_digit_def show_nat_digits [unfolded list_all_iff is_digit_def])

lemma pad_nat_not_Nil [simp]: "pad_nat w n \<noteq> []"
  by (simp add: pad_nat_def)

lemma show_nat_length: "0 < k \<Longrightarrow> n < 10 ^ k \<Longrightarrow> length (show_nat n) \<le> k"
proof (induction k arbitrary: n)
  case 0
  then show ?case by simp
next
  case (Suc k)
  show ?case
  proof (cases "n < 10")
    case True
    then show ?thesis by (simp add: show_nat.simps [of n])
  next
    case False
    with Suc.prems have "0 < k" by (cases k) auto
    moreover have "n div 10 < 10 ^ k"
      using Suc.prems by (simp add: less_mult_imp_div_less mult.commute)
    ultimately have "length (show_nat (n div 10)) \<le> k" by (rule Suc.IH)
    with False show ?thesis by (simp add: show_nat.simps [of n])
  qed
qed

lemma pad_nat_length: "0 < w \<Longrightarrow> n < 10 ^ w \<Longrightarrow> length (pad_nat w n) = w"
  using show_nat_length [of w n] by (simp add: pad_nat_def)

lemma parse_uint_show: "n < 2 ^ bits \<Longrightarrow> parse_uint bits (show_nat n) = Some n"
  by (simp add: parse_uint_def show_nat_digits)

lemma parse_uint_pad: "n < 2 ^ bits \<Longrightarrow> parse_uint bits (pad_nat w n) = Some n"
  by (simp add: parse_uint_def)

lemma parse_uint_bound: "parse_uint bits s = Some n \<Longrightarrow> n < 2 ^ bits"
  by (auto simp: parse_uint_def split: if_splits)

end
