(* ===== verification/GoErrors.thy ===== *)
theory GoErrors
  imports Prelude
begin

text \<open>
  Go error values as the packages of the repository inspect them: with \<open>errors.Is\<close> against
  the sentinels they name and with \<open>errors.As\<close> for \<open>*imap.Error\<close>, \<open>net.Error\<close> and
  \<open>*net.DNSError\<close>. An error is a tree, because \<open>fmt.Errorf\<close> with several \<open>%w\<close> verbs and
  \<open>errors.Join\<close> wrap more than one error; both functions search it depth first, left to
  right.
\<close>

section \<open>Error values\<close>

datatype sentinel =
    Canceled | DeadlineExceeded                      \<comment> \<open>context\<close>
  | ErrMessageGone | ErrConnectionBroken | ErrAtCapacity   \<comment> \<open>internal/imapx\<close>
  | ErrPoolClosed                                    \<comment> \<open>internal/pool\<close>
  | ErrNotRecorded                                   \<comment> \<open>internal/state\<close>
  | ErrRenumbered                                    \<comment> \<open>internal/syncer\<close>
  | ErrUnexpectedEOF | ErrEOF                        \<comment> \<open>io\<close>
  | ECONNRESET | ECONNABORTED | EPIPE | ETIMEDOUT | ECONNREFUSED | EHOSTUNREACH  \<comment> \<open>syscall\<close>

text \<open>The response codes of a status response, by go-imap's constants.\<close>

datatype resp_code =
    NoCode
  | AuthenticationFailed | AuthorizationFailed | PrivacyRequired | Expired
  | Limit | InUse | TooMany | Unavailable | ContactAdmin
  | OverQuota
  | TooBig | NonExistent | NoPerm | Cannot | AlreadyExists | TryCreate | Corruption
  | ServerBug | ClientBug | Parse
  | OtherCode string

datatype status_type = StatusNo | StatusBad | StatusBye | StatusOther

record imap_status =
  st_type :: status_type
  st_code :: resp_code
  st_text :: string

datatype go_error =
    Sentinel sentinel
  | StatusErr imap_status                \<comment> \<open>\<open>*imap.Error\<close>\<close>
  | DnsErr bool bool                     \<comment> \<open>\<open>*net.DNSError\<close>: IsNotFound, Timeout()\<close>
  | NetErr bool "go_error list"          \<comment> \<open>any other \<open>net.Error\<close>: Timeout(), what it unwraps to\<close>
  | WrapErr "go_error list"              \<comment> \<open>\<open>%w\<close> and \<open>errors.Join\<close>\<close>
  | PlainErr string

primrec err_is :: "go_error \<Rightarrow> sentinel \<Rightarrow> bool" where
  "err_is (Sentinel x) s = (x = s)"
| "err_is (StatusErr _) s = False"
| "err_is (DnsErr _ _) s = False"
| "err_is (NetErr _ es) s = list_ex (\<lambda>b. b) (map (\<lambda>e. err_is e s) es)"
| "err_is (WrapErr es) s = list_ex (\<lambda>b. b) (map (\<lambda>e. err_is e s) es)"
| "err_is (PlainErr _) s = False"

fun first_some :: "'a option list \<Rightarrow> 'a option" where
  "first_some [] = None"
| "first_some (None # xs) = first_some xs"
| "first_some (Some x # xs) = Some x"

text \<open>\<open>errors.As\<close> for \<open>*imap.Error\<close>.\<close>

primrec as_status :: "go_error \<Rightarrow> imap_status option" where
  "as_status (Sentinel _) = None"
| "as_status (StatusErr s) = Some s"
| "as_status (DnsErr _ _) = None"
| "as_status (NetErr _ es) = first_some (map as_status es)"
| "as_status (WrapErr es) = first_some (map as_status es)"
| "as_status (PlainErr _) = None"

text \<open>\<open>errors.As\<close> for \<open>net.Error\<close>, giving its \<open>Timeout()\<close>. The context's deadline error and
  the \<open>syscall\<close> errors are themselves a \<open>net.Error\<close>.\<close>

definition sentinel_timeout :: "sentinel \<Rightarrow> bool option" where
  "sentinel_timeout s =
     (if s \<in> {DeadlineExceeded, ETIMEDOUT} then Some True
      else if s \<in> {ECONNRESET, ECONNABORTED, EPIPE, ECONNREFUSED, EHOSTUNREACH} then Some False
      else None)"

primrec as_net :: "go_error \<Rightarrow> bool option" where
  "as_net (Sentinel s) = sentinel_timeout s"
| "as_net (StatusErr _) = None"
| "as_net (DnsErr _ t) = Some t"
| "as_net (NetErr t _) = Some t"
| "as_net (WrapErr es) = first_some (map as_net es)"
| "as_net (PlainErr _) = None"

text \<open>\<open>errors.As\<close> for \<open>*net.DNSError\<close>, giving its \<open>IsNotFound\<close>.\<close>

primrec as_dns :: "go_error \<Rightarrow> bool option" where
  "as_dns (Sentinel _) = None"
| "as_dns (StatusErr _) = None"
| "as_dns (DnsErr nf _) = Some nf"
| "as_dns (NetErr _ es) = first_some (map as_dns es)"
| "as_dns (WrapErr es) = first_some (map as_dns es)"
| "as_dns (PlainErr _) = None"

definition is_context_err :: "go_error \<Rightarrow> bool" where
  "is_context_err e \<longleftrightarrow> err_is e Canceled \<or> err_is e DeadlineExceeded"

section \<open>Searching a tree\<close>

lemma err_is_Wrap [simp]: "err_is (WrapErr es) s \<longleftrightarrow> (\<exists>e \<in> set es. err_is e s)"
  by (auto simp: list_ex_iff)

lemma err_is_Net [simp]: "err_is (NetErr t es) s \<longleftrightarrow> (\<exists>e \<in> set es. err_is e s)"
  by (auto simp: list_ex_iff)

declare err_is.simps(4,5) [simp del]

lemma is_context_err_Wrap: "is_context_err (WrapErr es) \<longleftrightarrow> (\<exists>e \<in> set es. is_context_err e)"
  by (auto simp: is_context_err_def)

lemma first_some_None: "first_some xs = None \<longleftrightarrow> (\<forall>x \<in> set xs. x = None)"
  by (induction xs rule: first_some.induct) auto

lemma first_some_mem: "first_some xs = Some y \<Longrightarrow> Some y \<in> set xs"
  by (induction xs rule: first_some.induct) auto

end
