(* ===== verification/Retry.thy ===== *)
theory Retry
  imports GoErrors
begin

text \<open>
  internal/retry: what to do about a failure (\<open>Classify\<close> and its helpers) and how long to
  pause before another attempt (\<open>Policy.Wait\<close>). Durations are nanoseconds in an
  \<open>int64\<close>; the shift that doubles the pause wraps, as it does in Go.
\<close>

section \<open>Classification\<close>

datatype kind = Stop | Skip | Again | Slower

definition throttle_words :: "string list" where
  "throttle_words =
     [''too many simultaneous'', ''too many connections'', ''maximum number of connections'',
      ''try again later'', ''try later'', ''temporarily unavailable'', ''server busy'',
      ''rate limit'', ''throttl'', ''exceeded the limit'']"

definition classify_text :: "string \<Rightarrow> kind option" where
  "classify_text text =
     (let lower = go_lower text
      in if list_ex (\<lambda>w. contains lower w) throttle_words then Some Slower else None)"

fun classify_code :: "resp_code \<Rightarrow> kind option" where
  "classify_code AuthenticationFailed = Some Stop"
| "classify_code AuthorizationFailed = Some Stop"
| "classify_code PrivacyRequired = Some Stop"
| "classify_code Expired = Some Stop"
| "classify_code Limit = Some Slower"
| "classify_code InUse = Some Slower"
| "classify_code TooMany = Some Slower"
| "classify_code Unavailable = Some Slower"
| "classify_code ContactAdmin = Some Slower"
| "classify_code OverQuota = Some Skip"
| "classify_code TooBig = Some Skip"
| "classify_code NonExistent = Some Skip"
| "classify_code NoPerm = Some Skip"
| "classify_code Cannot = Some Skip"
| "classify_code AlreadyExists = Some Skip"
| "classify_code TryCreate = Some Skip"
| "classify_code Corruption = Some Skip"
| "classify_code ServerBug = Some Skip"
| "classify_code ClientBug = Some Skip"
| "classify_code Parse = Some Skip"
| "classify_code NoCode = None"
| "classify_code (OtherCode _) = None"

definition classify_status :: "go_error \<Rightarrow> kind option" where
  "classify_status err =
     (case as_status err of
        None \<Rightarrow> None
      | Some status \<Rightarrow>
          (case classify_code (st_code status) of
             Some k \<Rightarrow> Some k
           | None \<Rightarrow>
               if st_type status = StatusBad then Some Skip
               else (case classify_text (st_text status) of
                       Some k \<Rightarrow> Some k
                     | None \<Rightarrow> Some Skip)))"

definition classify_network :: "go_error \<Rightarrow> kind option" where
  "classify_network err =
     (if err_is err ErrUnexpectedEOF \<or> err_is err ErrEOF then Some Again
      else if err_is err ECONNRESET \<or> err_is err ECONNABORTED \<or> err_is err EPIPE \<or> err_is err ETIMEDOUT
      then Some Again
      else if err_is err ECONNREFUSED \<or> err_is err EHOSTUNREACH then Some Slower
      else if as_net err = Some True then Some Again
      else (case as_dns err of
              Some not_found \<Rightarrow> if not_found then Some Stop else Some Slower
            | None \<Rightarrow> None))"

definition classify :: "go_error option \<Rightarrow> kind" where
  "classify e =
     (case e of
        None \<Rightarrow> Skip
      | Some err \<Rightarrow>
          if err_is err Canceled \<or> err_is err DeadlineExceeded then Stop
          else if err_is err ErrMessageGone then Skip
          else if err_is err ErrConnectionBroken then Again
          else if err_is err ErrAtCapacity then Slower
          else (case classify_status err of
                  Some k \<Rightarrow> k
                | None \<Rightarrow> (case classify_network err of Some k \<Rightarrow> k | None \<Rightarrow> Skip)))"

section \<open>Pauses\<close>

record policy =
  attempts :: int
  base :: duration
  slow :: duration
  max_wait :: duration

definition default_policy :: policy where
  "default_policy =
     \<lparr>attempts = 4, base = 500 * 10 ^ 6, slow = 5 * 10 ^ 9, max_wait = 60 * 10 ^ 9\<rparr>"

text \<open>The greatest pause before attempt \<open>n\<close>: \<open>base << min(attempt, 20)\<close> in 64 bits, and
  \<open>Max\<close> where that is larger than \<open>Max\<close> or has overflowed into a non-positive number.\<close>

definition wait_ceiling :: "policy \<Rightarrow> kind \<Rightarrow> nat \<Rightarrow> duration" where
  "wait_ceiling p k attempt =
     (let b = (if k = Slower then slow p else base p);
          ceiling = wrap64 (b * 2 ^ min attempt 20)
      in if ceiling > max_wait p \<or> ceiling \<le> 0 then max_wait p else ceiling)"

text \<open>
  The pause itself. \<open>jitter n\<close> stands for \<open>rand.N(n)\<close>, a number in the half-open interval
  from 0 to \<open>n\<close>; \<open>rand.N\<close> panics when \<open>n\<close> is not positive (\<open>None\<close>). \<open>ended\<close> is the error of
  the context if it ended before the timer, which is what \<open>Wait\<close> then returns; otherwise it
  returns the length of the pause it made.
\<close>

definition wait :: "(int \<Rightarrow> int) \<Rightarrow> policy \<Rightarrow> go_error option \<Rightarrow> kind \<Rightarrow> nat \<Rightarrow> (go_error + duration) option" where
  "wait jitter p ended k attempt =
     (let n = wrap64 (wait_ceiling p k attempt + 1)
      in if n \<le> 0 then None
         else Some (case ended of Some e \<Rightarrow> Inl e | None \<Rightarrow> Inr (jitter n)))"

section \<open>What classification rests on\<close>

text \<open>The marks that make a failure transient: without one of them \<open>Classify\<close> never answers
  with another attempt.\<close>

definition transient_mark :: "go_error \<Rightarrow> bool" where
  "transient_mark err \<longleftrightarrow>
     (\<exists>s \<in> {ErrConnectionBroken, ErrAtCapacity, ErrUnexpectedEOF, ErrEOF, ECONNRESET, ECONNABORTED,
            EPIPE, ETIMEDOUT, ECONNREFUSED, EHOSTUNREACH}. err_is err s)
     \<or> (\<exists>st. as_status err = Some st \<and>
            (st_code st \<in> {Limit, InUse, TooMany, Unavailable, ContactAdmin}
             \<or> (classify_code (st_code st) = None \<and> st_type st \<noteq> StatusBad
                 \<and> (\<exists>w \<in> set throttle_words. contains (go_lower (st_text st)) w))))
     \<or> as_net err = Some True \<or> as_dns err = Some False"

lemma classify_code_Slower:
  "classify_code c = Some Slower \<longleftrightarrow> c \<in> {Limit, InUse, TooMany, Unavailable, ContactAdmin}"
  by (cases c) auto

lemma classify_code_not_Again: "classify_code c \<noteq> Some Again"
  by (cases c) auto

lemma classify_text_Slower:
  "classify_text t = Some k \<longleftrightarrow> k = Slower \<and> (\<exists>w \<in> set throttle_words. contains (go_lower t) w)"
  by (auto simp: classify_text_def Let_def list_ex_iff)

lemma classify_status_transient:
  assumes "classify_status err = Some k" and "k \<in> {Again, Slower}"
  shows "\<exists>st. as_status err = Some st \<and>
            (st_code st \<in> {Limit, InUse, TooMany, Unavailable, ContactAdmin}
             \<or> (classify_code (st_code st) = None \<and> st_type st \<noteq> StatusBad
                 \<and> (\<exists>w \<in> set throttle_words. contains (go_lower (st_text st)) w)))"
proof -
  from assms(1) obtain st where st: "as_status err = Some st"
    by (auto simp: classify_status_def split: option.splits)
  show ?thesis
  proof (cases "classify_code (st_code st)")
    case (Some k')
    with assms st have "classify_code (st_code st) = Some Slower"
      by (auto simp: classify_status_def classify_code_not_Again)
    with st show ?thesis by (auto simp: classify_code_Slower)
  next
    case None
    with assms st have "st_type st \<noteq> StatusBad" and "classify_text (st_text st) = Some k"
      by (auto simp: classify_status_def split: if_splits option.splits)
    with st None show ?thesis by (auto simp: classify_text_Slower)
  qed
qed

lemma classify_network_transient:
  assumes "classify_network err = Some k" and "k \<in> {Again, Slower}"
  shows "transient_mark err"
  using assms by (auto simp: classify_network_def transient_mark_def split: if_splits option.splits)

lemma wait_ceiling_exact:
  assumes "0 < b" and "b = (if k = Slower then slow p else base p)" and "b * 2 ^ min n 20 \<le> max_int64"
  shows "wait_ceiling p k n = min (b * 2 ^ min n 20) (max_wait p)"
proof -
  have pos: "0 < b * 2 ^ min n 20" using assms(1) by simp
  have "wrap64 (b * 2 ^ min n 20) = b * 2 ^ min n 20"
    using assms(3) pos by (intro wrap64_id) (simp add: int64_def min_int64_def)
  with pos show ?thesis by (simp add: wait_ceiling_def assms(2) [symmetric] Let_def min_def)
qed

section \<open>Properties\<close>

text \<open>
  Classify answers with another attempt, prompt or delayed, only when the failure carries
  evidence that one could succeed (a transient mark), and never for a cancelled or expired
  context or a message the server no longer has, whatever else the error wraps.
\<close>

theorem retry_needs_evidence:
  assumes "classify (Some err) \<in> {Again, Slower}"
  shows "transient_mark err \<and> \<not> is_context_err err \<and> \<not> err_is err ErrMessageGone"
proof -
  have nc: "\<not> is_context_err err \<and> \<not> err_is err ErrMessageGone"
    using assms by (auto simp: classify_def is_context_err_def split: if_splits)
  have "transient_mark err"
  proof (cases "err_is err ErrConnectionBroken \<or> err_is err ErrAtCapacity")
    case True
    then show ?thesis by (auto simp: transient_mark_def)
  next
    case False
    with assms nc obtain k where k: "k \<in> {Again, Slower}"
      and c: "classify_status err = Some k \<or> (classify_status err = None \<and> classify_network err = Some k)"
      by (auto simp: classify_def is_context_err_def split: option.splits)
    from c show ?thesis
    proof
      assume "classify_status err = Some k"
      from classify_status_transient [OF this k] show ?thesis
        by (simp add: transient_mark_def)
    qed (use classify_network_transient k in blast)
  qed
  with nc show ?thesis by blast
qed

theorem retry_needs_evidence_witness:
  "transient_mark (WrapErr [Sentinel ErrAtCapacity, StatusErr \<lparr>st_type = StatusNo, st_code = NoCode, st_text = ''busy''\<rparr>])
   \<and> \<not> err_is (WrapErr [Sentinel ErrAtCapacity, StatusErr \<lparr>st_type = StatusNo, st_code = NoCode, st_text = ''busy''\<rparr>]) ErrMessageGone"
proof -
  let ?e = "WrapErr [Sentinel ErrAtCapacity, StatusErr \<lparr>st_type = StatusNo, st_code = NoCode, st_text = ''busy''\<rparr>]"
  have "classify (Some ?e) \<in> {Again, Slower}" by (simp add: classify_def)
  from retry_needs_evidence [OF this] show ?thesis by blast
qed

text \<open>
  Under a policy whose greatest pause is positive and below the end of the 64-bit range, a
  pause never panics, and with a jitter source that keeps to its interval it lasts between zero
  and that greatest pause, for every kind of failure and every attempt number, also when the
  doubling overflows 64 bits.
\<close>

theorem wait_within_max:
  assumes "0 < max_wait p" and "max_wait p < max_int64"
    and "\<And>n. 0 < n \<Longrightarrow> 0 \<le> jitter n \<and> jitter n < n"
  shows "\<exists>r. wait jitter p None k attempt = Some (Inr r) \<and> 0 \<le> r \<and> r \<le> max_wait p"
proof -
  let ?c = "wait_ceiling p k attempt"
  have c: "0 < ?c" "?c \<le> max_wait p"
    using assms(1) by (auto simp: wait_ceiling_def Let_def)
  have w: "wrap64 (?c + 1) = ?c + 1"
    using c assms(2) by (intro wrap64_id) (simp add: int64_def min_int64_def max_int64_def)
  have "0 \<le> jitter (?c + 1) \<and> jitter (?c + 1) < ?c + 1" using assms(3) [of "?c + 1"] c by simp
  then show ?thesis using c w by (simp add: wait_def)
qed

theorem wait_within_max_witness:
  "\<exists>r. wait (\<lambda>n. n - 1) default_policy None Slower 63 = Some (Inr r) \<and> 0 \<le> r \<and> r \<le> 60 * 10 ^ 9"
proof -
  have "\<exists>r. wait (\<lambda>n. n - 1) default_policy None Slower 63 = Some (Inr r)
          \<and> 0 \<le> r \<and> r \<le> max_wait default_policy"
    by (rule wait_within_max) (simp_all add: default_policy_def max_int64_def)
  then show ?thesis by (simp add: default_policy_def)
qed

text \<open>
  The default policy's pauses follow the schedule its comment gives: they double from half a
  second, or from five seconds when the server asked for less load, and stop growing at a minute,
  for every attempt number, although the code caps the shift at twenty places.
\<close>

theorem default_schedule:
  "wait_ceiling default_policy k n =
     min ((if k = Slower then 5 * 10 ^ 9 else 500 * 10 ^ 6) * 2 ^ n) (60 * 10 ^ 9)"
proof -
  let ?b = "(if k = Slower then 5 * 10 ^ 9 else 500 * 10 ^ 6) :: int"
  have d: "slow default_policy = 5 * 10 ^ 9" "base default_policy = 500 * 10 ^ 6"
    "max_wait default_policy = 60 * 10 ^ 9"
    by (simp_all add: default_policy_def)
  have le: "(2::int) ^ min n 20 \<le> 2 ^ 20" by (rule power_increasing) auto
  have "?b * 2 ^ min n 20 \<le> (5 * 10 ^ 9) * 2 ^ 20"
    using le by (intro mult_mono) auto
  then have lim: "?b * 2 ^ min n 20 \<le> max_int64" by (simp add: max_int64_def)
  have "wait_ceiling default_policy k n = min (?b * 2 ^ min n 20) (60 * 10 ^ 9)"
    using wait_ceiling_exact [of ?b k default_policy n] lim d by auto
  also have "\<dots> = min (?b * 2 ^ n) (60 * 10 ^ 9)"
  proof (cases "n \<le> 20")
    case False
    then have "(2::int) ^ 20 \<le> 2 ^ n" by (intro power_increasing) auto
    then have "(60 * 10 ^ 9 :: int) \<le> ?b * 2 ^ n" by auto
    with False show ?thesis by (auto simp: min_def)
  qed (simp add: min_absorb1)
  finally show ?thesis .
qed

end
