(* ===== verification/Selection.thy ===== *)
theory Selection
  imports Prelude
begin

text \<open>
  internal/selection: the message-level filter of a run. Sizes and durations are \<open>int64\<close>
  values, modelled as integers; the two places that add one to such a value wrap as Go does.
\<close>

section \<open>The filter\<close>

datatype basis = BasisSent | BasisInternal

record filter_opts =
  max_size :: int
  min_size :: int
  max_age :: duration
  min_age :: duration
  age_basis :: basis

definition active :: "filter_opts \<Rightarrow> bool" where
  "active f \<longleftrightarrow> max_size f > 0 \<or> min_size f > 0 \<or> max_age f > 0 \<or> min_age f > 0"

text \<open>\<open>Validate\<close> returns an error (\<open>Some\<close> of the two bounds it names) or nil.\<close>

definition validate :: "filter_opts \<Rightarrow> (int \<times> int) option" where
  "validate f =
     (if max_size f > 0 \<and> min_size f > 0 \<and> wrap64 (min_size f + 1) \<ge> max_size f
      then Some (min_size f, max_size f) else None)"

definition basis_date :: "filter_opts \<Rightarrow> go_time \<Rightarrow> go_time \<Rightarrow> go_time" where
  "basis_date f sent internal =
     (if age_basis f = BasisInternal \<or> sent = 0 then internal else sent)"

definition needs_sent_date :: "filter_opts \<Rightarrow> bool" where
  "needs_sent_date f \<longleftrightarrow> age_basis f = BasisSent \<and> (max_age f > 0 \<or> min_age f > 0)"

definition wants_size :: "filter_opts \<Rightarrow> int \<Rightarrow> bool" where
  "wants_size f sz =
     (if max_size f > 0 \<and> sz \<ge> max_size f then False
      else if min_size f > 0 \<and> sz \<le> min_size f then False
      else True)"

definition wants_age :: "filter_opts \<Rightarrow> go_time \<Rightarrow> go_time \<Rightarrow> bool" where
  "wants_age f date now =
     (if max_age f = 0 \<and> min_age f = 0 then True
      else let age = time_sub now date in
        if min_age f = 0 then age \<le> max_age f
        else if max_age f = 0 then age \<ge> min_age f
        else if min_age f \<le> max_age f then age \<ge> min_age f \<and> age \<le> max_age f
        else age \<ge> min_age f \<or> age \<le> max_age f)"

definition wants :: "filter_opts \<Rightarrow> int \<Rightarrow> go_time \<Rightarrow> go_time \<Rightarrow> go_time \<Rightarrow> bool" where
  "wants f sz sent internal now \<longleftrightarrow>
     wants_size f sz \<and> wants_age f (basis_date f sent internal) now"

definition cap_size :: "filter_opts \<Rightarrow> int \<Rightarrow> filter_opts" where
  "cap_size f append_limit =
     (if append_limit \<le> 0 then f
      else if max_size f = 0 \<or> wrap64 (append_limit + 1) < max_size f
      then f\<lparr>max_size := wrap64 (append_limit + 1)\<rparr>
      else f)"

text \<open>A filter as the command line and \<open>CapSize\<close> produce it: no negative bound, all in 64 bits.\<close>

definition filter_ok :: "filter_opts \<Rightarrow> bool" where
  "filter_ok f \<longleftrightarrow> 0 \<le> max_size f \<and> max_size f \<le> max_int64 \<and> 0 \<le> min_size f \<and> min_size f < max_int64
     \<and> 0 \<le> max_age f \<and> max_age f \<le> max_int64 \<and> 0 \<le> min_age f \<and> min_age f \<le> max_int64"

section \<open>Lemmas\<close>

lemma wants_size_iff:
  "filter_ok f \<Longrightarrow> wants_size f n \<longleftrightarrow>
     (max_size f = 0 \<or> n < max_size f) \<and> (min_size f = 0 \<or> min_size f < n)"
  by (auto simp: wants_size_def filter_ok_def)

lemma wrap64_succ: "0 \<le> x \<Longrightarrow> x < max_int64 \<Longrightarrow> wrap64 (x + 1) = x + 1"
  by (intro wrap64_id) (simp add: int64_def min_int64_def max_int64_def)

lemma wants_age_off: "max_age f = 0 \<Longrightarrow> min_age f = 0 \<Longrightarrow> wants_age f d now"
  by (simp add: wants_age_def)

lemma filter_ok_cap:
  "filter_ok f \<Longrightarrow> limit < max_int64 \<Longrightarrow> filter_ok (cap_size f limit)"
  by (auto simp: cap_size_def filter_ok_def wrap64_succ)

section \<open>Properties\<close>

text \<open>
  Validate rejects exactly the filters whose size window is empty: with non-negative bounds
  in range, it returns an error if and only if no message size at all passes the size bounds.
\<close>

theorem validate_exact:
  assumes "filter_ok f"
  shows "validate f \<noteq> None \<longleftrightarrow> (\<nexists>n. wants_size f n)"
proof
  assume "validate f \<noteq> None"
  then have "max_size f > 0" "min_size f > 0" "min_size f + 1 \<ge> max_size f"
    using assms by (auto simp: validate_def filter_ok_def wrap64_succ split: if_splits)
  then show "\<nexists>n. wants_size f n" by (auto simp: wants_size_iff [OF assms])
next
  assume none: "\<nexists>n. wants_size f n"
  show "validate f \<noteq> None"
  proof (rule ccontr)
    assume "\<not> validate f \<noteq> None"
    then have "max_size f = 0 \<or> min_size f = 0 \<or> min_size f + 1 < max_size f"
      using assms by (auto simp: validate_def filter_ok_def wrap64_succ split: if_splits)
    then have "wants_size f (if max_size f = 0 \<or> min_size f \<noteq> 0 then min_size f + 1 else 0)"
      using assms by (auto simp: wants_size_iff filter_ok_def)
    with none show False by blast
  qed
qed

theorem validate_exact_witness:
  "\<not> (\<exists>n. wants_size \<lparr>max_size = 10, min_size = 9, max_age = 0, min_age = 0, age_basis = BasisSent\<rparr> n)"
proof -
  let ?f = "\<lparr>max_size = 10, min_size = 9, max_age = 0, min_age = 0, age_basis = BasisSent\<rparr>"
  have ok: "filter_ok ?f" by (simp add: filter_ok_def max_int64_def)
  have "validate ?f \<noteq> None" by (simp add: validate_def wrap64_def)
  with validate_exact [OF ok] show ?thesis by blast
qed

text \<open>
  Folding the destination's APPENDLIMIT into a filter does exactly what it says: the capped
  filter wants a message if and only if the original wants it and the message is no larger than
  the limit, whatever bounds the filter already had, and it changes no other part of the choice.
\<close>

theorem cap_size_exact:
  assumes "filter_ok f" and "0 < limit" and "limit < max_int64"
  shows "wants (cap_size f limit) sz sent internal now \<longleftrightarrow>
           wants f sz sent internal now \<and> sz \<le> limit"
proof -
  have w: "wrap64 (limit + 1) = limit + 1" using assms by (intro wrap64_succ) auto
  have "wants_size (cap_size f limit) sz \<longleftrightarrow> wants_size f sz \<and> sz \<le> limit"
    using assms unfolding wants_size_iff [OF filter_ok_cap [OF assms(1,3)]] wants_size_iff [OF assms(1)]
    by (auto simp: cap_size_def w filter_ok_def)
  moreover have "wants_age (cap_size f limit) d now = wants_age f d now" for d
    by (auto simp: cap_size_def wants_age_def Let_def)
  moreover have "basis_date (cap_size f limit) sent internal = basis_date f sent internal"
    by (simp add: cap_size_def basis_date_def)
  ultimately show ?thesis by (auto simp: wants_def)
qed

theorem cap_size_exact_witness:
  "wants (cap_size \<lparr>max_size = 0, min_size = 0, max_age = 0, min_age = 0, age_basis = BasisSent\<rparr> 1000) 1000 0 0 5
   \<and> \<not> wants (cap_size \<lparr>max_size = 0, min_size = 0, max_age = 0, min_age = 0, age_basis = BasisSent\<rparr> 1000) 1001 0 0 5"
proof -
  let ?f = "\<lparr>max_size = 0, min_size = 0, max_age = 0, min_age = 0, age_basis = BasisSent\<rparr>"
  have ok: "filter_ok ?f" by (simp add: filter_ok_def max_int64_def)
  have "wants ?f n 0 0 5" for n
    by (simp add: wants_def wants_size_def wants_age_def)
  with cap_size_exact [OF ok, of 1000 _ 0 0 5] show ?thesis by (simp add: max_int64_def)
qed

text \<open>
  Every filter Validate accepts selects something: for any instant there is a size and a date
  such that the message is wanted, also with the age bounds reversed, which is why the age options
  need no error of their own. An inactive filter wants every message.
\<close>

theorem accepted_filter_selects:
  assumes "filter_ok f" and "validate f = None"
  shows "(\<exists>sz date. wants f sz date date now) \<and>
         (\<not> active f \<longrightarrow> (\<forall>sz sent internal. wants f sz sent internal now))"
proof
  from validate_exact [OF assms(1)] assms(2) obtain n where n: "wants_size f n" by blast
  have "time_sub now (now - min_age f) = min_age f"
    using assms(1) by (simp add: time_sub_def filter_ok_def min_int64_def)
  then have "wants_age f (now - min_age f) now"
    using assms(1) by (auto simp: wants_age_def Let_def filter_ok_def)
  with n have "wants f n (now - min_age f) (now - min_age f) now"
    by (simp add: wants_def basis_date_def)
  then show "\<exists>sz date. wants f sz date date now" by blast
  show "\<not> active f \<longrightarrow> (\<forall>sz sent internal. wants f sz sent internal now)"
    using assms(1) by (auto simp: active_def wants_def wants_size_iff filter_ok_def wants_age_def)
qed

theorem accepted_filter_selects_witness:
  "\<exists>sz date. wants \<lparr>max_size = 10, min_size = 8, max_age = 5, min_age = 9, age_basis = BasisSent\<rparr> sz date date 100"
proof -
  let ?f = "\<lparr>max_size = 10, min_size = 8, max_age = 5, min_age = 9, age_basis = BasisSent\<rparr>"
  have "filter_ok ?f" by (simp add: filter_ok_def max_int64_def)
  moreover have "validate ?f = None" by (simp add: validate_def wrap64_def)
  ultimately show ?thesis using accepted_filter_selects by blast
qed

end
