(* ===== verification/Budget.thy ===== *)
theory Budget
  imports GoErrors
begin

text \<open>
  internal/budget: a limit on message bytes held in memory. The counting semaphore is
  \<open>golang.org/x/sync/semaphore\<close>, which is not part of the repository, so it is a parameter:
  \<open>acq s n\<close> is the outcome of \<open>Acquire(ctx, n)\<close> (\<open>None\<close> when the context ended first) and
  \<open>rel s n\<close> the semaphore after \<open>Release(n)\<close>. What the code relies on is stated as hypotheses:
  the weight held grows by what was acquired and never passes the size the semaphore was made
  with, and a release of weight that is held takes it off.
\<close>

section \<open>Operations\<close>

text \<open>\<open>New\<close>: a budget below one byte is an error.\<close>

definition new_budget :: "int \<Rightarrow> string + int" where
  "new_budget bytes = (if bytes < 1 then Inl ''budget must be at least 1 byte'' else Inr bytes)"

definition cap_of :: "int option \<Rightarrow> int" where
  "cap_of b = (case b of None \<Rightarrow> 0 | Some cap \<Rightarrow> cap)"

text \<open>What \<open>Acquire\<close> charges for a message of the given size.\<close>

definition charge :: "int \<Rightarrow> int \<Rightarrow> int" where
  "charge cap sz =
     (let n = sz;
          n = (if n < 1 then 1 else n);
          n = (if n > cap then cap else n)
      in n)"

text \<open>A successful \<open>Acquire\<close> returns a closure over the charge and a flag; the state lists the
  closures handed out, in order, and \<open>None\<close> is the closure of a nil budget.\<close>

record grant =
  amount :: int
  released :: bool

record 'sem budget =
  bcap :: int
  sem :: 'sem
  grants :: "grant option list"

definition acquire ::
  "('sem \<Rightarrow> int \<Rightarrow> 'sem option) \<Rightarrow> bool \<Rightarrow> 'sem budget \<Rightarrow> int \<Rightarrow> string + (nat \<times> 'sem budget)" where
  "acquire acq nil b sz =
     (if nil then Inr (length (grants b), b\<lparr>grants := grants b @ [None]\<rparr>)
      else let n = charge (bcap b) sz
           in case acq (sem b) n of
                None \<Rightarrow> Inl ''waiting for bytes of budget''
              | Some s \<Rightarrow> Inr (length (grants b),
                              b\<lparr>sem := s, grants := grants b @ [Some \<lparr>amount = n, released = False\<rparr>]\<rparr>))"

definition release :: "('sem \<Rightarrow> int \<Rightarrow> 'sem) \<Rightarrow> nat \<Rightarrow> 'sem budget \<Rightarrow> 'sem budget" where
  "release rel i b =
     (if i \<ge> length (grants b) then b
      else case grants b ! i of
        None \<Rightarrow> b
      | Some g \<Rightarrow>
          if released g then b
          else b\<lparr>sem := rel (sem b) (amount g), grants := (grants b)[i := Some (g\<lparr>released := True\<rparr>)]\<rparr>)"

text \<open>A run of the two operations by any number of workers, in any order.\<close>

datatype budget_op = AcquireOp int | ReleaseOp nat

fun budget_step ::
  "('sem \<Rightarrow> int \<Rightarrow> 'sem option) \<Rightarrow> ('sem \<Rightarrow> int \<Rightarrow> 'sem) \<Rightarrow> 'sem budget \<Rightarrow> budget_op \<Rightarrow> 'sem budget" where
  "budget_step acq rel b (AcquireOp sz) =
     (case acquire acq False b sz of Inl _ \<Rightarrow> b | Inr (_, b') \<Rightarrow> b')"
| "budget_step acq rel b (ReleaseOp i) = release rel i b"

section \<open>What the code relies on\<close>

text \<open>The documented behaviour of the weighted semaphore of size \<open>cap\<close>, \<open>held\<close> reading the
  weight currently acquired.\<close>

definition sem_laws ::
  "('sem \<Rightarrow> int) \<Rightarrow> ('sem \<Rightarrow> int \<Rightarrow> 'sem option) \<Rightarrow> ('sem \<Rightarrow> int \<Rightarrow> 'sem) \<Rightarrow> int \<Rightarrow> bool" where
  "sem_laws held acq rel cap \<longleftrightarrow>
     (\<forall>s n s'. acq s n = Some s' \<longrightarrow> held s' = held s + n \<and> held s' \<le> cap) \<and>
     (\<forall>s n. n \<le> held s \<longrightarrow> held (rel s n) = held s - n)"

lemma sem_lawsD:
  "sem_laws held acq rel cap \<Longrightarrow> acq s n = Some s' \<Longrightarrow> held s' = held s + n"
  "sem_laws held acq rel cap \<Longrightarrow> acq s n = Some s' \<Longrightarrow> held s' \<le> cap"
  "sem_laws held acq rel cap \<Longrightarrow> n \<le> held s \<Longrightarrow> held (rel s n) = held s - n"
  unfolding sem_laws_def by blast+

section \<open>The weight outstanding\<close>

definition owed :: "grant option \<Rightarrow> int" where
  "owed g = (case g of None \<Rightarrow> 0 | Some g \<Rightarrow> if released g then 0 else amount g)"

definition outstanding :: "'sem budget \<Rightarrow> int" where
  "outstanding b = sum_list (map owed (grants b))"

definition budget_inv :: "('sem \<Rightarrow> int) \<Rightarrow> 'sem budget \<Rightarrow> bool" where
  "budget_inv held b \<longleftrightarrow> 1 \<le> bcap b \<and> held (sem b) = outstanding b \<and> outstanding b \<le> bcap b
     \<and> list_all (\<lambda>g. 0 \<le> owed g) (grants b)"

lemma charge_bounds: "1 \<le> cap \<Longrightarrow> 1 \<le> charge cap sz \<and> charge cap sz \<le> cap"
  by (simp add: charge_def Let_def)

lemma sum_list_update_int: "i < length xs \<Longrightarrow> sum_list (xs[i := x]) = sum_list xs - xs ! i + (x::int)"
  by (induction xs arbitrary: i) (auto split: nat.splits)

lemma outstanding_release:
  "i < length (grants b) \<Longrightarrow> grants b ! i = Some g \<Longrightarrow> \<not> released g \<Longrightarrow>
   sum_list (map owed ((grants b)[i := Some (g\<lparr>released := True\<rparr>)])) = outstanding b - amount g"
  by (simp add: outstanding_def map_update sum_list_update_int) (simp add: owed_def)

lemma owed_le_outstanding:
  assumes "list_all (\<lambda>g. 0 \<le> owed g) gs" and "i < length gs"
  shows "owed (gs ! i) \<le> sum_list (map owed gs)"
proof -
  have "owed (gs ! i) \<in> set (map owed gs)" using assms(2) by simp
  moreover have "\<forall>x \<in> set (map owed gs). 0 \<le> x" using assms(1) by (simp add: list_all_iff)
  ultimately show ?thesis by (intro member_le_sum_list) auto
qed

lemma acquire_inv [go_inv]:
  assumes "budget_inv held b" and "acquire acq False b sz = Inr (i, b')"
    and laws: "sem_laws held acq rel (bcap b)"
  shows "budget_inv held b' \<and> bcap b' = bcap b"
proof -
  let ?n = "charge (bcap b) sz"
  from assms(2) obtain s where s: "acq (sem b) ?n = Some s"
    and b': "b' = b\<lparr>sem := s, grants := grants b @ [Some \<lparr>amount = ?n, released = False\<rparr>]\<rparr>"
    by (auto simp: acquire_def Let_def split: option.splits)
  have "1 \<le> ?n" using assms(1) charge_bounds by (auto simp: budget_inv_def)
  then show ?thesis
    using assms(1) sem_lawsD(1,2) [OF laws s] by (auto simp: b' budget_inv_def outstanding_def owed_def)
qed

lemma release_inv [go_inv]:
  assumes "budget_inv held b" and laws: "sem_laws held acq rel cap"
  shows "budget_inv held (release rel i b) \<and> bcap (release rel i b) = bcap b"
proof (cases "i < length (grants b) \<and> (\<exists>g. grants b ! i = Some g \<and> \<not> released g)")
  case True
  then obtain g where i: "i < length (grants b)" and g: "grants b ! i = Some g" "\<not> released g" by auto
  have r: "release rel i b = b\<lparr>sem := rel (sem b) (amount g), grants := (grants b)[i := Some (g\<lparr>released := True\<rparr>)]\<rparr>"
    using i g by (simp add: release_def)
  have am: "0 \<le> amount g" "amount g \<le> outstanding b"
    using assms(1) i g owed_le_outstanding [of "grants b" i]
    by (auto simp: budget_inv_def outstanding_def list_all_length owed_def)
  have pos: "list_all (\<lambda>g. 0 \<le> owed g) ((grants b)[i := Some (g\<lparr>released := True\<rparr>)])"
    using assms(1) i by (auto simp: budget_inv_def list_all_length nth_list_update owed_def)
  have "held (rel (sem b) (amount g)) = outstanding b - amount g"
    using assms(1) am sem_lawsD(3) [OF laws, of "amount g" "sem b"] by (auto simp: budget_inv_def)
  then show ?thesis
    using assms(1) outstanding_release [OF i g] am pos
    by (auto simp: r budget_inv_def) (simp_all add: outstanding_def)
next
  case False
  then have "release rel i b = b" by (auto simp: release_def split: option.splits)
  with assms(1) show ?thesis by simp
qed

lemma budget_step_inv [go_inv]:
  assumes "budget_inv held b" and "sem_laws held acq rel (bcap b)"
  shows "budget_inv held (budget_step acq rel b opn) \<and> bcap (budget_step acq rel b opn) = bcap b"
proof (cases opn)
  case (AcquireOp sz)
  show ?thesis
  proof (cases "acquire acq False b sz")
    case (Inl e)
    with AcquireOp assms(1) show ?thesis by simp
  next
    case (Inr r)
    obtain i b' where "r = (i, b')" by (cases r)
    with Inr have "acquire acq False b sz = Inr (i, b')" by simp
    from acquire_inv [OF assms(1) this assms(2)] AcquireOp this show ?thesis by simp
  qed
next
  case (ReleaseOp i)
  with release_inv [OF assms] show ?thesis by simp
qed

lemma budget_run_inv:
  assumes "budget_inv held b" and "sem_laws held acq rel (bcap b)"
  shows "budget_inv held (foldl (budget_step acq rel) b ops) \<and> bcap (foldl (budget_step acq rel) b ops) = bcap b"
  using assms
proof (induction ops arbitrary: b)
  case Nil
  then show ?case by simp
next
  case (Cons opn ops)
  from budget_step_inv [OF Cons.prems, of opn]
  have s: "budget_inv held (budget_step acq rel b opn)"
    and c: "bcap (budget_step acq rel b opn) = bcap b" by auto
  from Cons.IH [OF s] c Cons.prems(2) show ?case by simp
qed

section \<open>Properties\<close>

text \<open>
  C40: The bytes charged and not yet refunded never exceed the budget, whatever sizes the servers
  report (zero, negative and larger than the whole budget included) and however workers
  interleave acquiring and releasing, with releases repeated any number of times; and a single
  charge is always one the semaphore can grant, at least one byte and at most the whole budget.
\<close>

theorem budget_bounds_memory:
  assumes "new_budget bytes = Inr cap" and "held s0 = 0" and "sem_laws held acq rel cap"
  shows "outstanding (foldl (budget_step acq rel) \<lparr>bcap = cap, sem = s0, grants = []\<rparr> ops) \<le> cap
       \<and> 1 \<le> charge cap sz \<and> charge cap sz \<le> cap"
proof -
  let ?b = "\<lparr>bcap = cap, sem = s0, grants = []\<rparr>"
  have cap: "1 \<le> cap" using assms(1) by (auto simp: new_budget_def split: if_splits)
  have "budget_inv held ?b" using cap assms(2) by (simp add: budget_inv_def outstanding_def)
  moreover have "sem_laws held acq rel (bcap ?b)" using assms(3) by simp
  ultimately have "budget_inv held (foldl (budget_step acq rel) ?b ops)
      \<and> bcap (foldl (budget_step acq rel) ?b ops) = bcap ?b"
    by (rule budget_run_inv)
  with charge_bounds [OF cap] show ?thesis by (auto simp: budget_inv_def)
qed

theorem budget_bounds_memory_witness:
  "outstanding (foldl (budget_step (\<lambda>s n. if s + n \<le> 100 then Some (s + n) else None) (\<lambda>s n. s - n))
      \<lparr>bcap = 100, sem = 0, grants = []\<rparr> [AcquireOp 60, AcquireOp 70, ReleaseOp 0, ReleaseOp 0, AcquireOp 500]) \<le> 100"
proof -
  let ?acq = "\<lambda>s n. if s + n \<le> (100::int) then Some (s + n) else None" and ?rel = "\<lambda>s n. s - n"
  have "new_budget 100 = Inr 100" by (simp add: new_budget_def)
  moreover have "sem_laws (\<lambda>s. s) ?acq ?rel 100" by (auto simp: sem_laws_def split: if_splits)
  ultimately show ?thesis using budget_bounds_memory [of 100 100 "\<lambda>s. s" 0 ?acq ?rel] by blast
qed

end
