(* ===== verification/Ident.thy ===== *)
theory Ident
  imports Prelude
begin

text \<open>
  internal/ident: the identity of a message, from its header. \<open>read_mime\<close> is
  \<open>textproto.Reader.ReadMIMEHeader\<close> as \<open>readHeader\<close> uses it: every field read before the end
  of the header, or before the first malformed line, in order; the map Go returns is this list
  grouped by key. The hash is a parameter: \<open>sha\<close> takes the bytes that are hashed to the hex
  string of their digest. \<open>mail.ParseDate\<close> is a parameter of \<open>sent_date\<close>.
\<close>

section \<open>Reading a header block\<close>

definition LF :: char where "LF = CHR 0x0A"
definition CR :: char where "CR = CHR 0x0D"
definition TAB :: char where "TAB = CHR 0x09"

definition blank :: "char \<Rightarrow> bool" where
  "blank c \<longleftrightarrow> c = CHR '' '' \<or> c = TAB"

text \<open>\<open>bufio.Reader.ReadLine\<close>: the line without its line break, and what follows. A last line
  without a line break is returned as it is.\<close>

definition take_line :: "string \<Rightarrow> string \<times> string" where
  "take_line s =
     (let (line, rest, found) = cut LF s
      in if found \<and> line \<noteq> [] \<and> last line = CR then (butlast line, rest) else (line, rest))"

definition trim_left :: "string \<Rightarrow> string" where
  "trim_left s = dropWhile blank s"

definition trim_blanks :: "string \<Rightarrow> string" where
  "trim_blanks s = rev (dropWhile blank (rev (dropWhile blank s)))"

lemma take_line_length: "s \<noteq> [] \<Longrightarrow> length (snd (take_line s)) < length s"
proof -
  assume "s \<noteq> []"
  have "cut c s = (a, b, f) \<Longrightarrow> length b < length s" for c a b f
    using \<open>s \<noteq> []\<close> by (induction s arbitrary: a b f) (auto split: if_splits prod.splits, fastforce)
  then show ?thesis by (auto simp: take_line_def Let_def split: prod.splits)
qed

text \<open>The continuation lines of a field: each starts with white space, and is appended after one
  space.\<close>

function continuation :: "string \<Rightarrow> string \<Rightarrow> string \<times> string" where
  "continuation buf s =
     (if s \<noteq> [] \<and> blank (hd s)
      then (let s' = trim_left s
            in if s' = [] then (buf @ '' '', [])
               else continuation (buf @ '' '' @ trim_blanks (fst (take_line s'))) (snd (take_line s')))
      else (buf, s))"
  by pat_completeness auto
termination
proof (relation "measure (\<lambda>(buf, s). length s)", goal_cases)
  case (2 buf s s')
  have "length (snd (take_line s')) < length s'" using take_line_length 2 by blast
  also have "\<dots> \<le> length s" using 2 by (simp add: trim_left_def length_dropWhile_le)
  finally show ?case by simp
qed simp

declare continuation.simps [simp del]

lemma continuation_length: "length (snd (continuation buf s)) \<le> length s"
proof (induction buf s rule: continuation.induct)
  case (1 buf s)
  show ?case
  proof (cases "s \<noteq> [] \<and> blank (hd s) \<and> trim_left s \<noteq> []")
    case True
    then have "length (snd (continuation buf s)) \<le> length (snd (take_line (trim_left s)))"
      using 1 by (subst continuation.simps) (simp add: Let_def)
    also have "\<dots> < length (trim_left s)" using take_line_length True by blast
    also have "\<dots> \<le> length s" by (simp add: trim_left_def length_dropWhile_le)
    finally show ?thesis by simp
  next
    case False
    then show ?thesis by (subst continuation.simps) (auto simp: Let_def)
  qed
qed

text \<open>Header keys: the token bytes, and the canonical capitalisation of
  \<open>textproto.CanonicalMIMEHeaderKey\<close>. A key with a space in it is kept as it is; any other byte
  makes the line malformed.\<close>

definition token_byte :: "char \<Rightarrow> bool" where
  "token_byte c \<longleftrightarrow> is_digit c \<or> (65 \<le> byte c \<and> byte c \<le> 90) \<or> (97 \<le> byte c \<and> byte c \<le> 122)
     \<or> c \<in> set ''!#$%&*+-.^_|~'' \<or> byte c = 39 \<or> byte c = 96"

fun canon :: "bool \<Rightarrow> string \<Rightarrow> string" where
  "canon upper [] = []"
| "canon upper (c # cs) =
     (if upper then upper_byte c else lower_byte c) # canon (c = CHR ''-'') cs"

definition canonical_key :: "string \<Rightarrow> string option" where
  "canonical_key k =
     (if k = [] \<or> \<not> list_all (\<lambda>c. token_byte c \<or> c = CHR '' '') k then None
      else if CHR '' '' \<in> set k then Some k
      else Some (canon True k))"

function read_fields :: "string \<Rightarrow> (string \<times> string) list" where
  "read_fields s =
     (if s = [] then []
      else let (line, rest) = take_line s
        in if line = [] \<or> CHR '':'' \<notin> set line then []
           else let (kv, rest') = continuation (trim_blanks line) rest;
                    (k, v, found) = cut (CHR '':'') kv
             in case canonical_key k of
                  None \<Rightarrow> []
                | Some key \<Rightarrow> (key, trim_left v) # read_fields rest')"
  by pat_completeness auto
termination
proof (relation "measure length", goal_cases)
  case (2 s x line rest y kv rest' z k z' v found key)
  have "length rest < length s"
    using take_line_length [of s] 2 by (metis prod.sel(2))
  moreover have "length rest' \<le> length rest"
    using continuation_length [of "trim_blanks line" rest] 2 by (metis prod.sel(2))
  ultimately show ?case by simp
qed simp

declare read_fields.simps [simp del]

definition read_header :: "string \<Rightarrow> (string \<times> string) list" where
  "read_header s = (if s \<noteq> [] \<and> blank (hd s) then [] else read_fields s)"

definition values_of :: "(string \<times> string) list \<Rightarrow> string \<Rightarrow> string list" where
  "values_of hs name = map snd (filter (\<lambda>kv. fst kv = name) hs)"

section \<open>Identities\<close>

definition Fields :: "string list" where
  "Fields = [''Message-ID'', ''Date'', ''Subject'', ''From'', ''To'', ''Cc'']"

definition StampHeader :: string where
  "StampHeader = ''X-Imapsync-Go-Id''"

definition FetchFields :: "string list" where
  "FetchFields = Fields @ [StampHeader]"

definition value_sep :: char where "value_sep = CHR 0x01"
definition field_term :: char where "field_term = CHR 0x02"

record identity =
  digest :: string
  message_id :: string
  weak :: bool
  stamp :: string

definition normalise :: "string \<Rightarrow> string" where
  "normalise v = join_str (fields_str v) '' ''"

text \<open>\<open>textproto.CanonicalMIMEHeaderKey\<close> of the names looked up; "Message-ID" is stored as
  "Message-Id".\<close>

definition header_key :: "string \<Rightarrow> string" where
  "header_key name = (case canonical_key name of Some k \<Rightarrow> k | None \<Rightarrow> name)"

definition first_value :: "(string \<times> string) list \<Rightarrow> string \<Rightarrow> string" where
  "first_value hs name =
     (case values_of hs (header_key name) of [] \<Rightarrow> [] | v # _ \<Rightarrow> v)"

text \<open>The bytes that are hashed: for every field, its values separated, and a terminator.\<close>

definition field_text :: "string list \<Rightarrow> string" where
  "field_text vs = join_str (map normalise vs) [value_sep] @ [field_term]"

definition digest_text :: "(string \<times> string) list \<Rightarrow> string" where
  "digest_text hs = concat (map (\<lambda>name. field_text (values_of hs (header_key name))) Fields)"

definition present :: "(string \<times> string) list \<Rightarrow> nat" where
  "present hs =
     length (filter (\<lambda>name. let vs = values_of hs (header_key name)
                            in vs \<noteq> [] \<and> normalise (concat vs) \<noteq> []) Fields)"

definition parse_fields :: "(string \<Rightarrow> string) \<Rightarrow> (string \<times> string) list \<Rightarrow> identity" where
  "parse_fields sha hs =
     (let mid = normalise (first_value hs ''Message-ID'')
      in \<lparr>digest = sha (digest_text hs), message_id = mid,
          weak = (mid = [] \<and> present hs < 2),
          stamp = normalise (first_value hs StampHeader)\<rparr>)"

definition parse_ident :: "(string \<Rightarrow> string) \<Rightarrow> string \<Rightarrow> identity" where
  "parse_ident sha header = parse_fields sha (read_header header)"

definition needs_stamp :: "identity \<Rightarrow> bool" where
  "needs_stamp i \<longleftrightarrow> message_id i = []"

definition stamp_value :: "identity \<Rightarrow> string" where
  "stamp_value i = (if stamp i \<noteq> [] then stamp i else digest i)"

definition already_stamped :: "identity \<Rightarrow> bool" where
  "already_stamped i \<longleftrightarrow> stamp i \<noteq> []"

definition sent_date :: "(string \<Rightarrow> go_time option) \<Rightarrow> string \<Rightarrow> go_time" where
  "sent_date parse_date header =
     (let raw = first_value (read_header header) ''Date''
      in if raw = [] then 0 else case parse_date raw of None \<Rightarrow> 0 | Some t \<Rightarrow> t)"

definition search_terms :: "identity \<Rightarrow> bool \<Rightarrow> (string \<times> string) option" where
  "search_terms i stamped =
     (if stamped then Some (StampHeader, stamp_value i)
      else if message_id i \<noteq> [] then Some (''Message-ID'', message_id i)
      else None)"

definition stamp_bytes :: "string \<Rightarrow> string" where
  "stamp_bytes v = StampHeader @ '': '' @ v @ [CR, LF]"

section \<open>White space\<close>

definition ascii_space :: "char \<Rightarrow> bool" where
  "ascii_space c \<longleftrightarrow> byte c = 32 \<or> (9 \<le> byte c \<and> byte c \<le> 13)"

declare fields_at.simps(2) [simp del]
declare space_len.simps(2) [simp del]

lemma space_len_ascii: "ascii_space c \<Longrightarrow> space_len (c # cs) = 1"
  by (simp add: space_len.simps(2) ascii_space_def)

lemma ascii_space_small: "ascii_space x \<Longrightarrow> byte x < 128"
  by (auto simp: ascii_space_def)

text \<open>A white-space rune never straddles a position before an ASCII byte.\<close>

lemma space_len_before_ascii:
  assumes "byte x < 128"
  shows "space_len (c # cs @ x # s) = space_len (c # cs)"
proof (cases cs)
  case Nil
  with assms show ?thesis by (cases s) (auto simp: space_len.simps(2) Let_def)
next
  case (Cons d ds)
  with assms show ?thesis by (cases ds) (auto simp: space_len.simps(2) Let_def)
qed

lemma space_len_le: "space_len s \<le> length s"
  by (cases s) (auto simp: space_len.simps(2) Let_def split: list.splits)

lemma fields_at_space:
  assumes "ascii_space x"
  shows "fields_at acc (a @ x # s) = fields_at acc a @ fields_at [] s"
proof (induction acc a rule: fields_at.induct)
  case (1 acc)
  then show ?case using assms by (simp add: fields_at.simps(2) space_len_ascii)
next
  case (2 acc c cs)
  have e: "space_len (c # cs @ x # s) = space_len (c # cs)"
    using assms ascii_space_small space_len_before_ascii by blast
  show ?case
  proof (cases "space_len (c # cs) = 0")
    case True
    with 2(1) e show ?thesis by (simp add: fields_at.simps(2))
  next
    case False
    have "drop (space_len (c # cs)) ((c # cs) @ x # s) = drop (space_len (c # cs)) (c # cs) @ x # s"
      using space_len_le [of "c # cs"] by (subst drop_append) simp
    with 2(2) False e show ?thesis by (simp add: fields_at.simps(2))
  qed
qed

lemma fields_at_run:
  assumes "w \<noteq> []" and "list_all ascii_space w"
  shows "fields_at acc (a @ w @ s) = fields_at acc a @ fields_at [] s"
  using assms
proof (induction w arbitrary: acc a)
  case Nil
  then show ?case by simp
next
  case (Cons x w)
  show ?case
  proof (cases "w = []")
    case True
    with Cons.prems show ?thesis by (simp add: fields_at_space)
  next
    case False
    with Cons show ?thesis using Cons.IH [of "[]" "[]"] by (simp add: fields_at_space)
  qed
qed

text \<open>A run of white space in a value counts as one separator, however long it is.\<close>

lemma normalise_run:
  "w \<noteq> [] \<Longrightarrow> list_all ascii_space w \<Longrightarrow> normalise (a @ w @ b) = normalise (a @ '' '' @ b)"
proof -
  assume w: "w \<noteq> []" "list_all ascii_space w"
  have "fields_str (a @ w @ b) = fields_at [] a @ fields_at [] b"
    using fields_at_run [OF w] by (simp add: fields_str_def)
  also have "\<dots> = fields_str (a @ '' '' @ b)"
    using fields_at_run [of "'' ''" "[]" a b] by (simp add: fields_str_def ascii_space_def)
  finally show ?thesis by (simp add: normalise_def)
qed

lemma fields_leading: "list_all ascii_space w \<Longrightarrow> fields_at [] (w @ s) = fields_at [] s"
  using fields_at_run [of w "[]" "[]" s] by (cases "w = []") auto

lemma fields_trailing: "list_all ascii_space w \<Longrightarrow> fields_at acc (s @ w) = fields_at acc s"
  using fields_at_run [of w acc s "[]"] by (cases "w = []") auto

lemma fields_at_bytes: "p \<in> set (fields_at acc s) \<Longrightarrow> set p \<subseteq> set acc \<union> set s"
proof (induction acc s arbitrary: p rule: fields_at.induct)
  case (1 acc)
  then show ?case by (auto split: if_splits)
next
  case (2 acc c cs)
  show ?case
  proof (cases "space_len (c # cs) = 0")
    case True
    then show ?thesis using 2(1) [OF True] 2(3) by (force simp: fields_at.simps(2))
  next
    case False
    then have "p = rev acc \<or> p \<in> set (fields_at [] (drop (space_len (c # cs)) (c # cs)))"
      using 2(3) by (auto simp: fields_at.simps(2) split: if_splits)
    then show ?thesis
    proof
      assume "p \<in> set (fields_at [] (drop (space_len (c # cs)) (c # cs)))"
      then have "set p \<subseteq> set (drop (space_len (c # cs)) (c # cs))" using 2(2) [OF False] by simp
      then show ?thesis using set_drop_subset by fast
    qed auto
  qed
qed

lemma set_join: "set (join_str ps sep) \<subseteq> \<Union> (set ` set ps) \<union> set sep"
  by (induction ps sep rule: join_str.induct) auto

lemma normalise_bytes: "set (normalise v) \<subseteq> set v \<union> {CHR '' ''}"
proof -
  have "\<Union> (set ` set (fields_str v)) \<subseteq> set v"
    using fields_at_bytes [of _ "[]" v] by (force simp: fields_str_def)
  with set_join [of "fields_str v" "'' ''"] show ?thesis by (auto simp: normalise_def)
qed

section \<open>The framing of the digest\<close>

lemma terminated_inj:
  fixes f g :: "'a \<Rightarrow> string"
  assumes "\<forall>n \<in> set ns. t \<notin> set (f n) \<and> t \<notin> set (g n)"
    and "concat (map (\<lambda>n. f n @ [t]) ns) = concat (map (\<lambda>n. g n @ [t]) ns)"
  shows "\<forall>n \<in> set ns. f n = g n"
  using assms
proof (induction ns)
  case Nil
  then show ?case by simp
next
  case (Cons n ns)
  have cut_f: "cut t (concat (map (\<lambda>n. h n @ [t]) (n # ns))) = (h n, concat (map (\<lambda>n. h n @ [t]) ns), True)"
    if "t \<notin> set (h n)" for h :: "'a \<Rightarrow> string"
    using cut_append [OF that] by simp
  from Cons.prems have "(f n, concat (map (\<lambda>n. f n @ [t]) ns), True) = (g n, concat (map (\<lambda>n. g n @ [t]) ns), True)"
    using cut_f [of f] cut_f [of g] by (metis list.set_intros(1))
  with Cons show ?case by simp
qed

definition frame_free :: "(string \<times> string) list \<Rightarrow> bool" where
  "frame_free hs \<longleftrightarrow> (\<forall>kv \<in> set hs. value_sep \<notin> set (snd kv) \<and> field_term \<notin> set (snd kv))"

text \<open>What the digest sees of a field: its normalised values; a missing field reads as one empty
  value.\<close>

definition field_view :: "(string \<times> string) list \<Rightarrow> string \<Rightarrow> string list" where
  "field_view hs name =
     (let vs = values_of hs (header_key name) in if vs = [] then [[]] else map normalise vs)"

lemma control_bytes: "value_sep \<noteq> field_term" "value_sep \<noteq> CHR '' ''" "field_term \<noteq> CHR '' ''"
  by (simp_all add: value_sep_def field_term_def)

lemma field_view_free:
  assumes "frame_free hs" and "v \<in> set (field_view hs name)"
  shows "value_sep \<notin> set v \<and> field_term \<notin> set v"
proof -
  have "v = [] \<or> (\<exists>kv \<in> set hs. v = normalise (snd kv))"
    using assms(2) by (auto simp: field_view_def values_of_def Let_def split: if_splits)
  then show ?thesis
    using assms(1) normalise_bytes control_bytes by (fastforce simp: frame_free_def)
qed

lemma digest_text_view:
  "digest_text hs = concat (map (\<lambda>n. join_str (field_view hs n) [value_sep] @ [field_term]) Fields)"
  by (auto simp: digest_text_def field_text_def field_view_def Let_def intro!: arg_cong [where f = concat])

lemma field_view_not_Nil [simp]: "field_view hs n \<noteq> []"
  by (simp add: field_view_def Let_def)

section \<open>Stamps\<close>

definition clean_value :: "string \<Rightarrow> bool" where
  "clean_value v \<longleftrightarrow> v \<noteq> [] \<and> list_all (\<lambda>c. is_digit c \<or> (97 \<le> byte c \<and> byte c \<le> 102)) v"

lemma clean_value_bytes:
  "clean_value v \<Longrightarrow> c \<in> set v \<Longrightarrow> \<not> blank c \<and> c \<noteq> LF \<and> c \<noteq> CR \<and> \<not> ascii_space c"
  by (auto simp: clean_value_def list_all_iff is_digit_def blank_def LF_def CR_def TAB_def ascii_space_def)

lemma dropWhile_hd: "s = [] \<or> \<not> P (hd s) \<Longrightarrow> dropWhile P s = s"
  by (cases s) auto

lemma trim_blanks_id: "s \<noteq> [] \<Longrightarrow> \<not> blank (hd s) \<Longrightarrow> \<not> blank (last s) \<Longrightarrow> trim_blanks s = s"
  by (simp add: trim_blanks_def dropWhile_hd hd_rev)

lemma continuation_none: "s = [] \<or> \<not> blank (hd s) \<Longrightarrow> continuation buf s = (buf, s)"
  by (subst continuation.simps) auto

lemma stamp_header_key: "canonical_key StampHeader = Some StampHeader"
  by code_simp

lemma field_keys:
  "header_key ''Message-ID'' = ''Message-Id''" "header_key ''Date'' = ''Date''"
  "header_key ''Subject'' = ''Subject''" "header_key ''From'' = ''From''"
  "header_key ''To'' = ''To''" "header_key ''Cc'' = ''Cc''"
  "header_key StampHeader = ''X-Imapsync-Go-Id''"
  by code_simp+

lemma take_line_crlf: "LF \<notin> set a \<Longrightarrow> take_line (a @ [CR, LF] @ h) = (a, h)"
  using cut_append [of LF "a @ [CR]" h] by (auto simp: take_line_def CR_def LF_def)

lemma read_stamped:
  assumes "clean_value v" and "h = [] \<or> \<not> blank (hd h)"
  shows "read_header (stamp_bytes v @ h) = (StampHeader, v) # read_header h"
proof -
  let ?line = "StampHeader @ '': '' @ v"
  have lf: "LF \<notin> set ?line"
    using clean_value_bytes [OF assms(1), of LF] by (auto simp: StampHeader_def LF_def)
  have tl: "take_line (stamp_bytes v @ h) = (?line, h)"
    using take_line_crlf [OF lf, of h] by (simp add: stamp_bytes_def)
  have v: "v \<noteq> []" using assms(1) by (simp add: clean_value_def)
  then have "trim_blanks ?line = ?line"
    using clean_value_bytes [OF assms(1), of "last v"]
    by (intro trim_blanks_id) (auto simp: StampHeader_def blank_def TAB_def)
  then have co: "continuation (trim_blanks ?line) h = (?line, h)"
    using assms(2) by (simp add: continuation_none)
  have cu: "cut (CHR '':'') ?line = (StampHeader, '' '' @ v, True)"
    using cut_append [of "CHR '':''" StampHeader "'' '' @ v"] by (simp add: StampHeader_def)
  have tr: "trim_left ('' '' @ v) = v"
    using v clean_value_bytes [OF assms(1), of "hd v"]
    by (simp add: trim_left_def blank_def dropWhile_hd)
  have ne: "stamp_bytes v @ h \<noteq> []" "?line \<noteq> []" "CHR '':'' \<in> set ?line" by (simp_all add: stamp_bytes_def StampHeader_def)
  have hd: "\<not> blank (hd (stamp_bytes v @ h))"
    by (simp add: stamp_bytes_def StampHeader_def blank_def TAB_def)
  have "read_fields (stamp_bytes v @ h) = (StampHeader, v) # read_fields h"
    using ne tl co cu tr stamp_header_key by (subst read_fields.simps) simp
  then show ?thesis using hd assms(2) ne by (auto simp: read_header_def)
qed

lemma values_of_stamp:
  "values_of ((StampHeader, v) # hs) n = (if n = StampHeader then [v] else []) @ values_of hs n"
  by (simp add: values_of_def)

lemma parse_stamped:
  "parse_fields sha ((StampHeader, v) # hs) = (parse_fields sha hs)\<lparr>stamp := normalise v\<rparr>"
proof -
  have "values_of ((StampHeader, v) # hs) (header_key n) = values_of hs (header_key n)" if "n \<in> set Fields" for n
    using that by (auto simp: values_of_def Fields_def field_keys StampHeader_def)
  then have "digest_text ((StampHeader, v) # hs) = digest_text hs"
    and "present ((StampHeader, v) # hs) = present hs"
    and "first_value ((StampHeader, v) # hs) ''Message-ID'' = first_value hs ''Message-ID''"
    by (auto simp: digest_text_def present_def first_value_def Fields_def Let_def cong: map_cong filter_cong)
  moreover have "first_value ((StampHeader, v) # hs) StampHeader = v"
    using values_of_stamp [of v hs StampHeader] by (simp add: first_value_def field_keys) (simp add: StampHeader_def)
  ultimately show ?thesis by (simp add: parse_fields_def Let_def)
qed

lemma fields_at_solid:
  "list_all (\<lambda>c. byte c < 128 \<and> \<not> ascii_space c) v \<Longrightarrow> acc @ v \<noteq> [] \<Longrightarrow> fields_at acc v = [rev acc @ v]"
proof (induction v arbitrary: acc)
  case Nil
  then show ?case by simp
next
  case (Cons c cs)
  then have "space_len (c # cs) = 0"
    by (auto simp: space_len.simps(2) ascii_space_def Let_def split: list.splits)
  with Cons show ?case by (simp add: fields_at.simps(2))
qed

lemma normalise_clean: "clean_value v \<Longrightarrow> normalise v = v"
proof -
  assume c: "clean_value v"
  then have "list_all (\<lambda>c. byte c < 128 \<and> \<not> ascii_space c) v"
    by (auto simp: clean_value_def list_all_iff is_digit_def ascii_space_def)
  with c show ?thesis using fields_at_solid [of v "[]"] by (simp add: normalise_def fields_str_def clean_value_def)
qed

section \<open>Folding\<close>

lemma continuation_buf:
  "continuation buf s = (buf @ fst (continuation [] s), snd (continuation [] s))"
proof (induction "length s" arbitrary: buf s rule: less_induct)
  case less
  show ?case
  proof (cases "s \<noteq> [] \<and> blank (hd s) \<and> trim_left s \<noteq> []")
    case True
    let ?s' = "trim_left s"
    have u: "continuation b s = continuation (b @ '' '' @ trim_blanks (fst (take_line ?s'))) (snd (take_line ?s'))" for b
      using True by (subst continuation.simps) (simp add: Let_def)
    have "length (snd (take_line ?s')) < length s"
      using take_line_length [of ?s'] True length_dropWhile_le [of blank s] by (simp add: trim_left_def)
    note ih = less [OF this]
    show ?thesis unfolding u [of buf] u [of "[]"]
      using ih [of "buf @ '' '' @ trim_blanks (fst (take_line ?s'))"]
        ih [of "[] @ '' '' @ trim_blanks (fst (take_line ?s'))"] by simp
  next
    case False
    have a: "continuation b s = (if s \<noteq> [] \<and> blank (hd s) then (b @ '' '', []) else (b, s))" for b
      using False by (subst continuation.simps) auto
    show ?thesis by (simp add: a)
  qed
qed

lemma continuation_starts: "fst (continuation [] s) = [] \<or> (\<exists>e. fst (continuation [] s) = CHR '' '' # e)"
proof (cases "s \<noteq> [] \<and> blank (hd s)")
  case True
  let ?s' = "trim_left s"
  have "continuation [] s = (if ?s' = [] then ('' '', [])
      else continuation ('' '' @ trim_blanks (fst (take_line ?s'))) (snd (take_line ?s')))"
    using continuation.simps [of "[]" s] True by (simp add: Let_def)
  then show ?thesis
    using continuation_buf [of "'' '' @ trim_blanks (fst (take_line ?s'))" "snd (take_line ?s')"] by simp
next
  case False
  then have "continuation [] s = ([], s)" by (intro continuation_none) auto
  then show ?thesis by simp
qed

definition trim_right :: "string \<Rightarrow> string" where
  "trim_right s = rev (dropWhile blank (rev s))"

lemma trim_right_split: "\<exists>w. s = trim_right s @ w \<and> list_all blank w"
proof -
  have "s = rev (dropWhile blank (rev s)) @ rev (takeWhile blank (rev s))"
    by (metis rev_append rev_rev_ident takeWhile_dropWhile_id)
  moreover have "list_all blank (rev (takeWhile blank (rev s)))"
    by (auto simp: list_all_iff dest: set_takeWhileD)
  ultimately show ?thesis unfolding trim_right_def by blast
qed

lemma not_blank_LF: "\<not> blank LF"
  by (simp add: blank_def LF_def TAB_def)

lemma blank_ascii: "blank c \<Longrightarrow> ascii_space c"
  by (auto simp: blank_def ascii_space_def TAB_def)

lemma blanks_ascii: "list_all blank w \<Longrightarrow> list_all ascii_space w"
  by (auto simp: list_all_iff blank_ascii)

lemma fields_trim_right: "fields_at acc (trim_right s) = fields_at acc s"
  using trim_right_split [of s] fields_trailing [of _ acc "trim_right s"] blanks_ascii by metis

lemma fields_trim_left: "fields_at [] (trim_left s) = fields_at [] s"
proof -
  have "s = takeWhile blank s @ trim_left s" by (simp add: trim_left_def)
  moreover have "list_all ascii_space (takeWhile blank s)"
    by (rule blanks_ascii) (auto simp: list_all_iff dest: set_takeWhileD)
  ultimately show ?thesis using fields_leading by metis
qed

lemma trim_blanks_eq: "trim_blanks s = trim_right (trim_left s)"
  by (simp add: trim_blanks_def trim_right_def trim_left_def)

lemma fields_ext: "e = [] \<or> (\<exists>e'. e = CHR '' '' # e') \<Longrightarrow> fields_at [] (a @ e) = fields_at [] a @ fields_at [] e"
  using fields_at_run [of "'' ''" "[]" a] fields_leading [of "'' ''"] by (auto simp: ascii_space_def)

lemma trim_right_solid: "\<not> blank c \<Longrightarrow> trim_right (p @ c # s) = p @ c # trim_right s"
  by (simp add: trim_right_def dropWhile_append3)

text \<open>Reading one field: the key as written and the value with its continuation lines.\<close>

lemma read_field:
  assumes key: "canonical_key name = Some key" and nt: "list_all token_byte name" and lf: "LF \<notin> set a"
  shows "read_header (name @ '':'' @ a @ [CR, LF] @ t) =
    (key, trim_left (trim_right a @ fst (continuation [] t))) # read_fields (snd (continuation [] t))"
proof -
  have nn: "name \<noteq> []" using key by (auto simp: canonical_key_def)
  have tok: "\<not> blank c \<and> c \<noteq> LF \<and> c \<noteq> CHR '':''" if "c \<in> set name" for c
    using nt that by (auto simp: list_all_iff token_byte_def is_digit_def blank_def LF_def TAB_def)
  let ?line = "name @ '':'' @ a"
  have tl: "take_line (?line @ [CR, LF] @ t) = (?line, t)"
    using tok lf by (intro take_line_crlf) (auto simp: LF_def)
  have hd: "\<not> blank (hd ?line)" using nn tok by simp
  then have "trim_left ?line = ?line" by (simp add: trim_left_def dropWhile_hd)
  then have tb: "trim_blanks ?line = name @ '':'' @ trim_right a"
    using trim_right_solid [of "CHR '':''" name a] by (simp add: trim_blanks_eq blank_def TAB_def)
  let ?c = "continuation [] t"
  have co: "continuation (trim_blanks ?line) t = (name @ '':'' @ trim_right a @ fst ?c, snd ?c)"
    using continuation_buf [of "trim_blanks ?line" t] tb by simp
  have cu: "cut (CHR '':'') (name @ '':'' @ trim_right a @ fst ?c) = (name, trim_right a @ fst ?c, True)"
    using cut_append [of "CHR '':''" name] tok by auto
  have "read_fields (?line @ [CR, LF] @ t) = (key, trim_left (trim_right a @ fst ?c)) # read_fields (snd ?c)"
    using tl co cu key nn by (subst read_fields.simps) auto
  then show ?thesis using hd nn by (simp add: read_header_def)
qed

lemma continuation_folded:
  assumes "w \<noteq> []" "list_all blank w" "LF \<notin> set b"
  shows "continuation [] (w @ b @ [CR, LF] @ h) =
    ('' '' @ trim_blanks b @ fst (continuation [] h), snd (continuation [] h))"
proof -
  have "dropWhile blank (w @ b @ [CR, LF] @ h) = dropWhile blank b @ [CR, LF] @ h"
    using assms(2) by (induction w) (auto simp: dropWhile_append blank_def CR_def TAB_def)
  then have tl: "trim_left (w @ b @ [CR, LF] @ h) = trim_left b @ [CR, LF] @ h" by (simp add: trim_left_def)
  have "LF \<notin> set (trim_left b)" using assms(3) by (auto simp: trim_left_def dest: set_dropWhileD)
  then have "take_line (trim_left b @ [CR, LF] @ h) = (trim_left b, h)" by (rule take_line_crlf)
  moreover have "trim_blanks (trim_left b) = trim_blanks b"
    by (simp add: trim_blanks_def trim_left_def dropWhile_idem)
  moreover have "blank (hd w)" using assms by (cases w) auto
  ultimately show ?thesis
    using assms(1) tl continuation_buf [of "'' '' @ trim_blanks b" h] by (subst continuation.simps) (simp add: Let_def)
qed

section \<open>Properties\<close>

text \<open>
  The digest's framing confuses no two headers: when no value holds one of the two framing
  bytes, two headers are hashed from the same bytes if and only if every identity field has the
  same normalised values in the same order (a missing field counting as one empty value), so a
  value cannot imitate a field boundary or a repeated field.
\<close>

theorem digest_framing_injective:
  assumes "frame_free hs" and "frame_free hs'"
  shows "digest_text hs = digest_text hs' \<longleftrightarrow> (\<forall>name \<in> set Fields. field_view hs name = field_view hs' name)"
proof
  assume eq: "digest_text hs = digest_text hs'"
  have free: "field_term \<notin> set (join_str (field_view k n) [value_sep])" if "frame_free k" for k n
    using set_join [of "field_view k n" "[value_sep]"] field_view_free [OF that] control_bytes by fastforce
  have "\<forall>n \<in> set Fields. join_str (field_view hs n) [value_sep] = join_str (field_view hs' n) [value_sep]"
    by (rule terminated_inj) (use free assms eq digest_text_view in auto)
  moreover have "split_str (join_str (field_view k n) [value_sep]) [value_sep] = field_view k n" if "frame_free k" for k n
    using field_view_free [OF that] by (intro split_join) auto
  ultimately show "\<forall>name \<in> set Fields. field_view hs name = field_view hs' name"
    using assms by metis
next
  assume "\<forall>name \<in> set Fields. field_view hs name = field_view hs' name"
  then show "digest_text hs = digest_text hs'" by (simp add: digest_text_view cong: map_cong)
qed

theorem digest_framing_injective_witness:
  "digest_text [(''Subject'', ''a  b'')] \<noteq> digest_text [(''From'', ''a b'')]"
proof -
  let ?h = "[(''Subject'', ''a  b'')]" and ?k = "[(''From'', ''a b'')]"
  have "frame_free ?h" "frame_free ?k" by (auto simp: frame_free_def value_sep_def field_term_def)
  note inj = digest_framing_injective [OF this]
  have "''Subject'' \<in> set Fields" by (simp add: Fields_def)
  moreover have "field_view ?k ''Subject'' = [[]]" by (simp add: field_view_def values_of_def field_keys)
  moreover have "field_view ?h ''Subject'' \<noteq> [[]]"
    by (simp add: field_view_def values_of_def field_keys normalise_def fields_str_def fields_at.simps(2) space_len.simps(2))
  ultimately show ?thesis using inj by metis
qed

text \<open>
  Stamping is transparent. Take any header that does not start in the middle of a folded line
  and carries no stamp yet: reading the copy made by prepending the stamp line gives the same
  digest, Message-ID and weakness, the copy is recognised as stamped, and the value it would be
  searched for is the value the source was stamped with, so a second sync neither re-identifies
  nor re-stamps it.
\<close>

theorem stamp_keeps_identity:
  assumes "\<And>x. clean_value (sha x)" and "h = [] \<or> \<not> blank (hd h)"
    and "i = parse_ident sha h" and "\<not> already_stamped i"
    and "j = parse_ident sha (stamp_bytes (stamp_value i) @ h)"
  shows "digest j = digest i \<and> message_id j = message_id i \<and> weak j = weak i
       \<and> already_stamped j \<and> stamp_value j = stamp_value i
       \<and> search_terms j True = search_terms i True"
proof -
  have d: "stamp_value i = digest i" using assms(4) by (simp add: stamp_value_def already_stamped_def)
  have c: "clean_value (digest i)"
    using assms(1) by (simp add: assms(3) parse_ident_def parse_fields_def Let_def)
  have "j = i\<lparr>stamp := digest i\<rparr>"
    using read_stamped [OF c assms(2)] assms(3,5) d parse_stamped normalise_clean [OF c]
    by (simp add: parse_ident_def)
  moreover have "digest i \<noteq> []" using c by (simp add: clean_value_def)
  ultimately show ?thesis using d by (simp add: already_stamped_def stamp_value_def search_terms_def)
qed

theorem stamp_keeps_identity_witness:
  "already_stamped (parse_ident (\<lambda>_. ''0a'') (stamp_bytes ''0a'' @ ''Subject: x''))"
proof -
  have c: "clean_value ((\<lambda>_. ''0a'') x)" for x :: string
    by (simp add: clean_value_def is_digit_def)
  have i: "\<not> already_stamped (parse_ident (\<lambda>_. ''0a'') ''Subject: x'')" 
    "stamp_value (parse_ident (\<lambda>_. ''0a'') ''Subject: x'') = ''0a''"
    by code_simp+
  have "''Subject: x'' = [] \<or> \<not> blank (hd ''Subject: x'')" by (simp add: blank_def TAB_def)
  from stamp_keeps_identity [where sha = "\<lambda>_. ''0a''", OF c this refl i(1) refl] i(2) show ?thesis by simp
qed

text \<open>
  A header refolded at a different column digests the same. Take a header whose first field
  has a run of blanks anywhere in its value: breaking the line before that run (which is how a
  server folds) changes neither the digest nor the Message-ID, whatever the field, the value and
  the rest of the header are.
\<close>

theorem refold_same_identity:
  assumes "canonical_key name = Some key" and "list_all token_byte name"
    and "LF \<notin> set a" and "LF \<notin> set b" and "w \<noteq> []" and "list_all blank w"
  shows "digest (parse_ident sha (name @ '':'' @ a @ [CR, LF] @ w @ b @ [CR, LF] @ h))
           = digest (parse_ident sha (name @ '':'' @ (a @ w @ b) @ [CR, LF] @ h))
       \<and> message_id (parse_ident sha (name @ '':'' @ a @ [CR, LF] @ w @ b @ [CR, LF] @ h))
           = message_id (parse_ident sha (name @ '':'' @ (a @ w @ b) @ [CR, LF] @ h))"
proof -
  let ?e = "fst (continuation [] h)" and ?r = "read_fields (snd (continuation [] h))"
  let ?v = "trim_left (trim_right a @ '' '' @ trim_blanks b @ ?e)"
  let ?u = "trim_left (trim_right (a @ w @ b) @ ?e)"
  have "LF \<notin> set w" using assms(6) not_blank_LF by (auto simp: list_all_iff)
  with assms(3,4) have lf: "LF \<notin> set (a @ w @ b)" by simp
  have folded: "read_header (name @ '':'' @ a @ [CR, LF] @ w @ b @ [CR, LF] @ h) = (key, ?v) # ?r"
    using read_field [OF assms(1,2,3), of "w @ b @ [CR, LF] @ h"] continuation_folded [OF assms(5,6,4)] by simp
  have flat: "read_header (name @ '':'' @ (a @ w @ b) @ [CR, LF] @ h) = (key, ?u) # ?r"
    by (rule read_field [OF assms(1,2) lf])
  have "fields_at [] ?v = fields_at [] a @ fields_at [] b @ fields_at [] ?e"
    using fields_at_run [of "'' ''" "[]" "trim_right a" "trim_blanks b @ ?e"]
      fields_ext [OF continuation_starts, of "trim_blanks b"]
    by (simp add: fields_trim_left fields_trim_right trim_blanks_eq ascii_space_def)
  moreover have "fields_at [] ?u = fields_at [] a @ fields_at [] b @ fields_at [] ?e"
    using fields_ext [OF continuation_starts, of "trim_right (a @ w @ b)"]
      fields_at_run [OF assms(5) blanks_ascii [OF assms(6)]]
    by (simp add: fields_trim_left fields_trim_right)
  ultimately have n: "normalise ?v = normalise ?u" by (simp add: normalise_def fields_str_def)
  have fv: "field_view ((key, ?v) # ?r) m = field_view ((key, ?u) # ?r) m" for m
    using n by (auto simp: field_view_def values_of_def Let_def)
  have mid: "normalise (first_value ((key, ?v) # ?r) m) = normalise (first_value ((key, ?u) # ?r) m)" for m
    using n by (auto simp: first_value_def values_of_def split: list.splits)
  have dt: "digest_text ((key, ?v) # ?r) = digest_text ((key, ?u) # ?r)"
    unfolding digest_text_view fv by (rule refl)
  show ?thesis
    unfolding parse_ident_def folded flat parse_fields_def Let_def identity.select_convs dt mid [of "''Message-ID''"]
    by (intro conjI refl)
qed

theorem refold_same_identity_witness:
  "digest (parse_ident (\<lambda>x. x) (''Subject'' @ '':'' @ '' one'' @ [CR, LF] @ [TAB] @ ''two'' @ [CR, LF] @ ''From: x''))
     = digest (parse_ident (\<lambda>x. x) (''Subject'' @ '':'' @ ('' one'' @ [TAB] @ ''two'') @ [CR, LF] @ ''From: x''))"
proof -
  have "canonical_key ''Subject'' = Some ''Subject''" "list_all token_byte ''Subject''" by code_simp+
  from refold_same_identity [OF this, of "'' one''" "''two''" "[TAB]" "\<lambda>x. x" "''From: x''"] show ?thesis
    by (simp add: LF_def blank_def)
qed

end
