(* ===== verification/Dedup.thy ===== *)
theory Dedup
  imports Ident "HOL-Library.Multiset"
begin

text \<open>
  internal/dedup: groups of messages that may be copies of one another, and the split of a group
  into a survivor and victims. The grouping map of \<open>Candidates\<close> is a list of its keys in the
  order they are first met; Go iterates the map in random order and sorts the groups afterwards,
  and \<open>candidates_perm\<close> shows that with distinct UIDs neither order matters.
\<close>

section \<open>Operations\<close>

type_synonym uid = nat

record dkey =
  k_digest :: string
  k_size :: int

record dmessage =
  uid :: uid
  identity :: identity
  msg_size :: int

definition key_of :: "dmessage \<Rightarrow> dkey" where
  "key_of m = \<lparr>k_digest = digest (identity m), k_size = msg_size m\<rparr>"

definition groupable :: "dmessage \<Rightarrow> bool" where
  "groupable m \<longleftrightarrow> \<not> weak (identity m) \<and> digest (identity m) \<noteq> [] \<and> msg_size m > 0"

record group =
  g_key :: dkey
  messages :: "dmessage list"

definition group_of :: "dmessage list \<Rightarrow> dkey \<Rightarrow> dmessage list" where
  "group_of msgs k = filter (\<lambda>m. groupable m \<and> key_of m = k) msgs"

definition mk_group :: "dmessage list \<Rightarrow> dkey \<Rightarrow> group" where
  "mk_group msgs k = \<lparr>g_key = k, messages = sort_key uid (group_of msgs k)\<rparr>"

definition candidates :: "dmessage list \<Rightarrow> group list" where
  "candidates msgs =
     (let keys = remdups (map key_of (filter groupable msgs));
          big = filter (\<lambda>k. \<not> length (group_of msgs k) < 2) keys;
          out = map (mk_group msgs) big
      in sort_key (\<lambda>g. uid (hd (messages g))) out)"

text \<open>\<open>claimed\<close> is nil (\<open>None\<close>) or the caller's predicate.\<close>

definition survivor_of :: "(uid \<Rightarrow> bool) option \<Rightarrow> dmessage list \<Rightarrow> dmessage" where
  "survivor_of claimed ms =
     (case claimed of
        None \<Rightarrow> hd ms
      | Some c \<Rightarrow> (case find (\<lambda>m. c (uid m)) ms of Some m \<Rightarrow> m | None \<Rightarrow> hd ms))"

definition partition_group :: "(uid \<Rightarrow> bool) option \<Rightarrow> group \<Rightarrow> dmessage \<times> dmessage list" where
  "partition_group claimed g =
     (let s = survivor_of claimed (messages g)
      in (s, filter (\<lambda>m. uid m \<noteq> uid s) (messages g)))"

section \<open>Lemmas\<close>

lemma set_group_of: "set (group_of msgs k) = {m \<in> set msgs. groupable m \<and> key_of m = k}"
  by (auto simp: group_of_def)

lemma messages_mk_group: "set (messages (mk_group msgs k)) = {m \<in> set msgs. groupable m \<and> key_of m = k}"
  by (simp add: mk_group_def set_group_of)

lemma set_candidates: "set (candidates msgs) = mk_group msgs ` {k. 2 \<le> length (group_of msgs k)}"
proof -
  have "k \<in> key_of ` {m \<in> set msgs. groupable m}" if "2 \<le> length (group_of msgs k)" for k
  proof -
    from that obtain m where "m \<in> set (group_of msgs k)" by (cases "group_of msgs k") auto
    then show ?thesis by (auto simp: set_group_of)
  qed
  then show ?thesis by (auto simp: candidates_def Let_def not_less)
qed

lemma inj_mk_group: "inj (mk_group msgs)"
  by (auto simp: inj_def mk_group_def)

lemma distinct_candidates: "distinct (candidates msgs)"
  by (auto simp: candidates_def Let_def distinct_map intro: inj_on_subset [OF inj_mk_group])

text \<open>With distinct sort keys, a sorted list depends on the elements alone.\<close>

lemma sort_key_unique:
  assumes "distinct (map f xs)" and "mset xs = mset ys"
  shows "sort_key f xs = sort_key f ys"
proof -
  have d: "distinct (map f ys)"
    using assms mset_eq_imp_distinct_iff [of "map f xs" "map f ys"] by simp
  have ds: "distinct (map f (sort_key f zs)) = distinct (map f zs)" for zs
    by (rule mset_eq_imp_distinct_iff) simp
  have e: "set xs = set ys" using assms(2) by (rule mset_eq_setD)
  have "map f (sort_key f xs) = map f (sort_key f ys)"
  proof (rule sorted_distinct_set_unique)
    show "distinct (map f (sort_key f xs))" "distinct (map f (sort_key f ys))"
      using assms(1) d by (simp_all add: ds)
    show "set (map f (sort_key f xs)) = set (map f (sort_key f ys))"
      using e by simp
  qed simp_all
  moreover have "inj_on f (set (sort_key f xs) \<union> set (sort_key f ys))"
    using assms(1) e by (simp add: distinct_map)
  ultimately show ?thesis by (rule map_inj_on)
qed

lemma mset_group_of: "mset msgs = mset msgs' \<Longrightarrow> mset (group_of msgs k) = mset (group_of msgs' k)"
  by (simp add: group_of_def)

lemma distinct_uids_group_of: "distinct (map uid msgs) \<Longrightarrow> distinct (map uid (group_of msgs k))"
  by (simp add: group_of_def distinct_map_filter)

lemma mk_group_perm:
  "distinct (map uid msgs) \<Longrightarrow> mset msgs = mset msgs' \<Longrightarrow> mk_group msgs k = mk_group msgs' k"
  by (simp add: mk_group_def sort_key_unique [OF distinct_uids_group_of mset_group_of])

lemma hd_messages:
  assumes "2 \<le> length (group_of msgs k)"
  shows "hd (messages (mk_group msgs k)) \<in> set (group_of msgs k)"
proof -
  have "messages (mk_group msgs k) \<noteq> []"
    using assms by (auto simp: mk_group_def simp flip: length_0_conv)
  then show ?thesis by (metis hd_in_set mk_group_def select_convs(2) set_sort group.select_convs(2))
qed

lemma lowest_uid_inj:
  assumes "distinct (map uid msgs)"
  shows "inj_on (\<lambda>g. uid (hd (messages g))) (set (candidates msgs))"
proof (rule inj_onI)
  fix g g'
  assume g: "g \<in> set (candidates msgs)" "g' \<in> set (candidates msgs)" and e: "uid (hd (messages g)) = uid (hd (messages g'))"
  then obtain k k' where k: "g = mk_group msgs k" "g' = mk_group msgs k'"
    and l: "2 \<le> length (group_of msgs k)" "2 \<le> length (group_of msgs k')"
    by (auto simp: set_candidates)
  from hd_messages [OF l(1)] hd_messages [OF l(2)]
  have m: "hd (messages g) \<in> set msgs" "key_of (hd (messages g)) = k"
    "hd (messages g') \<in> set msgs" "key_of (hd (messages g')) = k'"
    by (auto simp: k set_group_of)
  from assms have "inj_on uid (set msgs)" by (simp add: distinct_map)
  from inj_onD [OF this e m(1) m(3)] have "hd (messages g) = hd (messages g')" .
  then have "k = k'" using m(2,4) by metis
  then show "g = g'" by (simp only: k)
qed

text \<open>The order the messages are listed in, and the order the map is iterated in, do not matter.\<close>

lemma candidates_perm:
  assumes "distinct (map uid msgs)" and "mset msgs = mset msgs'"
  shows "candidates msgs = candidates msgs'"
proof -
  have s: "set (candidates msgs) = set (candidates msgs')"
    using mk_group_perm [OF assms] mset_group_of [OF assms(2)]
    by (auto simp: set_candidates image_iff) (metis size_mset)+
  then have ms: "mset (candidates msgs) = mset (candidates msgs')"
    using distinct_candidates set_eq_iff_mset_eq_distinct by blast
  have d: "distinct (map (\<lambda>g. uid (hd (messages g))) (candidates msgs))"
    using lowest_uid_inj [OF assms(1)] by (simp add: distinct_map distinct_candidates)
  have idem: "sort_key (\<lambda>g. uid (hd (messages g))) (candidates l) = candidates l" for l
    by (simp add: candidates_def Let_def sort_key_id_if_sorted)
  from sort_key_unique [OF d ms] show ?thesis by (simp only: idem)
qed

lemma sorted_mk_group:
  assumes "distinct (map uid msgs)"
  shows "sorted_wrt (\<lambda>a b. uid a < uid b) (messages (mk_group msgs k))"
proof -
  let ?ms = "messages (mk_group msgs k)"
  have "distinct (map uid ?ms)"
    using distinct_uids_group_of [OF assms, of k] mset_eq_imp_distinct_iff [of "map uid ?ms" "map uid (group_of msgs k)"]
    by (simp add: mk_group_def)
  moreover have "sorted (map uid ?ms)" by (simp add: mk_group_def)
  ultimately have "sorted_wrt (<) (map uid ?ms)" by (simp add: strict_sorted_iff)
  then show ?thesis by (simp add: sorted_wrt_map)
qed

lemma length_messages: "length (messages (mk_group msgs k)) = length (group_of msgs k)"
  by (simp add: mk_group_def)

lemma survivor_in: "ms \<noteq> [] \<Longrightarrow> survivor_of claimed ms \<in> set ms"
  by (auto simp: survivor_of_def find_Some_iff split: option.splits)

lemma survivor_claimed:
  assumes "m \<in> set ms" and "c (uid m)"
  shows "c (uid (survivor_of (Some c) ms))"
proof (cases "find (\<lambda>m. c (uid m)) ms")
  case None
  with assms show ?thesis by (auto simp: find_None_iff)
next
  case (Some a)
  then have "c (uid a)" by (auto simp: find_Some_iff)
  with Some show ?thesis by (simp add: survivor_of_def)
qed

section \<open>Properties\<close>

text \<open>
  Candidates finds exactly the possible duplicates. In a folder with distinct UIDs, every
  group has at least two messages of the folder in ascending UID order, all identifiable and all
  sharing the group's key; two different identifiable messages with the same key are together in
  exactly one group; and the answer does not depend on the order the messages were listed in.
\<close>

theorem candidates_exact:
  assumes "distinct (map uid msgs)"
  shows "(\<forall>g \<in> set (candidates msgs). 2 \<le> length (messages g)
            \<and> sorted_wrt (\<lambda>a b. uid a < uid b) (messages g) \<and> set (messages g) \<subseteq> set msgs
            \<and> (\<forall>m \<in> set (messages g). groupable m \<and> key_of m = g_key g))
       \<and> (\<forall>m \<in> set msgs. \<forall>m' \<in> set msgs. groupable m \<and> groupable m' \<and> m \<noteq> m' \<and> key_of m = key_of m' \<longrightarrow>
            (\<exists>!g. g \<in> set (candidates msgs) \<and> m \<in> set (messages g) \<and> m' \<in> set (messages g)))
       \<and> (\<forall>msgs'. mset msgs = mset msgs' \<longrightarrow> candidates msgs = candidates msgs')"
proof (intro conjI)
  show "\<forall>g \<in> set (candidates msgs). 2 \<le> length (messages g)
            \<and> sorted_wrt (\<lambda>a b. uid a < uid b) (messages g) \<and> set (messages g) \<subseteq> set msgs
            \<and> (\<forall>m \<in> set (messages g). groupable m \<and> key_of m = g_key g)"
    using sorted_mk_group [OF assms]
    by (auto simp: set_candidates messages_mk_group length_messages) (simp add: mk_group_def)
  have "\<exists>!g. g \<in> set (candidates msgs) \<and> m \<in> set (messages g) \<and> m' \<in> set (messages g)"
    if m: "m \<in> set msgs" "m' \<in> set msgs" "groupable m" "groupable m'" "m \<noteq> m'" "key_of m = key_of m'" for m m'
  proof -
    have "{m, m'} \<subseteq> set (group_of msgs (key_of m))" using m by (simp add: set_group_of)
    from card_mono [OF _ this] have "2 \<le> card (set (group_of msgs (key_of m)))" using m(5) by simp
    then have l: "2 \<le> length (group_of msgs (key_of m))" using card_length le_trans by blast
    show ?thesis
    proof (rule ex1I [of _ "mk_group msgs (key_of m)"])
      show "mk_group msgs (key_of m) \<in> set (candidates msgs) \<and> m \<in> set (messages (mk_group msgs (key_of m)))
          \<and> m' \<in> set (messages (mk_group msgs (key_of m)))"
        using l m by (simp add: set_candidates messages_mk_group)
    qed (auto simp: set_candidates messages_mk_group)
  qed
  then show "\<forall>m \<in> set msgs. \<forall>m' \<in> set msgs. groupable m \<and> groupable m' \<and> m \<noteq> m' \<and> key_of m = key_of m' \<longrightarrow>
            (\<exists>!g. g \<in> set (candidates msgs) \<and> m \<in> set (messages g) \<and> m' \<in> set (messages g))"
    by blast
  show "\<forall>msgs'. mset msgs = mset msgs' \<longrightarrow> candidates msgs = candidates msgs'"
    using candidates_perm [OF assms] by blast
qed

definition sample_message :: "uid \<Rightarrow> string \<Rightarrow> int \<Rightarrow> dmessage" where
  "sample_message u d n =
     \<lparr>uid = u, identity = \<lparr>digest = d, message_id = [], weak = False, stamp = []\<rparr>, msg_size = n\<rparr>"

theorem candidates_exact_witness:
  "candidates [sample_message 9 ''d'' 5, sample_message 4 ''d'' 5] = candidates [sample_message 4 ''d'' 5, sample_message 9 ''d'' 5]"
proof -
  let ?m = "[sample_message 9 ''d'' 5, sample_message 4 ''d'' 5]"
  have d: "distinct (map uid ?m)" by (simp add: sample_message_def)
  have "mset ?m = mset [sample_message 4 ''d'' 5, sample_message 9 ''d'' 5]" by simp
  with candidates_exact [OF d] show ?thesis by blast
qed

text \<open>
  C30: Partition never removes every copy. For any group Candidates produced and any claims, the
  survivor is a message of the group, the victims are exactly the other messages of the group (at
  least one, and never the survivor), and if the state database claims any message of the group
  then the survivor is a claimed one.
\<close>

theorem partition_keeps_one:
  assumes "distinct (map uid msgs)" and "g \<in> set (candidates msgs)"
    and "partition_group claimed g = (s, victims)"
  shows "s \<in> set (messages g) \<and> set victims = set (messages g) - {s} \<and> victims \<noteq> []
       \<and> length victims + 1 = length (messages g)
       \<and> (\<forall>c m. claimed = Some c \<and> m \<in> set (messages g) \<and> c (uid m) \<longrightarrow> c (uid s))"
proof -
  from assms(2) obtain k where k: "g = mk_group msgs k" and l: "2 \<le> length (messages g)"
    by (auto simp: set_candidates length_messages)
  have s: "s = survivor_of claimed (messages g)" and v: "victims = filter (\<lambda>m. uid m \<noteq> uid s) (messages g)"
    using assms(3) by (auto simp: partition_group_def Let_def)
  from l have "messages g \<noteq> []" by auto
  then have mem: "s \<in> set (messages g)" unfolding s by (rule survivor_in)
  have "sorted_wrt (<) (map uid (messages g))"
    using sorted_mk_group [OF assms(1), of k] by (simp add: k sorted_wrt_map)
  then have d: "distinct (map uid (messages g))" using strict_sorted_iff by blast
  then have inj: "inj_on uid (set (messages g))" by (simp add: distinct_map)
  have vs: "set victims = set (messages g) - {s}" using inj mem by (auto simp: v inj_on_def)
  have "distinct victims" using d by (simp add: v distinct_map)
  then have len: "length victims = length (messages g) - 1"
    using d mem vs distinct_card [of victims] distinct_card [of "messages g"] by (simp add: distinct_map)
  have claims: "\<forall>c m. claimed = Some c \<and> m \<in> set (messages g) \<and> c (uid m) \<longrightarrow> c (uid s)"
    using survivor_claimed by (auto simp: s)
  have "victims \<noteq> [] \<and> length victims + 1 = length (messages g)" using len l by (cases victims) auto
  with mem vs claims show ?thesis by blast
qed

theorem partition_keeps_one_witness:
  "fst (partition_group (Some (\<lambda>u. u = 9)) (hd (candidates [sample_message 9 ''d'' 5, sample_message 4 ''d'' 5])))
     = sample_message 9 ''d'' 5"
proof -
  let ?m = "[sample_message 9 ''d'' 5, sample_message 4 ''d'' 5]"
  let ?g = "mk_group ?m (key_of (sample_message 9 ''d'' 5))"
  have c: "candidates ?m = [?g]" by code_simp
  have g: "set (messages ?g) = set ?m" by code_simp
  obtain s victims where p: "partition_group (Some (\<lambda>u. u = 9)) ?g = (s, victims)" by fastforce
  have d: "distinct (map uid ?m)" by (simp add: sample_message_def)
  have "?g \<in> set (candidates ?m)" by (simp add: c)
  from partition_keeps_one [OF d this p]
  have s: "s \<in> set ?m" and u: "\<And>m. m \<in> set ?m \<Longrightarrow> uid m = 9 \<Longrightarrow> uid s = 9"
    unfolding g by blast+
  have "uid s = 9" by (rule u [of "sample_message 9 ''d'' 5"]) (simp_all add: sample_message_def)
  with s have "s = sample_message 9 ''d'' 5" by (auto simp: sample_message_def)
  with c p show ?thesis by (simp only: list.sel fst_conv)
qed

end
