(* ===== verification/FolderPlan.thy ===== *)
theory FolderPlan
  imports Prelude "HOL-Library.Product_Lexorder" "HOL-Library.Multiset"
begin

text \<open>
  internal/folder: which source mailbox is copied to which destination mailbox. \<open>build\<close> is the
  whole of \<open>Build\<close>: role detection, filters, name translation, collision check, creation order.
  A compiled pattern is its match function. Go maps are finite maps or association lists; where
  the code iterates one it sorts afterwards, so the model lists the keys in insertion order.
  Strings hold the bytes of the UTF-8 names in the source.
\<close>

section \<open>Roles\<close>

datatype role =
    RoleNone | RoleInbox | RoleAll | RoleArchive | RoleDrafts | RoleFlagged
  | RoleImportant | RoleJunk | RoleSent | RoleTrash

definition attr :: "string \<Rightarrow> string" where
  "attr s = CHR 0x5C # s"

fun role_text :: "role \<Rightarrow> string" where
  "role_text RoleNone = ''''"
| "role_text RoleInbox = ''INBOX''"
| "role_text RoleAll = attr ''All''"
| "role_text RoleArchive = attr ''Archive''"
| "role_text RoleDrafts = attr ''Drafts''"
| "role_text RoleFlagged = attr ''Flagged''"
| "role_text RoleImportant = attr ''Important''"
| "role_text RoleJunk = attr ''Junk''"
| "role_text RoleSent = attr ''Sent''"
| "role_text RoleTrash = attr ''Trash''"

fun virtual :: "role \<Rightarrow> bool" where
  "virtual RoleAll = True"
| "virtual RoleFlagged = True"
| "virtual RoleImportant = True"
| "virtual _ = False"

definition name_roles :: "(string \<times> role) list" where
  "name_roles =
     [(''all'', RoleAll), (''all mail'', RoleAll), (''all messages'', RoleAll),
      (''archive'', RoleArchive), (''archives'', RoleArchive), (''arkiv'', RoleArchive),
      (''drafts'', RoleDrafts), (''draft'', RoleDrafts), (''kladder'', RoleDrafts),
      (''entw'' @ [CHR 0xC3, CHR 0xBC] @ ''rfe'', RoleDrafts), (''brouillons'', RoleDrafts),
      (''borradores'', RoleDrafts), (''bozze'', RoleDrafts), (''szkice'', RoleDrafts),
      (''flagged'', RoleFlagged), (''starred'', RoleFlagged),
      (''important'', RoleImportant),
      (''junk'', RoleJunk), (''junk e-mail'', RoleJunk), (''junk email'', RoleJunk),
      (''spam'', RoleJunk), (''bulk mail'', RoleJunk),
      (''u'' @ [CHR 0xC3, CHR 0xB8] @ ''nsket e-mail'', RoleJunk),
      (''sent'', RoleSent), (''sent mail'', RoleSent), (''sent messages'', RoleSent),
      (''sent items'', RoleSent), (''sendt'', RoleSent), (''sendt post'', RoleSent),
      (''gesendet'', RoleSent), (''gesendete elemente'', RoleSent), (''gesendete objekte'', RoleSent),
      ([CHR 0xC3, CHR 0xA9] @ ''l'' @ [CHR 0xC3, CHR 0xA9] @ ''ments envoy'' @ [CHR 0xC3, CHR 0xA9] @ ''s'', RoleSent),
      (''elementos enviados'', RoleSent), (''posta inviata'', RoleSent),
      (''trash'', RoleTrash), (''deleted'', RoleTrash), (''deleted items'', RoleTrash),
      (''deleted messages'', RoleTrash), (''papirkurv'', RoleTrash), (''slettet post'', RoleTrash),
      (''papierkorb'', RoleTrash), (''corbeille'', RoleTrash), (''papelera'', RoleTrash),
      (''cestino'', RoleTrash), (''kosz'', RoleTrash)]"

section \<open>Inputs and results\<close>

record folder =
  name :: string
  attrs :: "string list"
  selectable :: bool

type_synonym pattern = "string \<Rightarrow> bool"

record options =
  source_delim :: string
  dest_delim :: string
  source_prefix :: string
  dest_prefix :: string
  automap :: bool
  include_virtual :: bool
  only_folders :: "string list"
  include_pats :: "pattern list"
  exclude_pats :: "pattern list"
  mappings :: "string \<rightharpoonup> string"
  dest_subfolder :: string

record pair =
  p_source :: string
  p_dest :: string
  p_role :: role
  create_dest :: bool

record skip =
  s_source :: string
  reason :: string
  by_request :: bool

record plan =
  pairs :: "pair list"
  skips :: "skip list"
  creates :: "string list"

section \<open>Names\<close>

definition fold_name :: "string \<Rightarrow> string" where
  "fold_name n = (if equal_fold n ''INBOX'' then ''INBOX'' else n)"

definition strip_prefix :: "string \<Rightarrow> string \<Rightarrow> string" where
  "strip_prefix n prefix =
     (if prefix = [] \<or> \<not> has_prefix n prefix then n
      else let stripped = trim_prefix n prefix in if stripped = [] then n else stripped)"

definition matches_any :: "pattern list \<Rightarrow> string \<Rightarrow> bool" where
  "matches_any ps n = list_ex (\<lambda>p. p n) ps"

fun role_from_attrs :: "string list \<Rightarrow> role" where
  "role_from_attrs [] = RoleNone"
| "role_from_attrs (a # as) =
     (case find (\<lambda>r. role_text r = a)
        [RoleAll, RoleArchive, RoleDrafts, RoleFlagged, RoleImportant, RoleJunk, RoleSent, RoleTrash] of
        Some r \<Rightarrow> r
      | None \<Rightarrow> role_from_attrs as)"

definition detect_role :: "folder \<Rightarrow> string \<Rightarrow> role" where
  "detect_role f rel =
     (if equal_fold (name f) ''INBOX'' then RoleInbox
      else let r = role_from_attrs (attrs f) in
        if r \<noteq> RoleNone then r
        else case map_of name_roles (go_lower rel) of Some r \<Rightarrow> r | None \<Rightarrow> RoleNone)"

text \<open>One turn of the loop of \<open>rolesOf\<close>: the state maps a role to the name chosen for it so far
  and to whether the server marked that mailbox itself.\<close>

definition roles_step ::
  "string \<Rightarrow> (role \<rightharpoonup> string \<times> bool) \<Rightarrow> folder \<Rightarrow> (role \<rightharpoonup> string \<times> bool)" where
  "roles_step prefix m f =
     (if \<not> selectable f then m
      else let role = detect_role f (strip_prefix (name f) prefix) in
        if role = RoleNone \<or> role = RoleInbox then m
        else let from_attr = (role_from_attrs (attrs f) = role) in
          case m role of
            None \<Rightarrow> m(role \<mapsto> (name f, from_attr))
          | Some (existing, marked) \<Rightarrow>
              if marked \<and> \<not> from_attr then m
              else if marked = from_attr \<and> existing < name f then m
              else m(role \<mapsto> (name f, from_attr)))"

definition roles_of :: "folder list \<Rightarrow> string \<Rightarrow> role \<Rightarrow> string option" where
  "roles_of folders prefix = (\<lambda>r. map_option fst (foldl (roles_step prefix) Map.empty folders r))"

definition with_subfolder :: "string \<Rightarrow> options \<Rightarrow> string" where
  "with_subfolder n opts =
     (if dest_subfolder opts = [] then n
      else let delim = (if dest_delim opts = [] then ''/'' else dest_delim opts)
           in dest_subfolder opts @ delim @ n)"

definition translate :: "string \<Rightarrow> string \<Rightarrow> string \<Rightarrow> string + string" where
  "translate rel src_delim dst_delim =
     (if dst_delim = [] then Inr rel
      else if src_delim = [] then
        (if contains rel dst_delim then Inl ''name contains the destination delimiter'' else Inr rel)
      else if src_delim = dst_delim then Inr rel
      else let parts = split_str rel src_delim in
        if list_ex (\<lambda>p. contains p dst_delim) parts
        then Inl ''name component contains the destination delimiter''
        else Inr (join_str parts dst_delim))"

definition destination_for ::
  "string \<Rightarrow> string \<Rightarrow> role \<Rightarrow> options \<Rightarrow> (role \<Rightarrow> string option) \<Rightarrow> string + string" where
  "destination_for n rel role opts by_role =
     (case mappings opts n of
        Some mapped \<Rightarrow> Inr (with_subfolder mapped opts)
      | None \<Rightarrow>
          if role = RoleInbox then Inr (with_subfolder ''INBOX'' opts)
          else case (if automap opts \<and> role \<noteq> RoleNone then by_role role else None) of
            Some named \<Rightarrow> Inr (with_subfolder named opts)
          | None \<Rightarrow>
              bind_err (translate rel (source_delim opts) (dest_delim opts))
                (\<lambda>t. Inr (with_subfolder (dest_prefix opts @ t) opts)))"

text \<open>\<open>filterReason\<close>: the reason a mailbox is left out, empty to keep it, and whether the caller
  asked for that.\<close>

definition filter_reason :: "folder \<Rightarrow> role \<Rightarrow> options \<Rightarrow> string \<times> bool" where
  "filter_reason f role opts =
     (if \<not> selectable f then (''not selectable'', False)
      else if virtual role \<and> \<not> include_virtual opts
      then (role_text role @ '' is a view over other mailboxes; copying it would duplicate them (use --include-virtual to override)'', False)
      else if only_folders opts \<noteq> [] \<and> name f \<notin> set (only_folders opts) then (''not in --folder'', True)
      else if include_pats opts \<noteq> [] \<and> \<not> matches_any (include_pats opts) (name f) then (''does not match --include'', True)
      else if matches_any (exclude_pats opts) (name f) then (''matches --exclude'', True)
      else ('''', False))"

section \<open>Creation order\<close>

definition depth :: "string \<Rightarrow> string \<Rightarrow> nat" where
  "depth n delim = (if delim = [] then 0 else length (split_str n delim) - 1)"

definition parents :: "string \<Rightarrow> string \<Rightarrow> string list" where
  "parents n delim =
     (if delim = [] then []
      else let parts = split_str n delim
           in filter (\<lambda>p. p \<noteq> []) (map (\<lambda>i. join_str (take i parts) delim) [1..<length parts]))"

text \<open>\<open>existing\<close> holds the folded names of the destination's mailboxes.\<close>

definition needed :: "pair list \<Rightarrow> (string \<rightharpoonup> string) \<Rightarrow> string \<Rightarrow> string list" where
  "needed ps existing delim =
     concat (map (\<lambda>p. if create_dest p
                      then p_dest p # filter (\<lambda>q. existing (fold_name q) = None) (parents (p_dest p) delim)
                      else []) ps)"

definition create_order :: "pair list \<Rightarrow> (string \<rightharpoonup> string) \<Rightarrow> string \<Rightarrow> string list" where
  "create_order ps existing delim =
     sort_key (\<lambda>n. (depth n delim, n)) (remdups (needed ps existing delim))"

section \<open>The plan\<close>

definition dest_names :: "folder list \<Rightarrow> string \<rightharpoonup> string" where
  "dest_names dest = foldl (\<lambda>m f. m(fold_name (name f) \<mapsto> name f)) Map.empty dest"

datatype plan_outcome = Kept pair | Left skip

definition plan_one ::
  "options \<Rightarrow> (role \<Rightarrow> string option) \<Rightarrow> (string \<rightharpoonup> string) \<Rightarrow> folder \<Rightarrow> plan_outcome" where
  "plan_one opts by_role names f =
     (let rel = strip_prefix (name f) (source_prefix opts);
          role = detect_role f rel;
          (why, asked) = filter_reason f role opts
      in if why \<noteq> [] then Left \<lparr>s_source = name f, reason = why, by_request = asked\<rparr>
         else case destination_for (name f) rel role opts by_role of
           Inl e \<Rightarrow> Left \<lparr>s_source = name f, reason = e, by_request = False\<rparr>
         | Inr target \<Rightarrow>
             (case names (fold_name target) of
                Some existing \<Rightarrow> Kept \<lparr>p_source = name f, p_dest = existing, p_role = role, create_dest = False\<rparr>
              | None \<Rightarrow> Kept \<lparr>p_source = name f, p_dest = target, p_role = role, create_dest = True\<rparr>))"

fun kept :: "plan_outcome list \<Rightarrow> pair list" where
  "kept [] = []"
| "kept (Kept p # xs) = p # kept xs"
| "kept (Left _ # xs) = kept xs"

fun left_out :: "plan_outcome list \<Rightarrow> skip list" where
  "left_out [] = []"
| "left_out (Kept _ # xs) = left_out xs"
| "left_out (Left s # xs) = s # left_out xs"

text \<open>\<open>checkCollisions\<close>: every destination claimed more than once, with the sources claiming it in
  sorted order; the error names them all.\<close>

definition claimed_by :: "pair list \<Rightarrow> string \<Rightarrow> string list" where
  "claimed_by ps d = map p_source (filter (\<lambda>p. fold_name (p_dest p) = d) ps)"

definition collisions :: "pair list \<Rightarrow> (string \<times> string list) list" where
  "collisions ps =
     sort_key fst (map (\<lambda>d. (d, sort (claimed_by ps d)))
       (filter (\<lambda>d. length (claimed_by ps d) > 1) (remdups (map (\<lambda>p. fold_name (p_dest p)) ps))))"

definition build :: "folder list \<Rightarrow> folder list \<Rightarrow> options \<Rightarrow> (string \<times> string list) list + plan" where
  "build source dest opts =
     (let by_role = roles_of dest (dest_prefix opts);
          names = dest_names dest;
          outs = map (plan_one opts by_role names) source;
          ps = kept outs
      in if collisions ps \<noteq> [] then Inl (collisions ps)
         else let sorted_ps = sort_key p_source ps
              in Inr \<lparr>pairs = sorted_ps,
                      skips = sort_key s_source (left_out outs),
                      creates = create_order sorted_ps names (dest_delim opts)\<rparr>)"

section \<open>Accounting\<close>

lemma plan_one_source:
  "(case plan_one opts r ns f of Kept p \<Rightarrow> p_source p = name f | Left s \<Rightarrow> s_source s = name f)"
  by (simp add: plan_one_def Let_def split: prod.splits sum.splits option.splits)

lemma outcomes_accounted:
  "mset (map p_source (kept (map (plan_one opts r ns) fs))) + mset (map s_source (left_out (map (plan_one opts r ns) fs)))
     = mset (map name fs)"
proof (induction fs)
  case Nil
  then show ?case by simp
next
  case (Cons f fs)
  have src: "case plan_one opts r ns f of Kept p \<Rightarrow> p_source p = name f | Left s \<Rightarrow> s_source s = name f"
    by (rule plan_one_source)
  show ?case using src Cons.IH by (cases "plan_one opts r ns f") auto
qed

lemma set_kept: "p \<in> set (kept (map g fs)) \<longleftrightarrow> (\<exists>f \<in> set fs. g f = Kept p)"
  by (induction fs) (auto split: plan_outcome.splits, (case_tac "g a"; auto)+)

lemma set_left_out: "s \<in> set (left_out (map g fs)) \<longleftrightarrow> (\<exists>f \<in> set fs. g f = Left s)"
  by (induction fs) (auto split: plan_outcome.splits, (case_tac "g a"; auto)+)

lemma plan_one_Kept:
  assumes "plan_one opts r ns f = Kept p"
  shows "p_source p = name f"
    and "p_role p = detect_role f (strip_prefix (name f) (source_prefix opts))"
    and "fst (filter_reason f (p_role p) opts) = []"
    and "create_dest p \<Longrightarrow> ns (fold_name (p_dest p)) = None"
  using assms by (auto simp: plan_one_def Let_def split: prod.splits sum.splits option.splits if_splits)

section \<open>Collisions\<close>

lemma claimed_count: "length (claimed_by ps d) = count_list (map (\<lambda>p. fold_name (p_dest p)) ps) d"
  by (induction ps) (auto simp: claimed_by_def)

lemma distinct_count_list: "distinct xs \<longleftrightarrow> (\<forall>x \<in> set xs. \<not> count_list xs x > 1)"
proof -
  have "distinct xs \<longleftrightarrow> (\<forall>x \<in> set xs. count_list xs x = 1)"
    by (auto simp: distinct_count_atmost_1 Ball_def simp flip: count_mset)
  moreover have "count_list xs x = 1 \<longleftrightarrow> \<not> count_list xs x > 1" if "x \<in> set xs" for x
    using that count_list_0_iff [of xs x] by linarith
  ultimately show ?thesis by blast
qed

lemma collisions_empty:
  "collisions ps = [] \<longleftrightarrow> distinct (map (\<lambda>p. fold_name (p_dest p)) ps)"
proof -
  have "collisions ps = [] \<longleftrightarrow> set (collisions ps) = {}" by simp
  also have "\<dots> \<longleftrightarrow> (\<forall>d \<in> set (map (\<lambda>p. fold_name (p_dest p)) ps). \<not> length (claimed_by ps d) > 1)"
    by (auto simp: collisions_def filter_empty_conv)
  finally show ?thesis unfolding claimed_count distinct_count_list .
qed

lemma in_collisions:
  assumes "(d, srcs) \<in> set (collisions ps)"
  shows "1 < length srcs" and "mset srcs = mset (claimed_by ps d)"
  using assms by (auto simp: collisions_def)

lemma build_Inr:
  assumes "build source dest opts = Inr pl"
  shows "mset (pairs pl) = mset (kept (map (plan_one opts (roles_of dest (dest_prefix opts)) (dest_names dest)) source))"
    and "mset (skips pl) = mset (left_out (map (plan_one opts (roles_of dest (dest_prefix opts)) (dest_names dest)) source))"
    and "distinct (map (\<lambda>p. fold_name (p_dest p)) (pairs pl))"
    and "creates pl = create_order (pairs pl) (dest_names dest) (dest_delim opts)"
    and "sorted (map p_source (pairs pl))"
proof -
  let ?ps = "kept (map (plan_one opts (roles_of dest (dest_prefix opts)) (dest_names dest)) source)"
  from assms have c: "collisions ?ps = []"
    and pl: "pairs pl = sort_key p_source ?ps" "skips pl = sort_key s_source (left_out (map (plan_one opts (roles_of dest (dest_prefix opts)) (dest_names dest)) source))"
      "creates pl = create_order (pairs pl) (dest_names dest) (dest_delim opts)"
    by (auto simp: build_def Let_def split: if_splits)
  show "mset (pairs pl) = mset ?ps" "mset (skips pl) = mset (left_out (map (plan_one opts (roles_of dest (dest_prefix opts)) (dest_names dest)) source))"
    "creates pl = create_order (pairs pl) (dest_names dest) (dest_delim opts)" "sorted (map p_source (pairs pl))"
    using pl by simp_all
  have "mset (map (\<lambda>p. fold_name (p_dest p)) (pairs pl)) = mset (map (\<lambda>p. fold_name (p_dest p)) ?ps)"
    using pl by simp
  from mset_eq_imp_distinct_iff [OF this] c show "distinct (map (\<lambda>p. fold_name (p_dest p)) (pairs pl))"
    by (simp add: collisions_empty)
qed

section \<open>Hierarchies\<close>

lemma join_append: "xs \<noteq> [] \<Longrightarrow> ys \<noteq> [] \<Longrightarrow> join_str (xs @ ys) sep = join_str xs sep @ sep @ join_str ys sep"
proof (induction xs)
  case (Cons x xs)
  then show ?case by (cases xs; cases ys) simp_all
qed simp

lemma join_bytes: "x \<in> set (join_str ps sep) \<Longrightarrow> x \<in> set sep \<or> (\<exists>p \<in> set ps. x \<in> set p)"
  by (induction ps sep rule: join_str.induct) auto

lemma part_in_join: "p \<in> set ps \<Longrightarrow> set p \<subseteq> set (join_str ps sep)"
  by (induction ps sep rule: join_str.induct) auto

lemma split_at_append: "split_at [d] acc (p @ d # r) = split_at [d] acc p @ split_at [d] [] r"
proof (induction p arbitrary: acc)
  case Nil
  then show ?case by (simp add: split_at_sep)
next
  case (Cons c p)
  then show ?case by (cases "c = d") (simp_all add: split_at.simps(2) has_prefix_def)
qed

lemma split_append: "split_str (p @ d # r) [d] = split_str p [d] @ split_str r [d]"
  by (simp add: split_str_def split_at_append)

lemma length_split_at: "length (split_at [d] acc s) = count_list s d + 1"
  by (induction s arbitrary: acc) (auto simp: split_at.simps(2) has_prefix_def)

lemma depth_count: "depth n [d] = count_list n d"
  by (simp add: depth_def split_str_def length_split_at)

lemma set_parents: "p \<in> set (parents n [d]) \<longleftrightarrow> p \<noteq> [] \<and> (\<exists>r. n = p @ d # r)"
proof
  assume "p \<in> set (parents n [d])"
  then obtain i where i: "1 \<le> i" "i < length (split_str n [d])"
    and p: "p = join_str (take i (split_str n [d])) [d]" and ne: "p \<noteq> []"
    by (auto simp: parents_def Let_def)
  let ?s = "split_str n [d]"
  have "n = join_str (take i ?s @ drop i ?s) [d]" by simp
  also have "\<dots> = p @ [d] @ join_str (drop i ?s) [d]"
    unfolding p by (rule join_append) (use i in auto)
  finally show "p \<noteq> [] \<and> (\<exists>r. n = p @ d # r)" using ne by auto
next
  assume a: "p \<noteq> [] \<and> (\<exists>r. n = p @ d # r)"
  then obtain r where n: "n = p @ d # r" by blast
  let ?i = "length (split_str p [d])"
  have "take ?i (split_str n [d]) = split_str p [d]" by (simp add: n split_append)
  then have "p = join_str (take ?i (split_str n [d])) [d]" by simp
  moreover have "1 \<le> ?i" by (simp add: Suc_le_eq)
  moreover have "?i < length (split_str n [d])" by (simp add: n split_append)
  ultimately show "p \<in> set (parents n [d])" using a by (auto simp: parents_def Let_def)
qed

lemma parents_trans: "q \<in> set (parents p [d]) \<Longrightarrow> p \<in> set (parents n [d]) \<Longrightarrow> q \<in> set (parents n [d])"
  unfolding set_parents by auto

lemma depth_parent: "q \<in> set (parents n [d]) \<Longrightarrow> depth q [d] < depth n [d]"
  unfolding set_parents depth_count by auto

lemma dest_names_None: "dest_names dest k = None \<longleftrightarrow> k \<notin> fold_name ` name ` set dest"
  unfolding dest_names_def by (induction dest rule: rev_induct) auto

lemma in_creates:
  "n \<in> set (create_order ps ex d) \<longleftrightarrow>
     (\<exists>p \<in> set ps. create_dest p \<and> (n = p_dest p \<or> n \<in> set (parents (p_dest p) d) \<and> ex (fold_name n) = None))"
  by (auto simp: create_order_def needed_def split: if_splits)

lemma create_order_sorted: "sorted (map (\<lambda>n. depth n d) (create_order ps ex d))"
proof -
  have "sorted (map (\<lambda>n. (depth n d, n)) (create_order ps ex d))"
    by (simp add: create_order_def)
  then show ?thesis
    unfolding sorted_map by (rule sorted_wrt_mono_rel [rotated]) (simp, linarith)
qed

lemma earlier_in_order:
  assumes "sorted (map f (xs @ n # ys))" and "q \<in> set (xs @ n # ys)" and "f q < f n"
  shows "q \<in> set xs"
  using assms by (auto simp: sorted_append not_less [symmetric])

lemma parent_created_first:
  assumes order: "create_order ps ex [d] = xs @ n # ys" and q: "q \<in> set (parents n [d])"
    and missing: "ex (fold_name q) = None"
  shows "q \<in> set xs"
proof -
  have "n \<in> set (create_order ps ex [d])" using order by simp
  then obtain p where p: "p \<in> set ps" "create_dest p" and n: "n = p_dest p \<or> n \<in> set (parents (p_dest p) [d])"
    unfolding in_creates by blast
  from n q have "q \<in> set (parents (p_dest p) [d])" using parents_trans by blast
  with p missing have "q \<in> set (xs @ n # ys)" unfolding order [symmetric] in_creates by blast
  moreover have "sorted (map (\<lambda>n. depth n [d]) (xs @ n # ys))"
    using create_order_sorted [of "[d]" ps ex] unfolding order .
  ultimately show ?thesis using depth_parent [OF q] by (blast intro: earlier_in_order)
qed

section \<open>Roles\<close>

definition role_candidates :: "role \<Rightarrow> string \<Rightarrow> folder list \<Rightarrow> folder list" where
  "role_candidates r prefix fs = filter (\<lambda>f. selectable f \<and> detect_role f (strip_prefix (name f) prefix) = r) fs"

definition role_best :: "role \<Rightarrow> string \<Rightarrow> folder list \<Rightarrow> folder list" where
  "role_best r prefix fs =
     (let marked = filter (\<lambda>f. role_from_attrs (attrs f) = r) (role_candidates r prefix fs)
      in if marked \<noteq> [] then marked else role_candidates r prefix fs)"

lemma roles_fold:
  assumes "r \<noteq> RoleNone" "r \<noteq> RoleInbox"
  shows "foldl (roles_step prefix) Map.empty fs r =
    (if role_candidates r prefix fs = [] then None
     else Some (Min (name ` set (role_best r prefix fs)),
                \<exists>f \<in> set (role_candidates r prefix fs). role_from_attrs (attrs f) = r))"
proof (induction fs rule: rev_induct)
  case Nil
  then show ?case by (simp add: role_candidates_def)
next
  case (snoc f fs)
  show ?case
  proof (cases "selectable f \<and> detect_role f (strip_prefix (name f) prefix) = r")
    case False
    then have "role_candidates r prefix (fs @ [f]) = role_candidates r prefix fs"
      "role_best r prefix (fs @ [f]) = role_best r prefix fs"
      by (auto simp: role_candidates_def role_best_def)
    moreover have "roles_step prefix m f r = m r" for m
      using False by (auto simp: roles_step_def Let_def split: option.splits)
    ultimately show ?thesis using snoc by simp
  next
    case True
    let ?C = "role_candidates r prefix fs" and ?m = "\<lambda>f. role_from_attrs (attrs f) = r"
    have C: "role_candidates r prefix (fs @ [f]) = ?C @ [f]"
      using True by (simp add: role_candidates_def)
    have step: "roles_step prefix m f r =
      (case m r of None \<Rightarrow> Some (name f, ?m f)
       | Some (e, marked) \<Rightarrow> if marked \<and> \<not> ?m f then m r else if marked = ?m f \<and> e < name f then m r
                            else Some (name f, ?m f))" for m
      using True assms by (auto simp: roles_step_def Let_def split: option.splits)
    show ?thesis
    proof (cases "?C = []")
      case True
      with snoc C show ?thesis by (simp add: step role_best_def)
    next
      case False
      let ?M = "filter ?m ?C"
      have mins: "Min (insert (name f) (name ` A)) = (if Min (name ` A) < name f then Min (name ` A) else name f)"
        if "finite A" "A \<noteq> {}" for A
        using that by (simp add: min_def not_le [symmetric])
      have marked: "(\<exists>f \<in> set ?C. ?m f) \<longleftrightarrow> ?M \<noteq> []" by (auto simp: filter_empty_conv)
      have ms: "set ?M \<noteq> {}" if "?M \<noteq> []" using that by (metis set_empty)
      show ?thesis
        using False snoc
        by (cases "?M = []"; cases "?m f")
          (simp_all add: C step role_best_def marked Let_def mins ms del: set_filter, (auto simp: filter_empty_conv min_def not_less)?)
    qed
  qed
qed

lemma roles_of_best:
  "roles_of fs prefix r =
     (if r = RoleNone \<or> r = RoleInbox \<or> role_candidates r prefix fs = [] then None
      else Some (Min (name ` set (role_best r prefix fs))))"
proof (cases "r = RoleNone \<or> r = RoleInbox")
  case True
  have "foldl (roles_step prefix) Map.empty fs r = None"
    by (induction fs rule: rev_induct) (use True in \<open>auto simp: roles_step_def Let_def split: option.splits\<close>)
  then have "roles_of fs prefix r = None" by (simp add: roles_of_def)
  with True show ?thesis by presburger
next
  case False
  with roles_fold [of r prefix fs] show ?thesis by (simp add: roles_of_def)
qed

section \<open>What the filters let through\<close>

definition passes :: "options \<Rightarrow> folder \<Rightarrow> role \<Rightarrow> bool" where
  "passes opts f r \<longleftrightarrow>
     selectable f \<and> (virtual r \<longrightarrow> include_virtual opts)
     \<and> (only_folders opts = [] \<or> name f \<in> set (only_folders opts))
     \<and> (include_pats opts = [] \<or> (\<exists>p \<in> set (include_pats opts). p (name f)))
     \<and> (\<forall>p \<in> set (exclude_pats opts). \<not> p (name f))"

lemma filter_reason_passes: "fst (filter_reason f r opts) = [] \<longleftrightarrow> passes opts f r"
  by (auto simp: filter_reason_def passes_def matches_any_def list_ex_iff)

lemma plan_one_Left: "plan_one opts r ns f = Left s \<Longrightarrow> s_source s = name f"
  using plan_one_source [where opts = opts and r = r and ns = ns and f = f] by simp

lemma left_out_reason:
  assumes "plan_one opts r ns f = Left s"
  shows "reason s \<noteq> []" and "by_request s \<Longrightarrow> \<not> passes opts f (detect_role f (strip_prefix (name f) (source_prefix opts)))"
proof -
  show "reason s \<noteq> []"
    using assms
    by (auto simp: plan_one_def Let_def destination_for_def translate_def bind_err_def
        split: prod.splits sum.splits option.splits if_splits)
  show "by_request s \<Longrightarrow> \<not> passes opts f (detect_role f (strip_prefix (name f) (source_prefix opts)))"
    using assms
    by (auto simp: plan_one_def Let_def filter_reason_passes [symmetric]
        split: prod.splits sum.splits option.splits if_splits)
qed

section \<open>Properties\<close>

text \<open>
  C31: A plan never merges two source mailboxes into one destination: the destinations of a plan
  that is returned are pairwise distinct (INBOX compared without case), and a refusal is never
  spurious, every collision it names being a destination that at least two source mailboxes
  really translate to.
\<close>

theorem plan_never_merges:
  "case build source dest opts of
     Inr pl \<Rightarrow> distinct (map (\<lambda>p. fold_name (p_dest p)) (pairs pl))
   | Inl cs \<Rightarrow> cs \<noteq> [] \<and>
       (\<forall>(d, srcs) \<in> set cs. 1 < length srcs \<and>
          (\<forall>n \<in> set srcs. \<exists>f \<in> set source. name f = n \<and>
             (\<exists>p. plan_one opts (roles_of dest (dest_prefix opts)) (dest_names dest) f = Kept p
                  \<and> fold_name (p_dest p) = d)))"
proof (cases "build source dest opts")
  case (Inr pl)
  then show ?thesis using build_Inr(3) [OF Inr] by simp
next
  case (Inl cs)
  let ?one = "plan_one opts (roles_of dest (dest_prefix opts)) (dest_names dest)"
  from Inl have cs: "cs = collisions (kept (map ?one source))" and ne: "cs \<noteq> []"
    by (auto simp: build_def Let_def split: if_splits)
  have "1 < length srcs \<and> (\<forall>n \<in> set srcs. \<exists>f \<in> set source. name f = n
          \<and> (\<exists>p. ?one f = Kept p \<and> fold_name (p_dest p) = d))"
    if c: "(d, srcs) \<in> set cs" for d srcs
  proof (intro conjI ballI)
    show "1 < length srcs" using c unfolding cs by (rule in_collisions)
    fix n assume n: "n \<in> set srcs"
    have "mset srcs = mset (claimed_by (kept (map ?one source)) d)"
      using c unfolding cs by (rule in_collisions)
    then have "set srcs = set (claimed_by (kept (map ?one source)) d)" by (rule mset_eq_setD)
    with n obtain p where p: "p \<in> set (kept (map ?one source))" "fold_name (p_dest p) = d" "p_source p = n"
      by (auto simp: claimed_by_def)
    from p(1) obtain f where f: "f \<in> set source" "?one f = Kept p" unfolding set_kept by blast
    have "name f = n" using p(3) plan_one_Kept(1) [OF f(2)] by simp
    with p(2) f show "\<exists>f \<in> set source. name f = n \<and> (\<exists>p. ?one f = Kept p \<and> fold_name (p_dest p) = d)" by blast
  qed
  with Inl ne show ?thesis by auto
qed

theorem plan_never_merges_witness:
  "build [\<lparr>name = ''A'', attrs = [], selectable = True\<rparr>, \<lparr>name = ''a.b'', attrs = [], selectable = True\<rparr>]
     [] \<lparr>source_delim = ''.'', dest_delim = ''/'', source_prefix = [], dest_prefix = [], automap = True,
         include_virtual = False, only_folders = [], include_pats = [], exclude_pats = [],
         mappings = [''A'' \<mapsto> ''a/b''], dest_subfolder = []\<rparr> = Inl [(''a/b'', [''A'', ''a.b''])]
   \<and> 1 < length [''A'', ''a.b'']"
proof -
  let ?fs = "[\<lparr>name = ''A'', attrs = [], selectable = True\<rparr>, \<lparr>name = ''a.b'', attrs = [], selectable = True\<rparr>]"
  let ?o = "\<lparr>source_delim = ''.'', dest_delim = ''/'', source_prefix = [], dest_prefix = [], automap = True,
         include_virtual = False, only_folders = [], include_pats = [], exclude_pats = [],
         mappings = [''A'' \<mapsto> ''a/b''], dest_subfolder = []\<rparr>"
  have b: "build ?fs [] ?o = Inl [(''a/b'', [''A'', ''a.b''])]" by code_simp
  with plan_never_merges [where source = ?fs and dest = "[]" and opts = ?o] show ?thesis by simp
qed

text \<open>
  C37: No mailbox is lost by planning: in a plan that is returned every source mailbox is either
  paired or skipped, exactly once (as multisets of names); what is paired passed every filter
  (selectable, not a virtual view unless asked, in \<open>--folder\<close>, matching an include, matching no
  exclude), and every skip carries a reason and, if marked as the caller's own request, is a
  mailbox the filters really rule out.
\<close>

theorem plan_accounts_for_every_folder:
  assumes "build source dest opts = Inr pl"
  shows "mset (map p_source (pairs pl)) + mset (map s_source (skips pl)) = mset (map name source)
    \<and> (\<forall>p \<in> set (pairs pl). \<exists>f \<in> set source. name f = p_source p \<and> passes opts f (p_role p)
          \<and> p_role p = detect_role f (strip_prefix (name f) (source_prefix opts)))
    \<and> (\<forall>s \<in> set (skips pl). reason s \<noteq> [] \<and> (by_request s \<longrightarrow> (\<exists>f \<in> set source. name f = s_source s
          \<and> \<not> passes opts f (detect_role f (strip_prefix (name f) (source_prefix opts))))))"
proof (intro conjI ballI)
  let ?one = "plan_one opts (roles_of dest (dest_prefix opts)) (dest_names dest)"
  show "mset (map p_source (pairs pl)) + mset (map s_source (skips pl)) = mset (map name source)"
    using outcomes_accounted [of opts "roles_of dest (dest_prefix opts)" "dest_names dest" source]
    by (simp add: build_Inr(1,2) [OF assms])
  fix p assume "p \<in> set (pairs pl)"
  then have "p \<in> set (kept (map ?one source))" using mset_eq_setD [OF build_Inr(1) [OF assms]] by blast
  then obtain f where f: "f \<in> set source" "?one f = Kept p" unfolding set_kept by blast
  with plan_one_Kept [OF f(2)] show "\<exists>f \<in> set source. name f = p_source p \<and> passes opts f (p_role p)
          \<and> p_role p = detect_role f (strip_prefix (name f) (source_prefix opts))"
    unfolding filter_reason_passes by metis
next
  let ?one = "plan_one opts (roles_of dest (dest_prefix opts)) (dest_names dest)"
  fix s assume "s \<in> set (skips pl)"
  then have "s \<in> set (left_out (map ?one source))" using mset_eq_setD [OF build_Inr(2) [OF assms]] by blast
  then obtain f where f: "f \<in> set source" "?one f = Left s" unfolding set_left_out by blast
  show "reason s \<noteq> []" using f(2) by (rule left_out_reason)
  show "by_request s \<longrightarrow> (\<exists>f \<in> set source. name f = s_source s
          \<and> \<not> passes opts f (detect_role f (strip_prefix (name f) (source_prefix opts))))"
    using f left_out_reason(2) [OF f(2)] plan_one_Left [OF f(2)] by auto
qed

theorem plan_accounts_for_every_folder_witness:
  "map s_source [\<lparr>s_source = ''X'', reason = ''matches --exclude'', by_request = True\<rparr>] = [''X''] \<and>
   passes \<lparr>source_delim = ''.'', dest_delim = ''/'', source_prefix = [], dest_prefix = [], automap = True,
         include_virtual = False, only_folders = [], include_pats = [], exclude_pats = [\<lambda>n. n = ''X''],
         mappings = Map.empty, dest_subfolder = []\<rparr> \<lparr>name = ''a.b'', attrs = [], selectable = True\<rparr> RoleNone"
proof -
  let ?fs = "[\<lparr>name = ''X'', attrs = [], selectable = True\<rparr>, \<lparr>name = ''a.b'', attrs = [], selectable = True\<rparr>]"
  let ?o = "\<lparr>source_delim = ''.'', dest_delim = ''/'', source_prefix = [], dest_prefix = [], automap = True,
         include_virtual = False, only_folders = [], include_pats = [], exclude_pats = [\<lambda>n. n = ''X''],
         mappings = Map.empty, dest_subfolder = []\<rparr>"
  have b: "build ?fs [] ?o = Inr \<lparr>pairs = [\<lparr>p_source = ''a.b'', p_dest = ''a/b'', p_role = RoleNone, create_dest = True\<rparr>],
      skips = [\<lparr>s_source = ''X'', reason = ''matches --exclude'', by_request = True\<rparr>], creates = [''a'', ''a/b'']\<rparr>"
    by code_simp
  from plan_accounts_for_every_folder [OF b] show ?thesis by auto
qed

text \<open>
  The mailboxes a plan creates are exactly the missing ones: each destination the plan marked
  for creation and each of its ancestors the destination does not already hold, every one once,
  none of them existing; and a parent is always created before its child, whatever order the
  pairs are in.
\<close>

theorem creates_parents_first:
  assumes "build source dest opts = Inr pl" and "dest_delim opts = [d]"
  shows "distinct (creates pl)
    \<and> (\<forall>n. n \<in> set (creates pl) \<longleftrightarrow> fold_name n \<notin> fold_name ` name ` set dest
          \<and> (\<exists>p \<in> set (pairs pl). create_dest p \<and> (n = p_dest p \<or> n \<noteq> [] \<and> (\<exists>r. p_dest p = n @ d # r))))
    \<and> (\<forall>before n after q r. creates pl = before @ n # after \<and> n = q @ d # r \<and> q \<noteq> []
          \<longrightarrow> q \<in> set before \<or> fold_name q \<in> fold_name ` name ` set dest)"
proof (intro conjI allI)
  have cr: "creates pl = create_order (pairs pl) (dest_names dest) [d]"
    using build_Inr(4) [OF assms(1)] assms(2) by simp
  show "distinct (creates pl)" unfolding cr by (simp add: create_order_def)
  have missing: "fold_name (p_dest p) \<notin> fold_name ` name ` set dest" if "p \<in> set (pairs pl)" "create_dest p" for p
  proof -
    have "p \<in> set (kept (map (plan_one opts (roles_of dest (dest_prefix opts)) (dest_names dest)) source))"
      using that(1) mset_eq_setD [OF build_Inr(1) [OF assms(1)]] by blast
    then obtain f where "plan_one opts (roles_of dest (dest_prefix opts)) (dest_names dest) f = Kept p"
      unfolding set_kept by blast
    from plan_one_Kept(4) [OF this that(2)] show ?thesis unfolding dest_names_None .
  qed
  fix n
  show "n \<in> set (creates pl) \<longleftrightarrow> fold_name n \<notin> fold_name ` name ` set dest
          \<and> (\<exists>p \<in> set (pairs pl). create_dest p \<and> (n = p_dest p \<or> n \<noteq> [] \<and> (\<exists>r. p_dest p = n @ d # r)))"
    unfolding cr in_creates set_parents dest_names_None using missing by blast
next
  fix before n after q r
  show "creates pl = before @ n # after \<and> n = q @ d # r \<and> q \<noteq> []
          \<longrightarrow> q \<in> set before \<or> fold_name q \<in> fold_name ` name ` set dest"
  proof
    assume a: "creates pl = before @ n # after \<and> n = q @ d # r \<and> q \<noteq> []"
    then have "create_order (pairs pl) (dest_names dest) [d] = before @ n # after"
      using build_Inr(4) [OF assms(1)] assms(2) by simp
    moreover have "q \<in> set (parents n [d])" using a unfolding set_parents by blast
    ultimately show "q \<in> set before \<or> fold_name q \<in> fold_name ` name ` set dest"
      by (metis parent_created_first dest_names_None)
  qed
qed

theorem creates_parents_first_witness:
  "distinct [''a'', ''a/b''] \<and> ''a'' \<in> set [''a'', ''a/b'']"
proof -
  let ?fs = "[\<lparr>name = ''a.b'', attrs = [], selectable = True\<rparr>]"
  let ?o = "\<lparr>source_delim = ''.'', dest_delim = ''/'', source_prefix = [], dest_prefix = [], automap = True,
         include_virtual = False, only_folders = [], include_pats = [], exclude_pats = [],
         mappings = Map.empty, dest_subfolder = []\<rparr>"
  let ?pl = "\<lparr>pairs = [\<lparr>p_source = ''a.b'', p_dest = ''a/b'', p_role = RoleNone, create_dest = True\<rparr>],
      skips = [], creates = [''a'', ''a/b'']\<rparr>"
  have "build ?fs [] ?o = Inr ?pl" by code_simp
  from creates_parents_first [OF this, of "CHR ''/''"] show ?thesis by simp
qed

text \<open>
  Translating a name between hierarchy delimiters loses nothing: a name that translates at all
  translates back to itself with the delimiters exchanged, at the same depth of the hierarchy; so
  two distinct source mailboxes never translate to one name. It is refused exactly when a
  component contains the destination's delimiter.
\<close>

theorem translate_round_trip:
  assumes "a \<noteq> b"
  shows "(case translate rel [a] [b] of
      Inr t \<Rightarrow> translate t [b] [a] = Inr rel \<and> depth t [b] = depth rel [a]
    | Inl e \<Rightarrow> b \<in> set rel)"
proof (cases "b \<in> set rel")
  case True
  have "\<exists>p \<in> set (split_str rel [a]). b \<in> set p"
  proof (rule ccontr)
    assume "\<not> (\<exists>p \<in> set (split_str rel [a]). b \<in> set p)"
    then have "b \<notin> set (join_str (split_str rel [a]) [a])"
      using join_bytes assms by fastforce
    with True show False by simp
  qed
  then show ?thesis using True assms by (auto simp: translate_def list_ex_iff contains_char Let_def)
next
  case False
  let ?parts = "split_str rel [a]"
  have free: "b \<notin> set p" if "p \<in> set ?parts" for p
  proof -
    have "set p \<subseteq> set (join_str ?parts [a])" using that by (rule part_in_join)
    with False show ?thesis by auto
  qed
  then have t: "translate rel [a] [b] = Inr (join_str ?parts [b])"
    using assms by (auto simp: translate_def list_ex_iff contains_char Let_def)
  have again: "split_str (join_str ?parts [b]) [b] = ?parts"
    by (rule split_join) (use free in auto)
  have "a \<notin> set p" if "p \<in> set ?parts" for p using that by (rule split_parts_free)
  then have "translate (join_str ?parts [b]) [b] [a] = Inr rel"
    using assms again by (auto simp: translate_def list_ex_iff contains_char Let_def)
  with t again show ?thesis by (simp add: depth_def)
qed

theorem translate_round_trip_witness:
  "translate ''Work.2024'' ''.'' ''/'' = Inr ''Work/2024'' \<and> translate ''Work/2024'' ''/'' ''.'' = Inr ''Work.2024''"
proof -
  have "translate ''Work.2024'' ''.'' ''/'' = Inr ''Work/2024''" by code_simp
  with translate_round_trip [of "CHR ''.''" "CHR ''/''" "''Work.2024''"] show ?thesis by simp
qed

text \<open>
  The mailbox chosen to play a role on the destination does not depend on the order the server
  lists its mailboxes in: among the selectable mailboxes with that role, those the server itself
  marked with the role's attribute come before those recognised by name, and of these the first in
  byte order is taken. INBOX and no role are never mapped this way.
\<close>

theorem roles_of_exact:
  "roles_of fs prefix r =
     (let cs = filter (\<lambda>f. selectable f \<and> detect_role f (strip_prefix (name f) prefix) = r) fs;
          marked = filter (\<lambda>f. role_from_attrs (attrs f) = r) cs
      in if r = RoleNone \<or> r = RoleInbox \<or> cs = [] then None
         else Some (Min (name ` set (if marked \<noteq> [] then marked else cs))))"
  unfolding roles_of_best role_best_def role_candidates_def Let_def by simp

end
