(* ===== verification/SearchKey.thy ===== *)
theory SearchKey
  imports Prelude "HOL-Library.Code_Target_Numeral"
begin

text \<open>
  internal/searchkey: the parser of IMAP SEARCH keys. \<open>lex\<close> splits the text, \<open>keys\<close> and
  \<open>key\<close> are the recursive descent (the parser's state is the list of tokens left), and a
  \<open>criteria\<close> is go-imap's SearchCriteria: the fields that hold no criteria of their own in the
  record \<open>flat\<close>, and the two that nest. A go-imap number set is the list of AddNum and AddRange
  calls that built it; what it contains is go-imap's business and stays a parameter of LocalSearch.
  A date is a \<open>go_time\<close>, whose zero is also "no bound".
\<close>

section \<open>Criteria\<close>

datatype num_op = AddNum nat | AddRange nat nat

type_synonym num_set = "num_op list"

record flat =
  seq_nums :: "num_set list"
  uids :: "num_set list"
  since_day :: go_time
  before_day :: go_time
  sent_since :: go_time
  sent_before :: go_time
  headers :: "(string \<times> string) list"
  bodies :: "string list"
  texts :: "string list"
  flags :: "string list"
  not_flags :: "string list"
  larger :: int
  smaller :: int

datatype criteria = Criteria (own: flat) (nots: "criteria list") (ors: "(criteria \<times> criteria) list")

definition no_flat :: flat where
  "no_flat = \<lparr>seq_nums = [], uids = [], since_day = 0, before_day = 0, sent_since = 0, sent_before = 0,
     headers = [], bodies = [], texts = [], flags = [], not_flags = [], larger = 0, smaller = 0\<rparr>"

definition no_criteria :: criteria where
  "no_criteria = Criteria no_flat [] []"

definition later :: "go_time \<Rightarrow> go_time \<Rightarrow> go_time" where
  "later a b = (if a = 0 \<or> b \<noteq> 0 \<and> a < b then b else a)"

definition earlier :: "go_time \<Rightarrow> go_time \<Rightarrow> go_time" where
  "earlier a b = (if a = 0 \<or> b \<noteq> 0 \<and> b < a then b else a)"

definition and_flat :: "flat \<Rightarrow> flat \<Rightarrow> flat" where
  "and_flat d s =
     \<lparr>seq_nums = seq_nums d @ seq_nums s, uids = uids d @ uids s,
      since_day = later (since_day d) (since_day s), before_day = earlier (before_day d) (before_day s),
      sent_since = later (sent_since d) (sent_since s),
      sent_before = earlier (sent_before d) (sent_before s),
      headers = headers d @ headers s, bodies = bodies d @ bodies s, texts = texts d @ texts s,
      flags = flags d @ flags s, not_flags = not_flags d @ not_flags s,
      larger = (if larger s > larger d then larger s else larger d),
      smaller = (if smaller s > 0 \<and> (smaller d = 0 \<or> smaller s < smaller d) then smaller s else smaller d)\<rparr>"

definition and_criteria :: "criteria \<Rightarrow> criteria \<Rightarrow> criteria" where
  "and_criteria d s = Criteria (and_flat (own d) (own s)) (nots d @ nots s) (ors d @ ors s)"

section \<open>Tokens\<close>

datatype key_error =
    EmptySearch | Unmatched string | LiteralGiven | TrailingBackslash | UnterminatedQuote nat
  | KeyExpected | UnmatchedClose | QuotedKey string | NotNeedsKey key_error | OrNeedsKeys key_error
  | RecentRefused string | SequenceSet string | NotAKey string | NothingAfter string
  | FollowedBy string string | BadDate string string | BadSize string string | ZeroSize string
  | BadUid string | NeverClosed | EmptyGroup | Panic string

datatype token_kind = TokAtom | TokQuoted | TokOpen | TokClose

datatype token = Token (kind_of: token_kind) (text_of: string)

definition atom_end :: "char \<Rightarrow> bool" where
  "atom_end c \<longleftrightarrow> c \<in> set [CHR 0x20, CHR 0x09, CHR 0x0D, CHR 0x0A, CHR 0x28, CHR 0x29, CHR 0x22]"

text \<open>\<open>quoted\<close> over what follows the opening quote, at byte \<open>start\<close>: the string, and the text
  after the closing quote.\<close>

fun quoted :: "nat \<Rightarrow> string \<Rightarrow> key_error + string \<times> string" where
  "quoted start [] = Inl (UnterminatedQuote (start + 1))"
| "quoted start (c # cs) =
     (if c = CHR 0x5C then
        (case cs of
           [] \<Rightarrow> Inl TrailingBackslash
         | d # ds \<Rightarrow> bind_err (quoted start ds) (\<lambda>(t, rest). Inr (d # t, rest)))
      else if c = CHR 0x22 then Inr ([], cs)
      else bind_err (quoted start cs) (\<lambda>(t, rest). Inr (c # t, rest)))"

lemma quoted_shorter: "quoted start s = Inr (t, rest) \<Longrightarrow> length rest < length s"
  by (induction start s arbitrary: t rest rule: quoted.induct)
    (fastforce split: if_splits list.splits)+

text \<open>\<open>lex\<close> from byte \<open>i\<close> of the whole text.\<close>

function lex_from :: "nat \<Rightarrow> string \<Rightarrow> key_error + token list" where
  "lex_from i [] = Inr []"
| "lex_from i (c # cs) =
     (if c \<in> set [CHR 0x20, CHR 0x09, CHR 0x0D, CHR 0x0A] then lex_from (i + 1) cs
      else if c = CHR 0x28 then bind_err (lex_from (i + 1) cs) (\<lambda>ts. Inr (Token TokOpen ''('' # ts))
      else if c = CHR 0x29 then bind_err (lex_from (i + 1) cs) (\<lambda>ts. Inr (Token TokClose '')'' # ts))
      else if c = CHR 0x22 then
        (case quoted i cs of
           Inl e \<Rightarrow> Inl e
         | Inr (t, rest) \<Rightarrow> bind_err (lex_from (i + (length (c # cs) - length rest)) rest)
                              (\<lambda>ts. Inr (Token TokQuoted t # ts)))
      else if c = CHR 0x7B then Inl LiteralGiven
      else let atom = takeWhile (\<lambda>d. \<not> atom_end d) (c # cs)
           in bind_err (lex_from (i + length atom) (dropWhile (\<lambda>d. \<not> atom_end d) (c # cs)))
                (\<lambda>ts. Inr (Token TokAtom atom # ts)))"
  by pat_completeness auto
termination
  by (relation "measure (\<lambda>(i, s). length s)")
    (auto dest: quoted_shorter simp: atom_end_def le_imp_less_Suc length_dropWhile_le)

definition lex :: "string \<Rightarrow> key_error + token list" where
  "lex s = lex_from 0 s"

section \<open>Values\<close>

text \<open>\<open>time.Parse("2-Jan-2006", v)\<close>: a day of one or two digits, a month name in any case, a
  year of four digits, and nothing more; the day must exist.\<close>

definition leap :: "int \<Rightarrow> bool" where
  "leap y \<longleftrightarrow> 4 dvd y \<and> (\<not> 100 dvd y \<or> 400 dvd y)"

definition days_in :: "nat \<Rightarrow> int \<Rightarrow> int" where
  "days_in m y = (if m = 2 then (if leap y then 29 else 28)
                  else if m = 4 \<or> m = 6 \<or> m = 9 \<or> m = 11 then 30 else 31)"

definition days_before_year :: "int \<Rightarrow> int" where
  "days_before_year y = 365 * (y - 1) + (y - 1) div 4 - (y - 1) div 100 + (y - 1) div 400"

definition day_number :: "int \<Rightarrow> nat \<Rightarrow> int \<Rightarrow> int" where
  "day_number y m d = days_before_year y + sum_list (map (\<lambda>k. days_in k y) [1..<m]) + (d - 1)"

definition day_ns :: int where
  "day_ns = 86400 * 10 ^ 9"

definition months :: "string list" where
  "months = [''Jan'', ''Feb'', ''Mar'', ''Apr'', ''May'', ''Jun'', ''Jul'', ''Aug'', ''Sep'', ''Oct'', ''Nov'', ''Dec'']"

definition month_of :: "string \<Rightarrow> nat option" where
  "month_of t = map_of (zip (map (map lower_byte) months) [1..<13]) (map lower_byte t)"

definition day_digits :: "string \<Rightarrow> (int \<times> string) option" where
  "day_digits v =
     (case v of
        [] \<Rightarrow> None
      | a # r \<Rightarrow>
          if \<not> is_digit a then None
          else case r of
            b # r' \<Rightarrow> if is_digit b then Some (int (dec_value [a, b]), r') else Some (int (dec_value [a]), r)
          | [] \<Rightarrow> Some (int (dec_value [a]), r))"

definition year_after :: "string \<Rightarrow> int option" where
  "year_after r =
     (if length r = 5 \<and> hd r = CHR ''-'' \<and> list_all is_digit (tl r) then Some (int (dec_value (tl r))) else None)"

definition parse_date :: "string \<Rightarrow> go_time option" where
  "parse_date v =
     (case day_digits v of
        None \<Rightarrow> None
      | Some (d, r) \<Rightarrow>
          if r = [] \<or> hd r \<noteq> CHR ''-'' then None
          else case (month_of (take 3 (tl r)), year_after (drop 3 (tl r))) of
            (Some m, Some y) \<Rightarrow>
              if 1 \<le> d \<and> d \<le> days_in m y then Some (day_number y m d * day_ns) else None
          | _ \<Rightarrow> None)"

definition value_of :: "string \<Rightarrow> token list \<Rightarrow> key_error + string \<times> token list" where
  "value_of k ts =
     (case ts of
        [] \<Rightarrow> Inl (NothingAfter k)
      | t # rest \<Rightarrow>
          if kind_of t = TokOpen \<or> kind_of t = TokClose then Inl (FollowedBy k (text_of t))
          else Inr (text_of t, rest))"

definition date_value :: "string \<Rightarrow> token list \<Rightarrow> key_error + go_time \<times> token list" where
  "date_value k ts =
     bind_err (value_of k ts) (\<lambda>(v, rest).
       case parse_date v of Some d \<Rightarrow> Inr (d, rest) | None \<Rightarrow> Inl (BadDate k v))"

definition size_value :: "string \<Rightarrow> token list \<Rightarrow> key_error + int \<times> token list" where
  "size_value k ts =
     bind_err (value_of k ts) (\<lambda>(v, rest).
       case parse_uint 32 v of
         None \<Rightarrow> Inl (BadSize k v)
       | Some n \<Rightarrow> if n = 0 then Inl (ZeroSize k) else Inr (int n, rest))"

definition uid_num :: "string \<Rightarrow> string \<Rightarrow> key_error + nat" where
  "uid_num s whole =
     (if s = ''*'' then Inr 0
      else case parse_uint 32 s of
        Some n \<Rightarrow> if n = 0 then Inl (BadUid whole) else Inr n
      | None \<Rightarrow> Inl (BadUid whole))"

fun uid_parts :: "string \<Rightarrow> string list \<Rightarrow> key_error + num_set" where
  "uid_parts whole [] = Inr []"
| "uid_parts whole (part # rest) =
     (let (lo, hi, is_range) = cut (CHR '':'') part in
      bind_err (uid_num lo whole) (\<lambda>start.
        if \<not> is_range then bind_err (uid_parts whole rest) (\<lambda>s. Inr (AddNum start # s))
        else bind_err (uid_num hi whole) (\<lambda>stop.
          bind_err (uid_parts whole rest) (\<lambda>s. Inr (AddRange start stop # s)))))"

definition uid_set :: "token list \<Rightarrow> key_error + num_set \<times> token list" where
  "uid_set ts =
     bind_err (value_of ''UID'' ts) (\<lambda>(v, rest).
       bind_err (uid_parts v (split_str v '','')) (\<lambda>s. Inr (s, rest)))"

definition is_numeric_set :: "string \<Rightarrow> bool" where
  "is_numeric_set s \<longleftrightarrow> s \<noteq> [] \<and> list_all (\<lambda>c. is_digit c \<or> c \<in> set '':,*'') s"

section \<open>The parser\<close>

definition system_flag :: "string \<Rightarrow> string option" where
  "system_flag n =
     map_of [(''ANSWERED'', CHR 0x5C # ''Answered''), (''DELETED'', CHR 0x5C # ''Deleted''),
             (''DRAFT'', CHR 0x5C # ''Draft''), (''FLAGGED'', CHR 0x5C # ''Flagged''),
             (''SEEN'', CHR 0x5C # ''Seen'')] n"

type_synonym 'a parsed = "key_error + 'a \<times> token list"

text \<open>A key that is none of the group's is \<open>None\<close>; the others give the criteria of that key.
  A flag name without a system flag is the panic of \<open>systemFlag\<close>.\<close>

definition flag_key :: "string \<Rightarrow> token list \<Rightarrow> flat parsed option" where
  "flag_key n ts =
     (if n \<in> set [''ANSWERED'', ''DELETED'', ''DRAFT'', ''FLAGGED'', ''SEEN''] then
        Some (case system_flag n of Some f \<Rightarrow> Inr (no_flat\<lparr>flags := [f]\<rparr>, ts) | None \<Rightarrow> Inl (Panic n))
      else if n \<in> set [''UNANSWERED'', ''UNDELETED'', ''UNDRAFT'', ''UNFLAGGED'', ''UNSEEN''] then
        Some (case system_flag (trim_prefix n ''UN'') of
                Some f \<Rightarrow> Inr (no_flat\<lparr>not_flags := [f]\<rparr>, ts) | None \<Rightarrow> Inl (Panic n))
      else if n = ''KEYWORD'' \<or> n = ''UNKEYWORD'' then
        Some (bind_err (value_of n ts) (\<lambda>(v, rest).
          Inr (if n = ''KEYWORD'' then no_flat\<lparr>flags := [v]\<rparr> else no_flat\<lparr>not_flags := [v]\<rparr>, rest)))
      else None)"

definition text_key :: "string \<Rightarrow> token list \<Rightarrow> flat parsed option" where
  "text_key n ts =
     (if n \<in> set [''BCC'', ''CC'', ''FROM'', ''SUBJECT'', ''TO''] then
        Some (bind_err (value_of n ts) (\<lambda>(v, rest). Inr (no_flat\<lparr>headers := [(n, v)]\<rparr>, rest)))
      else if n = ''HEADER'' then
        Some (bind_err (value_of ''HEADER'' ts) (\<lambda>(field, ts').
          bind_err (value_of (''HEADER '' @ field) ts') (\<lambda>(v, rest).
            Inr (no_flat\<lparr>headers := [(field, v)]\<rparr>, rest))))
      else if n = ''BODY'' then
        Some (bind_err (value_of n ts) (\<lambda>(v, rest). Inr (no_flat\<lparr>bodies := [v]\<rparr>, rest)))
      else if n = ''TEXT'' then
        Some (bind_err (value_of n ts) (\<lambda>(v, rest). Inr (no_flat\<lparr>texts := [v]\<rparr>, rest)))
      else None)"

definition set_date :: "string \<Rightarrow> go_time \<Rightarrow> flat" where
  "set_date n d =
     (if n = ''SINCE'' then no_flat\<lparr>since_day := d\<rparr>
      else if n = ''BEFORE'' then no_flat\<lparr>before_day := d\<rparr>
      else if n = ''ON'' then no_flat\<lparr>since_day := d, before_day := d + day_ns\<rparr>
      else if n = ''SENTSINCE'' then no_flat\<lparr>sent_since := d\<rparr>
      else if n = ''SENTBEFORE'' then no_flat\<lparr>sent_before := d\<rparr>
      else if n = ''SENTON'' then no_flat\<lparr>sent_since := d, sent_before := d + day_ns\<rparr>
      else no_flat)"

definition bound_key :: "string \<Rightarrow> token list \<Rightarrow> flat parsed option" where
  "bound_key n ts =
     (if n \<in> set [''SINCE'', ''BEFORE'', ''ON'', ''SENTSINCE'', ''SENTBEFORE'', ''SENTON''] then
        Some (bind_err (date_value n ts) (\<lambda>(d, rest). Inr (set_date n d, rest)))
      else if n = ''LARGER'' \<or> n = ''SMALLER'' then
        Some (bind_err (size_value n ts) (\<lambda>(k, rest).
          Inr (if n = ''LARGER'' then no_flat\<lparr>larger := k\<rparr> else no_flat\<lparr>smaller := k\<rparr>, rest)))
      else if n = ''UID'' then
        Some (bind_err (uid_set ts) (\<lambda>(s, rest). Inr (no_flat\<lparr>uids := [s]\<rparr>, rest)))
      else None)"

text \<open>The three groups in the order \<open>key\<close> asks them.\<close>

definition simple_key :: "string \<Rightarrow> token list \<Rightarrow> flat parsed option" where
  "simple_key n ts =
     (case flag_key n ts of Some r \<Rightarrow> Some r
      | None \<Rightarrow> (case text_key n ts of Some r \<Rightarrow> Some r | None \<Rightarrow> bound_key n ts))"

lemma value_shorter: "value_of k ts = Inr (v, rest) \<Longrightarrow> length rest < length ts"
  by (auto simp: value_of_def split: list.splits if_splits)

lemma if_SomeE: "(if b then Some x else y) = Some r \<Longrightarrow> (x = r \<Longrightarrow> P) \<Longrightarrow> (y = Some r \<Longrightarrow> P) \<Longrightarrow> P"
  by (simp split: if_splits)

lemma bind_rest:
  assumes "bind_err r f = Inr (c, rest)"
    and "\<And>x rest'. r = Inr (x, rest') \<Longrightarrow> length rest' \<le> k"
    and "\<And>x rest'. f (x, rest') = Inr (c, rest) \<Longrightarrow> length rest \<le> length rest'"
  shows "length rest \<le> k"
proof -
  from assms(1) obtain y where y: "r = Inr y" "f y = Inr (c, rest)" by (auto simp: bind_err_Inr_iff)
  obtain x rest' where "y = (x, rest')" by fastforce
  with y assms(2,3) show ?thesis by fastforce
qed

lemma value_rest: "value_of k ts = Inr (v, rest) \<Longrightarrow> length rest \<le> length ts"
  by (auto dest: value_shorter)

lemma flag_key_rest: "flag_key n ts = Some (Inr (c, rest)) \<Longrightarrow> length rest \<le> length ts"
  unfolding flag_key_def
  by (elim if_SomeE; (erule bind_rest)?) (auto dest: value_rest split: option.splits simp del: if_split)

lemma text_key_rest: "text_key n ts = Some (Inr (c, rest)) \<Longrightarrow> length rest \<le> length ts"
  unfolding text_key_def
  by (elim if_SomeE; (erule bind_rest)?; (erule bind_rest)?) (auto dest: value_rest)

lemma date_value_rest: "date_value k ts = Inr (v, rest) \<Longrightarrow> length rest \<le> length ts"
  unfolding date_value_def by (erule bind_rest) (auto dest: value_rest split: option.splits)

lemma size_value_rest: "size_value k ts = Inr (v, rest) \<Longrightarrow> length rest \<le> length ts"
  unfolding size_value_def by (erule bind_rest) (auto dest: value_rest split: option.splits if_splits)

lemma uid_set_rest: "uid_set ts = Inr (v, rest) \<Longrightarrow> length rest \<le> length ts"
  unfolding uid_set_def by (erule bind_rest) (auto dest: value_rest)

lemma bound_key_rest: "bound_key n ts = Some (Inr (c, rest)) \<Longrightarrow> length rest \<le> length ts"
  unfolding bound_key_def
  by (elim if_SomeE; (erule bind_rest)?) (auto dest: date_value_rest size_value_rest uid_set_rest)

lemma simple_key_rest: "simple_key n ts = Some (Inr (c, rest)) \<Longrightarrow> length rest \<le> length ts"
  unfolding simple_key_def
  by (auto split: option.splits dest: flag_key_rest text_key_rest bound_key_rest)

function (domintros) key :: "token list \<Rightarrow> criteria parsed"
  and keys :: "criteria \<Rightarrow> nat \<Rightarrow> token list \<Rightarrow> (criteria \<times> nat) parsed" where
  "key ts =
     (case ts of
        [] \<Rightarrow> Inl KeyExpected
      | t # rest \<Rightarrow>
          (case kind_of t of
             TokOpen \<Rightarrow>
               (case keys no_criteria 0 rest of
                  Inl e \<Rightarrow> Inl e
                | Inr ((inner, n), rest') \<Rightarrow>
                    (case rest' of
                       [] \<Rightarrow> Inl NeverClosed
                     | _ # rest'' \<Rightarrow> if n = 0 then Inl EmptyGroup else Inr (inner, rest'')))
           | TokClose \<Rightarrow> Inl UnmatchedClose
           | TokQuoted \<Rightarrow> Inl (QuotedKey (text_of t))
           | TokAtom \<Rightarrow>
               (let n = go_upper (text_of t) in
                case simple_key n rest of
                  Some r \<Rightarrow> bind_err r (\<lambda>(c, rest'). Inr (Criteria c [] [], rest'))
                | None \<Rightarrow>
                    if n = ''ALL'' then Inr (no_criteria, rest)
                    else if n = ''NOT'' then
                      (case key rest of
                         Inl e \<Rightarrow> Inl (NotNeedsKey e)
                       | Inr (inner, rest') \<Rightarrow> Inr (Criteria no_flat [inner] [], rest'))
                    else if n = ''OR'' then
                      (case key rest of
                         Inl e \<Rightarrow> Inl (OrNeedsKeys e)
                       | Inr (left, rest') \<Rightarrow>
                           (case key rest' of
                              Inl e \<Rightarrow> Inl (OrNeedsKeys e)
                            | Inr (right, rest'') \<Rightarrow> Inr (Criteria no_flat [] [(left, right)], rest'')))
                    else if n = ''RECENT'' \<or> n = ''NEW'' \<or> n = ''OLD'' then Inl (RecentRefused n)
                    else if is_numeric_set (text_of t) then Inl (SequenceSet (text_of t))
                    else Inl (NotAKey (text_of t)))))"
| "keys out n ts =
     (case ts of
        [] \<Rightarrow> Inr ((out, n), ts)
      | t # _ \<Rightarrow>
          if kind_of t = TokClose then Inr ((out, n), ts)
          else (case key ts of
                  Inl e \<Rightarrow> Inl e
                | Inr (c, rest) \<Rightarrow> keys (and_criteria out c) (n + 1) rest))"
  by pat_completeness auto

lemma if_eqE: "(if b then x else y) = r \<Longrightarrow> (b \<Longrightarrow> x = r \<Longrightarrow> P) \<Longrightarrow> (\<not> b \<Longrightarrow> y = r \<Longrightarrow> P) \<Longrightarrow> P"
  by (simp split: if_splits)

lemma sum_caseE: "(case x of Inl e \<Rightarrow> f e | Inr y \<Rightarrow> g y) = r
    \<Longrightarrow> (\<And>e. x = Inl e \<Longrightarrow> f e = r \<Longrightarrow> P) \<Longrightarrow> (\<And>y. x = Inr y \<Longrightarrow> g y = r \<Longrightarrow> P) \<Longrightarrow> P"
  by (cases x) simp_all

lemma key_shorter:
  "key_keys_dom (Inl ts) \<Longrightarrow> (\<forall>c rest. key ts = Inr (c, rest) \<longrightarrow> length rest < length ts)"
  "key_keys_dom (Inr (out, n, ts)) \<Longrightarrow> (\<forall>c rest. keys out n ts = Inr (c, rest) \<longrightarrow> length rest \<le> length ts)"
proof (induction rule: key_keys.pinduct)
  case (1 ts)
  note not_IH = 1(2) and left_IH = 1(3) and right_IH = 1(4) and keys_IH = 1(5)
  show ?case
  proof (intro allI impI)
    fix c rest
    assume "key ts = Inr (c, rest)"
    note run = this [unfolded key.psimps [OF 1(1)]]
    then obtain t tl where ts: "ts = t # tl" by (cases ts) auto
    show "length rest < length ts"
    proof (cases "kind_of t")
      case TokAtom
      note run = run [unfolded ts list.case TokAtom token_kind.case Let_def]
      show ?thesis
      proof (cases "simple_key (go_upper (text_of t)) tl")
        case (Some r)
        with run have "bind_err r (\<lambda>(c, rest'). Inr (Criteria c [] [], rest')) = Inr (c, rest)" by simp
        then obtain c' where r: "r = Inr (c', rest)" by (auto simp: bind_err_Inr_iff)
        from simple_key_rest [OF Some [unfolded r]] ts show ?thesis by simp
      next
        case None
        note run = run [unfolded None option.case]
        from run show ?thesis
          apply (elim if_eqE)
          subgoal by (simp add: ts)
          subgoal using not_IH [OF ts TokAtom refl None] by (fastforce elim!: sum_caseE simp: ts)
          subgoal using left_IH [OF ts TokAtom refl None] right_IH [OF ts TokAtom refl None]
            by (fastforce elim!: sum_caseE simp: ts)
          by simp_all
      qed
    next
      case TokOpen
      note run = run [unfolded ts list.case TokOpen token_kind.case]
      then show ?thesis using keys_IH [OF ts TokOpen]
        by (auto elim!: sum_caseE simp: ts split: list.splits if_splits)
    qed (use run ts in simp_all)
  qed
next
  case (2 out n ts)
  show ?case
  proof (intro allI impI)
    fix c rest
    assume run: "keys out n ts = Inr (c, rest)"
    show "length rest \<le> length ts"
    proof (cases "\<exists>t tl. ts = t # tl \<and> kind_of t \<noteq> TokClose")
      case False
      with run 2(1) show ?thesis by (auto simp: keys.psimps split: list.splits if_splits)
    next
      case True
      then obtain t tl where ts: "ts = t # tl" and open_tok: "kind_of t \<noteq> TokClose" by blast
      with run 2(1) obtain c' rest' where k: "key ts = Inr (c', rest')"
        and more: "keys (and_criteria out c') (n + 1) rest' = Inr (c, rest)"
        by (auto simp: keys.psimps split: sum.splits)
      have "length rest \<le> length rest'" using 2(3) [OF ts open_tok k refl] more by blast
      moreover have "length rest' < length ts" using 2(2) [OF ts open_tok] k by blast
      ultimately show ?thesis by simp
    qed
  qed
qed

termination key
proof (relation "measure (\<lambda>x. case x of Inl ts \<Rightarrow> 2 * length ts | Inr (_, _, ts) \<Rightarrow> 2 * length ts + 1)", goal_cases)
  case 1
  show ?case by simp
qed (auto dest!: key_shorter(1) [rule_format])

declare key.simps [simp del] keys.simps [simp del]

definition parse_tokens :: "token list \<Rightarrow> key_error + criteria" where
  "parse_tokens toks =
     bind_err (keys no_criteria 0 toks) (\<lambda>((c, n), rest).
       if n = 0 then Inl EmptySearch
       else case rest of [] \<Rightarrow> Inr c | t # _ \<Rightarrow> Inl (Unmatched (text_of t)))"

record search =
  criteria_of :: "criteria option"
  search_text :: string

definition parse :: "string \<Rightarrow> key_error + search" where
  "parse s =
     bind_err (lex s) (\<lambda>toks. bind_err (parse_tokens toks) (\<lambda>c.
       Inr \<lparr>criteria_of = Some c, search_text = trim_space s\<rparr>))"

definition is_zero :: "search \<Rightarrow> bool" where
  "is_zero k \<longleftrightarrow> criteria_of k = None"

section \<open>The grammar\<close>

text \<open>The search-key production, as a relation between the tokens of a key and its criteria.\<close>

inductive search_key :: "token list \<Rightarrow> criteria \<Rightarrow> bool"
  and search_keys :: "token list \<Rightarrow> criteria \<Rightarrow> nat \<Rightarrow> criteria \<Rightarrow> bool" where
  simple: "simple_key (go_upper w) args = Some (Inr (c, []))
    \<Longrightarrow> search_key (Token TokAtom w # args) (Criteria c [] [])"
| all: "go_upper w = ''ALL'' \<Longrightarrow> search_key [Token TokAtom w] no_criteria"
| negation: "go_upper w = ''NOT'' \<Longrightarrow> search_key ts c
    \<Longrightarrow> search_key (Token TokAtom w # ts) (Criteria no_flat [c] [])"
| either: "go_upper w = ''OR'' \<Longrightarrow> search_key ts c \<Longrightarrow> search_key us d
    \<Longrightarrow> search_key (Token TokAtom w # ts @ us) (Criteria no_flat [] [(c, d)])"
| group: "search_keys ts no_criteria n c \<Longrightarrow> 0 < n
    \<Longrightarrow> search_key (Token TokOpen p # ts @ [Token TokClose q]) c"
| none: "search_keys [] c 0 c"
| more: "search_key ts c \<Longrightarrow> search_keys us (and_criteria acc c) n d
    \<Longrightarrow> search_keys (ts @ us) acc (Suc n) d"

lemma value_of_iff:
  "value_of k ts = Inr (v, rest) \<longleftrightarrow> (\<exists>q. ts = Token q v # rest \<and> q \<noteq> TokOpen \<and> q \<noteq> TokClose)"
  by (cases ts) (auto simp: value_of_def split: if_splits, (metis token.collapse)+)

text \<open>An argument reader that takes a prefix of the tokens and looks at nothing after it.\<close>

definition local_reader :: "(token list \<Rightarrow> 'e + 'a \<times> token list) \<Rightarrow> bool" where
  "local_reader f \<longleftrightarrow> (\<forall>ts x rest. f ts = Inr (x, rest) \<longleftrightarrow> (\<exists>used. ts = used @ rest \<and> f used = Inr (x, [])))"

lemma local_value [simp]: "local_reader (value_of k)"
  by (auto simp: local_reader_def value_of_iff Cons_eq_append_conv)

lemma local_bind:
  assumes f: "local_reader f" and g: "\<And>x. local_reader (g x)"
  shows "local_reader (\<lambda>ts. bind_err (f ts) (\<lambda>(x, rest). g x rest))"
  unfolding local_reader_def
proof (intro allI iffI)
  fix ts y rest
  assume "bind_err (f ts) (\<lambda>(x, rest). g x rest) = Inr (y, rest)"
  then obtain x r1 where 1: "f ts = Inr (x, r1)" "g x r1 = Inr (y, rest)" by (auto simp: bind_err_Inr_iff)
  from 1(2) g [of x] obtain u2 where u2: "r1 = u2 @ rest" "g x u2 = Inr (y, [])" unfolding local_reader_def by blast
  from 1(1) f obtain u1 where u1: "ts = u1 @ r1" "f u1 = Inr (x, [])" unfolding local_reader_def by blast
  have "f (u1 @ u2) = Inr (x, u2)" using f u1(2) unfolding local_reader_def by blast
  with u1 u2 show "\<exists>used. ts = used @ rest \<and> bind_err (f used) (\<lambda>(x, rest). g x rest) = Inr (y, [])"
    by (intro exI [of _ "u1 @ u2"]) simp
next
  fix ts y rest
  assume "\<exists>used. ts = used @ rest \<and> bind_err (f used) (\<lambda>(x, rest). g x rest) = Inr (y, [])"
  then obtain used x r1 where u: "ts = used @ rest" "f used = Inr (x, r1)" "g x r1 = Inr (y, [])"
    by (auto simp: bind_err_Inr_iff)
  from u(2) f obtain u1 where u1: "used = u1 @ r1" "f u1 = Inr (x, [])" unfolding local_reader_def by blast
  have "f (u1 @ r1 @ rest) = Inr (x, r1 @ rest)" using f u1(2) unfolding local_reader_def by blast
  moreover have "g x (r1 @ rest) = Inr (y, rest)" using g [of x] u(3) unfolding local_reader_def by blast
  ultimately show "bind_err (f ts) (\<lambda>(x, rest). g x rest) = Inr (y, rest)" using u(1) u1(1) by simp
qed

lemma local_return [simp]: "local_reader (\<lambda>ts. Inr (x, ts))"
  by (auto simp: local_reader_def)

lemma local_fail [simp]: "local_reader (\<lambda>ts. Inl e)"
  by (simp add: local_reader_def)

lemma local_option:
  "local_reader f \<Longrightarrow> (\<And>x. local_reader (g x))
    \<Longrightarrow> local_reader (\<lambda>ts. case opt of None \<Rightarrow> f ts | Some x \<Rightarrow> g x ts)"
  by (cases opt) simp_all

lemma local_if: "local_reader f \<Longrightarrow> local_reader g \<Longrightarrow> local_reader (\<lambda>ts. if b then f ts else g ts)"
  by (cases b) simp_all

lemma local_date: "local_reader (date_value k)"
  unfolding date_value_def [abs_def]
  by (intro local_bind local_option local_value local_return local_fail)

lemma local_size: "local_reader (size_value k)"
  unfolding size_value_def [abs_def]
  by (intro local_bind local_option local_if local_value local_return local_fail)

lemma local_err: "local_reader (\<lambda>ts. bind_err r (\<lambda>s. Inr (s, ts)))"
  by (cases r) (simp_all)

lemma local_uid_set: "local_reader uid_set"
  unfolding uid_set_def [abs_def] by (rule local_bind) (simp_all add: local_err)

definition local_group :: "(token list \<Rightarrow> 'a parsed option) \<Rightarrow> bool" where
  "local_group f \<longleftrightarrow> f = (\<lambda>_. None) \<or> (\<exists>g. local_reader g \<and> f = (\<lambda>ts. Some (g ts)))"

lemma local_groupI: "local_reader g \<Longrightarrow> local_group (\<lambda>ts. Some (g ts))"
  by (auto simp: local_group_def)

lemma local_group_if: "(b \<Longrightarrow> local_group f) \<Longrightarrow> (\<not> b \<Longrightarrow> local_group g) \<Longrightarrow> local_group (\<lambda>ts. if b then f ts else g ts)"
  by (cases b) simp_all

lemma local_group_none: "local_group (\<lambda>_. None)"
  by (simp add: local_group_def)

lemma local_flag: "local_group (flag_key n)"
  unfolding flag_key_def [abs_def]
  by (intro local_group_if local_group_none local_groupI local_bind local_option local_value local_return local_fail)

lemma local_text: "local_group (text_key n)"
  unfolding text_key_def [abs_def]
  by (intro local_group_if local_group_none local_groupI local_bind local_value local_return)

lemma local_bound: "local_group (bound_key n)"
  unfolding bound_key_def [abs_def]
  by (intro local_group_if local_group_none local_groupI local_bind local_date local_size local_uid_set local_return)

lemma local_simple: "local_group (simple_key n)"
proof (cases "flag_key n = (\<lambda>_. None)")
  case True
  note f = True
  show ?thesis
  proof (cases "text_key n = (\<lambda>_. None)")
    case True
    with f have "simple_key n = bound_key n" by (simp add: simple_key_def fun_eq_iff)
    then show ?thesis using local_bound by simp
  next
    case False
    then obtain g where "text_key n = (\<lambda>ts. Some (g ts))" using local_text [of n] by (auto simp: local_group_def)
    with f have "simple_key n = text_key n" by (simp add: simple_key_def fun_eq_iff)
    then show ?thesis using local_text by simp
  qed
next
  case False
  then obtain g where "flag_key n = (\<lambda>ts. Some (g ts))" using local_flag [of n] by (auto simp: local_group_def)
  then have "simple_key n = flag_key n" by (simp add: simple_key_def fun_eq_iff)
  then show ?thesis using local_flag by simp
qed

lemma simple_key_local:
  "simple_key n ts = Some (Inr (c, rest)) \<longleftrightarrow> (\<exists>used. ts = used @ rest \<and> simple_key n used = Some (Inr (c, [])))"
proof (cases "simple_key n = (\<lambda>_. None)")
  case False
  then obtain g where g: "local_reader g" "simple_key n = (\<lambda>ts. Some (g ts))"
    using local_simple [of n] unfolding local_group_def by blast
  then show ?thesis unfolding g(2) option.inject local_reader_def by blast
qed simp

lemma simple_key_None: "simple_key n ts = None \<longleftrightarrow> simple_key n us = None"
  using local_simple [of n] by (auto simp: local_group_def)

lemma word_keys [simp]:
  "simple_key ''ALL'' ts = None" "simple_key ''NOT'' ts = None" "simple_key ''OR'' ts = None"
  by (simp_all add: simple_key_def flag_key_def text_key_def bound_key_def)

lemma search_key_opens:
  "search_key ts c \<Longrightarrow> \<exists>t tl. ts = t # tl \<and> kind_of t \<noteq> TokClose"
  by (erule search_key.cases) simp_all

lemma keys_stop:
  "keys c n [] = Inr ((c, n), [])"
  "kind_of t = TokClose \<Longrightarrow> keys c n (t # r) = Inr ((c, n), t # r)"
  by (simp_all add: keys.simps [of c n "[]"] keys.simps [of c n "t # r"])

lemma keys_open:
  "kind_of t \<noteq> TokClose \<Longrightarrow> keys c n (t # r) =
     (case key (t # r) of Inl e \<Rightarrow> Inl e | Inr (d, rest) \<Rightarrow> keys (and_criteria c d) (n + 1) rest)"
  by (simp add: keys.simps [of c n "t # r"])

lemma key_complete:
  "search_key ts c \<Longrightarrow> \<forall>rest. key (ts @ rest) = Inr (c, rest)"
  "search_keys ts acc k c \<Longrightarrow> \<forall>n rest. (rest = [] \<or> kind_of (hd rest) = TokClose)
      \<longrightarrow> keys acc n (ts @ rest) = Inr ((c, n + k), rest)"
proof (induction rule: search_key_search_keys.inducts)
  case (simple w args c)
  have "simple_key (go_upper w) (args @ rest) = Some (Inr (c, rest))" for rest
    using simple unfolding simple_key_local [of _ "args @ rest"] by blast
  then show ?case by (simp add: key.simps)
next
  case (all w)
  then show ?case by (simp add: key.simps)
next
  case (negation w ts c)
  then show ?case by (simp add: key.simps)
next
  case (either w ts c us d)
  then show ?case by (simp add: key.simps)
next
  case (group ts n c p q)
  then show ?case by (simp add: key.simps)
next
  case (none c)
  show ?case
  proof (intro allI impI)
    fix n rest
    assume "rest = [] \<or> kind_of (hd rest) = TokClose"
    then show "keys c n ([] @ rest) = Inr ((c, n + 0), rest)"
      by (cases rest) (simp_all add: keys_stop)
  qed
next
  case (more ts c us acc n d)
  show ?case
  proof (intro allI impI)
    fix m rest
    assume rest: "rest = [] \<or> kind_of (hd rest) = TokClose"
    from more(1) search_key_opens obtain t tl where ts: "ts = t # tl" "kind_of t \<noteq> TokClose" by blast
    have "key (ts @ us @ rest) = Inr (c, us @ rest)" using more by blast
    then have "keys acc m (ts @ us @ rest) = keys (and_criteria acc c) (m + 1) (us @ rest)"
      using ts by (subst keys.simps) simp
    also have "\<dots> = Inr ((d, m + 1 + n), rest)" using more rest by blast
    finally show "keys acc m ((ts @ us) @ rest) = Inr ((d, m + Suc n), rest)" by simp
  qed
qed

lemma key_sound:
  "\<forall>c rest. key ts = Inr (c, rest) \<longrightarrow> (\<exists>used. ts = used @ rest \<and> search_key used c)"
  "\<forall>c m rest. keys acc n ts = Inr ((c, m), rest) \<longrightarrow>
     (\<exists>used k. ts = used @ rest \<and> m = n + k \<and> search_keys used acc k c
        \<and> (rest = [] \<or> kind_of (hd rest) = TokClose))"
proof (induction ts and acc n ts rule: key_keys.induct)
  case (1 ts)
  note not_IH = 1(1) and left_IH = 1(2) and right_IH = 1(3) and keys_IH = 1(4)
  show ?case
  proof (intro allI impI)
    fix c rest
    assume "key ts = Inr (c, rest)"
    note run = this [unfolded key.simps [of ts]]
    then obtain t tl where ts: "ts = t # tl" by (cases ts) auto
    show "\<exists>used. ts = used @ rest \<and> search_key used c"
    proof (cases "kind_of t")
      case TokAtom
      then have t: "t = Token TokAtom (text_of t)" by (metis token.collapse)
      note run = run [unfolded ts list.case TokAtom token_kind.case Let_def]
      show ?thesis
      proof (cases "simple_key (go_upper (text_of t)) tl")
        case (Some r)
        with run have "bind_err r (\<lambda>(c, rest'). Inr (Criteria c [] [], rest')) = Inr (c, rest)" by simp
        then obtain c' where r: "r = Inr (c', rest)" and c: "c = Criteria c' [] []" by (auto simp: bind_err_Inr_iff)
        from iffD1 [OF simple_key_local Some [unfolded r]] obtain used where
          used: "tl = used @ rest" "simple_key (go_upper (text_of t)) used = Some (Inr (c', []))" by blast
        from search_key_search_keys.simple [OF used(2)] have "search_key (t # used) c" using t c by simp
        then show ?thesis using ts used(1) by (intro exI [of _ "t # used"]) simp
      next
        case None
        note run = run [unfolded None option.case]
        consider (all) "go_upper (text_of t) = ''ALL''" | (negation) "go_upper (text_of t) = ''NOT''"
          | (either) "go_upper (text_of t) = ''OR''"
          using run by (elim if_eqE) simp_all
        then show ?thesis
        proof cases
          case all
          then have "search_key [t] no_criteria" using search_key_search_keys.all t by metis
          moreover have "c = no_criteria" "rest = tl" using run all by simp_all
          ultimately show ?thesis using ts by (intro exI [of _ "[t]"]) simp
        next
          case negation
          from run [unfolded negation] obtain d where d: "key tl = Inr (d, rest)" "c = Criteria no_flat [d] []"
            by (auto elim!: sum_caseE)
          then obtain used where used: "tl = used @ rest" "search_key used d"
            using not_IH [OF ts TokAtom refl None] negation by auto
          from search_key_search_keys.negation [OF negation used(2)] have "search_key (t # used) c" using t d(2) by simp
          then show ?thesis using ts used(1) by (intro exI [of _ "t # used"]) simp
        next
          case either
          from run [unfolded either] obtain d e rest' where d: "key tl = Inr (d, rest')" "key rest' = Inr (e, rest)"
            "c = Criteria no_flat [] [(d, e)]"
            by (auto elim!: sum_caseE)
          obtain u1 where u1: "tl = u1 @ rest'" "search_key u1 d"
            using left_IH [OF ts TokAtom refl None] either d(1) by auto
          obtain u2 where u2: "rest' = u2 @ rest" "search_key u2 e"
            using right_IH [OF ts TokAtom refl None _ _ _ d(1) refl] either d(2) by auto
          from search_key_search_keys.either [OF either u1(2) u2(2)] have "search_key (t # u1 @ u2) c"
            using t d(3) by simp
          then show ?thesis using ts u1(1) u2(1) by (intro exI [of _ "t # u1 @ u2"]) simp
        qed
      qed
    next
      case TokOpen
      then have t: "t = Token TokOpen (text_of t)" by (metis token.collapse)
      note run = run [unfolded ts list.case TokOpen token_kind.case]
      from run obtain n u rest' where k: "keys no_criteria 0 tl = Inr ((c, n), u # rest')" "0 < n" "rest = rest'"
        by (auto elim!: sum_caseE split: list.splits if_splits)
      obtain used where used: "tl = used @ u # rest'" "search_keys used no_criteria n c" "kind_of u = TokClose"
        using keys_IH [OF ts TokOpen] k(1) by fastforce
      then have u: "u = Token TokClose (text_of u)" by (metis token.collapse)
      from search_key_search_keys.group [OF used(2) k(2)] have "search_key (t # used @ [u]) c" using t u by metis
      then show ?thesis using ts used(1) k(3) by (intro exI [of _ "t # used @ [u]"]) simp
    qed (use run ts in simp_all)
  qed
next
  case (2 out n ts)
  show ?case
  proof (intro allI impI)
    fix c m rest
    assume run: "keys out n ts = Inr ((c, m), rest)"
    show "\<exists>used k. ts = used @ rest \<and> m = n + k \<and> search_keys used out k c
        \<and> (rest = [] \<or> kind_of (hd rest) = TokClose)"
    proof (cases "\<exists>t tl. ts = t # tl \<and> kind_of t \<noteq> TokClose")
      case False
      with run have "rest = ts \<and> m = n \<and> c = out \<and> (ts = [] \<or> kind_of (hd ts) = TokClose)"
        by (cases ts) (auto simp: keys_stop)
      then show ?thesis using search_key_search_keys.none by auto
    next
      case True
      then obtain t tl where ts: "ts = t # tl" and open_tok: "kind_of t \<noteq> TokClose" by blast
      with run obtain c' rest' where k: "key ts = Inr (c', rest')"
        and more: "keys (and_criteria out c') (n + 1) rest' = Inr ((c, m), rest)"
        by (auto simp: keys_open split: sum.splits)
      obtain u1 where u1: "ts = u1 @ rest'" "search_key u1 c'" using 2(1) [OF ts open_tok] k by blast
      obtain u2 j where "rest' = u2 @ rest" "m = n + 1 + j" "search_keys u2 (and_criteria out c') j c"
        "rest = [] \<or> kind_of (hd rest) = TokClose"
        using 2(2) [OF ts open_tok k refl] more by blast
      with u1 search_key_search_keys.more [OF u1(2)] show ?thesis
        by (intro exI [of _ "u1 @ u2"] exI [of _ "Suc j"]) auto
    qed
  qed
qed

section \<open>Writing tokens down\<close>

definition escape :: "string \<Rightarrow> string" where
  "escape t = concat (map (\<lambda>c. if c = CHR 0x5C \<or> c = CHR 0x22 then [CHR 0x5C, c] else [c]) t)"

fun write_token :: "token \<Rightarrow> string" where
  "write_token (Token TokAtom t) = t @ '' ''"
| "write_token (Token TokQuoted t) = CHR 0x22 # escape t @ [CHR 0x22]"
| "write_token (Token TokOpen t) = ''(''"
| "write_token (Token TokClose t) = '')''"

fun writable :: "token \<Rightarrow> bool" where
  "writable (Token TokAtom t) = (t \<noteq> [] \<and> hd t \<noteq> CHR 0x7B \<and> (\<forall>c \<in> set t. \<not> atom_end c))"
| "writable (Token TokQuoted t) = True"
| "writable (Token TokOpen t) = (t = ''('')"
| "writable (Token TokClose t) = (t = '')'')"

lemma quoted_escape: "quoted i (escape t @ CHR 0x22 # rest) = Inr (t, rest)"
  by (induction t) (auto simp: escape_def)

lemma lex_step: "writable t \<Longrightarrow> (\<forall>j. lex_from j s = Inr ts) \<Longrightarrow> lex_from i (write_token t @ s) = Inr (t # ts)"
proof (induction t rule: writable.induct)
  case (1 t)
  then obtain c cs where t: "t = c # cs" by (cases t) auto
  have free: "\<forall>d \<in> set t. \<not> atom_end d" using 1 by simp
  have c: "\<not> atom_end c" "c \<noteq> CHR 0x7B" using 1 t by simp_all
  have sp: "atom_end (CHR '' '')" by (simp add: atom_end_def)
  have tw: "takeWhile (\<lambda>d. \<not> atom_end d) (c # cs @ CHR '' '' # s) = c # cs"
    using free t sp by (simp add: takeWhile_append2 takeWhile_tail)
  have dw: "dropWhile (\<lambda>d. \<not> atom_end d) (c # cs @ CHR '' '' # s) = CHR '' '' # s"
    using free t sp by (simp add: dropWhile_append2)
  have "lex_from i (c # cs @ CHR '' '' # s) = bind_err (lex_from (i + length (c # cs)) (CHR '' '' # s))
     (\<lambda>ts. Inr (Token TokAtom (c # cs) # ts))"
    using c tw dw by (subst lex_from.simps(2)) (simp add: atom_end_def Let_def)
  then show ?case using 1 t by simp
next
  case (2 t)
  have "lex_from i (CHR 0x22 # escape t @ CHR 0x22 # s) = Inr (Token TokQuoted t # ts)"
    using 2 by (simp add: quoted_escape)
  then show ?case by simp
qed simp_all

declare lex_from.simps(2) [simp del]

lemma lex_written: "list_all writable ts \<Longrightarrow> lex_from i (concat (map write_token ts)) = Inr ts"
  by (induction ts arbitrary: i) (simp_all add: lex_step)

section \<open>Dates\<close>

lemma div_step:
  fixes k y :: int
  assumes "0 < k"
  shows "y div k = (y - 1) div k + (if k dvd y then 1 else 0)"
proof (cases "k dvd y")
  case True
  then obtain q where q: "y = k * q" by blast
  have "(y - 1) div k = q - 1"
    by (rule int_div_pos_eq [where r = "k - 1"]) (use assms q in \<open>auto simp: algebra_simps\<close>)
  with True q assms show ?thesis by simp
next
  case False
  have "(y - 1) div k = y div k"
  proof (rule int_div_pos_eq [where r = "y mod k - 1"])
    show "y - 1 = k * (y div k) + (y mod k - 1)" by simp
    show "0 \<le> y mod k - 1" using False assms by (simp add: dvd_eq_mod_eq_0 order_less_le)
    show "y mod k - 1 < k" using pos_mod_bound [OF assms, of y] by linarith
  qed
  with False show ?thesis by simp
qed

lemma days_before_Suc: "days_before_year (y + 1) = days_before_year y + (if leap y then 366 else 365)"
proof -
  have "100 dvd y \<Longrightarrow> 4 dvd y" by (rule dvd_trans [of 4 100]) simp_all
  moreover have "400 dvd y \<Longrightarrow> 100 dvd y" by (rule dvd_trans [of 100 400]) simp_all
  moreover have "(y + 1 - 1) div 4 = y div 4" "(y + 1 - 1) div 100 = y div 100" "(y + 1 - 1) div 400 = y div 400" by simp_all
  ultimately show ?thesis
    using div_step [of 4 y] div_step [of 100 y] div_step [of 400 y]
    unfolding days_before_year_def leap_def by (smt (verit))
qed

lemma days_before_mono: "y < y' \<Longrightarrow> days_before_year y + (if leap y then 366 else 365) \<le> days_before_year y'"
proof (induction "nat (y' - y)" arbitrary: y')
  case (Suc n)
  show ?case
  proof (cases "y' = y + 1")
    case False
    then have "n = nat (y' - 1 - y)" "y < y' - 1" using Suc by simp_all
    from Suc(1) [OF this] days_before_Suc [of "y' - 1"] show ?thesis by simp
  qed (simp add: days_before_Suc)
qed simp

definition day_of_year :: "int \<Rightarrow> nat \<Rightarrow> int" where
  "day_of_year y m = sum_list (map (\<lambda>k. days_in k y) [1..<m])"

lemma days_in_pos: "0 < days_in m y"
  by (simp add: days_in_def)

lemma day_of_year_mono: "1 \<le> m \<Longrightarrow> m < m' \<Longrightarrow> day_of_year y m + days_in m y \<le> day_of_year y m'"
proof (induction m')
  case (Suc n)
  then show ?case using days_in_pos [of n y] by (cases "m = n") (auto simp: day_of_year_def)
qed simp

lemma day_of_year_13: "day_of_year y 13 = (if leap y then 366 else 365)"
  by (simp add: day_of_year_def days_in_def upt_conv_Cons)

lemma day_of_year_end:
  assumes "1 \<le> m" "m \<le> 12"
  shows "0 \<le> day_of_year y m" and "day_of_year y m + days_in m y \<le> (if leap y then 366 else 365)"
proof -
  show "0 \<le> day_of_year y m" unfolding day_of_year_def
    by (rule sum_list_nonneg) (auto intro: less_imp_le [OF days_in_pos])
  show "day_of_year y m + days_in m y \<le> (if leap y then 366 else 365)"
    using day_of_year_mono [of m 13 y] assms unfolding day_of_year_13 by simp
qed

definition real_day :: "int \<Rightarrow> nat \<Rightarrow> int \<Rightarrow> bool" where
  "real_day y m d \<longleftrightarrow> 1 \<le> m \<and> m \<le> 12 \<and> 1 \<le> d \<and> d \<le> days_in m y"

lemma day_number_mono:
  assumes "real_day y m d" "real_day y' m' d'"
    and "y < y' \<or> y = y' \<and> (m < m' \<or> m = m' \<and> d < d')"
  shows "day_number y m d < day_number y' m' d'"
proof -
  have n: "day_number y m d = days_before_year y + day_of_year y m + (d - 1)" for y m d
    by (simp add: day_number_def day_of_year_def)
  from assms(3) consider "y < y'" | "y = y'" "m < m'" | "y = y'" "m = m'" "d < d'" by blast
  then show ?thesis
  proof cases
    case 1
    then show ?thesis unfolding n
      using days_before_mono [OF 1] day_of_year_end(2) [of m y] day_of_year_end(1) [of m' y'] assms(1,2)
      by (simp add: real_day_def)
  next
    case 2
    then show ?thesis unfolding n using day_of_year_mono [of m m' y] assms(1,2) by (simp add: real_day_def)
  qed (simp add: n)
qed

lemma month_of_name: "1 \<le> m \<Longrightarrow> m \<le> 12 \<Longrightarrow> length (months ! (m - 1)) = 3 \<and> month_of (months ! (m - 1)) = Some m"
proof -
  have "\<forall>m \<in> set [1..<13]. length (months ! (m - 1)) = 3 \<and> month_of (months ! (m - 1)) = Some m" by code_simp
  then show "1 \<le> m \<Longrightarrow> m \<le> 12 \<Longrightarrow> ?thesis" by simp
qed

lemma day_digits_show:
  assumes "1 \<le> d" "d \<le> 31"
  shows "day_digits (show_nat d @ CHR ''-'' # r) = Some (int d, CHR ''-'' # r)"
proof -
  have "\<forall>d \<in> set [1..<32]. day_digits (show_nat d @ [CHR ''-'']) = Some (int d, [CHR ''-''])
      \<and> (show_nat d = [digit_char d] \<and> d < 10 \<or> show_nat d = [digit_char (d div 10), digit_char (d mod 10)] \<and> 10 \<le> d)"
    by code_simp
  then have s: "show_nat d = [digit_char d] \<and> d < 10 \<or> show_nat d = [digit_char (d div 10), digit_char (d mod 10)] \<and> 10 \<le> d"
    using assms by simp
  have v: "dec_value (show_nat d) = d" by simp
  have "\<not> is_digit (CHR ''-'')" by (simp add: is_digit_def)
  with s v assms show ?thesis by (auto simp: day_digits_def dec_value_def)
qed

lemma parse_date_written:
  assumes "real_day (int y) m (int d)" "y < 10000"
  shows "parse_date (show_nat d @ ''-'' @ months ! (m - 1) @ ''-'' @ pad_nat 4 y)
     = Some (day_number (int y) m (int d) * day_ns)"
proof -
  have d: "1 \<le> d" "d \<le> 31" "int d \<le> days_in m (int y)" "1 \<le> int d"
    using assms(1) by (auto simp: real_day_def days_in_def split: if_splits)
  have m: "length (months ! (m - 1)) = 3" "month_of (months ! (m - 1)) = Some m"
    using month_of_name [of m] assms(1) by (simp_all add: real_day_def)
  have "length (pad_nat 4 y) = 4" using assms(2) by (intro pad_nat_length) simp_all
  with d m show ?thesis by (simp add: parse_date_def year_after_def day_digits_show)
qed

section \<open>What a parsed search can hold\<close>

definition sane_num :: "num_op \<Rightarrow> bool" where
  "sane_num r = (case r of AddNum n \<Rightarrow> n < 2 ^ 32 | AddRange a b \<Rightarrow> a < 2 ^ 32 \<and> b < 2 ^ 32)"

definition sane_flat :: "flat \<Rightarrow> bool" where
  "sane_flat f \<longleftrightarrow> seq_nums f = [] \<and> 0 \<le> larger f \<and> larger f < 2 ^ 32 \<and> 0 \<le> smaller f \<and> smaller f < 2 ^ 32
     \<and> (\<forall>s \<in> set (uids f). s \<noteq> [] \<and> (\<forall>r \<in> set s. sane_num r))"

lemma size_nots: "c \<in> set ns \<Longrightarrow> size c < Suc (size_list size ns + k)"
  by (induction ns) auto

lemma size_ors:
  "(a, b) \<in> set os \<Longrightarrow> size a < Suc (k + size_list (size_prod size size) os)"
  "(a, b) \<in> set os \<Longrightarrow> size b < Suc (k + size_list (size_prod size size) os)"
  by (induction os) auto

function sane :: "criteria \<Rightarrow> bool" where
  "sane (Criteria f ns os) \<longleftrightarrow> sane_flat f \<and> (\<forall>c \<in> set ns. sane c) \<and> (\<forall>(a, b) \<in> set os. sane a \<and> sane b)"
  by pat_completeness auto
termination
  by (relation "measure size") (auto simp: size_nots size_ors)

lemma sane_no_flat [simp]: "sane_flat no_flat"
  by (simp add: sane_flat_def no_flat_def)

lemma uid_num_bound: "uid_num s w = Inr n \<Longrightarrow> n < 2 ^ 32"
  by (auto simp: uid_num_def split: if_splits option.splits dest: parse_uint_bound)

lemma uid_parts_sane: "uid_parts w ps = Inr s \<Longrightarrow> length s = length ps \<and> (\<forall>r \<in> set s. sane_num r)"
proof (induction w ps arbitrary: s rule: uid_parts.induct)
  case (2 w part rest)
  obtain lo hi f where c: "cut (CHR '':'') part = (lo, hi, f)" by (metis prod_cases3)
  with 2(3) obtain start where start: "uid_num lo w = Inr start" by (auto simp: bind_err_Inr_iff)
  show ?case
  proof (cases f)
    case False
    with 2(3) c start obtain s' where s': "uid_parts w rest = Inr s'" "s = AddNum start # s'"
      by (auto simp: bind_err_Inr_iff)
    from 2(1) [OF c [symmetric] refl refl start _ s'(1)] s'(2) False uid_num_bound [OF start] show ?thesis
      by (auto simp: sane_num_def)
  next
    case True
    with 2(3) c start obtain stop s' where s': "uid_num hi w = Inr stop" "uid_parts w rest = Inr s'"
      "s = AddRange start stop # s'"
      by (auto simp: bind_err_Inr_iff)
    from 2(2) [OF c [symmetric] refl refl start _ s'(1,2)] s'(3) True uid_num_bound [OF start] uid_num_bound [OF s'(1)]
    show ?thesis by (auto simp: sane_num_def)
  qed
qed simp

lemma uid_set_sane: "uid_set ts = Inr (s, rest) \<Longrightarrow> s \<noteq> [] \<and> (\<forall>r \<in> set s. sane_num r)"
  by (auto simp: uid_set_def bind_err_Inr_iff dest!: uid_parts_sane)

lemma size_value_sane: "size_value k ts = Inr (n, rest) \<Longrightarrow> 0 < n \<and> n < 2 ^ 32"
  by (auto simp: size_value_def bind_err_Inr_iff split: option.splits if_splits dest!: parse_uint_bound)

lemma flag_key_sane: "flag_key n ts = Some (Inr (c, rest)) \<Longrightarrow> sane_flat c"
  unfolding flag_key_def
  by (elim if_SomeE) (auto simp: bind_err_Inr_iff sane_flat_def no_flat_def split: option.splits if_splits)

lemma text_key_sane: "text_key n ts = Some (Inr (c, rest)) \<Longrightarrow> sane_flat c"
  unfolding text_key_def
  by (elim if_SomeE) (auto simp: bind_err_Inr_iff sane_flat_def no_flat_def)

lemma set_date_sane: "sane_flat (set_date n d)"
  unfolding set_date_def by (simp add: sane_flat_def no_flat_def)

lemma sane_bounds:
  "0 < n \<Longrightarrow> n < 2 ^ 32 \<Longrightarrow> sane_flat (no_flat\<lparr>larger := n\<rparr>)"
  "0 < n \<Longrightarrow> n < 2 ^ 32 \<Longrightarrow> sane_flat (no_flat\<lparr>smaller := n\<rparr>)"
  "s \<noteq> [] \<Longrightarrow> \<forall>r \<in> set s. sane_num r \<Longrightarrow> sane_flat (no_flat\<lparr>uids := [s]\<rparr>)"
  by (simp_all add: sane_flat_def no_flat_def)

lemma bound_key_sane: "bound_key n ts = Some (Inr (c, rest)) \<Longrightarrow> sane_flat c"
  unfolding bound_key_def
proof (elim if_SomeE)
  assume "bind_err (size_value n ts)
      (\<lambda>(k, rest). Inr (if n = ''LARGER'' then no_flat\<lparr>larger := k\<rparr> else no_flat\<lparr>smaller := k\<rparr>, rest)) = Inr (c, rest)"
  then obtain k where "size_value n ts = Inr (k, rest)"
    "c = (if n = ''LARGER'' then no_flat\<lparr>larger := k\<rparr> else no_flat\<lparr>smaller := k\<rparr>)"
    by (auto simp: bind_err_Inr_iff)
  with size_value_sane [of n ts k rest] show "sane_flat c" by (simp add: sane_bounds)
next
  assume "bind_err (uid_set ts) (\<lambda>(s, rest). Inr (no_flat\<lparr>uids := [s]\<rparr>, rest)) = Inr (c, rest)"
  then obtain s where "uid_set ts = Inr (s, rest)" "c = no_flat\<lparr>uids := [s]\<rparr>"
    by (auto simp: bind_err_Inr_iff)
  with uid_set_sane [of ts s rest] show "sane_flat c" by (simp add: sane_bounds)
qed (auto simp: bind_err_Inr_iff set_date_sane)

lemma simple_key_sane: "simple_key n ts = Some (Inr (c, rest)) \<Longrightarrow> sane_flat c"
  unfolding simple_key_def
  by (auto split: option.splits dest: flag_key_sane text_key_sane bound_key_sane)

lemma sane_and: "sane a \<Longrightarrow> sane b \<Longrightarrow> sane (and_criteria a b)"
  by (cases a; cases b) (auto simp: and_criteria_def and_flat_def sane_flat_def)

lemma grammar_sane:
  "search_key ts c \<Longrightarrow> sane c"
  "search_keys ts acc k c \<Longrightarrow> sane acc \<longrightarrow> sane c"
  by (induction rule: search_key_search_keys.inducts)
    (auto simp: no_criteria_def simple_key_sane sane_and)

lemma parse_tokens_iff: "parse_tokens ts = Inr c \<longleftrightarrow> (\<exists>n. 0 < n \<and> search_keys ts no_criteria n c)"
proof
  assume "parse_tokens ts = Inr c"
  then obtain n where n: "keys no_criteria 0 ts = Inr ((c, n), [])" "n \<noteq> 0"
    by (auto simp: parse_tokens_def bind_err_Inr_iff split: if_splits list.splits)
  from key_sound(2) [of no_criteria 0 ts, rule_format, OF n(1)] n(2)
  show "\<exists>n. 0 < n \<and> search_keys ts no_criteria n c" by auto
next
  assume "\<exists>n. 0 < n \<and> search_keys ts no_criteria n c"
  then obtain n where n: "0 < n" "search_keys ts no_criteria n c" by blast
  from key_complete(2) [OF n(2), rule_format, of "[]" 0] n(1)
  show "parse_tokens ts = Inr c" by (simp add: parse_tokens_def)
qed

section \<open>Properties\<close>

text \<open>
  C38: The parser accepts exactly the search-key grammar: a token list is parsed to a criteria if and
  only if it is a non-empty run of search keys whose conjunction is that criteria, every NOT taking
  the one key after it, every OR the two, every group its whole list, with nothing left over.
\<close>

theorem parser_matches_grammar:
  "parse_tokens ts = Inr c \<longleftrightarrow> (\<exists>n. 0 < n \<and> search_keys ts no_criteria n c)"
  by (rule parse_tokens_iff)

text \<open>
  The lexer reads back whatever is written by quoting: any sequence of atoms, parentheses and
  quoted strings, the strings holding any bytes at all (quotes, backslashes, parentheses and spaces
  included), is recovered token for token.
\<close>

theorem lex_reads_back:
  assumes "list_all writable ts"
  shows "lex (concat (map write_token ts)) = Inr ts"
  using assms unfolding lex_def by (rule lex_written)

theorem lex_reads_back_witness:
  "lex (concat (map write_token [Token TokAtom ''SUBJECT'', Token TokQuoted [CHR 0x22, CHR 0x5C]]))
     = Inr [Token TokAtom ''SUBJECT'', Token TokQuoted [CHR 0x22, CHR 0x5C]]"
  by (rule lex_reads_back) code_simp

text \<open>
  Nothing a search argument can say reaches the wire as a bound the library would drop or
  wrap: the sizes of a parsed search, at every depth of NOT, OR and grouping, are 32-bit numbers
  or absent, every UID set is non-empty and holds 32-bit numbers only, and sequence numbers never
  appear.
\<close>

theorem parsed_search_is_sane:
  assumes "parse s = Inr k"
  shows "\<exists>c. criteria_of k = Some c \<and> sane c"
proof -
  from assms obtain ts c where "lex s = Inr ts" "parse_tokens ts = Inr c" "criteria_of k = Some c"
    by (auto simp: parse_def bind_err_Inr_iff)
  moreover from this obtain n where "search_keys ts no_criteria n c" by (auto simp: parse_tokens_iff)
  moreover have "sane no_criteria" by (simp add: no_criteria_def)
  ultimately show ?thesis using grammar_sane(2) by blast
qed

theorem parsed_search_is_sane_witness:
  "sane (Criteria (no_flat\<lparr>smaller := 1000, not_flags := [CHR 0x5C # ''Seen'']\<rparr>) [] [])"
proof -
  have "parse ''SMALLER 1000 UNSEEN'' = Inr \<lparr>criteria_of =
      Some (Criteria (no_flat\<lparr>smaller := 1000, not_flags := [CHR 0x5C # ''Seen'']\<rparr>) [] []),
      search_text = ''SMALLER 1000 UNSEEN''\<rparr>" by code_simp
  from parsed_search_is_sane [OF this] show ?thesis by simp
qed

text \<open>
  A date argument means the day that was written: every day of the calendar from year 0 to 9999,
  written as the format asks, parses to the midnight that starts it, and a later day to a later
  midnight, across month ends, leap days and centuries.
\<close>

theorem date_argument_exact:
  assumes "real_day (int y) m (int d)" "y < 10000" and "real_day (int y') m' (int d')" "y' < 10000"
  shows "\<exists>t t'. parse_date (show_nat d @ ''-'' @ months ! (m - 1) @ ''-'' @ pad_nat 4 y) = Some t
    \<and> parse_date (show_nat d' @ ''-'' @ months ! (m' - 1) @ ''-'' @ pad_nat 4 y') = Some t'
    \<and> day_ns dvd t \<and> day_ns dvd t'
    \<and> (t < t' \<longleftrightarrow> y < y' \<or> y = y' \<and> (m < m' \<or> m = m' \<and> d < d'))"
proof -
  let ?n = "day_number (int y) m (int d)" and ?n' = "day_number (int y') m' (int d')"
  have lt: "?n < ?n' \<longleftrightarrow> y < y' \<or> y = y' \<and> (m < m' \<or> m = m' \<and> d < d')"
  proof
    show "y < y' \<or> y = y' \<and> (m < m' \<or> m = m' \<and> d < d') \<Longrightarrow> ?n < ?n'"
      using day_number_mono [OF assms(1,3)] by auto
    assume "?n < ?n'"
    then show "y < y' \<or> y = y' \<and> (m < m' \<or> m = m' \<and> d < d')"
      using day_number_mono [OF assms(3,1)] by (cases y y' rule: linorder_cases; cases m m' rule: linorder_cases;
        cases d d' rule: linorder_cases) auto
  qed
  have "?n * day_ns < ?n' * day_ns \<longleftrightarrow> ?n < ?n'" by (simp add: day_ns_def)
  then show ?thesis
    using lt parse_date_written [OF assms(1,2)] parse_date_written [OF assms(3,4)] by auto
qed

theorem date_argument_exact_witness:
  "parse_date ''29-Feb-2000'' = Some (730178 * day_ns) \<and> parse_date ''1-Mar-2000'' = Some (730179 * day_ns)
   \<and> 730178 * day_ns < 730179 * day_ns"
proof -
  have w: "show_nat 29 @ ''-'' @ months ! (2 - 1) @ ''-'' @ pad_nat 4 2000 = ''29-Feb-2000''"
    "show_nat 1 @ ''-'' @ months ! (3 - 1) @ ''-'' @ pad_nat 4 2000 = ''1-Mar-2000''" by code_simp+
  have p: "parse_date ''29-Feb-2000'' = Some (730178 * day_ns)" "parse_date ''1-Mar-2000'' = Some (730179 * day_ns)"
    by code_simp+
  have r: "real_day (int 2000) 2 (int 29)" "real_day (int 2000) 3 (int 1)" by code_simp+
  from date_argument_exact [OF r(1) _ r(2), unfolded w p] p show ?thesis by simp
qed

lemma parse_date_midnight: "parse_date v = Some d \<Longrightarrow> \<exists>k. d = k * day_ns"
  by (auto simp: parse_date_def split: option.splits if_splits prod.splits)

text \<open>A bound of the zero time is no bound: the one date argument that parses and is then dropped,
  so that this search is the search for everything.\<close>

lemma first_day_is_dropped:
  "map_sum (\<lambda>e. e) criteria_of (parse ''BEFORE 1-Jan-0001'') = map_sum (\<lambda>e. e) criteria_of (parse ''ALL'')"
  by code_simp

end
