(* ===== verification/LocalSearch.thy ===== *)
theory LocalSearch
  imports SearchKey
begin

text \<open>
  internal/localstore/search.go: evaluating a search key over a folder of the local store, with the
  header access of conn.go it rests on. Reading a message file either fails or gives its bytes;
  the file is read once and the outcome kept, so it is a field of the message. A date carries the
  offset of its zone, as a time.Time does. Two outside functions are arguments: \<open>has\<close>, go-imap's
  test of membership in a number set, and \<open>mail_date\<close>, the parser of RFC 5322 dates.
\<close>

section \<open>Headers\<close>

definition index_of :: "string \<Rightarrow> string \<Rightarrow> nat option" where
  "index_of s w = find (\<lambda>i. has_prefix (drop i s) w) [0..<length s + 1]"

definition end_of_header :: "string \<Rightarrow> nat option" where
  "end_of_header b =
     (case index_of b [CHR 0x0D, CHR 0x0A, CHR 0x0D, CHR 0x0A] of
        Some i \<Rightarrow> Some (i + 2)
      | None \<Rightarrow> (case index_of b [CHR 0x0A, CHR 0x0A] of Some i \<Rightarrow> Some (i + 1) | None \<Rightarrow> None))"

function split_lines :: "string \<Rightarrow> string list" where
  "split_lines b =
     (if b = [] then []
      else case index_of b [CHR 0x0A] of
        None \<Rightarrow> [b]
      | Some i \<Rightarrow> take (i + 1) b # split_lines (drop (i + 1) b))"
  by auto
termination by (relation "measure length") auto

declare split_lines.simps [simp del]

definition trim_right_eol :: "string \<Rightarrow> string" where
  "trim_right_eol s = rev (dropWhile (\<lambda>c. c = CHR 0x0D \<or> c = CHR 0x0A) (rev s))"

text \<open>The loop of \<open>headerValues\<close>: the field being collected, if any, and the lines left.\<close>

fun header_values_from :: "string \<Rightarrow> string option \<Rightarrow> string list \<Rightarrow> string list" where
  "header_values_from field cur [] = (case cur of Some v \<Rightarrow> [v] | None \<Rightarrow> [])"
| "header_values_from field cur (line # rest) =
     (let t = trim_right_eol line in
      if has_prefix t '' '' \<or> has_prefix t [CHR 0x09] then
        header_values_from field (map_option (\<lambda>v. v @ '' '' @ trim_space t) cur) rest
      else
        (case cur of Some v \<Rightarrow> [v] | None \<Rightarrow> [])
        @ (let (n, v, ok) = cut (CHR '':'') t in
           header_values_from field (if ok \<and> equal_fold (trim_space n) field then Some (trim_space v) else None) rest))"

definition header_values :: "string \<Rightarrow> string \<Rightarrow> string list" where
  "header_values header field = header_values_from field None (split_lines header)"

definition header_contains :: "string \<Rightarrow> string \<Rightarrow> string \<Rightarrow> bool" where
  "header_contains header field v \<longleftrightarrow>
     list_ex (\<lambda>x. v = [] \<or> contains (go_lower x) (go_lower v)) (header_values header field)"

text \<open>\<open>selectFields\<close>: the named fields with their original bytes and folding.\<close>

fun select_lines :: "string list \<Rightarrow> bool \<Rightarrow> string list \<Rightarrow> string" where
  "select_lines want keeping [] = []"
| "select_lines want keeping (line # rest) =
     (if line \<noteq> [] \<and> (hd line = CHR 0x20 \<or> hd line = CHR 0x09) then
        (if keeping then line else []) @ select_lines want keeping rest
      else let (n, v, ok) = cut (CHR '':'') line in
        if \<not> ok then select_lines want False rest
        else let keep = (go_lower (trim_space n) \<in> set want)
             in (if keep then line else []) @ select_lines want keep rest)"

definition select_fields :: "string \<Rightarrow> string list \<Rightarrow> string" where
  "select_fields header hs = select_lines (map go_lower hs) False (split_lines header) @ [CHR 0x0D, CHR 0x0A]"

section \<open>Messages\<close>

type_synonym zoned = "go_time \<times> int"

definition day :: "zoned \<Rightarrow> go_time" where
  "day t = ((fst t + snd t) div day_ns) * day_ns"

record msg_record =
  uid :: nat
  marks :: "string list"
  arrived :: zoned
  bytes :: int

record message =
  entry :: msg_record
  seq_no :: nat
  content :: "string + string"

definition header_of :: "message \<Rightarrow> string + string" where
  "header_of m = bind_err (content m) (\<lambda>raw. Inr (case end_of_header raw of Some i \<Rightarrow> take i raw | None \<Rightarrow> raw))"

definition body_of :: "message \<Rightarrow> string + string" where
  "body_of m = bind_err (content m) (\<lambda>raw. Inr (case end_of_header raw of Some i \<Rightarrow> drop i raw | None \<Rightarrow> []))"

definition first_date :: "(string \<Rightarrow> zoned option) \<Rightarrow> string list \<Rightarrow> zoned" where
  "first_date mail_date vs = (case List.map_filter mail_date vs of [] \<Rightarrow> (0, 0) | t # _ \<Rightarrow> t)"

definition date_sent :: "(string \<Rightarrow> zoned option) \<Rightarrow> message \<Rightarrow> string + zoned" where
  "date_sent mail_date m =
     bind_err (header_of m) (\<lambda>h. Inr (first_date mail_date (header_values h ''Date'')))"

definition has_flag :: "string list \<Rightarrow> string \<Rightarrow> bool" where
  "has_flag fs want \<longleftrightarrow> list_ex (\<lambda>f. equal_fold f want) fs"

definition contains_fold :: "string \<Rightarrow> string \<Rightarrow> bool" where
  "contains_fold haystack needle \<longleftrightarrow> needle = [] \<or> contains (go_lower haystack) (go_lower needle)"

section \<open>Matching\<close>

definition matches_index :: "(num_set \<Rightarrow> nat \<Rightarrow> bool) \<Rightarrow> flat \<Rightarrow> message \<Rightarrow> bool" where
  "matches_index has c m \<longleftrightarrow>
     list_all (\<lambda>s. has s (seq_no m)) (seq_nums c)
     \<and> list_all (\<lambda>s. has s (uid (entry m))) (uids c)
     \<and> \<not> (since_day c \<noteq> 0 \<and> day (arrived (entry m)) < day (since_day c, 0))
     \<and> \<not> (before_day c \<noteq> 0 \<and> \<not> day (arrived (entry m)) < day (before_day c, 0))
     \<and> \<not> (larger c > 0 \<and> bytes (entry m) \<le> larger c)
     \<and> \<not> (smaller c > 0 \<and> bytes (entry m) \<ge> smaller c)
     \<and> list_all (\<lambda>f. has_flag (marks (entry m)) f) (flags c)
     \<and> list_all (\<lambda>f. \<not> has_flag (marks (entry m)) f) (not_flags c)"

text \<open>A loop that returns false at the first key that fails and an error at the first that errs.\<close>

fun all_ok :: "('a \<Rightarrow> 'e + bool) \<Rightarrow> 'a list \<Rightarrow> 'e + bool" where
  "all_ok f [] = Inr True"
| "all_ok f (x # xs) = bind_err (f x) (\<lambda>b. if b then all_ok f xs else Inr False)"

lemma all_ok_cong [fundef_cong]:
  assumes "xs = ys" and "\<And>x. x \<in> set ys \<Longrightarrow> f x = g x"
  shows "all_ok f xs = all_ok g ys"
  using assms(2) unfolding assms(1)
proof (induction ys)
  case (Cons y ys)
  then have "all_ok f ys = all_ok g ys" and "f y = g y" by simp_all
  then show ?case by (simp cong: if_cong)
qed simp

definition matches_content :: "(string \<Rightarrow> zoned option) \<Rightarrow> flat \<Rightarrow> message \<Rightarrow> string + bool" where
  "matches_content mail_date c m =
     bind_err
       (if sent_since c \<noteq> 0 \<or> sent_before c \<noteq> 0 then
          bind_err (date_sent mail_date m) (\<lambda>sent.
            if sent_since c \<noteq> 0 \<and> day sent < day (sent_since c, 0) then Inr False
            else if sent_before c \<noteq> 0 \<and> \<not> day sent < day (sent_before c, 0) then Inr False
            else Inr True)
        else Inr True) (\<lambda>ok. if \<not> ok then Inr False else
     bind_err (all_ok (\<lambda>(k, v). bind_err (header_of m) (\<lambda>h. Inr (header_contains h k v))) (headers c))
       (\<lambda>ok. if \<not> ok then Inr False else
     bind_err (all_ok (\<lambda>w. bind_err (body_of m) (\<lambda>b. Inr (contains_fold b w))) (bodies c))
       (\<lambda>ok. if \<not> ok then Inr False else
     all_ok (\<lambda>w. bind_err (content m) (\<lambda>r. Inr (contains_fold r w))) (texts c))))"

function matches ::
  "(num_set \<Rightarrow> nat \<Rightarrow> bool) \<Rightarrow> (string \<Rightarrow> zoned option) \<Rightarrow> criteria \<Rightarrow> message \<Rightarrow> string + bool" where
  "matches has mail_date (Criteria f ns os) m =
     (if \<not> matches_index has f m then Inr False
      else bind_err (matches_content mail_date f m) (\<lambda>ok. if \<not> ok then Inr False
      else bind_err (all_ok (\<lambda>c. bind_err (matches has mail_date c m) (\<lambda>b. Inr (\<not> b))) ns)
        (\<lambda>ok. if \<not> ok then Inr False
      else all_ok (\<lambda>(a, b). bind_err (matches has mail_date a m)
             (\<lambda>left. if left then Inr True else matches has mail_date b m)) os)))"
  by pat_completeness auto
termination
  by (relation "measure (\<lambda>(_, _, c, _). size c)") (auto simp: size_nots size_ors)

fun evaluate_from ::
  "(num_set \<Rightarrow> nat \<Rightarrow> bool) \<Rightarrow> (string \<Rightarrow> zoned option) \<Rightarrow> (nat \<Rightarrow> string + string) \<Rightarrow> criteria
    \<Rightarrow> nat \<Rightarrow> msg_record list \<Rightarrow> string + nat list" where
  "evaluate_from has mail_date read_file c i [] = Inr []"
| "evaluate_from has mail_date read_file c i (r # rs) =
     bind_err (matches has mail_date c \<lparr>entry = r, seq_no = i + 1, content = read_file (uid r)\<rparr>) (\<lambda>ok.
       bind_err (evaluate_from has mail_date read_file c (i + 1) rs) (\<lambda>out.
         Inr (if ok then uid r # out else out)))"

definition evaluate ::
  "(num_set \<Rightarrow> nat \<Rightarrow> bool) \<Rightarrow> (string \<Rightarrow> zoned option) \<Rightarrow> (nat \<Rightarrow> string + string) \<Rightarrow> criteria option
    \<Rightarrow> msg_record list \<Rightarrow> string + nat list" where
  "evaluate has mail_date read_file c rs =
     (case c of None \<Rightarrow> Inr (map uid rs) | Some k \<Rightarrow> evaluate_from has mail_date read_file k 0 rs)"

section \<open>What a search means\<close>

definition header_part :: "string \<Rightarrow> string" where
  "header_part raw = (case end_of_header raw of Some i \<Rightarrow> take i raw | None \<Rightarrow> raw)"

definition body_part :: "string \<Rightarrow> string" where
  "body_part raw = (case end_of_header raw of Some i \<Rightarrow> drop i raw | None \<Rightarrow> [])"

definition meets_index :: "(num_set \<Rightarrow> nat \<Rightarrow> bool) \<Rightarrow> flat \<Rightarrow> message \<Rightarrow> bool" where
  "meets_index has c m \<longleftrightarrow>
     (\<forall>s \<in> set (seq_nums c). has s (seq_no m)) \<and> (\<forall>s \<in> set (uids c). has s (uid (entry m)))
     \<and> (since_day c \<noteq> 0 \<longrightarrow> day (since_day c, 0) \<le> day (arrived (entry m)))
     \<and> (before_day c \<noteq> 0 \<longrightarrow> day (arrived (entry m)) < day (before_day c, 0))
     \<and> (0 < larger c \<longrightarrow> larger c < bytes (entry m)) \<and> (0 < smaller c \<longrightarrow> bytes (entry m) < smaller c)
     \<and> (\<forall>f \<in> set (flags c). has_flag (marks (entry m)) f)
     \<and> (\<forall>f \<in> set (not_flags c). \<not> has_flag (marks (entry m)) f)"

definition meets_content :: "(string \<Rightarrow> zoned option) \<Rightarrow> flat \<Rightarrow> string \<Rightarrow> bool" where
  "meets_content mail_date c raw \<longleftrightarrow>
     (let sent = day (first_date mail_date (header_values (header_part raw) ''Date''))
      in (sent_since c \<noteq> 0 \<longrightarrow> day (sent_since c, 0) \<le> sent) \<and> (sent_before c \<noteq> 0 \<longrightarrow> sent < day (sent_before c, 0)))
     \<and> (\<forall>(k, v) \<in> set (headers c). header_contains (header_part raw) k v)
     \<and> (\<forall>w \<in> set (bodies c). contains_fold (body_part raw) w)
     \<and> (\<forall>w \<in> set (texts c). contains_fold raw w)"

function satisfies ::
  "(num_set \<Rightarrow> nat \<Rightarrow> bool) \<Rightarrow> (string \<Rightarrow> zoned option) \<Rightarrow> criteria \<Rightarrow> message \<Rightarrow> string \<Rightarrow> bool" where
  "satisfies has mail_date (Criteria f ns os) m raw \<longleftrightarrow>
     meets_index has f m \<and> meets_content mail_date f raw
     \<and> (\<forall>c \<in> set ns. \<not> satisfies has mail_date c m raw)
     \<and> (\<forall>(a, b) \<in> set os. satisfies has mail_date a m raw \<or> satisfies has mail_date b m raw)"
  by pat_completeness auto
termination
  by (relation "measure (\<lambda>(_, _, c, _). size c)") (auto simp: size_nots size_ors)

lemma all_ok_Inr: "(\<And>x. x \<in> set xs \<Longrightarrow> f x = Inr (p x)) \<Longrightarrow> all_ok f xs = Inr (\<forall>x \<in> set xs. p x)"
  by (induction xs) auto

lemma index_meets: "matches_index has c m = meets_index has c m"
  by (auto simp: matches_index_def meets_index_def list_all_iff not_less not_le)

lemma content_meets:
  assumes "content m = Inr raw"
  shows "matches_content mail_date c m = Inr (meets_content mail_date c raw)"
proof -
  have h: "header_of m = Inr (header_part raw)" and b: "body_of m = Inr (body_part raw)"
    using assms by (simp_all add: header_of_def body_of_def header_part_def body_part_def)
  have s: "date_sent mail_date m = Inr (first_date mail_date (header_values (header_part raw) ''Date''))"
    by (simp add: date_sent_def h)
  have 1: "all_ok (\<lambda>(k, v). bind_err (header_of m) (\<lambda>h. Inr (header_contains h k v))) (headers c)
      = Inr (\<forall>x \<in> set (headers c). (\<lambda>(k, v). header_contains (header_part raw) k v) x)"
    by (rule all_ok_Inr) (auto simp: h)
  have 2: "all_ok (\<lambda>w. bind_err (body_of m) (\<lambda>b. Inr (contains_fold b w))) (bodies c)
      = Inr (\<forall>w \<in> set (bodies c). contains_fold (body_part raw) w)"
    by (rule all_ok_Inr) (simp add: b)
  have 3: "all_ok (\<lambda>w. bind_err (content m) (\<lambda>r. Inr (contains_fold r w))) (texts c)
      = Inr (\<forall>w \<in> set (texts c). contains_fold raw w)"
    by (rule all_ok_Inr) (simp add: assms)
  show ?thesis
    unfolding matches_content_def meets_content_def 1 2 3 s Let_def by (auto simp: not_less)
qed

lemma matches_satisfies:
  "content m = Inr raw \<Longrightarrow> matches has mail_date c m = Inr (satisfies has mail_date c m raw)"
proof (induction has mail_date c m raw rule: satisfies.induct)
  case (1 has mail_date f ns os m raw)
  have n: "all_ok (\<lambda>c. bind_err (matches has mail_date c m) (\<lambda>b. Inr (\<not> b))) ns
      = Inr (\<forall>c \<in> set ns. \<not> satisfies has mail_date c m raw)"
    by (rule all_ok_Inr) (simp add: 1)
  have o: "all_ok (\<lambda>(a, b). bind_err (matches has mail_date a m)
             (\<lambda>left. if left then Inr True else matches has mail_date b m)) os
      = Inr (\<forall>x \<in> set os. (\<lambda>(a, b). satisfies has mail_date a m raw \<or> satisfies has mail_date b m raw) x)"
  proof (rule all_ok_Inr)
    fix x assume x: "x \<in> set os"
    obtain a b where ab: "x = (a, b)" by fastforce
    show "(\<lambda>(a, b). bind_err (matches has mail_date a m)
             (\<lambda>left. if left then Inr True else matches has mail_date b m)) x
      = Inr ((\<lambda>(a, b). satisfies has mail_date a m raw \<or> satisfies has mail_date b m raw) x)"
      using 1(2) [OF x ab [symmetric] 1(4)] 1(3) [OF x ab [symmetric] 1(4)] ab by simp
  qed
  show ?case
    unfolding matches.simps satisfies.simps n o index_meets content_meets [OF 1(4)] by auto
qed

lemma day_mono: "a \<le> b \<Longrightarrow> day (a, 0) \<le> day (b, 0)"
  by (simp add: day_def day_ns_def zdiv_mono1)

lemma later_meets:
  "(later a b \<noteq> 0 \<longrightarrow> day (later a b, 0) \<le> t) \<longleftrightarrow> (a \<noteq> 0 \<longrightarrow> day (a, 0) \<le> t) \<and> (b \<noteq> 0 \<longrightarrow> day (b, 0) \<le> t)"
  using day_mono [of a b] day_mono [of b a] by (auto simp: later_def)

lemma earlier_meets:
  "(earlier a b \<noteq> 0 \<longrightarrow> t < day (earlier a b, 0)) \<longleftrightarrow> (a \<noteq> 0 \<longrightarrow> t < day (a, 0)) \<and> (b \<noteq> 0 \<longrightarrow> t < day (b, 0))"
  using day_mono [of a b] day_mono [of b a] by (auto simp: earlier_def)

lemma and_flat_index:
  assumes "sane_flat c" "sane_flat d"
  shows "meets_index has (and_flat c d) m \<longleftrightarrow> meets_index has c m \<and> meets_index has d m"
proof -
  have l: "(0 < larger (and_flat c d) \<longrightarrow> larger (and_flat c d) < n)
      \<longleftrightarrow> (0 < larger c \<longrightarrow> larger c < n) \<and> (0 < larger d \<longrightarrow> larger d < n)" for n
    using assms by (auto simp: and_flat_def sane_flat_def)
  have s: "(0 < smaller (and_flat c d) \<longrightarrow> n < smaller (and_flat c d))
      \<longleftrightarrow> (0 < smaller c \<longrightarrow> n < smaller c) \<and> (0 < smaller d \<longrightarrow> n < smaller d)" for n
    using assms by (auto simp: and_flat_def sane_flat_def)
  have t: "(since_day (and_flat c d) \<noteq> 0 \<longrightarrow> day (since_day (and_flat c d), 0) \<le> n)
      \<longleftrightarrow> (since_day c \<noteq> 0 \<longrightarrow> day (since_day c, 0) \<le> n) \<and> (since_day d \<noteq> 0 \<longrightarrow> day (since_day d, 0) \<le> n)"
    "(before_day (and_flat c d) \<noteq> 0 \<longrightarrow> n < day (before_day (and_flat c d), 0))
      \<longleftrightarrow> (before_day c \<noteq> 0 \<longrightarrow> n < day (before_day c, 0)) \<and> (before_day d \<noteq> 0 \<longrightarrow> n < day (before_day d, 0))" for n
    using later_meets earlier_meets by (simp_all add: and_flat_def)
  have lists: "seq_nums (and_flat c d) = seq_nums c @ seq_nums d" "uids (and_flat c d) = uids c @ uids d"
    "flags (and_flat c d) = flags c @ flags d" "not_flags (and_flat c d) = not_flags c @ not_flags d"
    by (simp_all add: and_flat_def)
  show ?thesis
    unfolding meets_index_def l s t lists set_append ball_Un
    by (intro iffI conjI; (elim conjE)?; assumption)
qed

lemma and_flat_content:
  "meets_content mail_date (and_flat c d) raw \<longleftrightarrow> meets_content mail_date c raw \<and> meets_content mail_date d raw"
proof -
  have t: "(sent_since (and_flat c d) \<noteq> 0 \<longrightarrow> day (sent_since (and_flat c d), 0) \<le> n)
      \<longleftrightarrow> (sent_since c \<noteq> 0 \<longrightarrow> day (sent_since c, 0) \<le> n) \<and> (sent_since d \<noteq> 0 \<longrightarrow> day (sent_since d, 0) \<le> n)"
    "(sent_before (and_flat c d) \<noteq> 0 \<longrightarrow> n < day (sent_before (and_flat c d), 0))
      \<longleftrightarrow> (sent_before c \<noteq> 0 \<longrightarrow> n < day (sent_before c, 0)) \<and> (sent_before d \<noteq> 0 \<longrightarrow> n < day (sent_before d, 0))" for n
    using later_meets earlier_meets by (simp_all add: and_flat_def)
  have lists: "headers (and_flat c d) = headers c @ headers d" "bodies (and_flat c d) = bodies c @ bodies d"
    "texts (and_flat c d) = texts c @ texts d"
    by (simp_all add: and_flat_def)
  show ?thesis
    unfolding meets_content_def t lists set_append ball_Un Let_def
    by (intro iffI conjI; (elim conjE)?; assumption)
qed

lemma satisfies_and:
  assumes "sane c" "sane d"
  shows "satisfies has mail_date (and_criteria c d) m raw
    \<longleftrightarrow> satisfies has mail_date c m raw \<and> satisfies has mail_date d m raw"
proof -
  obtain f ns os g ms ps where c: "c = Criteria f ns os" and d: "d = Criteria g ms ps" by (metis criteria.exhaust)
  have s: "sane_flat f" "sane_flat g" using assms c d by simp_all
  show ?thesis
    unfolding c d and_criteria_def criteria.sel satisfies.simps and_flat_index [OF s] and_flat_content
      set_append ball_Un by blast
qed

lemma satisfies_all: "satisfies has mail_date no_criteria m raw"
  by (simp add: no_criteria_def meets_index_def meets_content_def no_flat_def)

section \<open>Conjunction of searches\<close>

lemma keys_meaning:
  "search_key ts c \<Longrightarrow> True"
  "search_keys ts acc k c \<Longrightarrow> sane acc \<Longrightarrow> \<exists>P. \<forall>acc'. sane acc' \<longrightarrow>
     (\<exists>d. search_keys ts acc' k d \<and> (\<forall>m raw. satisfies has mail_date d m raw \<longleftrightarrow> satisfies has mail_date acc' m raw \<and> P m raw))"
proof (induction rule: search_key_search_keys.inducts)
  case (none c)
  show ?case
    by (rule exI [of _ "\<lambda>_ _. True"]) (use search_key_search_keys.none in blast)
next
  case (more ts c us acc n d)
  have sc: "sane c" using grammar_sane(1) [OF more(1)] .
  then have "sane (and_criteria acc c)" using more(5) by (simp add: sane_and)
  from more(4) [OF this] obtain P where P: "\<forall>acc'. sane acc' \<longrightarrow>
     (\<exists>d. search_keys us acc' n d \<and> (\<forall>m raw. satisfies has mail_date d m raw \<longleftrightarrow> satisfies has mail_date acc' m raw \<and> P m raw))"
    by blast
  show ?case
  proof (rule exI [of _ "\<lambda>m raw. satisfies has mail_date c m raw \<and> P m raw"], intro allI impI)
    fix acc' assume a: "sane acc'"
    then have "sane (and_criteria acc' c)" using sc by (simp add: sane_and)
    with P obtain d where d: "search_keys us (and_criteria acc' c) n d"
      "\<forall>m raw. satisfies has mail_date d m raw \<longleftrightarrow> satisfies has mail_date (and_criteria acc' c) m raw \<and> P m raw"
      by blast
    have "search_keys (ts @ us) acc' (Suc n) d" using more(1) d(1) by (rule search_key_search_keys.more)
    with d(2) show "\<exists>d. search_keys (ts @ us) acc' (Suc n) d \<and> (\<forall>m raw. satisfies has mail_date d m raw
        \<longleftrightarrow> satisfies has mail_date acc' m raw \<and> satisfies has mail_date c m raw \<and> P m raw)"
      unfolding satisfies_and [OF a sc] by blast
  qed
qed simp_all

lemma keys_det: "search_keys ts acc k c \<Longrightarrow> search_keys ts acc k d \<Longrightarrow> c = d"
  using key_complete(2) [of ts acc k c, rule_format, of "[]" 0] key_complete(2) [of ts acc k d, rule_format, of "[]" 0]
  by simp

lemma keys_append: "search_keys ts acc k c \<Longrightarrow> search_keys us c j d \<Longrightarrow> search_keys (ts @ us) acc (k + j) d"
proof (induction ts acc k c rule: search_key_search_keys.inducts(2) [where ?P1.0 = "\<lambda>_ _. True"])
  case (more ts c us' acc n d')
  then have "search_keys (us' @ us) (and_criteria acc c) (n + j) d" by blast
  from search_key_search_keys.more [OF more(1) this] show ?case by simp
qed simp_all

section \<open>Properties\<close>

text \<open>
  C39: Searching the local store means what the key says: if every message of the folder can be read,
  a search does not fail and returns exactly the UIDs of the messages that satisfy the criteria, in
  the folder's order, where satisfying is the logical reading of the criteria (every flag, date,
  size, header and text key holds, no negated criteria does, and one of each alternative does).
\<close>

theorem search_finds_exactly:
  assumes "\<forall>r \<in> set rs. \<exists>raw. read_file (uid r) = Inr raw"
  shows "evaluate has mail_date read_file (Some c) rs = Inr (map (\<lambda>(i, r). uid r)
    (filter (\<lambda>(i, r). satisfies has mail_date c \<lparr>entry = r, seq_no = i + 1, content = read_file (uid r)\<rparr>
        (projr (read_file (uid r)))) (enumerate 0 rs)))"
proof -
  have "evaluate_from has mail_date read_file c k rs = Inr (map (\<lambda>(i, r). uid r)
    (filter (\<lambda>(i, r). satisfies has mail_date c \<lparr>entry = r, seq_no = i + 1, content = read_file (uid r)\<rparr>
        (projr (read_file (uid r)))) (enumerate k rs)))" for k
    using assms
  proof (induction rs arbitrary: k)
    case (Cons r rs)
    then obtain raw where raw: "read_file (uid r) = Inr raw" by auto
    have "matches has mail_date c \<lparr>entry = r, seq_no = k + 1, content = read_file (uid r)\<rparr>
        = Inr (satisfies has mail_date c \<lparr>entry = r, seq_no = k + 1, content = read_file (uid r)\<rparr> raw)"
      by (rule matches_satisfies) (simp add: raw)
    with Cons raw show ?case by simp
  qed simp
  then show ?thesis by (simp add: evaluate_def)
qed

theorem search_finds_exactly_witness:
  "evaluate (\<lambda>_ _. True) (\<lambda>_. None) (\<lambda>_. Inr ''x'')
     (Some (Criteria (no_flat\<lparr>smaller := 10\<rparr>) [] []))
     [\<lparr>uid = 7, marks = [], arrived = (0, 0), bytes = 9\<rparr>, \<lparr>uid = 8, marks = [], arrived = (0, 0), bytes = 10\<rparr>] = Inr [7]"
proof -
  let ?rs = "[\<lparr>uid = 7, marks = [], arrived = (0, 0), bytes = 9\<rparr>, \<lparr>uid = 8, marks = [], arrived = (0, 0), bytes = 10\<rparr>]"
  have "\<forall>r \<in> set ?rs. \<exists>raw. (\<lambda>_. Inr ''x'' :: string + string) (uid r) = Inr raw" by simp
  from search_finds_exactly [OF this, of "\<lambda>_ _. True" "\<lambda>_. None" "Criteria (no_flat\<lparr>smaller := 10\<rparr>) [] []"]
  show ?thesis by (simp add: meets_index_def meets_content_def no_flat_def)
qed

text \<open>
  Keys written in a row narrow a search and never widen it: two searches that parse, written one
  after the other, parse to a search that a readable message matches exactly if it matches both. In
  particular a SMALLER bound survives any later key.
\<close>

theorem keys_in_a_row_intersect:
  assumes "parse_tokens ts = Inr a" and "parse_tokens us = Inr b"
  shows "\<exists>c. parse_tokens (ts @ us) = Inr c \<and>
    (\<forall>m raw. content m = Inr raw \<longrightarrow> matches has mail_date c m
       = Inr (satisfies has mail_date a m raw \<and> satisfies has mail_date b m raw))"
proof -
  from assms obtain n k where n: "0 < n" "search_keys ts no_criteria n a" and k: "search_keys us no_criteria k b"
    by (auto simp: parse_tokens_iff)
  have none: "sane no_criteria" by (simp add: no_criteria_def)
  have sa: "sane a" using grammar_sane(2) [OF n(2)] none by blast
  from keys_meaning(2) [OF k none, of has mail_date] obtain P where P: "\<forall>acc'. sane acc' \<longrightarrow>
     (\<exists>d. search_keys us acc' k d \<and> (\<forall>m raw. satisfies has mail_date d m raw \<longleftrightarrow> satisfies has mail_date acc' m raw \<and> P m raw))"
    by blast
  from P none obtain d where d: "search_keys us no_criteria k d"
    "\<forall>m raw. satisfies has mail_date d m raw \<longleftrightarrow> satisfies has mail_date no_criteria m raw \<and> P m raw" by blast
  have b: "satisfies has mail_date b m raw = P m raw" for m raw
    using d(2) keys_det [OF d(1) k] satisfies_all by metis
  from P sa obtain c where c: "search_keys us a k c"
    "\<forall>m raw. satisfies has mail_date c m raw \<longleftrightarrow> satisfies has mail_date a m raw \<and> P m raw" by blast
  have "search_keys (ts @ us) no_criteria (n + k) c" using n(2) c(1) by (rule keys_append)
  then have "parse_tokens (ts @ us) = Inr c" using n(1) unfolding parse_tokens_iff by (intro exI [of _ "n + k"]) simp
  moreover have "\<forall>m raw. content m = Inr raw \<longrightarrow> matches has mail_date c m
       = Inr (satisfies has mail_date a m raw \<and> satisfies has mail_date b m raw)"
    using c(2) b by (simp add: matches_satisfies)
  ultimately show ?thesis by blast
qed

theorem keys_in_a_row_intersect_witness:
  "\<exists>c. parse_tokens [Token TokAtom ''SMALLER'', Token TokAtom ''1000'', Token TokAtom ''UNSEEN''] = Inr c
    \<and> matches (\<lambda>_ _. True) (\<lambda>_. None) c
        \<lparr>entry = \<lparr>uid = 1, marks = [], arrived = (0, 0), bytes = 5000\<rparr>, seq_no = 1, content = Inr ''x''\<rparr> = Inr False"
proof -
  have a: "parse_tokens [Token TokAtom ''SMALLER'', Token TokAtom ''1000''] = Inr (Criteria (no_flat\<lparr>smaller := 1000\<rparr>) [] [])"
    by code_simp
  have b: "parse_tokens [Token TokAtom ''UNSEEN''] = Inr (Criteria (no_flat\<lparr>not_flags := [CHR 0x5C # ''Seen'']\<rparr>) [] [])"
    by code_simp
  have s: "\<not> satisfies (\<lambda>_ _. True) (\<lambda>_. None) (Criteria (no_flat\<lparr>smaller := 1000\<rparr>) [] [])
      \<lparr>entry = \<lparr>uid = 1, marks = [], arrived = (0, 0), bytes = 5000\<rparr>, seq_no = 1, content = Inr ''x''\<rparr> ''x''"
    by (simp add: meets_index_def no_flat_def)
  from keys_in_a_row_intersect [OF a b, of "\<lambda>_ _. True" "\<lambda>_. None"] s show ?thesis by fastforce
qed

text \<open>
  ON and SENTON mean one day: for a date argument other than the two the library cannot tell from
  "no bound", the bounds ON sets are met exactly by the messages that arrived on that day in their
  own zone, and the bounds SENTON sets by those whose Date header names that day.
\<close>

theorem on_is_one_day:
  assumes "parse_date v = Some d" and "d \<noteq> 0" and "d + day_ns \<noteq> 0"
  shows "(meets_index has (set_date ''ON'' d) m \<longleftrightarrow> day (arrived (entry m)) = d)
    \<and> (meets_content mail_date (set_date ''SENTON'' d) raw
         \<longleftrightarrow> day (first_date mail_date (header_values (header_part raw) ''Date'')) = d)"
proof -
  from assms(1) obtain k where k: "d = k * day_ns" using parse_date_midnight by blast
  then have dd: "day (d, 0) = d" "day (d + day_ns, 0) = d + day_ns"
    by (simp_all add: day_def day_ns_def)
  have one: "d \<le> day t \<and> day t < d + day_ns \<longleftrightarrow> day t = d" for t
  proof -
    have "day t = ((fst t + snd t) div day_ns) * day_ns" by (simp add: day_def)
    then show ?thesis unfolding k by (auto simp: day_ns_def)
  qed
  have "meets_index has (set_date ''ON'' d) m \<longleftrightarrow> day (arrived (entry m)) = d"
    using one [of "arrived (entry m)"] assms(2,3) by (simp add: meets_index_def set_date_def no_flat_def dd)
  moreover have "meets_content mail_date (set_date ''SENTON'' d) raw
      \<longleftrightarrow> day (first_date mail_date (header_values (header_part raw) ''Date'')) = d"
    using one [of "first_date mail_date (header_values (header_part raw) ''Date'')"] assms(2,3)
    by (simp add: meets_content_def set_date_def no_flat_def dd)
  ultimately show ?thesis by blast
qed

theorem on_is_one_day_witness:
  "meets_index (\<lambda>_ _. True) (set_date ''ON'' (737455 * day_ns))
     \<lparr>entry = \<lparr>uid = 1, marks = [], arrived = (737455 * day_ns + 5, 0), bytes = 1\<rparr>, seq_no = 1, content = Inl ''''\<rparr>"
proof -
  have p: "parse_date ''1-Feb-2020'' = Some (737455 * day_ns)" by code_simp
  show ?thesis
    using on_is_one_day [OF p, where has = "\<lambda>_ _. True"] by (simp add: day_def day_ns_def)
qed

end
