(* ===== verification/Interfaces.thy ===== *)
theory Interfaces
  imports Prelude
begin

text \<open>
  The contracts that several components share: a codec, whose reader takes back what its writer
  wrote, and an allocator of numbers, which never gives a number twice. Each component that keeps
  such a contract interprets the locale on its own operations.
\<close>

section \<open>Codecs\<close>

locale codec =
  fixes enc :: "'a \<Rightarrow> string" and dec :: "string \<Rightarrow> 'a option" and ok :: "'a \<Rightarrow> bool"
  assumes dec_enc: "ok x \<Longrightarrow> dec (enc x) = Some x"
begin

lemma enc_inject: "ok x \<Longrightarrow> ok y \<Longrightarrow> enc x = enc y \<longleftrightarrow> x = y"
  using dec_enc by (metis option.inject)

lemma distinct_encs: "\<forall>x \<in> set xs. ok x \<Longrightarrow> distinct (map enc xs) \<longleftrightarrow> distinct xs"
  by (induction xs) (auto simp: enc_inject)

end

section \<open>Allocators\<close>

text \<open>The numbers given out over a run of requests, failed requests giving none.\<close>

fun issue :: "('r \<Rightarrow> 's \<Rightarrow> nat option \<times> 's) \<Rightarrow> 'r list \<Rightarrow> 's \<Rightarrow> nat list" where
  "issue give [] s = []"
| "issue give (r # rs) s =
     (let (i, s') = give r s in (case i of Some n \<Rightarrow> [n] | None \<Rightarrow> []) @ issue give rs s')"

locale allocator =
  fixes give :: "'r \<Rightarrow> 's \<Rightarrow> nat option \<times> 's" and top :: "'s \<Rightarrow> nat" and room :: "'r list \<Rightarrow> 's \<Rightarrow> bool"
  assumes given: "room (r # rs) s \<Longrightarrow> give r s = (i, s') \<Longrightarrow>
    top s \<le> top s' \<and> room rs s' \<and> (\<forall>n. i = Some n \<longrightarrow> top s \<le> n \<and> n < top s')"
begin

lemma issued_above: "room rs s \<Longrightarrow> n \<in> set (issue give rs s) \<Longrightarrow> top s \<le> n"
proof (induction rs arbitrary: s)
  case (Cons r rs)
  obtain i s' where g: "give r s = (i, s')" by fastforce
  note laws = given [OF Cons.prems(1) g]
  from Cons.prems(2) g consider "i = Some n" | "n \<in> set (issue give rs s')" by (auto split: option.splits)
  then show ?case
  proof cases
    case 2
    with Cons.IH laws show ?thesis by fastforce
  qed (use laws in blast)
qed simp

lemma issued_ascending: "room rs s \<Longrightarrow> sorted_wrt (<) (issue give rs s)"
proof (induction rs arbitrary: s)
  case (Cons r rs)
  obtain i s' where g: "give r s = (i, s')" by fastforce
  note laws = given [OF Cons.prems g]
  have "\<forall>m \<in> set (issue give rs s'). top s' \<le> m" using laws issued_above by blast
  then show ?case using laws g Cons.IH by (fastforce split: option.splits)
qed simp

lemma issued_distinct: "room rs s \<Longrightarrow> distinct (issue give rs s)"
  using issued_ascending strict_sorted_iff by blast

end

section \<open>Append journals\<close>

text \<open>What happens to messages on the way to a server: a copy is recorded as begun, the server may take
  it, it is recorded as completed or as failed. A crash is the end of the list of events.\<close>

datatype ('m, 'k) journal_event = Begin 'm | Taken 'k | Complete 'k | Fail 'k

text \<open>The store, the keys begun and not settled, and those of them the server took. A server can only
  take what was begun before.\<close>

fun play ::
  "('m \<Rightarrow> 'd \<Rightarrow> 'd) \<Rightarrow> ('k \<Rightarrow> 'd \<Rightarrow> 'd option) \<Rightarrow> ('k \<Rightarrow> 'd \<Rightarrow> 'd option) \<Rightarrow> ('m \<Rightarrow> 'k)
    \<Rightarrow> ('m, 'k) journal_event list \<Rightarrow> 'd \<times> 'k set \<times> 'k set \<Rightarrow> ('d \<times> 'k set \<times> 'k set) option" where
  "play bgn cpl fl key [] s = Some s"
| "play bgn cpl fl key (Begin m # es) (d, begun, taken) =
     play bgn cpl fl key es (bgn m d, insert (key m) begun, taken)"
| "play bgn cpl fl key (Taken k # es) (d, begun, taken) =
     (if k \<in> begun then play bgn cpl fl key es (d, begun, insert k taken) else None)"
| "play bgn cpl fl key (Complete k # es) (d, begun, taken) =
     (case cpl k d of None \<Rightarrow> None | Some d' \<Rightarrow> play bgn cpl fl key es (d', begun - {k}, taken - {k}))"
| "play bgn cpl fl key (Fail k # es) (d, begun, taken) =
     (case fl k d of None \<Rightarrow> None | Some d' \<Rightarrow> play bgn cpl fl key es (d', begun - {k}, taken - {k}))"

locale append_journal =
  fixes bgn :: "'m \<Rightarrow> 'd \<Rightarrow> 'd" and cpl fl :: "'k \<Rightarrow> 'd \<Rightarrow> 'd option" and key :: "'m \<Rightarrow> 'k"
    and status :: "'d \<Rightarrow> 'k \<Rightarrow> 's option" and flying :: 's
  assumes begin_status: "status (bgn m d) k = (if k = key m then Some flying else status d k)"
    and complete_status: "cpl j d = Some d' \<Longrightarrow> k \<noteq> j \<Longrightarrow> status d' k = status d k"
    and fail_status: "fl j d = Some d' \<Longrightarrow> k \<noteq> j \<Longrightarrow> status d' k = status d k"
begin

lemma play_keeps:
  "play bgn cpl fl key es (d, begun, taken) = Some (d', begun', taken')
    \<Longrightarrow> \<forall>k \<in> begun \<union> taken. status d k = Some flying \<Longrightarrow> \<forall>k \<in> begun' \<union> taken'. status d' k = Some flying"
proof (induction es arbitrary: d begun taken)
  case (Cons e es)
  show ?case
  proof (cases e)
    case (Begin m)
    have "\<forall>k \<in> insert (key m) begun \<union> taken. status (bgn m d) k = Some flying"
      using Cons.prems(2) by (simp add: begin_status)
    with Cons.IH Cons.prems(1) Begin show ?thesis by simp
  next
    case (Taken k)
    with Cons.prems have "\<forall>j \<in> begun \<union> insert k taken. status d j = Some flying" by (auto split: if_splits)
    with Cons.IH Cons.prems(1) Taken show ?thesis by (simp split: if_splits)
  next
    case (Complete k)
    with Cons.prems(1) obtain d1 where d1: "cpl k d = Some d1" by (auto split: option.splits)
    have "\<forall>j \<in> (begun - {k}) \<union> (taken - {k}). status d1 j = Some flying"
    proof
      fix j assume "j \<in> (begun - {k}) \<union> (taken - {k})"
      then have "j \<noteq> k" "status d j = Some flying" using Cons.prems(2) by auto
      then show "status d1 j = Some flying" using complete_status [OF d1] by simp
    qed
    with Cons.IH Cons.prems(1) Complete d1 show ?thesis by simp
  next
    case (Fail k)
    with Cons.prems(1) obtain d1 where d1: "fl k d = Some d1" by (auto split: option.splits)
    have "\<forall>j \<in> (begun - {k}) \<union> (taken - {k}). status d1 j = Some flying"
    proof
      fix j assume "j \<in> (begun - {k}) \<union> (taken - {k})"
      then have "j \<noteq> k" "status d j = Some flying" using Cons.prems(2) by auto
      then show "status d1 j = Some flying" using fail_status [OF d1] by simp
    qed
    with Cons.IH Cons.prems(1) Fail d1 show ?thesis by simp
  qed
qed simp

lemma unsettled_is_flying:
  "play bgn cpl fl key es (d, {}, {}) = Some (d', begun', taken') \<Longrightarrow> k \<in> taken' \<Longrightarrow> status d' k = Some flying"
  using play_keeps by blast

end

end
