(* ===== verification/LocalStore.thy ===== *)
theory LocalStore
  imports Interfaces "HOL-Library.Code_Target_Numeral"
begin

text \<open>
  internal/localstore: how the store names what it keeps (name.go) and the state of one folder
  (folder.go). A folder's directory is the list of its regular files, at most one shard deep, each
  under its path relative to the folder, in the order a directory read gives them; a database row is
  an entry of a finite map. UIDs and UIDVALIDITY are 32-bit words and wrap as Go's uint32 does. An
  operation that writes the database takes a flag saying whether that write succeeds.
\<close>

section \<open>Names\<close>

type_synonym u32 = "32 word"

definition shard_size :: nat where "shard_size = 10000"

definition message_ext :: string where "message_ext = ''.eml''"

definition message_name :: "nat \<Rightarrow> string" where
  "message_name uid = pad_nat 10 uid @ message_ext"

definition shard_name :: "nat \<Rightarrow> string" where
  "shard_name uid = CHR ''+'' # pad_nat 10 ((uid div shard_size) * shard_size)"

definition message_rel :: "nat \<Rightarrow> string" where
  "message_rel uid = (if uid < shard_size then message_name uid else shard_name uid @ ''/'' @ message_name uid)"

definition is_shard_dir :: "string \<Rightarrow> bool" where
  "is_shard_dir n \<longleftrightarrow> length n = 11 \<and> hd n = CHR ''+'' \<and> parse_uint 64 (tl n) \<noteq> None"

definition parse_message_name :: "string \<Rightarrow> nat option" where
  "parse_message_name n =
     (if \<not> has_suffix n message_ext then None
      else let digits = trim_suffix n message_ext in
        if length digits \<noteq> 10 then None
        else case parse_uint 32 digits of
          None \<Rightarrow> None
        | Some u \<Rightarrow> if u = 0 then None else Some u)"

definition is_message_name :: "string \<Rightarrow> bool" where
  "is_message_name n = has_suffix n message_ext"

definition safe_byte :: "char \<Rightarrow> bool" where
  "safe_byte c \<longleftrightarrow>
     (let b = byte c in
      97 \<le> b \<and> b \<le> 122 \<or> 65 \<le> b \<and> b \<le> 90 \<or> 48 \<le> b \<and> b \<le> 57 \<or> 0x80 \<le> b
      \<or> c \<in> set [CHR '' '', CHR ''.'', CHR ''_'', CHR ''-'', CHR ''('', CHR '')'', CHR '','', CHR 0x27, CHR ''!'', CHR ''=''])"

definition hex_char :: "nat \<Rightarrow> char" where
  "hex_char d = (if d < 10 then char_of (48 + d) else char_of (55 + d))"

definition hex_digit :: "char \<Rightarrow> nat option" where
  "hex_digit c =
     (let b = byte c in
      if 48 \<le> b \<and> b \<le> 57 then Some (b - 48)
      else if 65 \<le> b \<and> b \<le> 70 then Some (b - 55)
      else if 97 \<le> b \<and> b \<le> 102 then Some (b - 87)
      else None)"

definition percent :: "char \<Rightarrow> string" where
  "percent c = [CHR ''%'', hex_char (byte c div 16), hex_char (byte c mod 16)]"

definition encode_byte :: "bool \<Rightarrow> char \<Rightarrow> string" where
  "encode_byte first c =
     (if safe_byte c \<and> \<not> (first \<and> (c = CHR ''+'' \<or> c = CHR ''.'')) then [c] else percent c)"

definition encode_segment :: "string \<Rightarrow> string" where
  "encode_segment s =
     (case s of [] \<Rightarrow> ''%00'' | c # cs \<Rightarrow> encode_byte True c @ concat (map (encode_byte False) cs))"

fun decode_bytes :: "string \<Rightarrow> string" where
  "decode_bytes [] = []"
| "decode_bytes (c # a # b # r) =
     (if c = CHR ''%'' then
        (case (hex_digit a, hex_digit b) of
           (Some x, Some y) \<Rightarrow> char_of (16 * x + y) # decode_bytes r
         | _ \<Rightarrow> c # decode_bytes (a # b # r))
      else c # decode_bytes (a # b # r))"
| "decode_bytes (c # r) = c # decode_bytes r"

definition decode_segment :: "string \<Rightarrow> string" where
  "decode_segment s = (if contains s ''%'' then decode_bytes s else s)"

definition folder_rel :: "string \<Rightarrow> string" where
  "folder_rel n = join_str (map encode_segment (filter (\<lambda>p. p \<noteq> []) (split_str n ''/''))) ''/''"

definition folder_name :: "string \<Rightarrow> string" where
  "folder_name rel = join_str (map decode_segment (filter (\<lambda>p. p \<noteq> []) (split_str rel ''/''))) ''/''"

text \<open>The DSN of a folder database: the three characters SQLite's URI parser reads are hidden.\<close>

definition escape_dsn_path :: "string \<Rightarrow> string" where
  "escape_dsn_path p = concat (map (\<lambda>c. if c = CHR ''%'' then ''%25'' else if c = CHR ''?'' then ''%3F''
     else if c = CHR ''#'' then ''%23'' else [c]) p)"

definition dsn :: "string \<Rightarrow> string" where
  "dsn p = ''file:'' @ escape_dsn_path p @ ''?_pragma=journal_mode(WAL)'' @ ''&_pragma=busy_timeout(10000)''
     @ ''&_pragma=synchronous(NORMAL)''"

definition ro_dsn :: "string \<Rightarrow> string" where
  "ro_dsn p = ''file:'' @ escape_dsn_path p @ ''?mode=ro&immutable=1''"

section \<open>UIDVALIDITY\<close>

text \<open>The process-wide counter \<open>lastUIDValidity\<close>; \<open>now\<close> is the clock in seconds.\<close>

definition new_uid_validity :: "int \<Rightarrow> u32 \<Rightarrow> u32 \<times> u32" where
  "new_uid_validity now seen =
     (let v = word_of_int now; v' = (if v \<le> seen then seen + 1 else v) in (v', v'))"

definition note_uid_validity :: "u32 \<Rightarrow> u32 \<Rightarrow> u32" where
  "note_uid_validity v seen = (if v > seen then v else seen)"

section \<open>The directory\<close>

record file_info =
  mod_time :: int
  file_size :: int
  file_data :: string

type_synonym directory = "(string \<times> file_info) list"

record on_disk =
  disk_uids :: "u32 \<rightharpoonup> string"
  foreign :: "string list"
  max_uid :: u32

definition nothing_on_disk :: on_disk where
  "nothing_on_disk = \<lparr>disk_uids = Map.empty, foreign = [], max_uid = 0\<rparr>"

definition add_entry :: "string \<Rightarrow> string \<Rightarrow> on_disk \<Rightarrow> on_disk" where
  "add_entry rel n d =
     (if \<not> is_message_name n then d
      else case parse_message_name n of
        None \<Rightarrow> d\<lparr>foreign := foreign d @ [rel]\<rparr>
      | Some k \<Rightarrow>
          let u = word_of_nat k in
          d\<lparr>disk_uids := (disk_uids d)(u \<mapsto> rel), max_uid := (if u > max_uid d then u else max_uid d)\<rparr>)"

text \<open>\<open>scan\<close>: a file in the folder itself or in a shard directory of it; what lies in any other
  directory belongs to a subfolder.\<close>

definition scan_file :: "on_disk \<Rightarrow> string \<Rightarrow> on_disk" where
  "scan_file d rel =
     (let (top, below, nested) = cut (CHR ''/'') rel in
      if \<not> nested then add_entry rel top d
      else if is_shard_dir top \<and> CHR ''/'' \<notin> set below then add_entry rel below d
      else d)"

definition scan :: "directory \<Rightarrow> on_disk" where
  "scan dir = foldl scan_file nothing_on_disk (map fst dir)"

definition rename_file :: "string \<Rightarrow> string \<Rightarrow> directory \<Rightarrow> directory" where
  "rename_file src dst dir =
     map (\<lambda>(p, i). (if p = src then dst else p, i)) (filter (\<lambda>(p, i). p = src \<or> p \<noteq> dst) dir)"

section \<open>The folder\<close>

record row =
  row_flags :: string
  internal_date :: int
  row_size :: int

record folder_state =
  uid_next :: u32
  db_uid_next :: u32
  rows :: "u32 \<rightharpoonup> row"
  dir :: directory

definition claim :: "bool \<Rightarrow> u32 \<Rightarrow> folder_state \<Rightarrow> u32 option \<times> folder_state" where
  "claim db_ok at_least f =
     (let n = (if at_least \<ge> uid_next f then at_least + 1 else uid_next f);
          f' = f\<lparr>uid_next := n + 1\<rparr>
      in if db_ok then (Some n, f'\<lparr>db_uid_next := n + 1\<rparr>) else (None, f'))"

definition raise_uid_next :: "u32 \<Rightarrow> folder_state \<Rightarrow> folder_state" where
  "raise_uid_next m f =
     (if m < uid_next f then f else f\<lparr>uid_next := m + 1, db_uid_next := m + 1\<rparr>)"

text \<open>The adoption loop of \<open>reconcile\<close>: every file with a name that is not a UID gets the next one.\<close>

definition adopt :: "on_disk \<times> folder_state \<Rightarrow> string \<Rightarrow> on_disk \<times> folder_state" where
  "adopt s rel =
     (let (found, f) = s in
      case claim True (max_uid found) f of
        (Some u, f') \<Rightarrow>
          let dst = message_rel (unat u) in
          (found\<lparr>max_uid := (if u > max_uid found then u else max_uid found),
                 disk_uids := (disk_uids found)(u \<mapsto> dst)\<rparr>,
           f'\<lparr>dir := rename_file rel dst (dir f')\<rparr>)
      | (None, f') \<Rightarrow> (found, f'))"

definition adopted_row :: "file_info \<Rightarrow> row" where
  "adopted_row i = \<lparr>row_flags = '''', internal_date = mod_time i, row_size = file_size i\<rparr>"

text \<open>The rows after the two passes: a row of a file that is there is kept, one without a file is
  deleted, a file without a row gets one from its own attributes unless it vanished meanwhile.\<close>

definition reconcile_rows :: "on_disk \<Rightarrow> directory \<Rightarrow> (u32 \<rightharpoonup> row) \<Rightarrow> (u32 \<rightharpoonup> row)" where
  "reconcile_rows found d known u =
     (case disk_uids found u of
        None \<Rightarrow> None
      | Some rel \<Rightarrow>
          (case known u of
             Some r \<Rightarrow> Some r
           | None \<Rightarrow> map_option adopted_row (map_of d rel)))"

definition reconcile :: "folder_state \<Rightarrow> folder_state" where
  "reconcile f =
     (let found = scan (dir f);
          (found', f') = foldl adopt (found, f) (foreign found)
      in raise_uid_next (max_uid found')
           (f'\<lparr>rows := reconcile_rows found' (dir f') (rows f')\<rparr>))"

definition uids_of :: "directory \<Rightarrow> u32 set" where
  "uids_of d = dom (disk_uids (scan d))"

definition split_flags :: "string \<Rightarrow> string list" where
  "split_flags s = (if s = [] then [] else split_str s '' '')"

definition join_flags :: "string list \<Rightarrow> string" where
  "join_flags fs =
     join_str (sort (map (map (\<lambda>c. if c = CHR '' '' then CHR ''_'' else c))
       (filter (\<lambda>f. \<not> (equal_fold f (CHR 0x5C # ''Recent'') \<or> f = [])) fs))) '' ''"

record entry_record =
  e_uid :: u32
  e_flags :: "string list"
  e_date :: int
  e_size :: int

text \<open>\<open>records\<close>: the rows whose file is there, of the wanted UIDs or of all, in UID order; and
  \<open>diskRecords\<close>, from the files alone.\<close>

definition ordered :: "u32 set \<Rightarrow> u32 list" where
  "ordered s = sorted_list_of_set s"

definition records :: "folder_state \<Rightarrow> u32 list option \<Rightarrow> entry_record list" where
  "records f wanted =
     List.map_filter (\<lambda>u. case rows f u of
         None \<Rightarrow> None
       | Some r \<Rightarrow>
           if u \<notin> uids_of (dir f) \<or> (case wanted of Some ws \<Rightarrow> u \<notin> set ws | None \<Rightarrow> False) then None
           else Some \<lparr>e_uid = u, e_flags = split_flags (row_flags r), e_date = internal_date r, e_size = row_size r\<rparr>)
       (ordered (dom (rows f)))"

definition disk_records :: "directory \<Rightarrow> u32 list option \<Rightarrow> entry_record list" where
  "disk_records d wanted =
     List.map_filter (\<lambda>u.
         if (case wanted of Some ws \<Rightarrow> u \<notin> set ws | None \<Rightarrow> False) then None
         else map_option (\<lambda>i. \<lparr>e_uid = u, e_flags = [], e_date = mod_time i, e_size = file_size i\<rparr>)
                (map_of d (message_rel (unat u))))
       (ordered (uids_of d))"

section \<open>Facts about names\<close>

lemma message_rel_free: "n < 2 ^ 32 \<Longrightarrow> length (pad_nat 10 n) = 10"
  by (rule pad_nat_length) simp_all

lemma digits_no: "list_all is_digit s \<Longrightarrow> \<not> is_digit c \<Longrightarrow> c \<notin> set s"
  by (auto simp: list_all_iff)

lemma slash_not_digit [simp]: "\<not> is_digit (CHR ''/'')"
  by (simp add: is_digit_def)

lemma no_slash_message: "CHR ''/'' \<notin> set (message_name n)"
  using digits_no [OF pad_nat_digits slash_not_digit] by (simp add: message_name_def message_ext_def)

lemma no_slash_shard: "CHR ''/'' \<notin> set (shard_name n)"
  using digits_no [OF pad_nat_digits slash_not_digit] by (simp add: shard_name_def)

lemma parse_message_name_written:
  assumes "0 < n" "n < 2 ^ 32"
  shows "parse_message_name (message_name n) = Some n"
proof -
  have "has_suffix (message_name n) message_ext" by (auto simp: has_suffix_iff message_name_def)
  then show ?thesis
    using assms message_rel_free [of n] parse_uint_pad [of n 32 10]
    by (simp add: parse_message_name_def message_name_def)
qed

lemma is_shard_dir_written: "n < 2 ^ 32 \<Longrightarrow> is_shard_dir (shard_name n)"
proof -
  assume n: "n < 2 ^ 32"
  have le: "(n div shard_size) * shard_size \<le> n" by (simp add: shard_size_def)
  have "parse_uint 64 (pad_nat 10 ((n div shard_size) * shard_size)) = Some ((n div shard_size) * shard_size)"
    by (rule parse_uint_pad, rule le_less_trans [OF le]) (use n in simp)
  moreover have "length (pad_nat 10 ((n div shard_size) * shard_size)) = 10"
    by (rule message_rel_free, rule le_less_trans [OF le]) (use n in simp)
  ultimately show "is_shard_dir (shard_name n)" by (simp add: is_shard_dir_def shard_name_def)
qed

lemma dec_value_Cons: "dec_value (c # s) = (byte c - 48) * 10 ^ length s + dec_value s"
proof (induction s rule: rev_induct)
  case (snoc x xs)
  have "dec_value (c # xs @ [x]) = 10 * dec_value (c # xs) + (byte x - 48)"
    using dec_value_snoc [of "c # xs" x] by simp
  with snoc show ?case by (simp add: dec_value_snoc algebra_simps)
qed (simp add: dec_value_def)

lemma dec_value_bound: "list_all is_digit s \<Longrightarrow> dec_value s < 10 ^ length s"
proof (induction s)
  case (Cons c s)
  then have "is_digit c" by simp
  then have "byte c - 48 \<le> 9" unfolding is_digit_def by linarith
  then have "(byte c - 48) * 10 ^ length s \<le> 9 * 10 ^ length s" by (rule mult_right_mono) simp
  moreover have "dec_value s < 10 ^ length s" using Cons by simp
  ultimately have "(byte c - 48) * 10 ^ length s + dec_value s < 9 * 10 ^ length s + 10 ^ length s" by linarith
  then show ?case by (simp add: dec_value_Cons)
qed simp

lemma digits_less:
  "length s = length t \<Longrightarrow> list_all is_digit s \<Longrightarrow> list_all is_digit t \<Longrightarrow> s < t \<longleftrightarrow> dec_value s < dec_value t"
proof (induction s t rule: list_induct2)
  case (Cons c s d t)
  have b: "dec_value s < 10 ^ length s" "dec_value t < 10 ^ length t"
    using Cons.prems dec_value_bound by auto
  have dg: "48 \<le> byte c" "48 \<le> byte d" using Cons.prems by (simp_all add: is_digit_def)
  consider "byte c < byte d" | "c = d" | "byte d < byte c" by (metis linorder_neqE_nat of_char_eq_iff)
  then show ?case
  proof cases
    case 1
    then have "(byte c - 48 + 1) * 10 ^ length s \<le> (byte d - 48) * 10 ^ length s"
      using dg by (intro mult_right_mono) linarith+
    with 1 b Cons.hyps show ?thesis by (simp add: dec_value_Cons less_char_def)
  next
    case 2
    with Cons show ?thesis by (simp add: dec_value_Cons)
  next
    case 3
    then have "(byte d - 48 + 1) * 10 ^ length s \<le> (byte c - 48) * 10 ^ length s"
      using dg by (intro mult_right_mono) linarith+
    with 3 b Cons.hyps show ?thesis by (auto simp: dec_value_Cons less_char_def)
  qed
qed simp

lemma append_less: "length s = length t \<Longrightarrow> s @ u < t @ u \<longleftrightarrow> s < (t :: string)"
  by (induction s t rule: list_induct2) auto

lemma hex_digit_char [simp]: "d < 16 \<Longrightarrow> hex_digit (hex_char d) = Some d"
  by (auto simp: hex_digit_def hex_char_def)

lemma byte_less: "byte c < 256"
  by (metis of_char_mod_256 mod_less_divisor zero_less_numeral)

lemma decode_percent: "decode_bytes (percent c @ s) = c # decode_bytes s"
proof -
  have "byte c div 16 < 16" using byte_less [of c] by linarith
  then show ?thesis by (simp add: percent_def)
qed

lemma decode_plain: "c \<noteq> CHR ''%'' \<Longrightarrow> decode_bytes (c # s) = c # decode_bytes s"
proof (cases s)
  case (Cons a t)
  assume "c \<noteq> CHR ''%''"
  with Cons show ?thesis by (cases t) simp_all
qed simp

lemma safe_not_percent: "safe_byte c \<Longrightarrow> c \<noteq> CHR ''%''"
  by (auto simp: safe_byte_def)

lemma decode_encode_byte: "decode_bytes (encode_byte first c @ s) = c # decode_bytes s"
  using safe_not_percent by (simp add: encode_byte_def decode_percent decode_plain)

lemma decode_all: "decode_bytes (concat (map (encode_byte False) cs)) = cs"
  by (induction cs) (simp_all add: decode_encode_byte)

lemma decode_no_percent: "CHR ''%'' \<notin> set s \<Longrightarrow> decode_bytes s = s"
  by (induction s) (auto simp: decode_plain)

lemma decode_segment_bytes: "decode_segment s = decode_bytes s"
  by (simp add: decode_segment_def contains_char decode_no_percent)

lemma decode_encode_segment: "s \<noteq> [] \<Longrightarrow> decode_segment (encode_segment s) = s"
  by (cases s) (simp_all add: decode_segment_bytes encode_segment_def decode_encode_byte decode_all)

lemma hex_char_plain: "d < 16 \<Longrightarrow> CHR ''/'' \<noteq> hex_char d"
proof -
  have "\<forall>d \<in> set [0..<16]. CHR ''/'' \<noteq> hex_char d" by code_simp
  then show "d < 16 \<Longrightarrow> CHR ''/'' \<noteq> hex_char d" by simp
qed

lemma percent_plain: "CHR ''/'' \<notin> set (percent c)"
proof -
  have "byte c div 16 < 16" using byte_less [of c] by linarith
  then show ?thesis using hex_char_plain [of "byte c div 16"] hex_char_plain [of "byte c mod 16"]
    by (simp add: percent_def)
qed

lemma encode_byte_shape: "encode_byte first c \<noteq> [] \<and> CHR ''/'' \<notin> set (encode_byte first c)"
proof (cases "encode_byte first c = percent c")
  case True
  have "percent c \<noteq> []" by (simp add: percent_def)
  with True percent_plain show ?thesis by metis
next
  case False
  then have "encode_byte first c = [c]" "safe_byte c" by (auto simp: encode_byte_def split: if_splits)
  moreover have "\<not> safe_byte (CHR ''/'')" by (simp add: safe_byte_def)
  ultimately show ?thesis by auto
qed

lemma encode_segment_no_slash: "CHR ''/'' \<notin> set (encode_segment s)"
  using encode_byte_shape by (cases s) (auto simp: encode_segment_def)

lemma encode_segment_head: "\<exists>c t. encode_segment s = c # t \<and> c \<noteq> CHR ''.'' \<and> c \<noteq> CHR ''+''"
  by (cases s) (auto simp: encode_segment_def encode_byte_def percent_def)

lemma encode_segment_not_Nil: "encode_segment s \<noteq> []"
  using encode_segment_head [of s] by auto

lemma folder_name_rel:
  assumes "[] \<notin> set (split_str n ''/'')"
  shows "folder_name (folder_rel n) = n"
proof -
  let ?ps = "split_str n ''/''"
  have all: "filter (\<lambda>p. p \<noteq> []) ?ps = ?ps" using assms by (auto simp: filter_id_conv)
  have "split_str (join_str (map encode_segment ?ps) ''/'') ''/'' = map encode_segment ?ps"
    by (rule split_join) (auto simp: encode_segment_no_slash)
  moreover have "filter (\<lambda>p. p \<noteq> []) (map encode_segment ?ps) = map encode_segment ?ps"
    by (simp add: filter_id_conv encode_segment_not_Nil)
  moreover have "map decode_segment (map encode_segment ?ps) = ?ps"
  proof -
    have "decode_segment (encode_segment p) = p" if "p \<in> set ?ps" for p
      using assms that by (metis decode_encode_segment)
    then show ?thesis by (simp add: map_idI)
  qed
  ultimately show ?thesis unfolding folder_name_def folder_rel_def all by (simp del: map_map)
qed

section \<open>Facts about the directory\<close>

text \<open>The name under which a scan sees a path, if it sees it; the UID a path carries; and whether it
  is mail under a name that is no UID.\<close>

definition entry_name :: "string \<Rightarrow> string option" where
  "entry_name rel =
     (let (top, below, nested) = cut (CHR ''/'') rel in
      if \<not> nested then Some top
      else if is_shard_dir top \<and> CHR ''/'' \<notin> set below then Some below else None)"

definition path_uid :: "string \<Rightarrow> u32 option" where
  "path_uid p = (case entry_name p of None \<Rightarrow> None
     | Some n \<Rightarrow> if is_message_name n then map_option word_of_nat (parse_message_name n) else None)"

definition path_foreign :: "string \<Rightarrow> bool" where
  "path_foreign p \<longleftrightarrow> (case entry_name p of None \<Rightarrow> False
     | Some n \<Rightarrow> is_message_name n \<and> parse_message_name n = None)"

lemma scan_file_alt:
  "scan_file d p =
     (case path_uid p of
        Some u \<Rightarrow> d\<lparr>disk_uids := (disk_uids d)(u \<mapsto> p), max_uid := (if u > max_uid d then u else max_uid d)\<rparr>
      | None \<Rightarrow> if path_foreign p then d\<lparr>foreign := foreign d @ [p]\<rparr> else d)"
  by (auto simp: scan_file_def path_uid_def path_foreign_def entry_name_def add_entry_def Let_def
      split: prod.splits option.splits)

lemma not_foreign: "path_uid p = Some u \<Longrightarrow> \<not> path_foreign p"
  by (auto simp: path_uid_def path_foreign_def split: option.splits if_splits)

definition uid_pairs :: "string list \<Rightarrow> (u32 \<times> string) list" where
  "uid_pairs ps = List.map_filter (\<lambda>p. map_option (\<lambda>u. (u, p)) (path_uid p)) ps"

lemma uid_pairs_simps [simp]:
  "uid_pairs [] = []"
  "uid_pairs (p # ps) = (case path_uid p of Some u \<Rightarrow> (u, p) # uid_pairs ps | None \<Rightarrow> uid_pairs ps)"
  "uid_pairs (ps @ qs) = uid_pairs ps @ uid_pairs qs"
  by (auto simp: uid_pairs_def List.map_filter_def split: option.splits)

lemma uid_pairs_in: "(u, p) \<in> set (uid_pairs ps) \<Longrightarrow> p \<in> set ps \<and> path_uid p = Some u"
  by (induction ps) (auto split: option.splits)

lemma fold_scan:
  "disk_uids (foldl scan_file d ps) = disk_uids d ++ map_of (rev (uid_pairs ps))"
  "foreign (foldl scan_file d ps) = foreign d @ filter path_foreign ps"
  "max_uid (foldl scan_file d ps) = fold max (map fst (uid_pairs ps)) (max_uid d)"
  by (induction ps arbitrary: d)
    (auto simp: scan_file_alt max_def not_less dest: not_foreign split: option.splits)

lemma scan_facts:
  "disk_uids (scan d) = map_of (rev (uid_pairs (map fst d)))"
  "foreign (scan d) = filter path_foreign (map fst d)"
  "max_uid (scan d) = fold max (map fst (uid_pairs (map fst d))) 0"
  by (simp_all add: scan_def fold_scan nothing_on_disk_def)

lemma fold_max_ge: "x \<in> insert a (set xs) \<Longrightarrow> x \<le> fold max xs (a :: 'a :: linorder)"
  by (simp add: Max.set_eq_fold [symmetric])

lemma max_uid_ge: "u \<in> uids_of d \<Longrightarrow> u \<le> max_uid (scan d)"
  unfolding uids_of_def scan_facts dom_map_of_conv_image_fst
  by (rule fold_max_ge) (auto simp: image_iff)

lemma path_uid_message_rel:
  assumes "0 < n" "n < 2 ^ 32"
  shows "path_uid (message_rel n) = Some (word_of_nat n)"
proof -
  have m: "is_message_name (message_name n)" by (auto simp: is_message_name_def has_suffix_iff message_name_def)
  have "entry_name (message_rel n) = Some (message_name n)"
    using cut_missing [OF no_slash_message [of n]] cut_append [OF no_slash_shard [of n]] no_slash_message [of n]
      is_shard_dir_written [OF assms(2)]
    by (simp add: entry_name_def message_rel_def)
  with m parse_message_name_written [OF assms] show ?thesis by (simp add: path_uid_def)
qed

section \<open>Facts about the folder\<close>

lemma unat_less: "unat (x :: u32) < 2 ^ 32"
  using unsigned_less [where 'a = nat, of x] by simp

lemma unat_of_nat_u32: "n < 2 ^ 32 \<Longrightarrow> unat (word_of_nat n :: u32) = n"
  by (simp add: unsigned_of_nat take_bit_nat_eq_self)

lemma word_of_nat_u32_eq: "n < 2 ^ 32 \<Longrightarrow> k < 2 ^ 32 \<Longrightarrow> (word_of_nat n :: u32) = word_of_nat k \<longleftrightarrow> n = k"
  using unat_of_nat_u32 by metis

lemma unat_succ: "unat (x :: u32) + 1 < 2 ^ 32 \<Longrightarrow> unat (x + 1) = unat x + 1"
  by (simp add: unat_word_ariths)

lemma claim_fresh:
  assumes "unat m + 2 < 2 ^ 32" "unat (uid_next f) + 1 < 2 ^ 32" and c: "claim db_ok m f = (r, f')"
  shows "r = Some u \<Longrightarrow> m < u \<and> uid_next f \<le> u \<and> u < uid_next f'"
    and "uid_next f < uid_next f'"
    and "unat (uid_next f') \<le> max (unat m + 2) (unat (uid_next f) + 1)"
proof -
  have s: "unat (m + 1) = unat m + 1" "unat (m + 1 + 1) = unat m + 2" "unat (uid_next f + 1) = unat (uid_next f) + 1"
    using unat_succ [of m] unat_succ [of "m + 1"] unat_succ [of "uid_next f"] assms by simp_all
  show "r = Some u \<Longrightarrow> m < u \<and> uid_next f \<le> u \<and> u < uid_next f'"
    using c s by (auto simp: claim_def Let_def word_less_nat_alt word_le_nat_alt split: if_splits)
  show "uid_next f < uid_next f'"
    using c s by (auto simp: claim_def Let_def word_less_nat_alt word_le_nat_alt split: if_splits)
  show "unat (uid_next f') \<le> max (unat m + 2) (unat (uid_next f) + 1)"
    using c s by (auto simp: claim_def Let_def word_less_nat_alt word_le_nat_alt split: if_splits)
qed

lemma claim_rest: "claim db_ok m f = (r, f') \<Longrightarrow> rows f' = rows f \<and> dir f' = dir f"
  by (auto simp: claim_def Let_def split: if_splits)

section \<open>Adoption\<close>

text \<open>What holds before each turn of the adoption loop, \<open>todo\<close> being the files left to adopt.\<close>

definition adopting :: "folder_state \<Rightarrow> string list \<Rightarrow> on_disk \<Rightarrow> folder_state \<Rightarrow> bool" where
  "adopting f0 todo found f \<longleftrightarrow>
     disk_uids found = disk_uids (scan (dir f)) \<and> todo = foreign (scan (dir f))
     \<and> (\<forall>u \<in> uids_of (dir f). u \<le> max_uid found) \<and> distinct (map fst (dir f))
     \<and> map snd (dir f) = map snd (dir f0) \<and> rows f = rows f0
     \<and> uid_next f0 \<le> uid_next f \<and> uids_of (dir f0) \<subseteq> uids_of (dir f)
     \<and> unat (max_uid found) + length todo + 2 < 2 ^ 32 \<and> unat (uid_next f) + length todo + 1 < 2 ^ 32"

lemma rename_one:
  assumes "map fst d = xs @ p # ys" "distinct (map fst d)" "q \<notin> set (map fst d)"
  shows "map fst (rename_file p q d) = xs @ q # ys \<and> map snd (rename_file p q d) = map snd d"
proof -
  have q: "filter (\<lambda>(x, i). x = p \<or> x \<noteq> q) d = d"
    using assms(3) by (force simp: filter_id_conv)
  have "map fst (rename_file p q d) = map (\<lambda>x. if x = p then q else x) (map fst d)"
    unfolding rename_file_def q by (simp add: case_prod_unfold)
  also have "\<dots> = xs @ q # ys"
    using assms(1,2) unfolding assms(1) by (auto intro!: map_idI)
  finally show ?thesis unfolding rename_file_def q by (simp add: case_prod_unfold)
qed

lemma adopt_step:
  assumes inv: "adopting f0 (p # todo) found f" and step: "adopt (found, f) p = (found', f')"
  shows "adopting f0 todo found' f'"
proof -
  note inv' = inv [unfolded adopting_def]
  obtain r f1 where c: "claim True (max_uid found) f = (r, f1)" by fastforce
  then obtain u where u: "r = Some u" by (auto simp: claim_def Let_def)
  have bounds: "unat (max_uid found) + 2 < 2 ^ 32" "unat (uid_next f) + 1 < 2 ^ 32" using inv' by simp_all
  have fresh: "max_uid found < u" "u < uid_next f1"
    using claim_fresh(1) [OF bounds c u] by simp_all
  have next_le: "unat (uid_next f1) \<le> max (unat (max_uid found) + 2) (unat (uid_next f) + 1)"
    by (rule claim_fresh(3) [OF bounds c])
  have rest: "rows f1 = rows f0" "dir f1 = dir f" using claim_rest [OF c] inv' by simp_all
  let ?dst = "message_rel (unat u)"
  have f': "found' = found\<lparr>max_uid := u, disk_uids := (disk_uids found)(u \<mapsto> ?dst)\<rparr>"
    "f' = f1\<lparr>dir := rename_file p ?dst (dir f)\<rparr>"
    using step c u fresh rest by (auto simp: adopt_def Let_def)
  have "0 < unat u" using fresh(1) by (metis gr0I unat_eq_0 word_not_simps(1))
  then have pu: "path_uid ?dst = Some u" using path_uid_message_rel [of "unat u"] unat_less [of u] by simp
  have new: "u \<notin> uids_of (dir f)" using inv' fresh(1) by (auto simp: not_le [symmetric])
  have dst: "?dst \<notin> set (map fst (dir f))"
  proof
    assume "?dst \<in> set (map fst (dir f))"
    then obtain xs ys where "map fst (dir f) = xs @ ?dst # ys" by (metis split_list)
    then have "u \<in> uids_of (dir f)" using pu
      by (auto simp: uids_of_def scan_facts dom_map_of_conv_image_fst)
    with new show False by simp
  qed
  have todo: "p # todo = filter path_foreign (map fst (dir f))" using inv' by (simp add: scan_facts)
  then obtain xs ys where split: "map fst (dir f) = xs @ p # ys" and p: "path_foreign p"
    and xs: "\<forall>x \<in> set xs. \<not> path_foreign x" and ys: "todo = filter path_foreign ys"
    by (auto simp: Cons_eq_filter_iff)
  note renamed = rename_one [OF split _ dst]
  have names: "map fst (dir f') = xs @ ?dst # ys" "map snd (dir f') = map snd (dir f)"
    using renamed inv' f'(2) by simp_all
  have pn: "path_uid p = None" using p not_foreign by fastforce
  have fresh_xy: "u \<notin> fst ` set (uid_pairs xs)" "u \<notin> fst ` set (uid_pairs ys)"
    using new by (simp_all add: uids_of_def scan_facts split pn dom_map_of_conv_image_fst image_Un)
  have du: "disk_uids (scan (dir f')) = (disk_uids (scan (dir f)))(u \<mapsto> ?dst)"
  proof -
    have n: "map_of (rev (uid_pairs ys)) u = None"
      using fresh_xy(2) by (simp add: map_of_eq_None_iff)
    show ?thesis
      by (rule ext) (use n in \<open>auto simp: scan_facts names split pu pn map_add_def split: option.splits\<close>)
  qed
  show ?thesis
    unfolding adopting_def
  proof (intro conjI)
    show "disk_uids found' = disk_uids (scan (dir f'))" using du f'(1) inv' by simp
    show "todo = foreign (scan (dir f'))"
      using xs ys not_foreign [OF pu] by (simp add: scan_facts names filter_empty_conv)
    show "\<forall>v \<in> uids_of (dir f'). v \<le> max_uid found'"
    proof
      fix v assume "v \<in> uids_of (dir f')"
      then have "v = u \<or> v \<in> uids_of (dir f)" by (auto simp: uids_of_def du split: if_splits)
      then have "v \<le> u" using inv' fresh(1) by fastforce
      then show "v \<le> max_uid found'" using f'(1) by simp
    qed
    show "distinct (map fst (dir f'))" using inv' dst names split by auto
    show "map snd (dir f') = map snd (dir f0)" using names inv' by simp
    show "rows f' = rows f0" using f'(2) rest by simp
    show "uid_next f0 \<le> uid_next f'" using claim_fresh(2) [OF bounds c] inv' f'(2) by (auto intro: order_trans less_imp_le)
    show "uids_of (dir f0) \<subseteq> uids_of (dir f')" using inv' by (auto simp: uids_of_def du)
    have "unat u + 1 \<le> unat (uid_next f1)" using fresh(2) by (simp add: word_less_nat_alt)
    then show "unat (max_uid found') + length todo + 2 < 2 ^ 32" "unat (uid_next f') + length todo + 1 < 2 ^ 32"
      using next_le inv' f' by auto
  qed
qed

lemma adopt_all:
  "adopting f0 todo found f \<Longrightarrow> foldl adopt (found, f) todo = (found', f') \<Longrightarrow> adopting f0 [] found' f'"
proof (induction todo arbitrary: found f)
  case (Cons p todo)
  obtain found1 f1 where s: "adopt (found, f) p = (found1, f1)" by fastforce
  from adopt_step [OF Cons.prems(1) s] Cons.prems(2) s show ?case by (simp add: Cons.IH)
qed simp

lemma split_flags_join:
  assumes "\<forall>p \<in> set ps. p \<noteq> [] \<and> CHR '' '' \<notin> set p"
  shows "split_flags (join_str ps '' '') = ps"
proof (cases "ps = []")
  case False
  then obtain p qs where "ps = p # qs" by (meson neq_Nil_conv)
  with assms have "join_str ps '' '' \<noteq> []" by (cases qs) simp_all
  moreover have "split_str (join_str ps '' '') '' '' = ps" using False assms by (intro split_join) simp_all
  ultimately show ?thesis by (simp add: split_flags_def)
qed (simp add: split_flags_def)

section \<open>Contracts\<close>

interpretation message_names: codec message_name parse_message_name "\<lambda>n. 0 < n \<and> n < 2 ^ 32"
  by unfold_locales (simp add: parse_message_name_written)

interpretation segments: codec encode_segment "\<lambda>s. Some (decode_segment s)" "\<lambda>s. s \<noteq> []"
  by unfold_locales (simp add: decode_encode_segment)

interpretation folder_names: codec folder_rel "\<lambda>s. Some (folder_name s)" "\<lambda>n. [] \<notin> set (split_str n ''/'')"
  by unfold_locales (simp add: folder_name_rel)

definition claim_request :: "bool \<times> u32 \<Rightarrow> folder_state \<Rightarrow> nat option \<times> folder_state" where
  "claim_request r f = (case claim (fst r) (snd r) f of (u, f') \<Rightarrow> (map_option unat u, f'))"

definition claim_room :: "(bool \<times> u32) list \<Rightarrow> folder_state \<Rightarrow> bool" where
  "claim_room rs f \<longleftrightarrow> unat (uid_next f) + length rs + 1 < 2 ^ 32
     \<and> (\<forall>r \<in> set rs. unat (snd r) + length rs + 2 < 2 ^ 32)"

interpretation claims: allocator claim_request "\<lambda>f. unat (uid_next f)" claim_room
proof
  fix r rs f i f'
  assume room: "claim_room (r # rs) f" and g: "claim_request r f = (i, f')"
  from g obtain u where c: "claim (fst r) (snd r) f = (u, f')" and i: "i = map_option unat u"
    by (auto simp: claim_request_def split: prod.splits)
  have b: "unat (snd r) + 2 < 2 ^ 32" "unat (uid_next f) + 1 < 2 ^ 32" using room by (auto simp: claim_room_def)
  note fresh = claim_fresh [OF b c]
  have "claim_room rs f'" using room fresh(3) by (auto simp: claim_room_def)
  with fresh i show "unat (uid_next f) \<le> unat (uid_next f') \<and> claim_room rs f' \<and>
      (\<forall>n. i = Some n \<longrightarrow> unat (uid_next f) \<le> n \<and> n < unat (uid_next f'))"
    by (auto simp: word_less_nat_alt word_le_nat_alt)
qed

definition validity_request :: "int \<Rightarrow> u32 \<Rightarrow> nat option \<times> u32" where
  "validity_request now seen = (case new_uid_validity now seen of (v, seen') \<Rightarrow> (Some (unat v), seen'))"

definition validity_room :: "int list \<Rightarrow> u32 \<Rightarrow> bool" where
  "validity_room ts seen \<longleftrightarrow> unat seen + length ts + 1 < 2 ^ 32
     \<and> (\<forall>t \<in> set ts. 0 \<le> t \<and> t + int (length ts) + 1 < 2 ^ 32)"

interpretation validities: allocator validity_request "\<lambda>seen. unat seen + 1" validity_room
proof
  fix t ts seen i seen'
  assume room: "validity_room (t # ts) seen" and g: "validity_request t seen = (i, seen')"
  have s: "unat (seen + 1) = unat seen + 1" using room by (intro unat_succ) (simp add: validity_room_def)
  have w: "unat (word_of_int t :: u32) = nat t" using room
    by (simp add: validity_room_def unsigned_of_int take_bit_int_eq_self)
  from g have i: "i = Some (unat seen')" and v: "seen' = (if word_of_int t \<le> seen then seen + 1 else word_of_int t)"
    by (auto simp: validity_request_def new_uid_validity_def Let_def)
  have "unat seen < unat seen'" "unat seen' \<le> max (unat seen + 1) (nat t)"
    using v s w by (auto simp: word_le_nat_alt)
  with room i show "unat seen + 1 \<le> unat seen' + 1 \<and> validity_room ts seen' \<and>
      (\<forall>n. i = Some n \<longrightarrow> unat seen + 1 \<le> n \<and> n < unat seen' + 1)"
    by (auto simp: validity_room_def)
qed

section \<open>Properties\<close>

text \<open>
  A message's file name is its UID and nothing else: the name of every UID reads back to it, two
  UIDs never share a path, the scan recognises that path (flat or in its shard) as that UID, and
  the lexical order of the names, the one a file browser shows, is the order of the UIDs.
\<close>

theorem message_files_name_uids:
  assumes "0 < n" "n < 2 ^ 32" "0 < k" "k < 2 ^ 32"
  shows "parse_message_name (message_name n) = Some n
    \<and> path_uid (message_rel n) = Some (word_of_nat n)
    \<and> (message_rel n = message_rel k \<longleftrightarrow> n = k)
    \<and> (message_name n < message_name k \<longleftrightarrow> n < k)"
proof (intro conjI)
  show "parse_message_name (message_name n) = Some n" using assms by (simp add: message_names.dec_enc)
  show p: "path_uid (message_rel n) = Some (word_of_nat n)" using assms(1,2) by (rule path_uid_message_rel)
  have "path_uid (message_rel k) = Some (word_of_nat k)" using assms(3,4) by (rule path_uid_message_rel)
  with p show "message_rel n = message_rel k \<longleftrightarrow> n = k"
    using word_of_nat_u32_eq [OF assms(2,4)] by (metis option.inject)
  have "message_name n < message_name k \<longleftrightarrow> pad_nat 10 n < pad_nat 10 k"
    using message_rel_free assms unfolding message_name_def by (intro append_less) simp
  also have "\<dots> \<longleftrightarrow> n < k"
    using digits_less [of "pad_nat 10 n" "pad_nat 10 k"] message_rel_free assms by simp
  finally show "message_name n < message_name k \<longleftrightarrow> n < k" .
qed

theorem message_files_name_uids_witness:
  "path_uid ''+0000010000/0000012345.eml'' = Some 12345 \<and> message_name 9 < message_name 10"
proof -
  have "message_rel 12345 = ''+0000010000/0000012345.eml''" by code_simp
  with message_files_name_uids [of 12345 9] message_files_name_uids [of 9 10] show ?thesis by simp
qed

text \<open>
  A folder name never escapes or confuses the tree: for mailbox names without empty levels, the
  path reads back to the name, distinct names have distinct paths, and no level of the path is
  empty, hidden, \<open>.\<close> or \<open>..\<close>, or could be taken for a shard of messages, whatever bytes the
  server put in the name.
\<close>

theorem folder_paths_are_safe:
  assumes "[] \<notin> set (split_str n ''/'')" and "[] \<notin> set (split_str m ''/'')"
  shows "folder_name (folder_rel n) = n \<and> (folder_rel n = folder_rel m \<longleftrightarrow> n = m)
    \<and> (\<forall>seg \<in> set (split_str (folder_rel n) ''/''). seg \<noteq> [] \<and> hd seg \<noteq> CHR ''.'' \<and> \<not> is_shard_dir seg)"
proof (intro conjI ballI)
  show "folder_name (folder_rel n) = n" using assms(1) by (rule folder_name_rel)
  show "folder_rel n = folder_rel m \<longleftrightarrow> n = m" using assms by (rule folder_names.enc_inject)
  fix seg assume "seg \<in> set (split_str (folder_rel n) ''/'')"
  moreover have "split_str (folder_rel n) ''/'' = map encode_segment (split_str n ''/'')"
  proof -
    have "filter (\<lambda>p. p \<noteq> []) (split_str n ''/'') = split_str n ''/''"
      using assms(1) by (auto simp: filter_id_conv)
    then show ?thesis unfolding folder_rel_def
      by (simp only:) (rule split_join, auto simp: encode_segment_no_slash)
  qed
  ultimately obtain p where "seg = encode_segment p" by auto
  with encode_segment_head [of p] show "seg \<noteq> []" "hd seg \<noteq> CHR ''.''" "\<not> is_shard_dir seg"
    by (auto simp: is_shard_dir_def)
qed

theorem folder_paths_are_safe_witness:
  "folder_name (folder_rel ''+0000010000/..'') = ''+0000010000/..'' \<and> folder_rel ''+0000010000/..'' = ''%2B0000010000/%2E.''"
proof -
  have "[] \<notin> set (split_str ''+0000010000/..'' ''/'')" by code_simp
  moreover have "folder_rel ''+0000010000/..'' = ''%2B0000010000/%2E.''" by code_simp
  ultimately show ?thesis using folder_paths_are_safe [of "''+0000010000/..''" "''+0000010000/..''"] by blast
qed

text \<open>
  C34: Opening a folder makes its database agree with its directory and loses no mail: every message
  file is still there with its content, those dropped in by hand now carry UIDs of their own, the
  rows are exactly the UIDs on disk with the old annotations kept, and the next UID to be given is
  beyond every UID on disk and never lower than before (while UIDs are left in the 32-bit range).
\<close>

theorem reconcile_directory_wins:
  assumes "distinct (map fst (dir f))"
    and "unat (max_uid (scan (dir f))) + length (foreign (scan (dir f))) + 2 < 2 ^ 32"
    and "unat (uid_next f) + length (foreign (scan (dir f))) + 1 < 2 ^ 32"
  shows "map snd (dir (reconcile f)) = map snd (dir f)
    \<and> foreign (scan (dir (reconcile f))) = [] \<and> uids_of (dir f) \<subseteq> uids_of (dir (reconcile f))
    \<and> dom (rows (reconcile f)) = uids_of (dir (reconcile f))
    \<and> (\<forall>u \<in> uids_of (dir f). rows f u \<noteq> None \<longrightarrow> rows (reconcile f) u = rows f u)
    \<and> (\<forall>u \<in> uids_of (dir (reconcile f)). u < uid_next (reconcile f))
    \<and> uid_next f \<le> uid_next (reconcile f)"
proof -
  let ?found = "scan (dir f)"
  obtain found f1 where run: "foldl adopt (?found, f) (foreign ?found) = (found, f1)" by fastforce
  have "adopting f (foreign ?found) ?found f"
    using assms max_uid_ge by (simp add: adopting_def)
  from adopt_all [OF this run] have inv: "adopting f [] found f1" .
  note inv' = inv [unfolded adopting_def]
  let ?rows = "reconcile_rows found (dir f1) (rows f1)"
  have r: "reconcile f = raise_uid_next (max_uid found) (f1\<lparr>rows := ?rows\<rparr>)"
    using run by (simp add: reconcile_def)
  have d: "dir (reconcile f) = dir f1" and rows: "rows (reconcile f) = ?rows"
    unfolding r raise_uid_next_def by simp_all
  have du: "disk_uids found = disk_uids (scan (dir f1))" using inv' by simp
  have there: "map_of (dir f1) rel \<noteq> None" if "disk_uids (scan (dir f1)) u = Some rel" for u rel
  proof -
    have "(u, rel) \<in> set (uid_pairs (map fst (dir f1)))" using that map_of_SomeD unfolding scan_facts by fastforce
    then have "rel \<in> set (map fst (dir f1))" using uid_pairs_in by blast
    then show ?thesis by (simp add: map_of_eq_None_iff)
  qed
  have "unat (max_uid found + 1) = unat (max_uid found) + 1" using inv' by (intro unat_succ) simp
  then have next_le: "max_uid found < uid_next (reconcile f)" "uid_next f1 \<le> uid_next (reconcile f)"
    unfolding r raise_uid_next_def by (auto simp: word_less_nat_alt word_le_nat_alt)
  have "dom ?rows = uids_of (dir f1)"
    using there by (force simp: dom_def uids_of_def reconcile_rows_def du split: option.splits)
  moreover have "?rows u = rows f u" if "u \<in> uids_of (dir f)" "rows f u \<noteq> None" for u
  proof -
    have "u \<in> uids_of (dir f1)" using that(1) inv' by blast
    then show ?thesis using that(2) inv' by (auto simp: reconcile_rows_def du uids_of_def)
  qed
  ultimately show ?thesis
    using inv' next_le unfolding d rows by (auto simp: uids_of_def intro: le_less_trans order_trans)
qed

theorem reconcile_directory_wins_witness:
  "uids_of (dir (reconcile \<lparr>uid_next = 1, db_uid_next = 1, rows = Map.empty,
     dir = [(''0000000007.eml'', \<lparr>mod_time = 5, file_size = 2, file_data = ''ab''\<rparr>),
            (''mail.eml'', \<lparr>mod_time = 6, file_size = 1, file_data = ''c''\<rparr>)]\<rparr>)) = {7, 8}
   \<and> 7 < uid_next (reconcile \<lparr>uid_next = 1, db_uid_next = 1, rows = Map.empty,
     dir = [(''0000000007.eml'', \<lparr>mod_time = 5, file_size = 2, file_data = ''ab''\<rparr>),
            (''mail.eml'', \<lparr>mod_time = 6, file_size = 1, file_data = ''c''\<rparr>)]\<rparr>)"
proof -
  let ?f = "\<lparr>uid_next = 1, db_uid_next = 1, rows = Map.empty,
     dir = [(''0000000007.eml'', \<lparr>mod_time = 5, file_size = 2, file_data = ''ab''\<rparr>),
            (''mail.eml'', \<lparr>mod_time = 6, file_size = 1, file_data = ''c''\<rparr>)]\<rparr> :: folder_state"
  have "max_uid (scan (dir ?f)) = 7" "foreign (scan (dir ?f)) = [''mail.eml'']" by code_simp+
  note t = reconcile_directory_wins [of ?f, unfolded this]
  have "map fst (dir (reconcile ?f)) = [''0000000007.eml'', ''0000000008.eml'']" by code_simp
  then have "uids_of (dir (reconcile ?f)) = dom (map_of (rev (uid_pairs [''0000000007.eml'', ''0000000008.eml''])))"
    by (simp add: uids_of_def scan_facts)
  moreover have "rev (uid_pairs [''0000000007.eml'', ''0000000008.eml'']) = [(8, ''0000000008.eml''), (7, ''0000000007.eml'')]"
    by code_simp
  ultimately have u: "uids_of (dir (reconcile ?f)) = {7, 8}" by auto
  with t show ?thesis by simp
qed

text \<open>
  A folder never gives one UID to two messages: over any sequence of allocations, interleaved with
  failed database writes and with lower bounds from the directory, the UIDs given out strictly
  ascend and none is below the folder's next UID at the start (while UIDs are left in the 32-bit
  range).
\<close>

theorem claimed_uids_ascend:
  assumes "claim_room rs f"
  shows "sorted_wrt (<) (issue claim_request rs f) \<and> distinct (issue claim_request rs f)
    \<and> (\<forall>n \<in> set (issue claim_request rs f). unat (uid_next f) \<le> n)"
  using claims.issued_ascending [OF assms] claims.issued_distinct [OF assms] claims.issued_above [OF assms] by blast

theorem claimed_uids_ascend_witness:
  "issue claim_request [(True, 0), (False, 0), (True, 9), (True, 3)]
     \<lparr>uid_next = 5, db_uid_next = 5, rows = Map.empty, dir = []\<rparr> = [5, 10, 11]
   \<and> sorted_wrt (<) [5, 10, 11 :: nat]"
proof -
  let ?f = "\<lparr>uid_next = 5, db_uid_next = 5, rows = Map.empty, dir = []\<rparr> :: folder_state"
  let ?rs = "[(True, 0), (False, 0), (True, 9), (True, 3)] :: (bool \<times> u32) list"
  have "claim_room ?rs ?f" by (simp add: claim_room_def)
  moreover have "issue claim_request ?rs ?f = [5, 10, 11]" by code_simp
  ultimately show ?thesis using claimed_uids_ascend [of ?rs ?f] by simp
qed

text \<open>
  Within a process no UIDVALIDITY is issued twice, however fast folders are rebuilt and whichever
  way the clock moves: the values strictly ascend and exceed every value seen on disk before.
\<close>

theorem uid_validity_ascends:
  assumes "validity_room ts (note_uid_validity v seen)"
  shows "sorted_wrt (<) (issue validity_request ts (note_uid_validity v seen))
    \<and> (\<forall>n \<in> set (issue validity_request ts (note_uid_validity v seen)). unat v < n \<and> unat seen < n)"
proof -
  have "unat v \<le> unat (note_uid_validity v seen)" "unat seen \<le> unat (note_uid_validity v seen)"
    by (auto simp: note_uid_validity_def word_less_nat_alt not_less)
  then show ?thesis
    using validities.issued_ascending [OF assms] validities.issued_above [OF assms] by fastforce
qed

theorem uid_validity_ascends_witness:
  "issue validity_request [100, 100, 50] (note_uid_validity 99 7) = [100, 101, 102] \<and> sorted_wrt (<) [100, 101, 102 :: nat]"
proof -
  have "validity_room [100, 100, 50] (note_uid_validity 99 7)" by (simp add: validity_room_def note_uid_validity_def)
  moreover have "issue validity_request [100, 100, 50] (note_uid_validity 99 7) = [100, 101, 102]" by code_simp
  ultimately show ?thesis using uid_validity_ascends [of "[100, 100, 50]" 99 7] by simp
qed

text \<open>
  C45: The flags of a message survive the store: what is read back is exactly the flags written, sorted,
  less \<open>\Recent\<close> in any case and empty names, spaces in a flag replaced.
\<close>

theorem flags_survive:
  "split_flags (join_flags fs) = sort (map (map (\<lambda>c. if c = CHR '' '' then CHR ''_'' else c))
       (filter (\<lambda>f. \<not> equal_fold f (CHR 0x5C # ''Recent'') \<and> f \<noteq> []) fs))"
proof -
  let ?clean = "sort (map (map (\<lambda>c. if c = CHR '' '' then CHR ''_'' else c))
       (filter (\<lambda>f. \<not> (equal_fold f (CHR 0x5C # ''Recent'') \<or> f = [])) fs))"
  have parts: "\<forall>p \<in> set ?clean. p \<noteq> [] \<and> CHR '' '' \<notin> set p" by (auto split: if_splits)
  from split_flags_join [OF this] show ?thesis by (simp add: join_flags_def)
qed

text \<open>At the top of the 32-bit range the promise breaks: a file named for the last UID makes the next
  UID 0, so that numbers already used are given out again.\<close>

lemma last_uid_restarts_numbering:
  "uid_next (raise_uid_next (- 1) f) = 0"
  "fst (claim True 0 (raise_uid_next (- 1) f)) = Some 1"
  "parse_message_name ''4294967295.eml'' = Some 4294967295"
proof -
  have top: "\<not> (- 1 :: u32) < uid_next f" by (simp add: not_less)
  show n: "uid_next (raise_uid_next (- 1) f) = 0" using top by (simp add: raise_uid_next_def)
  show "fst (claim True 0 (raise_uid_next (- 1) f)) = Some 1" by (simp add: claim_def n)
  show "parse_message_name ''4294967295.eml'' = Some 4294967295" by code_simp
qed

end
