(* ===== verification/Pool.thy ===== *)
theory Pool
  imports Prelude "HOL-Library.Multiset"
begin

text \<open>
  internal/pool: the leasing of IMAP connections and the governor that follows the server's
  connection limit. Every stretch of code under the pool's mutex is one operation on the record
  \<open>pool\<close>; the token channel is its number of free tokens. The workers are the phases of
  \<open>Acquire\<close>, \<open>ready\<close> and \<open>put\<close>, and \<open>pool_step\<close> interleaves them in every order the mutex and
  the channel allow. Dialling and selecting are the server's: their outcomes are free choices.
\<close>

section \<open>The pool\<close>

record conn =
  conn_id :: nat
  selected :: string
  uid_validity :: nat

record pool =
  cap :: int
  free :: int
  idle :: "conn list"
  closed :: bool
  width :: int
  debt :: int
  open_count :: int
  last_ok :: go_time
  last_refusal :: go_time
  last_grow :: go_time

definition second :: duration where "second = 10 ^ 9"

definition capacity_window :: duration where "capacity_window = 10 * second"
definition grow_quiet :: duration where "grow_quiet = 30 * second"
definition grow_step :: duration where "grow_step = 15 * second"

definition new_pool :: "int \<Rightarrow> bool \<Rightarrow> string + pool" where
  "new_pool n has_dial =
     (if n < 1 then Inl ''pool cap must be at least 1''
      else if \<not> has_dial then Inl ''pool requires a Dial function''
      else Inr \<lparr>cap = n, free = n, idle = [], closed = False, width = n, debt = 0, open_count = 0,
                last_ok = 0, last_refusal = 0, last_grow = 0\<rparr>)"

definition holds_connections :: "pool \<Rightarrow> bool" where
  "holds_connections p \<longleftrightarrow> open_count p > 0"

definition pop_idle :: "pool \<Rightarrow> (conn \<times> pool) option" where
  "pop_idle p = (if idle p = [] then None else Some (last (idle p), p\<lparr>idle := butlast (idle p)\<rparr>))"

definition dialled :: "go_time \<Rightarrow> pool \<Rightarrow> pool" where
  "dialled now p = p\<lparr>open_count := open_count p + 1, last_ok := now\<rparr>"

definition discard :: "pool \<Rightarrow> pool" where
  "discard p = p\<lparr>open_count := open_count p - 1\<rparr>"

function trim_idle :: "pool \<Rightarrow> pool \<times> conn list" where
  "trim_idle p =
     (if open_count p > width p \<and> idle p \<noteq> [] then
        (let (p', closing) = trim_idle (p\<lparr>idle := butlast (idle p), open_count := open_count p - 1\<rparr>)
         in (p', last (idle p) # closing))
      else (p, []))"
  by auto
termination by (relation "measure (\<lambda>p. length (idle p))") auto

function pay_from_free :: "pool \<Rightarrow> pool" where
  "pay_from_free p =
     (if debt p > 0 \<and> free p > 0 then pay_from_free (p\<lparr>debt := debt p - 1, free := free p - 1\<rparr>) else p)"
  by auto
termination by (relation "measure (\<lambda>p. nat (debt p))") auto

declare trim_idle.simps [simp del] pay_from_free.simps [simp del]

definition refused :: "go_time \<Rightarrow> pool \<Rightarrow> bool \<times> pool \<times> conn list" where
  "refused now p =
     (if closed p \<or> last_ok p = 0 \<or> time_sub now (last_ok p) > capacity_window then (False, p, [])
      else
        (let to = max (open_count p) 1; p1 = p\<lparr>last_refusal := now\<rparr> in
         if to \<ge> width p1 then (True, p1, [])
         else
           (let p2 = pay_from_free (p1\<lparr>debt := debt p1 + (width p1 - to), width := to\<rparr>);
                (p3, closing) = trim_idle p2
            in (True, p3, closing))))"

definition pay_debt :: "pool \<Rightarrow> bool \<times> pool" where
  "pay_debt p = (if closed p \<or> debt p = 0 then (False, p) else (True, p\<lparr>debt := debt p - 1\<rparr>))"

text \<open>A token coming back: it pays a debt or goes back into the channel.\<close>

definition return_token :: "pool \<Rightarrow> pool" where
  "return_token p = (case pay_debt p of (True, p') \<Rightarrow> p' | (False, p') \<Rightarrow> p'\<lparr>free := free p' + 1\<rparr>)"

text \<open>The first half of \<open>put\<close>: whether the work failed, and whether with a broken connection.\<close>

definition put_conn :: "go_time \<Rightarrow> bool \<Rightarrow> bool \<Rightarrow> conn \<Rightarrow> pool \<Rightarrow> bool \<times> pool" where
  "put_conn now failed broken c p =
     (let p1 = (if \<not> failed then p\<lparr>last_ok := now\<rparr> else p);
          drop_it = (broken \<or> closed p1 \<or> open_count p1 > width p1)
      in if drop_it then (True, p1\<lparr>open_count := open_count p1 - 1\<rparr>)
         else (False, p1\<lparr>idle := idle p1 @ [c]\<rparr>))"

definition grow :: "go_time \<Rightarrow> pool \<Rightarrow> pool" where
  "grow now p =
     (if closed p \<or> debt p > 0 \<or> width p \<ge> cap p then p
      else if time_sub now (last_refusal p) < grow_quiet \<or> time_sub now (last_grow p) < grow_step then p
      else p\<lparr>width := width p + 1, last_grow := now, free := free p + 1\<rparr>)"

definition close_pool :: "pool \<Rightarrow> int \<times> pool" where
  "close_pool p = (if closed p then (0, p) else (width p + debt p, p\<lparr>closed := True\<rparr>))"

section \<open>Workers\<close>

text \<open>Where a worker is: outside the pool; holding a token and about to take a connection for a mailbox,
  for the first time or again after a reused one failed; dialling; selecting on a connection that is
  reused, just dialled, or the second try; leasing; returning its token, with growth to try next or
  not; and trying growth.\<close>

datatype origin = Reused | Fresh | Second

datatype phase =
    Outside
  | Taking string bool
  | Dialling string bool
  | Choosing string conn origin
  | Leasing conn
  | Returning bool
  | Growing

text \<open>\<open>drained\<close> counts the tokens \<open>Close\<close> has taken; \<open>lost\<close> the connections closed without the pool
  being told.\<close>

record sys =
  the_pool :: pool
  workers :: "phase list"
  drained :: int
  lost :: int

definition settle :: "string \<Rightarrow> conn \<Rightarrow> origin \<Rightarrow> phase" where
  "settle mailbox c o' = (if mailbox = [] \<or> selected c = mailbox then Leasing c else Choosing mailbox c o')"

definition move :: "nat \<Rightarrow> phase \<Rightarrow> pool \<Rightarrow> sys \<Rightarrow> sys" where
  "move i w p s = s\<lparr>workers := (workers s)[i := w], the_pool := p\<rparr>"

text \<open>The connections in the pool and in the workers' hands, by identity.\<close>

fun conns_of :: "phase \<Rightarrow> nat list" where
  "conns_of (Choosing _ c _) = [conn_id c]"
| "conns_of (Leasing c) = [conn_id c]"
| "conns_of _ = []"

definition live_conns :: "sys \<Rightarrow> nat list" where
  "live_conns s = map conn_id (idle (the_pool s)) @ concat (map conns_of (workers s))"

inductive pool_step :: "sys \<Rightarrow> sys \<Rightarrow> bool" where
  token: "i < length (workers s) \<Longrightarrow> workers s ! i = Outside \<Longrightarrow> free (the_pool s) > 0
    \<Longrightarrow> pool_step s (move i (Taking mailbox False) ((the_pool s)\<lparr>free := free (the_pool s) - 1\<rparr>) s)"
| reuse: "i < length (workers s) \<Longrightarrow> workers s ! i = Taking mailbox again \<Longrightarrow> pop_idle (the_pool s) = Some (c, p)
    \<Longrightarrow> pool_step s (move i (if again then Choosing mailbox c Second else settle mailbox c Reused) p s)"
| start_dial: "i < length (workers s) \<Longrightarrow> workers s ! i = Taking mailbox again \<Longrightarrow> pop_idle (the_pool s) = None
    \<Longrightarrow> pool_step s (move i (Dialling mailbox again) (the_pool s) s)"
| dial_ok: "i < length (workers s) \<Longrightarrow> workers s ! i = Dialling mailbox again \<Longrightarrow> selected c = [] \<Longrightarrow> conn_id c \<notin> set (live_conns s)
    \<Longrightarrow> pool_step s (move i (if again then Choosing mailbox c Second else settle mailbox c Fresh)
                       (dialled now (the_pool s)) s)"
| dial_failed: "i < length (workers s) \<Longrightarrow> workers s ! i = Dialling mailbox again \<Longrightarrow> refused now (the_pool s) = (r, p, closing)
    \<Longrightarrow> pool_step s (move i (Returning False) p s)"
| select_ok: "i < length (workers s) \<Longrightarrow> workers s ! i = Choosing mailbox c o'
    \<Longrightarrow> pool_step s (move i (Leasing (c\<lparr>selected := mailbox, uid_validity := v\<rparr>)) (the_pool s) s)"
| select_failed_reused: "i < length (workers s) \<Longrightarrow> workers s ! i = Choosing mailbox c Reused
    \<Longrightarrow> pool_step s (move i (Taking mailbox True) (discard (the_pool s)) s)"
| select_failed_fresh: "i < length (workers s) \<Longrightarrow> workers s ! i = Choosing mailbox c Fresh
    \<Longrightarrow> pool_step s ((move i (Returning False) (the_pool s) s)\<lparr>lost := lost s + 1\<rparr>)"
| select_failed_again: "i < length (workers s) \<Longrightarrow> workers s ! i = Choosing mailbox c Second
    \<Longrightarrow> pool_step s (move i (Returning False) (discard (the_pool s)) s)"
| release: "i < length (workers s) \<Longrightarrow> workers s ! i = Leasing c \<Longrightarrow> put_conn now failed broken c (the_pool s) = (b, p)
    \<Longrightarrow> (broken \<longrightarrow> failed) \<Longrightarrow> pool_step s (move i (Returning (\<not> failed)) p s)"
| give_back: "i < length (workers s) \<Longrightarrow> workers s ! i = Returning fine
    \<Longrightarrow> pool_step s (move i (if fine then Growing else Outside) (return_token (the_pool s)) s)"
| try_grow: "i < length (workers s) \<Longrightarrow> workers s ! i = Growing
    \<Longrightarrow> pool_step s (move i Outside (grow now (the_pool s)) s)"
| close: "close_pool (the_pool s) = (n, p) \<Longrightarrow> pool_step s (s\<lparr>the_pool := p\<rparr>)"
| drain: "closed (the_pool s) \<Longrightarrow> free (the_pool s) > 0
    \<Longrightarrow> pool_step s (s\<lparr>the_pool := (the_pool s)\<lparr>free := free (the_pool s) - 1\<rparr>, drained := drained s + 1\<rparr>)"

inductive reachable :: "int \<Rightarrow> sys \<Rightarrow> bool" for n where
  start: "new_pool n True = Inr p \<Longrightarrow> (\<forall>w \<in> set ws. w = Outside)
    \<Longrightarrow> reachable n \<lparr>the_pool = p, workers = ws, drained = 0, lost = 0\<rparr>"
| step: "reachable n s \<Longrightarrow> pool_step s t \<Longrightarrow> reachable n t"

section \<open>What each operation keeps\<close>

lemma pay_from_free_keeps:
  "pay_from_free p = q \<Longrightarrow> 0 \<le> debt p \<Longrightarrow> 0 \<le> free p \<Longrightarrow>
     debt q - free q = debt p - free p \<and> 0 \<le> debt q \<and> debt q \<le> debt p \<and> 0 \<le> free q \<and> (debt q = 0 \<or> free q = 0)
     \<and> cap q = cap p \<and> width q = width p \<and> idle q = idle p \<and> open_count q = open_count p \<and> closed q = closed p"
proof (induction p arbitrary: q rule: pay_from_free.induct)
  case (1 p)
  show ?case
  proof (cases "debt p > 0 \<and> free p > 0")
    case True
    have "pay_from_free (p\<lparr>debt := debt p - 1, free := free p - 1\<rparr>) = q"
      using 1(2) True by (simp add: pay_from_free.simps [of p])
    from 1(1) [OF True this] True show ?thesis by auto
  next
    case False
    with 1(2) have "q = p" by (simp add: pay_from_free.simps [of p])
    with False 1(3,4) show ?thesis by auto
  qed
qed

lemma trim_idle_keeps:
  "trim_idle p = (q, cs) \<Longrightarrow>
     open_count q - int (length (idle q)) = open_count p - int (length (idle p)) \<and> length (idle q) \<le> length (idle p)
     \<and> int (length cs) = open_count p - open_count q \<and> (open_count q \<le> width q \<or> idle q = [])
     \<and> cap q = cap p \<and> width q = width p \<and> debt q = debt p \<and> free q = free p \<and> closed q = closed p"
proof (induction p arbitrary: q cs rule: trim_idle.induct)
  case (1 p)
  show ?case
  proof (cases "open_count p > width p \<and> idle p \<noteq> []")
    case True
    obtain q' cs' where r: "trim_idle (p\<lparr>idle := butlast (idle p), open_count := open_count p - 1\<rparr>) = (q', cs')"
      by fastforce
    with 1(2) True have "q = q'" "cs = last (idle p) # cs'" by (auto simp: trim_idle.simps [of p])
    with 1(1) [OF True r] True show ?thesis by (auto simp: of_nat_diff Suc_leI)
  next
    case False
    with 1(2) have "q = p" "cs = []" by (auto simp: trim_idle.simps [of p])
    with False show ?thesis by auto
  qed
qed

lemma refused_keeps:
  assumes "refused now p = (r, q, cs)" and "0 \<le> debt p" "0 \<le> free p" "1 \<le> width p"
  shows "width q + debt q - free q = width p + debt p - free p \<and> 0 \<le> debt q \<and> 0 \<le> free q \<and> 1 \<le> width q
    \<and> width q + debt q \<le> width p + debt p \<and> width q \<le> width p \<and> cap q = cap p \<and> closed q = closed p
    \<and> open_count q - int (length (idle q)) = open_count p - int (length (idle p)) \<and> length (idle q) \<le> length (idle p)"
proof (cases "closed p \<or> last_ok p = 0 \<or> time_sub now (last_ok p) > capacity_window \<or> max (open_count p) 1 \<ge> width p")
  case True
  then have "q = p \<or> q = p\<lparr>last_refusal := now\<rparr>"
    using assms(1) by (auto simp: refused_def Let_def split: if_splits)
  then show ?thesis using assms(2-4) by auto
next
  case False
  let ?to = "max (open_count p) 1"
  let ?p1 = "p\<lparr>last_refusal := now, debt := debt p + (width p - ?to), width := ?to\<rparr>"
  obtain q2 where q2: "pay_from_free ?p1 = q2" by simp
  obtain q3 cs3 where q3: "trim_idle q2 = (q3, cs3)" by fastforce
  have "q = q3" using assms(1) False q2 q3 by (auto simp: refused_def Let_def split: prod.splits)
  moreover have "0 \<le> debt ?p1" "0 \<le> free ?p1" using assms False by auto
  ultimately show ?thesis
    using pay_from_free_keeps [OF q2] trim_idle_keeps [OF q3] False by auto
qed

lemma return_token_keeps:
  "width (return_token p) + debt (return_token p) - free (return_token p) = width p + debt p - free p - 1
   \<and> (0 \<le> debt p \<longrightarrow> 0 \<le> debt (return_token p)) \<and> free p \<le> free (return_token p)
   \<and> width (return_token p) = width p \<and> debt (return_token p) \<le> debt p \<and> cap (return_token p) = cap p \<and> idle (return_token p) = idle p
   \<and> open_count (return_token p) = open_count p \<and> closed (return_token p) = closed p"
  by (auto simp: return_token_def pay_debt_def)

lemma put_conn_keeps:
  "put_conn now failed broken c p = (b, q) \<Longrightarrow>
     width q = width p \<and> debt q = debt p \<and> free q = free p \<and> cap q = cap p \<and> closed q = closed p
     \<and> open_count q - int (length (idle q)) = open_count p - int (length (idle p)) - 1
     \<and> length (idle q) \<le> length (idle p) + 1"
  by (auto simp: put_conn_def Let_def split: if_splits)

lemma grow_keeps:
  "0 \<le> debt p \<Longrightarrow> width p + debt p \<le> cap p \<Longrightarrow>
     width (grow now p) + debt (grow now p) - free (grow now p) = width p + debt p - free p
     \<and> debt (grow now p) = debt p \<and> free p \<le> free (grow now p) \<and> width p \<le> width (grow now p)
     \<and> width (grow now p) + debt (grow now p) \<le> cap p \<and> cap (grow now p) = cap p
     \<and> idle (grow now p) = idle p \<and> open_count (grow now p) = open_count p \<and> closed (grow now p) = closed p"
  by (auto simp: grow_def)

section \<open>The accounts\<close>

fun holds_token :: "phase \<Rightarrow> bool" where
  "holds_token Outside = False"
| "holds_token Growing = False"
| "holds_token _ = True"

fun holds_conn :: "phase \<Rightarrow> bool" where
  "holds_conn (Choosing _ _ _) = True"
| "holds_conn (Leasing _) = True"
| "holds_conn _ = False"

fun is_dialling :: "phase \<Rightarrow> bool" where
  "is_dialling (Dialling _ _) = True"
| "is_dialling _ = False"

definition tally :: "(phase \<Rightarrow> bool) \<Rightarrow> sys \<Rightarrow> int" where
  "tally P s = int (length (filter P (workers s)))"

definition one_if :: "bool \<Rightarrow> int" where
  "one_if b = (if b then 1 else 0)"

lemma filter_update:
  "i < length ws \<Longrightarrow> int (length (filter P (ws[i := w]))) = int (length (filter P ws)) - one_if (P (ws ! i)) + one_if (P w)"
proof (induction ws arbitrary: i)
  case (Cons v ws)
  show ?case
  proof (cases i)
    case 0
    then show ?thesis by (simp add: one_if_def)
  next
    case (Suc j)
    with Cons.prems have "j < length ws" by simp
    from Cons.IH [OF this] Suc show ?thesis by simp
  qed
qed simp

lemma tally_move [simp]:
  "i < length (workers s) \<Longrightarrow> tally P (move i w p s) = tally P s - one_if (P (workers s ! i)) + one_if (P w)"
  by (simp add: tally_def move_def filter_update)

lemma move_sel [simp]:
  "the_pool (move i w p s) = p" "drained (move i w p s) = drained s" "lost (move i w p s) = lost s"
  by (simp_all add: move_def)

lemma tally_pool [simp]: "tally P (s\<lparr>the_pool := p\<rparr>) = tally P s" "tally P (s\<lparr>the_pool := p, drained := d\<rparr>) = tally P s"
  "tally P (s\<lparr>lost := k\<rparr>) = tally P s"
  by (simp_all add: tally_def)

lemma tally_nonneg: "0 \<le> tally P s"
  by (simp add: tally_def)

lemma conns_and_dials: "tally holds_conn s + tally is_dialling s \<le> tally holds_token s"
proof -
  have "length (filter holds_conn ws) + length (filter is_dialling ws) \<le> length (filter holds_token ws)" for ws
    by (induction ws) (auto, (case_tac a; simp)+)
  then show ?thesis by (simp add: tally_def flip: of_nat_add)
qed

lemma taker_counts:
  "i < length (workers s) \<Longrightarrow> workers s ! i = Taking mb again
    \<Longrightarrow> tally holds_conn s + tally is_dialling s + 1 \<le> tally holds_token s"
  using conns_and_dials [of "move i (Dialling mb again) (the_pool s) s"] by (simp add: one_if_def)

definition balanced :: "int \<Rightarrow> sys \<Rightarrow> bool" where
  "balanced n s \<longleftrightarrow>
     (let p = the_pool s in
      cap p = n \<and> free p + tally holds_token s + drained s = width p + debt p
      \<and> 0 \<le> free p \<and> 0 \<le> debt p \<and> 1 \<le> width p \<and> width p + debt p \<le> n \<and> 0 \<le> drained s
      \<and> open_count p = int (length (idle p)) + tally holds_conn s + lost s \<and> 0 \<le> lost s
      \<and> int (length (idle p)) + tally holds_conn s + tally is_dialling s \<le> n)"

lemma settle_holds [simp]: "holds_token (settle m c o')" "holds_conn (settle m c o')" "\<not> is_dialling (settle m c o')"
  by (simp_all add: settle_def)

lemma balanced_step:
  assumes "pool_step s t" and "balanced n s"
  shows "balanced n t"
  using assms
proof (induction rule: pool_step.induct)
  case (token i s mailbox)
  then show ?case by (simp add: balanced_def Let_def one_if_def)
next
  case (reuse i s mailbox again c p)
  then show ?case by (auto simp: balanced_def Let_def one_if_def pop_idle_def of_nat_diff Suc_leI split: if_splits)
next
  case (start_dial i s mailbox again)
  then show ?case using taker_counts [OF start_dial(1,2)]
    by (auto simp: balanced_def Let_def one_if_def pop_idle_def split: if_splits)
next
  case (dial_ok i s mailbox again c now)
  then show ?case by (auto simp: balanced_def Let_def one_if_def dialled_def)
next
  case (dial_failed i s mailbox again now r p closing)
  have k: "0 \<le> debt (the_pool s)" "0 \<le> free (the_pool s)" "1 \<le> width (the_pool s)"
    using dial_failed(4) by (simp_all add: balanced_def Let_def)
  show ?case using dial_failed(1,2,4) refused_keeps [OF dial_failed(3) k]
    by (simp add: balanced_def Let_def one_if_def)
next
  case (select_ok i s mailbox c o' v)
  then show ?case by (simp add: balanced_def Let_def one_if_def)
next
  case (select_failed_reused i s mailbox c)
  then show ?case by (simp add: balanced_def Let_def one_if_def discard_def)
next
  case (select_failed_fresh i s mailbox c)
  then show ?case by (simp add: balanced_def Let_def one_if_def)
next
  case (select_failed_again i s mailbox c)
  then show ?case by (simp add: balanced_def Let_def one_if_def discard_def)
next
  case (release i s c now failed broken b p)
  then show ?case using put_conn_keeps [OF release(3)] by (simp add: balanced_def Let_def one_if_def)
next
  case (give_back i s fine)
  then show ?case using return_token_keeps [of "the_pool s"] by (simp add: balanced_def Let_def one_if_def)
next
  case (try_grow i s now)
  then show ?case using grow_keeps [of "the_pool s" now] by (simp add: balanced_def Let_def one_if_def)
next
  case (close s n' p)
  then show ?case by (auto simp: balanced_def Let_def close_pool_def split: if_splits)
next
  case (drain s)
  then show ?case by (simp add: balanced_def Let_def)
qed

lemma reachable_balanced: "reachable n s \<Longrightarrow> balanced n s"
proof (induction rule: reachable.induct)
  case (start p ws)
  have "filter P ws = []" if "\<not> P Outside" for P using start(2) that by (auto simp: filter_empty_conv)
  with start(1) show ?case by (auto simp: balanced_def Let_def new_pool_def tally_def split: if_splits)
qed (rule balanced_step)

section \<open>Exclusive leases\<close>

lemma conns_update:
  "i < length ws \<Longrightarrow>
     mset (concat (map conns_of (ws[i := w]))) + mset (conns_of (ws ! i)) = mset (concat (map conns_of ws)) + mset (conns_of w)"
proof (induction ws arbitrary: i)
  case (Cons v ws)
  show ?case
  proof (cases i)
    case (Suc j)
    with Cons.prems have "j < length ws" by simp
    from Cons.IH [OF this] Suc show ?thesis by (simp add: ac_simps)
  qed (simp add: ac_simps)
qed simp

lemma live_move:
  "i < length (workers s) \<Longrightarrow>
     mset (live_conns (move i w p s)) + mset (conns_of (workers s ! i)) + mset (map conn_id (idle (the_pool s)))
       = mset (live_conns s) + mset (conns_of w) + mset (map conn_id (idle p))"
  using conns_update [of i "workers s" w] by (simp add: live_conns_def move_def ac_simps)

lemma distinct_submset: "mset xs \<subseteq># mset ys \<Longrightarrow> distinct ys \<Longrightarrow> distinct xs"
  unfolding distinct_count_atmost_1
proof
  fix a
  assume "mset xs \<subseteq># mset ys" "\<forall>a. count (mset ys) a = (if a \<in> set ys then 1 else 0)"
  then have "count (mset xs) a \<le> 1" by (metis mset_subset_eq_count le_trans less_imp_le_nat order_refl zero_less_one)
  moreover have "count (mset xs) a = 0 \<longleftrightarrow> a \<notin> set xs" by (simp add: count_eq_zero_iff)
  ultimately show "count (mset xs) a = (if a \<in> set xs then 1 else 0)" by (metis le_0_eq le_Suc_eq One_nat_def)
qed

lemma trim_idle_sub: "trim_idle p = (q, cs) \<Longrightarrow> mset (idle q) \<subseteq># mset (idle p)"
proof (induction p arbitrary: q cs rule: trim_idle.induct)
  case (1 p)
  show ?case
  proof (cases "open_count p > width p \<and> idle p \<noteq> []")
    case True
    obtain q' cs' where r: "trim_idle (p\<lparr>idle := butlast (idle p), open_count := open_count p - 1\<rparr>) = (q', cs')"
      by fastforce
    with 1(2) True have "q = q'" by (auto simp: trim_idle.simps [of p])
    moreover have "mset (butlast (idle p)) \<subseteq># mset (idle p)"
      using True by (metis append_butlast_last_id mset_append mset_subset_eq_add_left)
    ultimately show ?thesis using 1(1) [OF True r] by (auto intro: subset_mset.trans)
  next
    case False
    with 1(2) show ?thesis by (auto simp: trim_idle.simps [of p])
  qed
qed

lemma pay_from_free_idle: "idle (pay_from_free p) = idle p"
  by (induction p rule: pay_from_free.induct) (subst pay_from_free.simps, simp)

lemma refused_idle: "refused now p = (r, q, cs) \<Longrightarrow> mset (map conn_id (idle q)) \<subseteq># mset (map conn_id (idle p))"
  by (auto simp: refused_def Let_def pay_from_free_idle dest!: trim_idle_sub intro: image_mset_subseteq_mono
      split: if_splits prod.splits)

definition handed :: "phase \<Rightarrow> pool \<Rightarrow> nat multiset" where
  "handed w p = mset (conns_of w) + mset (map conn_id (idle p))"

lemma live_handed:
  "i < length (workers s) \<Longrightarrow>
     mset (live_conns (move i w p s)) + handed (workers s ! i) (the_pool s) = mset (live_conns s) + handed w p"
  using live_move [of i s w p] by (simp add: handed_def ac_simps)

lemma live_less:
  assumes "i < length (workers s)" and "handed w p \<subseteq># handed (workers s ! i) (the_pool s)"
  shows "mset (live_conns (move i w p s)) \<subseteq># mset (live_conns s)"
proof -
  have "mset (live_conns (move i w p s)) + handed (workers s ! i) (the_pool s) \<subseteq># mset (live_conns s) + handed (workers s ! i) (the_pool s)"
    unfolding live_handed [OF assms(1)] using assms(2) by (rule subset_mset.add_left_mono)
  then show ?thesis by simp
qed

lemma live_more:
  assumes "i < length (workers s)" and "handed w p = add_mset k (handed (workers s ! i) (the_pool s))"
  shows "mset (live_conns (move i w p s)) = add_mset k (mset (live_conns s))"
  using live_handed [OF assms(1), of w p] unfolding assms(2) by simp

lemma conns_of_settle [simp]: "conns_of (settle m c o') = [conn_id c]"
  by (simp add: settle_def)

lemma pop_idle_ids:
  assumes "pop_idle q = Some (c, p)"
  shows "mset (map conn_id (idle q)) = add_mset (conn_id c) (mset (map conn_id (idle p)))"
proof -
  from assms have "idle q = idle p @ [c]" by (auto simp: pop_idle_def split: if_splits)
  then show ?thesis by simp
qed

lemma return_token_idle: "idle (return_token p) = idle p"
  using return_token_keeps [of p] by simp

lemma grow_idle: "idle (grow now p) = idle p"
  by (simp add: grow_def)

lemma live_step:
  assumes "pool_step s t"
  shows "mset (live_conns t) \<subseteq># mset (live_conns s)
    \<or> (\<exists>k. k \<notin> set (live_conns s) \<and> mset (live_conns t) = add_mset k (mset (live_conns s)))"
  using assms
proof (induction rule: pool_step.induct)
  case (reuse i s mailbox again c p)
  have "conns_of (if again then Choosing mailbox c Second else settle mailbox c Reused) = [conn_id c]" by simp
  then show ?case using reuse(1,2) pop_idle_ids [OF reuse(3)] by (intro disjI1 live_less) (simp_all add: handed_def)
next
  case (dial_ok i s mailbox again c now)
  have "conns_of (if again then Choosing mailbox c Second else settle mailbox c Fresh) = [conn_id c]" by simp
  then show ?case using dial_ok(1,2,4)
    by (intro disjI2 exI [of _ "conn_id c"] conjI live_more) (simp_all add: handed_def dialled_def)
next
  case (dial_failed i s mailbox again now r p closing)
  show ?case using dial_failed(1,2) refused_idle [OF dial_failed(3)]
    by (intro disjI1 live_less) (simp_all add: handed_def)
next
  case (select_failed_fresh i s mailbox c)
  have "live_conns ((move i (Returning False) (the_pool s) s)\<lparr>lost := lost s + 1\<rparr>) = live_conns (move i (Returning False) (the_pool s) s)"
    by (simp add: live_conns_def)
  moreover have "mset (live_conns (move i (Returning False) (the_pool s) s)) \<subseteq># mset (live_conns s)"
    using select_failed_fresh by (intro live_less) (simp_all add: handed_def)
  ultimately show ?case by simp
next
  case (release i s c now failed broken b p)
  have "mset (map conn_id (idle p)) \<subseteq># add_mset (conn_id c) (mset (map conn_id (idle (the_pool s))))"
    using release(3) by (auto simp: put_conn_def Let_def split: if_splits)
  then show ?case using release(1,2) by (intro disjI1 live_less) (simp_all add: handed_def)
next
  case (close s n' p)
  then show ?case by (auto simp: live_conns_def close_pool_def split: if_splits)
next
  case (drain s)
  then show ?case by (simp add: live_conns_def)
qed (intro disjI1 live_less; simp add: handed_def discard_def return_token_idle grow_idle)+

lemma reachable_distinct: "reachable n s \<Longrightarrow> distinct (live_conns s)"
proof (induction rule: reachable.induct)
  case (start p ws)
  then have "concat (map conns_of ws) = []" and "idle p = []"
    by (auto simp: new_pool_def split: if_splits)
  then show ?case by (simp add: live_conns_def del: concat_eq_Nil_conv)
next
  case (step s t)
  from live_step [OF step(2)] show ?case
  proof
    assume "mset (live_conns t) \<subseteq># mset (live_conns s)"
    then show ?thesis using step.IH by (rule distinct_submset)
  next
    assume "\<exists>k. k \<notin> set (live_conns s) \<and> mset (live_conns t) = add_mset k (mset (live_conns s))"
    then obtain k where k: "k \<notin> set (live_conns s)" "mset (live_conns t) = mset (k # live_conns s)" by auto
    then show ?thesis using step.IH mset_eq_imp_distinct_iff [OF k(2)] by simp
  qed
qed

section \<open>The governor\<close>

lemma trim_nothing: "open_count p \<le> width p \<Longrightarrow> trim_idle p = (p, [])"
  by (simp add: trim_idle.simps [of p])

lemma refused_exact:
  assumes "refused now p = (True, q, cs)" and "0 \<le> debt p" "0 \<le> free p" "1 \<le> width p"
  shows "width q = min (width p) (max (open_count p) 1) \<and> cs = [] \<and> idle q = idle p \<and> open_count q = open_count p
    \<and> (width q < width p \<longrightarrow> debt q = 0 \<or> free q = 0)"
proof (cases "max (open_count p) 1 \<ge> width p")
  case True
  then have "q = p\<lparr>last_refusal := now\<rparr>" "cs = []"
    using assms(1) by (auto simp: refused_def Let_def split: if_splits)
  with True show ?thesis by auto
next
  case False
  let ?to = "max (open_count p) 1"
  let ?p1 = "p\<lparr>last_refusal := now, debt := debt p + (width p - ?to), width := ?to\<rparr>"
  obtain q2 where q2: "pay_from_free ?p1 = q2" by simp
  have k: "0 \<le> debt ?p1" "0 \<le> free ?p1" using assms False by auto
  note keeps = pay_from_free_keeps [OF q2 k]
  have "trim_idle q2 = (q2, [])" using keeps by (intro trim_nothing) simp
  then have "q = q2" "cs = []" using assms(1) False q2 by (auto simp: refused_def Let_def split: if_splits prod.splits)
  with keeps False show ?thesis by auto
qed

lemma refused_closed: "closed p \<Longrightarrow> refused now p = (False, p, [])"
  by (simp add: refused_def)

lemma closed_step:
  assumes "pool_step s t" and "closed (the_pool s)"
  shows "closed (the_pool t) \<and> width (the_pool t) = width (the_pool s) \<and> debt (the_pool t) = debt (the_pool s)"
  using assms
  by (induction rule: pool_step.induct)
    (auto simp: pop_idle_def dialled_def refused_closed discard_def put_conn_def return_token_def pay_debt_def
      grow_def close_pool_def Let_def split: if_splits)

section \<open>Properties\<close>

text \<open>
  C32: A lease is exclusive: whatever the interleaving of leases, dials, failed selects, refusals,
  growth and shutdown, no connection is ever in the hands of two workers, nor in the hands of a
  worker and in the idle list at once.
\<close>

theorem leases_are_exclusive:
  assumes "reachable n s"
  shows "distinct (map conn_id (idle (the_pool s)) @ concat (map conns_of (workers s)))"
  using reachable_distinct [OF assms] unfolding live_conns_def .

lemma start_one: "reachable 1 \<lparr>the_pool = \<lparr>cap = 1, free = 1, idle = [], closed = False, width = 1, debt = 0,
   open_count = 0, last_ok = 0, last_refusal = 0, last_grow = 0\<rparr>, workers = [Outside], drained = 0, lost = 0\<rparr>"
  by (rule reachable.start) (simp_all add: new_pool_def)

text \<open>A run of one worker to the point where its SELECT on a connection just dialled fails.\<close>

lemma run_to_select: "reachable 1 \<lparr>the_pool = \<lparr>cap = 1, free = 0, idle = [], closed = False, width = 1, debt = 0,
   open_count = 1, last_ok = 5, last_refusal = 0, last_grow = 0\<rparr>,
   workers = [Choosing ''A'' \<lparr>conn_id = 0, selected = [], uid_validity = 0\<rparr> Fresh], drained = 0, lost = 0\<rparr>"
proof -
  note r0 = start_one
  have r1: "reachable 1 \<lparr>the_pool = \<lparr>cap = 1, free = 0, idle = [], closed = False, width = 1, debt = 0,
   open_count = 0, last_ok = 0, last_refusal = 0, last_grow = 0\<rparr>, workers = [Taking ''A'' False], drained = 0, lost = 0\<rparr>"
    using reachable.step [OF r0 pool_step.token [of 0 _ "''A''"]] by (simp add: move_def)
  have r2: "reachable 1 \<lparr>the_pool = \<lparr>cap = 1, free = 0, idle = [], closed = False, width = 1, debt = 0,
   open_count = 0, last_ok = 0, last_refusal = 0, last_grow = 0\<rparr>, workers = [Dialling ''A'' False], drained = 0, lost = 0\<rparr>"
    using reachable.step [OF r1 pool_step.start_dial [of 0 _ "''A''" False]] by (simp add: move_def pop_idle_def)
  show ?thesis
    using reachable.step [OF r2 pool_step.dial_ok [of 0 _ "''A''" False "\<lparr>conn_id = 0, selected = [], uid_validity = 0\<rparr>" 5]]
    by (simp add: move_def dialled_def settle_def live_conns_def)
qed

theorem leases_are_exclusive_witness:
  "distinct (map conn_id [] @ concat (map conns_of [Choosing ''A'' \<lparr>conn_id = 0, selected = [], uid_validity = 0\<rparr> Fresh]))"
  using leases_are_exclusive [OF run_to_select] by simp



text \<open>
  Close waits for the right number of tokens: once the pool is closed no step changes the width or
  the debt it counted, and when no worker holds a token any more the tokens left in the channel are
  exactly those it has still to take, so the shutdown neither hangs nor returns early.
\<close>

theorem close_counts_every_token:
  assumes "reachable n s" and "closed (the_pool s)"
  shows "(\<forall>t. pool_step s t \<longrightarrow> closed (the_pool t)
            \<and> width (the_pool t) + debt (the_pool t) = width (the_pool s) + debt (the_pool s))
    \<and> free (the_pool s) \<le> width (the_pool s) + debt (the_pool s) - drained s
    \<and> (tally holds_token s = 0 \<longrightarrow> free (the_pool s) = width (the_pool s) + debt (the_pool s) - drained s)"
  using reachable_balanced [OF assms(1)] closed_step [OF _ assms(2)] tally_nonneg [of holds_token s]
  by (auto simp: balanced_def Let_def)

theorem close_counts_every_token_witness:
  "free (the_pool \<lparr>the_pool = \<lparr>cap = 1, free = 1, idle = [], closed = True, width = 1, debt = 0,
   open_count = 0, last_ok = 0, last_refusal = 0, last_grow = 0\<rparr>, workers = [Outside], drained = 0, lost = 0\<rparr>) = 1 + 0 - 0"
proof -
  have "reachable 1 \<lparr>the_pool = \<lparr>cap = 1, free = 1, idle = [], closed = True, width = 1, debt = 0,
   open_count = 0, last_ok = 0, last_refusal = 0, last_grow = 0\<rparr>, workers = [Outside], drained = 0, lost = 0\<rparr>"
    using reachable.step [OF start_one pool_step.close] by (simp add: close_pool_def)
  from close_counts_every_token [OF this] show ?thesis by (simp add: tally_def)
qed

text \<open>
  A refusal narrows the pool to what demonstrably works, once: the width becomes the number of
  connections open, never more than it was and never below one; tokens nobody holds pay the
  reduction at once; no idle connection has to be closed for it; and the refusals of the other
  workers that met the same limit change neither width nor debt again.
\<close>

theorem refusal_narrows_once:
  assumes "refused now p = (True, q, cs)" and "0 \<le> debt p" and "0 \<le> free p" and "1 \<le> width p"
  shows "width q = min (width p) (max (open_count p) 1) \<and> (width q < width p \<longrightarrow> debt q = 0 \<or> free q = 0)
    \<and> width q + debt q - free q = width p + debt p - free p \<and> cs = [] \<and> idle q = idle p
    \<and> (\<forall>now' r q' cs'. refused now' q = (r, q', cs') \<longrightarrow> width q' = width q \<and> debt q' = debt q)"
proof -
  note exact = refused_exact [OF assms] and keeps = refused_keeps [OF assms]
  have "width q' = width q \<and> debt q' = debt q" if "refused now' q = (r, q', cs')" for now' r q' cs'
  proof -
    have "max (open_count q) 1 \<ge> width q" using exact by auto
    then show ?thesis using that by (auto simp: refused_def Let_def split: if_splits)
  qed
  with exact keeps show ?thesis by blast
qed

theorem refusal_narrows_once_witness:
  "width (fst (snd (refused 100 \<lparr>cap = 8, free = 2, idle = [], closed = False, width = 8, debt = 0,
     open_count = 3, last_ok = 50, last_refusal = 0, last_grow = 0\<rparr>))) = 3"
proof -
  let ?p = "\<lparr>cap = 8, free = 2, idle = [], closed = False, width = 8, debt = 0,
     open_count = 3, last_ok = 50, last_refusal = 0, last_grow = 0\<rparr>"
  obtain q cs where r: "refused 100 ?p = (True, q, cs)"
    by (cases "refused 100 ?p")
      (auto simp: refused_def Let_def capacity_window_def second_def time_sub_def max_int64_def min_int64_def split: prod.splits)
  from refusal_narrows_once [OF r] r show ?thesis by simp
qed

text \<open>A SELECT that fails on a connection just dialled leaves the pool counting a connection that is
  closed: with the pool idle and empty, its open count is one.\<close>

lemma failed_select_loses_count:
  "\<exists>s. reachable 1 s \<and> idle (the_pool s) = [] \<and> (\<forall>w \<in> set (workers s). conns_of w = []) \<and> \<not> closed (the_pool s)
     \<and> open_count (the_pool s) = 1 \<and> holds_connections (the_pool s)"
proof -
  note r = reachable.step [OF run_to_select pool_step.select_failed_fresh [of 0]]
  show ?thesis by (rule exI, rule conjI, rule r) (simp_all add: move_def holds_connections_def)
qed

end
