(* ===== verification/StateDb.thy ===== *)
theory StateDb
  imports LocalStore
begin

text \<open>
  internal/state: the store that makes APPEND survivable. A table is the list of its rows; the two
  tables have the primary keys of the schema, and an UPSERT is an update in place or a new row. Each
  operation is one committed transaction; a failure of the database itself applies nothing, so it is
  the operation not happening. A query without ORDER BY gives its rows in table order.
\<close>

section \<open>Tables\<close>

datatype msg_state = Planned | InFlight | Done | Failed | Gone

record folder_row =
  f_id :: nat
  pair_id :: string
  source :: string
  dest :: string
  src_validity :: nat
  dst_validity :: nat
  src_modseq :: int
  src_deleted :: int
  last_sync :: int

type_synonym msg_key = "nat \<times> nat \<times> nat"

record msg_row =
  m_key :: msg_key
  m_dst_validity :: nat
  m_dst_uid :: nat
  ident_hash :: string
  stamp_id :: string
  m_state :: msg_state
  m_size :: int
  m_flags :: string
  m_date :: int
  last_error :: string

record db =
  folders :: "folder_row list"
  messages :: "msg_row list"

definition empty_db :: db where
  "empty_db = \<lparr>folders = [], messages = []\<rparr>"

definition set_where :: "('r \<Rightarrow> bool) \<Rightarrow> ('r \<Rightarrow> 'r) \<Rightarrow> 'r list \<Rightarrow> 'r list" where
  "set_where c f rs = map (\<lambda>r. if c r then f r else r) rs"

definition upsert :: "('r \<Rightarrow> bool) \<Rightarrow> ('r \<Rightarrow> 'r) \<Rightarrow> 'r \<Rightarrow> 'r list \<Rightarrow> 'r list" where
  "upsert c f new rs = (if list_ex c rs then set_where c f rs else rs @ [new])"

datatype db_error = NoSuchFolder nat | NotRecorded nat

section \<open>Folders\<close>

definition next_id :: "folder_row list \<Rightarrow> nat" where
  "next_id fs = foldr max (map f_id fs) 0 + 1"

definition ensure_folder :: "string \<Rightarrow> string \<Rightarrow> string \<Rightarrow> db \<Rightarrow> folder_row option \<times> db" where
  "ensure_folder pair src dst d =
     (let mine = (\<lambda>r. pair_id r = pair \<and> source r = src);
          fs = upsert mine (\<lambda>r. r\<lparr>dest := dst\<rparr>)
                 \<lparr>f_id = next_id (folders d), pair_id = pair, source = src, dest = dst, src_validity = 0,
                  dst_validity = 0, src_modseq = 0, src_deleted = 0, last_sync = 0\<rparr> (folders d)
      in (find mine fs, d\<lparr>folders := fs\<rparr>))"

definition folders_by_dest :: "string \<Rightarrow> string \<Rightarrow> db \<Rightarrow> folder_row list" where
  "folders_by_dest pair dst d = sort_key f_id (filter (\<lambda>r. pair_id r = pair \<and> dest r = dst) (folders d))"

definition fence_uid_validity :: "nat \<Rightarrow> nat \<Rightarrow> nat \<Rightarrow> db \<Rightarrow> db_error + bool \<times> db" where
  "fence_uid_validity fid sv dv d =
     (case find (\<lambda>r. f_id r = fid) (folders d) of
        None \<Rightarrow> Inl (NoSuchFolder fid)
      | Some f \<Rightarrow>
          (let changed = (src_validity f \<noteq> 0 \<and> src_validity f \<noteq> sv \<or> dst_validity f \<noteq> 0 \<and> dst_validity f \<noteq> dv);
               d1 = (if changed
                     then d\<lparr>messages := filter (\<lambda>m. fst (m_key m) \<noteq> fid) (messages d),
                            folders := set_where (\<lambda>r. f_id r = fid) (\<lambda>r. r\<lparr>src_modseq := 0, src_deleted := 0\<rparr>) (folders d)\<rparr>
                     else d);
               d2 = d1\<lparr>folders := set_where (\<lambda>r. f_id r = fid) (\<lambda>r. r\<lparr>src_validity := sv, dst_validity := dv\<rparr>) (folders d1)\<rparr>
           in Inr (\<not> changed, d2)))"

definition mark_synced :: "nat \<Rightarrow> int \<Rightarrow> int \<Rightarrow> int \<Rightarrow> db \<Rightarrow> db" where
  "mark_synced fid modseq deleted at d =
     d\<lparr>folders := set_where (\<lambda>r. f_id r = fid)
        (\<lambda>r. r\<lparr>src_modseq := (if wrap64 modseq = 0 then src_modseq r else wrap64 modseq),
               src_deleted := (if wrap64 deleted = 0 then src_deleted r else wrap64 deleted),
               last_sync := at\<rparr>) (folders d)\<rparr>"

section \<open>Messages\<close>

definition in_folder :: "nat \<Rightarrow> msg_row \<Rightarrow> bool" where
  "in_folder fid m \<longleftrightarrow> fst (m_key m) = fid"

definition in_scope :: "nat \<Rightarrow> nat \<Rightarrow> msg_row \<Rightarrow> bool" where
  "in_scope fid sv m \<longleftrightarrow> fst (m_key m) = fid \<and> fst (snd (m_key m)) = sv"

definition src_uid :: "msg_row \<Rightarrow> nat" where
  "src_uid m = snd (snd (m_key m))"

definition claimed_dest_uids :: "nat \<Rightarrow> nat \<Rightarrow> db \<Rightarrow> nat set" where
  "claimed_dest_uids fid dv d =
     m_dst_uid ` set (filter (\<lambda>m. in_folder fid m \<and> m_dst_validity m = dv \<and> m_dst_uid m \<noteq> 0) (messages d))"

definition synced_uids :: "nat \<Rightarrow> nat \<Rightarrow> db \<Rightarrow> nat \<rightharpoonup> msg_state" where
  "synced_uids fid sv d =
     map_of (rev (map (\<lambda>m. (src_uid m, m_state m)) (filter (in_scope fid sv) (messages d))))"

definition mark_gone :: "nat \<Rightarrow> nat \<Rightarrow> nat \<Rightarrow> db \<Rightarrow> db" where
  "mark_gone fid sv u d =
     d\<lparr>messages := upsert (\<lambda>m. m_key m = (fid, sv, u)) (\<lambda>m. m\<lparr>m_state := Gone, last_error := ''''\<rparr>)
        \<lparr>m_key = (fid, sv, u), m_dst_validity = 0, m_dst_uid = 0, ident_hash = '''', stamp_id = '''',
         m_state = Gone, m_size = 0, m_flags = '''', m_date = 0, last_error = ''''\<rparr> (messages d)\<rparr>"

definition idents :: "nat \<Rightarrow> nat \<Rightarrow> db \<Rightarrow> (nat \<times> string) list" where
  "idents fid sv d =
     map (\<lambda>m. (src_uid m, ident_hash m)) (filter (\<lambda>m. in_scope fid sv m \<and> m_state m = Done) (messages d))"

definition mirror_rows :: "nat \<Rightarrow> nat \<Rightarrow> nat \<Rightarrow> db \<Rightarrow> msg_row list" where
  "mirror_rows fid sv dv d =
     filter (\<lambda>m. in_scope fid sv m \<and> m_dst_validity m = dv \<and> m_state m = Done \<and> m_dst_uid m \<noteq> 0) (messages d)"

definition mirrored :: "nat \<Rightarrow> nat \<Rightarrow> nat \<Rightarrow> db \<Rightarrow> nat \<rightharpoonup> nat \<times> string" where
  "mirrored fid sv dv d = map_of (rev (map (\<lambda>m. (src_uid m, m_dst_uid m, m_flags m)) (mirror_rows fid sv dv d)))"

definition claimed_count :: "nat \<Rightarrow> nat \<Rightarrow> nat \<Rightarrow> db \<Rightarrow> nat" where
  "claimed_count fid sv dv d = length (remdups (map m_dst_uid (mirror_rows fid sv dv d)))"

text \<open>An UPDATE of the one row with a key, and \<open>expectOneRow\<close>.\<close>

definition update_message :: "msg_key \<Rightarrow> (msg_row \<Rightarrow> msg_row) \<Rightarrow> db \<Rightarrow> db_error + db" where
  "update_message k f d =
     (if list_ex (\<lambda>m. m_key m = k) (messages d)
      then Inr (d\<lparr>messages := set_where (\<lambda>m. m_key m = k) f (messages d)\<rparr>)
      else Inl (NotRecorded (snd (snd k))))"

definition record_flags :: "nat \<Rightarrow> nat \<Rightarrow> nat \<Rightarrow> string \<Rightarrow> db \<Rightarrow> db_error + db" where
  "record_flags fid sv u fl d = update_message (fid, sv, u) (\<lambda>m. m\<lparr>m_flags := fl\<rparr>) d"

definition begin_append :: "msg_row \<Rightarrow> db \<Rightarrow> db" where
  "begin_append m d =
     d\<lparr>messages := upsert (\<lambda>r. m_key r = m_key m)
        (\<lambda>r. r\<lparr>ident_hash := ident_hash m, stamp_id := stamp_id m, m_state := InFlight, m_size := m_size m,
               m_flags := m_flags m, m_date := m_date m, last_error := ''''\<rparr>)
        (m\<lparr>m_dst_validity := 0, m_dst_uid := 0, m_state := InFlight, last_error := ''''\<rparr>) (messages d)\<rparr>"

definition complete_append :: "nat \<Rightarrow> nat \<Rightarrow> nat \<Rightarrow> nat \<Rightarrow> nat \<Rightarrow> db \<Rightarrow> db_error + db" where
  "complete_append fid sv u dv du d =
     update_message (fid, sv, u) (\<lambda>m. m\<lparr>m_state := Done, m_dst_validity := dv, m_dst_uid := du, last_error := ''''\<rparr>) d"

definition fail_append :: "nat \<Rightarrow> nat \<Rightarrow> nat \<Rightarrow> string \<Rightarrow> db \<Rightarrow> db_error + db" where
  "fail_append fid sv u why d =
     update_message (fid, sv, u) (\<lambda>m. m\<lparr>m_state := Failed, last_error := why\<rparr>) d"

definition in_flight :: "nat \<Rightarrow> db \<Rightarrow> msg_row list" where
  "in_flight fid d = sort_key src_uid (filter (\<lambda>m. in_folder fid m \<and> m_state m = InFlight) (messages d))"

definition failures :: "nat \<Rightarrow> db \<Rightarrow> msg_row list" where
  "failures fid d = sort_key src_uid (filter (\<lambda>m. in_folder fid m \<and> m_state m = Failed) (messages d))"

definition state_counts :: "nat \<Rightarrow> db \<Rightarrow> msg_state \<rightharpoonup> nat" where
  "state_counts fid d st =
     (let n = length (filter (\<lambda>m. in_folder fid m \<and> m_state m = st) (messages d)) in if n = 0 then None else Some n)"

definition forget_messages :: "nat \<Rightarrow> nat \<Rightarrow> nat list \<Rightarrow> db \<Rightarrow> db" where
  "forget_messages fid sv us d =
     (if us = [] then d
      else d\<lparr>messages := filter (\<lambda>m. \<not> (in_scope fid sv m \<and> src_uid m \<in> set us)) (messages d)\<rparr>)"

definition state_dsn :: "string \<Rightarrow> string" where
  "state_dsn p = ''file:'' @ escape_dsn_path p @ ''?_pragma=journal_mode(WAL)'' @ ''&_pragma=busy_timeout(10000)''
     @ ''&_pragma=foreign_keys(1)'' @ ''&_pragma=synchronous(NORMAL)''"

section \<open>Keys\<close>

definition keyed :: "db \<Rightarrow> bool" where
  "keyed d \<longleftrightarrow> distinct (map m_key (messages d)) \<and> distinct (map f_id (folders d))
     \<and> distinct (map (\<lambda>r. (pair_id r, source r)) (folders d))"

lemma map_set_where [simp]: "(\<And>r. g (f r) = g r) \<Longrightarrow> map g (set_where c f rs) = map g rs"
  by (simp add: set_where_def)

lemma set_where_in: "r \<in> set rs \<Longrightarrow> (if c r then f r else r) \<in> set (set_where c f rs)"
  by (auto simp: set_where_def)

lemma in_set_where: "r \<in> set (set_where c f rs) \<longleftrightarrow> (\<exists>q \<in> set rs. r = (if c q then f q else q))"
  by (auto simp: set_where_def)

lemma distinct_upsert:
  assumes "\<And>r. g (f r) = g r" and "\<And>r. c r \<longleftrightarrow> g r = g new" and "distinct (map g rs)"
  shows "distinct (map g (upsert c f new rs))"
  using assms by (auto simp: upsert_def list_ex_iff)

lemma distinct_map_filter: "distinct (map g rs) \<Longrightarrow> distinct (map g (filter c rs))"
  by (induction rs) auto

lemma next_id_fresh: "r \<in> set fs \<Longrightarrow> f_id r < next_id fs"
  by (induction fs) (auto simp: next_id_def)

lemma keyed_empty [simp]: "keyed empty_db"
  by (simp add: keyed_def empty_db_def)

lemma keyed_update: "update_message k f d = Inr d' \<Longrightarrow> keyed d \<Longrightarrow> (\<And>m. m_key (f m) = m_key m) \<Longrightarrow> keyed d'"
  by (auto simp: update_message_def keyed_def split: if_splits)

lemma keyed_ensure: "keyed d \<Longrightarrow> keyed (snd (ensure_folder p s t d))"
proof -
  assume k: "keyed d"
  let ?c = "\<lambda>r. pair_id r = p \<and> source r = s"
  let ?new = "\<lparr>f_id = next_id (folders d), pair_id = p, source = s, dest = t, src_validity = 0,
                  dst_validity = 0, src_modseq = 0, src_deleted = 0, last_sync = 0\<rparr>"
  have "distinct (map (\<lambda>r. (pair_id r, source r)) (upsert ?c (\<lambda>r. r\<lparr>dest := t\<rparr>) ?new (folders d)))"
    by (rule distinct_upsert) (use k in \<open>simp_all add: keyed_def\<close>)
  moreover have "distinct (map f_id (upsert ?c (\<lambda>r. r\<lparr>dest := t\<rparr>) ?new (folders d)))"
    using k by (auto simp: upsert_def keyed_def dest: next_id_fresh)
  ultimately show ?thesis using k by (simp add: keyed_def ensure_folder_def Let_def)
qed

lemma keyed_begin: "keyed d \<Longrightarrow> keyed (begin_append m d)"
  by (auto simp: keyed_def begin_append_def intro!: distinct_upsert)

lemma keyed_gone: "keyed d \<Longrightarrow> keyed (mark_gone f s u d)"
  by (auto simp: keyed_def mark_gone_def intro!: distinct_upsert)

lemma keyed_forget: "keyed d \<Longrightarrow> keyed (forget_messages f s us d)"
  by (auto simp: keyed_def forget_messages_def intro: distinct_map_filter)

lemma keyed_synced: "keyed d \<Longrightarrow> keyed (mark_synced f a b c d)"
  by (simp add: keyed_def mark_synced_def)

lemma keyed_fence: "keyed d \<Longrightarrow> fence_uid_validity f s v d = Inr (b, d') \<Longrightarrow> keyed d'"
  by (auto simp: keyed_def fence_uid_validity_def Let_def distinct_map_filter split: option.splits if_splits)

section \<open>Rows by key\<close>

definition row_at :: "db \<Rightarrow> msg_key \<Rightarrow> msg_row option" where
  "row_at d k = find (\<lambda>m. m_key m = k) (messages d)"

lemma find_set_where:
  "(\<And>m. m_key (f m) = m_key m) \<Longrightarrow>
     find (\<lambda>m. m_key m = k) (set_where (\<lambda>m. m_key m = j) f ms)
       = (if k = j then map_option f (find (\<lambda>m. m_key m = j) ms) else find (\<lambda>m. m_key m = k) ms)"
  by (induction ms) (auto simp: set_where_def)

lemma find_append: "find c (xs @ ys) = (case find c xs of Some x \<Rightarrow> Some x | None \<Rightarrow> find c ys)"
  by (induction xs) auto

lemma find_upsert:
  assumes "\<And>m. m_key (f m) = m_key m" and "m_key new = j"
  shows "find (\<lambda>m. m_key m = k) (upsert (\<lambda>m. m_key m = j) f new ms)
     = (if k = j then Some (case find (\<lambda>m. m_key m = j) ms of Some r \<Rightarrow> f r | None \<Rightarrow> new)
        else find (\<lambda>m. m_key m = k) ms)"
proof (cases "list_ex (\<lambda>m. m_key m = j) ms")
  case True
  then have "find (\<lambda>m. m_key m = j) ms \<noteq> None" by (auto simp: find_None_iff list_ex_iff)
  with True show ?thesis using assms(1) by (auto simp: upsert_def find_set_where)
next
  case False
  then have "find (\<lambda>m. m_key m = j) ms = None" by (auto simp: find_None_iff list_ex_iff)
  with False show ?thesis using assms(2) by (auto simp: upsert_def find_append split: option.splits)
qed

lemma find_member: "distinct (map m_key ms) \<Longrightarrow> m \<in> set ms \<Longrightarrow> find (\<lambda>r. m_key r = m_key m) ms = Some m"
  by (induction ms) (auto simp: image_iff)

lemma row_at_iff: "keyed d \<Longrightarrow> row_at d k = Some m \<longleftrightarrow> m \<in> set (messages d) \<and> m_key m = k"
  using find_member [of "messages d" m] unfolding keyed_def row_at_def by (auto simp: find_Some_iff)

lemma row_at_begin:
  "row_at (begin_append m d) k =
     (if k = m_key m
      then Some (m\<lparr>m_dst_validity := (case row_at d k of Some r \<Rightarrow> m_dst_validity r | None \<Rightarrow> 0),
                   m_dst_uid := (case row_at d k of Some r \<Rightarrow> m_dst_uid r | None \<Rightarrow> 0),
                   m_state := InFlight, last_error := ''''\<rparr>)
      else row_at d k)"
proof (cases "k = m_key m")
  case True
  show ?thesis
  proof (cases "row_at d k")
    case None
    with True show ?thesis by (simp add: row_at_def begin_append_def find_upsert)
  next
    case (Some r)
    then have "m_key r = m_key m" using True by (auto simp: row_at_def find_Some_iff)
    with True Some show ?thesis
      by (cases r; cases m) (simp add: row_at_def begin_append_def find_upsert)
  qed
qed (simp add: row_at_def begin_append_def find_upsert)

lemma row_at_update:
  assumes "update_message j f d = Inr d'" and "\<And>m. m_key (f m) = m_key m"
  shows "row_at d' k = (if k = j then map_option f (row_at d j) else row_at d k)" and "row_at d j \<noteq> None"
  using assms by (auto simp: update_message_def row_at_def find_set_where list_ex_iff find_None_iff split: if_splits)

definition status_of :: "db \<Rightarrow> msg_key \<Rightarrow> msg_state option" where
  "status_of d k = map_option m_state (row_at d k)"

definition complete_key :: "nat \<Rightarrow> nat \<Rightarrow> msg_key \<Rightarrow> db \<Rightarrow> db option" where
  "complete_key dv du k d =
     (case complete_append (fst k) (fst (snd k)) (snd (snd k)) dv du d of Inl _ \<Rightarrow> None | Inr d' \<Rightarrow> Some d')"

definition fail_key :: "string \<Rightarrow> msg_key \<Rightarrow> db \<Rightarrow> db option" where
  "fail_key why k d =
     (case fail_append (fst k) (fst (snd k)) (snd (snd k)) why d of Inl _ \<Rightarrow> None | Inr d' \<Rightarrow> Some d')"

interpretation journal: append_journal begin_append "complete_key dv du" "fail_key why" m_key status_of InFlight
  for dv du why
proof
  show "status_of (begin_append m d) k = (if k = m_key m then Some InFlight else status_of d k)" for m d k
    by (simp add: status_of_def row_at_begin)
  show "complete_key dv du j d = Some d' \<Longrightarrow> k \<noteq> j \<Longrightarrow> status_of d' k = status_of d k" for j d d' k
    by (auto simp: complete_key_def complete_append_def status_of_def row_at_update split: sum.splits)
  show "fail_key why j d = Some d' \<Longrightarrow> k \<noteq> j \<Longrightarrow> status_of d' k = status_of d k" for j d d' k
    by (auto simp: fail_key_def fail_append_def status_of_def row_at_update split: sum.splits)
qed

lemma keyed_play:
  "play begin_append (complete_key dv du) (fail_key why) m_key es (d, b, t) = Some (d', b', t') \<Longrightarrow> keyed d \<Longrightarrow> keyed d'"
proof (induction es arbitrary: d b t)
  case (Cons e es)
  show ?case
  proof (cases e)
    case (Complete k)
    with Cons.prems(1) obtain d1 where d1: "complete_key dv du k d = Some d1" by (auto split: option.splits)
    then have "keyed d1" using Cons.prems(2)
      by (auto simp: complete_key_def complete_append_def elim!: keyed_update split: sum.splits)
    with Cons.IH Cons.prems(1) Complete d1 show ?thesis by simp
  next
    case (Fail k)
    with Cons.prems(1) obtain d1 where d1: "fail_key why k d = Some d1" by (auto split: option.splits)
    then have "keyed d1" using Cons.prems(2)
      by (auto simp: fail_key_def fail_append_def elim!: keyed_update split: sum.splits)
    with Cons.IH Cons.prems(1) Fail d1 show ?thesis by simp
  qed (use Cons keyed_begin in \<open>auto split: if_splits\<close>)
qed simp

section \<open>Any history\<close>

inductive db_step :: "db \<Rightarrow> db \<Rightarrow> bool" where
  ensure: "db_step d (snd (ensure_folder p s t d))"
| fence: "fence_uid_validity f s v d = Inr (b, d') \<Longrightarrow> db_step d d'"
| synced: "db_step d (mark_synced f a b c d)"
| gone: "db_step d (mark_gone f s u d)"
| flagged: "record_flags f s u fl d = Inr d' \<Longrightarrow> db_step d d'"
| begun: "db_step d (begin_append m d)"
| completed: "complete_append f s u dv du d = Inr d' \<Longrightarrow> db_step d d'"
| failed: "fail_append f s u why d = Inr d' \<Longrightarrow> db_step d d'"
| forgot: "db_step d (forget_messages f s us d)"

lemma keyed_step: "db_step d d' \<Longrightarrow> keyed d \<Longrightarrow> keyed d'"
  by (induction rule: db_step.induct)
    (auto intro: keyed_ensure keyed_fence keyed_synced keyed_gone keyed_begin keyed_forget elim!: keyed_update
      simp: record_flags_def complete_append_def fail_append_def)

lemma keyed_history: "db_step\<^sup>*\<^sup>* empty_db d \<Longrightarrow> keyed d"
  by (induction rule: rtranclp_induct) (auto intro: keyed_step)

lemma map_of_rows:
  assumes "keyed d" and "\<And>m. m \<in> set ms \<Longrightarrow> m \<in> set (messages d) \<and> in_scope fid sv m" and "distinct ms"
  shows "map_of (rev (map (\<lambda>m. (src_uid m, g m)) ms)) u = Some x \<longleftrightarrow> (\<exists>m \<in> set ms. src_uid m = u \<and> x = g m)"
proof -
  have "inj_on src_uid (set ms)"
  proof (rule inj_onI)
    fix m r assume mr: "m \<in> set ms" "r \<in> set ms" "src_uid m = src_uid r"
    then have "m_key m = m_key r" using assms(2) by (metis in_scope_def src_uid_def prod.collapse)
    moreover have "distinct (map m_key (messages d))" using assms(1) by (simp add: keyed_def)
    ultimately show "m = r" using mr assms(2) by (auto simp: distinct_map dest: inj_onD)
  qed
  then have "distinct (map fst (rev (map (\<lambda>m. (src_uid m, g m)) ms)))"
    using assms(3) by (simp add: rev_map comp_def distinct_map)
  then show ?thesis by (auto simp: map_of_eq_Some_iff)
qed

lemma distinct_rows: "keyed d \<Longrightarrow> distinct (messages d)"
  by (simp add: keyed_def distinct_map)

lemma mirrored_iff:
  "keyed d \<Longrightarrow> mirrored fid sv dv d u = Some (v, fl) \<longleftrightarrow>
     (\<exists>m \<in> set (mirror_rows fid sv dv d). src_uid m = u \<and> v = m_dst_uid m \<and> fl = m_flags m)"
  unfolding mirrored_def
  by (subst map_of_rows [where fid = fid and sv = sv and d = d])
    (auto simp: mirror_rows_def distinct_rows)

lemma synced_iff:
  "keyed d \<Longrightarrow> synced_uids fid sv d u = Some st \<longleftrightarrow> (\<exists>m. row_at d (fid, sv, u) = Some m \<and> st = m_state m)"
proof -
  assume k: "keyed d"
  have "synced_uids fid sv d u = Some st \<longleftrightarrow>
      (\<exists>m \<in> set (filter (in_scope fid sv) (messages d)). src_uid m = u \<and> st = m_state m)"
    unfolding synced_uids_def by (rule map_of_rows [OF k]) (auto simp: distinct_rows [OF k])
  also have "\<dots> \<longleftrightarrow> (\<exists>m. m \<in> set (messages d) \<and> m_key m = (fid, sv, u) \<and> st = m_state m)"
    by (auto simp: in_scope_def src_uid_def prod_eq_iff)
  finally show ?thesis using row_at_iff [OF k] by blast
qed

section \<open>Properties\<close>

text \<open>
  The store keeps its keys under any history of operations: one row per message of a folder and
  UIDVALIDITY, one row per folder and one folder per pair and source, so the map the folder diff
  reads answers every source UID with the one row recorded for it.
\<close>

theorem history_keeps_keys:
  assumes "db_step\<^sup>*\<^sup>* empty_db d"
  shows "distinct (map m_key (messages d)) \<and> distinct (map f_id (folders d))
    \<and> distinct (map (\<lambda>r. (pair_id r, source r)) (folders d))
    \<and> (synced_uids fid sv d u = Some st \<longleftrightarrow> (\<exists>m. row_at d (fid, sv, u) = Some m \<and> st = m_state m))"
  using keyed_history [OF assms] synced_iff [OF keyed_history [OF assms]] unfolding keyed_def by blast

theorem history_keeps_keys_witness:
  "synced_uids 1 7 (mark_gone 1 7 42 empty_db) 42 = Some Gone"
proof -
  have "db_step\<^sup>*\<^sup>* empty_db (mark_gone 1 7 42 empty_db)" by (rule r_into_rtranclp, rule db_step.gone)
  from history_keeps_keys [OF this, of 1 7 42 Gone] show ?thesis
    by (simp add: row_at_def mark_gone_def upsert_def empty_db_def)
qed



text \<open>
  A renumbered mailbox invalidates exactly its own folder: when either stored UIDVALIDITY differs
  from the one reported the folder has no message rows left and no watermark, otherwise its rows are
  untouched; the rows of other folders are never touched; and asking again with the same values
  reports the rows as kept.
\<close>

theorem fence_invalidates_one_folder:
  assumes "keyed d" and "find (\<lambda>r. f_id r = fid) (folders d) = Some f"
    and "fence_uid_validity fid sv dv d = Inr (kept, d')"
  shows "(kept \<longleftrightarrow> (src_validity f = 0 \<or> src_validity f = sv) \<and> (dst_validity f = 0 \<or> dst_validity f = dv))
    \<and> (kept \<longrightarrow> messages d' = messages d)
    \<and> (\<not> kept \<longrightarrow> (\<forall>m \<in> set (messages d'). fst (m_key m) \<noteq> fid)
        \<and> (\<forall>r \<in> set (folders d'). f_id r = fid \<longrightarrow> src_modseq r = 0 \<and> src_deleted r = 0))
    \<and> filter (\<lambda>m. fst (m_key m) \<noteq> fid) (messages d') = filter (\<lambda>m. fst (m_key m) \<noteq> fid) (messages d)
    \<and> (sv \<noteq> 0 \<and> dv \<noteq> 0 \<longrightarrow> (\<exists>d''. fence_uid_validity fid sv dv d' = Inr (True, d'')))"
proof -
  define changed where
    "changed \<longleftrightarrow> src_validity f \<noteq> 0 \<and> src_validity f \<noteq> sv \<or> dst_validity f \<noteq> 0 \<and> dst_validity f \<noteq> dv"
  let ?base = "if changed then set_where (\<lambda>r. f_id r = fid) (\<lambda>r. r\<lparr>src_modseq := 0, src_deleted := 0\<rparr>) (folders d)
               else folders d"
  have run: "kept = (\<not> changed) \<and> messages d' = (if changed then filter (\<lambda>m. fst (m_key m) \<noteq> fid) (messages d) else messages d)
      \<and> folders d' = set_where (\<lambda>r. f_id r = fid) (\<lambda>r. r\<lparr>src_validity := sv, dst_validity := dv\<rparr>) ?base"
    using assms(3) unfolding fence_uid_validity_def assms(2) option.case Let_def changed_def [symmetric]
    by (cases changed) auto
  then have kept: "kept = (\<not> changed)"
    and ms: "messages d' = (if changed then filter (\<lambda>m. fst (m_key m) \<noteq> fid) (messages d) else messages d)"
    and folders': "folders d' = set_where (\<lambda>r. f_id r = fid) (\<lambda>r. r\<lparr>src_validity := sv, dst_validity := dv\<rparr>) ?base"
    by blast+
  have fs: "\<forall>r \<in> set (folders d'). f_id r = fid \<longrightarrow>
      src_validity r = sv \<and> dst_validity r = dv \<and> (changed \<longrightarrow> src_modseq r = 0 \<and> src_deleted r = 0)"
  proof (intro ballI impI)
    fix r assume "r \<in> set (folders d')" and id: "f_id r = fid"
    then obtain q where q: "q \<in> set ?base"
      "r = (if f_id q = fid then q\<lparr>src_validity := sv, dst_validity := dv\<rparr> else q)"
      unfolding folders' in_set_where by blast
    have qid: "f_id q = fid"
    proof (rule ccontr)
      assume "f_id q \<noteq> fid"
      with q(2) id show False by simp
    qed
    with q(2) have r: "r = q\<lparr>src_validity := sv, dst_validity := dv\<rparr>" by simp
    have "changed \<longrightarrow> src_modseq q = 0 \<and> src_deleted q = 0"
    proof
      assume changed
      then have "q \<in> set (set_where (\<lambda>r. f_id r = fid) (\<lambda>r. r\<lparr>src_modseq := 0, src_deleted := 0\<rparr>) (folders d))"
        using q(1) by simp
      then obtain o' where o': "q = (if f_id o' = fid then o'\<lparr>src_modseq := 0, src_deleted := 0\<rparr> else o')"
        unfolding in_set_where by blast
      show "src_modseq q = 0 \<and> src_deleted q = 0"
      proof (cases "f_id o' = fid")
        case False
        with o' qid show ?thesis by simp
      qed (simp add: o')
    qed
    then show "src_validity r = sv \<and> dst_validity r = dv \<and> (changed \<longrightarrow> src_modseq r = 0 \<and> src_deleted r = 0)"
      unfolding r by simp
  qed
  have ids: "map f_id (folders d') = map f_id (folders d)"
    unfolding folders' by (cases changed) simp_all
  have "fid \<in> set (map f_id (folders d))" using assms(2) by (auto simp: find_Some_iff)
  then have "fid \<in> set (map f_id (folders d'))" unfolding ids .
  then have "find (\<lambda>r. f_id r = fid) (folders d') \<noteq> None" by (auto simp: find_None_iff)
  then obtain g where g: "find (\<lambda>r. f_id r = fid) (folders d') = Some g" by blast
  then have "g \<in> set (folders d')" "f_id g = fid" by (auto simp: find_Some_iff)
  with fs have gv: "src_validity g = sv" "dst_validity g = dv" by auto
  have again: "\<exists>d''. fence_uid_validity fid sv dv d' = Inr (True, d'')"
    using g gv by (simp add: fence_uid_validity_def Let_def)
  show ?thesis
  proof (intro conjI impI)
    show "kept \<longleftrightarrow> (src_validity f = 0 \<or> src_validity f = sv) \<and> (dst_validity f = 0 \<or> dst_validity f = dv)"
      unfolding kept changed_def by argo
    show "filter (\<lambda>m. fst (m_key m) \<noteq> fid) (messages d') = filter (\<lambda>m. fst (m_key m) \<noteq> fid) (messages d)"
      unfolding ms by simp
    show "kept \<Longrightarrow> messages d' = messages d" unfolding ms kept by simp
    show "\<not> kept \<Longrightarrow> \<forall>m \<in> set (messages d'). fst (m_key m) \<noteq> fid" unfolding ms kept by simp
    show "\<not> kept \<Longrightarrow> \<forall>r \<in> set (folders d'). f_id r = fid \<longrightarrow> src_modseq r = 0 \<and> src_deleted r = 0"
      using fs unfolding kept by blast
  qed (rule again)
qed

theorem fence_invalidates_one_folder_witness:
  "snd (True, messages (mark_gone 1 7 42 (snd (ensure_folder ''p'' ''A'' ''B'' empty_db)))) \<noteq> []
   \<and> (\<exists>d'. fence_uid_validity 1 7 9 (snd (ensure_folder ''p'' ''A'' ''B'' empty_db)) = Inr (True, d') \<and> messages d' = [])"
proof -
  let ?d = "snd (ensure_folder ''p'' ''A'' ''B'' empty_db)"
  have k: "keyed ?d" by (rule keyed_ensure) simp
  have e: "?d = \<lparr>folders = [\<lparr>f_id = 1, pair_id = ''p'', source = ''A'', dest = ''B'', src_validity = 0,
                  dst_validity = 0, src_modseq = 0, src_deleted = 0, last_sync = 0\<rparr>], messages = []\<rparr>"
    by (simp add: ensure_folder_def Let_def upsert_def empty_db_def next_id_def)
  obtain f where f: "find (\<lambda>r. f_id r = 1) (folders ?d) = Some f" "src_validity f = 0" "dst_validity f = 0"
    unfolding e by simp
  obtain b d' where r: "fence_uid_validity 1 7 9 ?d = Inr (b, d')"
    unfolding fence_uid_validity_def f(1) by (auto simp: Let_def)
  from fence_invalidates_one_folder [OF k f(1) r] f r e show ?thesis
    by (simp add: mark_gone_def upsert_def)
qed

text \<open>
  The flag resync can only touch the right messages: every entry of the mirror map comes from the
  one row of that source UID, settled as done under the destination numbering asked for with a real
  destination UID; and the number of messages the folder claims on the destination counts each
  destination message once, all of them among the claimed UIDs adoption must leave alone.
\<close>

theorem mirror_is_exact:
  assumes "keyed d"
  shows "(mirrored fid sv dv d u = Some (v, fl) \<longleftrightarrow>
      (\<exists>m. row_at d (fid, sv, u) = Some m \<and> m_state m = Done \<and> m_dst_validity m = dv
         \<and> m_dst_uid m = v \<and> v \<noteq> 0 \<and> m_flags m = fl))
    \<and> claimed_count fid sv dv d = card (fst ` ran (mirrored fid sv dv d))
    \<and> fst ` ran (mirrored fid sv dv d) \<subseteq> claimed_dest_uids fid dv d"
proof (intro conjI)
  note iff = mirrored_iff [OF assms]
  show "mirrored fid sv dv d u = Some (v, fl) \<longleftrightarrow>
      (\<exists>m. row_at d (fid, sv, u) = Some m \<and> m_state m = Done \<and> m_dst_validity m = dv
         \<and> m_dst_uid m = v \<and> v \<noteq> 0 \<and> m_flags m = fl)"
    unfolding iff row_at_iff [OF assms]
    by (auto simp: mirror_rows_def in_scope_def src_uid_def prod_eq_iff)
  have ran: "fst ` ran (mirrored fid sv dv d) = m_dst_uid ` set (mirror_rows fid sv dv d)"
    unfolding ran_def using iff by (force simp: image_iff)
  show "claimed_count fid sv dv d = card (fst ` ran (mirrored fid sv dv d))"
    unfolding ran claimed_count_def by (simp add: length_remdups_card_conv)
  show "fst ` ran (mirrored fid sv dv d) \<subseteq> claimed_dest_uids fid dv d"
    unfolding ran claimed_dest_uids_def by (auto simp: mirror_rows_def in_folder_def in_scope_def)
qed

theorem mirror_is_exact_witness:
  "mirrored 1 7 9 \<lparr>folders = [], messages = [\<lparr>m_key = (1, 7, 42), m_dst_validity = 9, m_dst_uid = 5, ident_hash = '''',
      stamp_id = '''', m_state = Done, m_size = 0, m_flags = ''S'', m_date = 0, last_error = ''''\<rparr>]\<rparr> 42 = Some (5, ''S'')"
proof -
  let ?d = "\<lparr>folders = [], messages = [\<lparr>m_key = (1, 7, 42), m_dst_validity = 9, m_dst_uid = 5, ident_hash = '''',
      stamp_id = '''', m_state = Done, m_size = 0, m_flags = ''S'', m_date = 0, last_error = ''''\<rparr>]\<rparr>"
  have "keyed ?d" by (simp add: keyed_def)
  from mirror_is_exact [OF this, of 1 7 9 42 5 "''S''"] show ?thesis by (simp add: row_at_def)
qed

text \<open>
  A watermark is never forgotten by a run that earned none: recording a pass with a zero modseq
  keeps the stored one, for flags and deletions separately, touches no other folder and no message.
\<close>

theorem zero_keeps_watermark:
  assumes "r \<in> set (folders d)"
  shows "\<exists>r' \<in> set (folders (mark_synced fid modseq deleted at d)). f_id r' = f_id r
    \<and> (f_id r \<noteq> fid \<longrightarrow> r' = r)
    \<and> (f_id r = fid \<longrightarrow> last_sync r' = at \<and> (modseq = 0 \<longrightarrow> src_modseq r' = src_modseq r)
         \<and> (deleted = 0 \<longrightarrow> src_deleted r' = src_deleted r)
         \<and> (0 < modseq \<and> modseq < 2 ^ 63 \<longrightarrow> src_modseq r' = modseq)
         \<and> (0 < deleted \<and> deleted < 2 ^ 63 \<longrightarrow> src_deleted r' = deleted))
    \<and> messages (mark_synced fid modseq deleted at d) = messages d"
proof -
  let ?f = "\<lambda>r. r\<lparr>src_modseq := (if wrap64 modseq = 0 then src_modseq r else wrap64 modseq),
               src_deleted := (if wrap64 deleted = 0 then src_deleted r else wrap64 deleted), last_sync := at\<rparr>"
  let ?r = "if f_id r = fid then ?f r else r"
  have i: "?r \<in> set (folders (mark_synced fid modseq deleted at d))"
    using set_where_in [OF assms, of "\<lambda>r. f_id r = fid" ?f] by (simp add: mark_synced_def)
  have w: "wrap64 x = x" if "0 \<le> x" "x < 2 ^ 63" for x
    using that by (intro wrap64_id) (simp add: int64_def min_int64_def max_int64_def)
  have m: "messages (mark_synced fid modseq deleted at d) = messages d" by (simp add: mark_synced_def)
  show ?thesis
  proof (rule bexI [OF _ i], intro conjI impI)
    show "messages (mark_synced fid modseq deleted at d) = messages d" by (rule m)
  qed (use w [of modseq] w [of deleted] w [of 0] in simp_all)
qed

theorem zero_keeps_watermark_witness:
  "\<exists>r' \<in> set (folders (mark_synced 1 0 0 99 \<lparr>folders = [\<lparr>f_id = 1, pair_id = '''', source = '''', dest = '''', src_validity = 0,
      dst_validity = 0, src_modseq = 7, src_deleted = 3, last_sync = 0\<rparr>], messages = []\<rparr>)).
     src_modseq r' = 7 \<and> src_deleted r' = 3"
proof -
  let ?r = "\<lparr>f_id = 1, pair_id = '''', source = '''', dest = '''', src_validity = 0,
      dst_validity = 0, src_modseq = 7, src_deleted = 3, last_sync = 0\<rparr> :: folder_row"
  have "?r \<in> set (folders \<lparr>folders = [?r], messages = []\<rparr>)" by simp
  from zero_keeps_watermark [OF this, of 1 0 0 99] show ?thesis by auto
qed

end
