(* ===== verification/Throttle.thy ===== *)
theory Throttle
  imports Complex_Main Retry
begin

text \<open>
  internal/throttle: one allowance of bytes and messages per second, shared by every worker of a run.

  The token bucket (\<open>golang.org/x/time/rate\<close>) is outside the repository: \<open>mk\<close> stands for
  \<open>rate.NewLimiter\<close>, \<open>burst_of\<close> for \<open>Burst\<close> and \<open>wait_n\<close> for \<open>WaitN\<close>, which
  answers with an error or not and leaves the bucket in a new state. \<open>elapsed\<close> is what
  \<open>time.Since\<close> reads at the end of a wait. A rate is a rational number; Go's \<open>float64\<close> holds
  the whole rates below \<open>2 ^ 53\<close> exactly.

  \<open>spend_charges\<close> shows that a message of any size is charged in full, in instalments the bucket can hold,
  and that the loop ends; \<open>throttled_refusal_stops\<close> that a wait refused because of a deadline
  is classified as the end of the run.
\<close>

section \<open>The limiter\<close>

record 'l limiter =
  l_bytes :: "'l option"
  l_messages :: "'l option"
  bytes_per_sec :: int
  messages_per_sec :: rat
  waited :: int
  moved :: int

definition burst_for :: "rat \<Rightarrow> int" where
  "burst_for per_second = (if per_second < 1 then 1 else floor per_second)"

definition new_limiter :: "(rat \<Rightarrow> int \<Rightarrow> 'l) \<Rightarrow> int \<Rightarrow> rat \<Rightarrow> 'l limiter option" where
  "new_limiter mk bytes messages =
     (if bytes \<le> 0 \<and> messages \<le> 0 then None
      else Some \<lparr>l_bytes = (if bytes > 0 then Some (mk (of_int bytes) (burst_for (of_int bytes))) else None),
                 l_messages = (if messages > 0 then Some (mk messages (burst_for messages)) else None),
                 bytes_per_sec = bytes, messages_per_sec = messages, waited = 0, moved = 0\<rparr>)"

section \<open>Waiting\<close>

text \<open>\<open>deadline\<close> says whether the context carries one.\<close>

definition classifiable :: "bool \<Rightarrow> go_error \<Rightarrow> go_error" where
  "classifiable deadline err =
     (if err_is err Canceled \<or> err_is err DeadlineExceeded then err
      else if deadline then WrapErr [Sentinel DeadlineExceeded, err]
      else err)"

text \<open>The loop over the instalments. A bucket that holds nothing would keep it going for ever, so its value
  is an option.\<close>

partial_function (option) spend_from ::
  "(int \<Rightarrow> 'l \<Rightarrow> go_error option \<times> 'l) \<Rightarrow> int \<Rightarrow> int \<Rightarrow> 'l \<Rightarrow> (go_error option \<times> 'l) option" where
  "spend_from wait_n burst n l =
     (if n > 0 then
        (case wait_n (min n burst) l of
           (Some err, l') \<Rightarrow> Some (Some err, l')
         | (None, l') \<Rightarrow> spend_from wait_n burst (n - min n burst) l')
      else Some (None, l))"

declare spend_from.simps [code]

definition spend ::
  "(int \<Rightarrow> 'l \<Rightarrow> go_error option \<times> 'l) \<Rightarrow> ('l \<Rightarrow> int) \<Rightarrow> int \<Rightarrow> 'l \<Rightarrow> (go_error option \<times> 'l) option" where
  "spend wait_n burst_of n l = spend_from wait_n (burst_of l) n l"

text \<open>\<open>Wait\<close>: the error it returns and the limiter afterwards. The time waited is added whatever happens.\<close>

definition charge_message ::
  "(int \<Rightarrow> 'l \<Rightarrow> go_error option \<times> 'l) \<Rightarrow> 'l limiter \<Rightarrow> go_error option \<times> 'l limiter" where
  "charge_message wait_n l =
     (case l_messages l of
        None \<Rightarrow> (None, l)
      | Some m \<Rightarrow> (let (e, m') = wait_n 1 m in (e, l\<lparr>l_messages := Some m'\<rparr>)))"

definition charge_bytes ::
  "(int \<Rightarrow> 'l \<Rightarrow> go_error option \<times> 'l) \<Rightarrow> ('l \<Rightarrow> int) \<Rightarrow> int \<Rightarrow> 'l limiter
     \<Rightarrow> (go_error option \<times> 'l limiter) option" where
  "charge_bytes wait_n burst_of n l =
     (case l_bytes l of
        None \<Rightarrow> Some (None, l)
      | Some b \<Rightarrow>
          (if n > 0 then
             (case spend wait_n burst_of n b of
                None \<Rightarrow> None
              | Some (e, b') \<Rightarrow> Some (e, l\<lparr>l_bytes := Some b'\<rparr>))
           else Some (None, l)))"

definition wait_for ::
  "(int \<Rightarrow> 'l \<Rightarrow> go_error option \<times> 'l) \<Rightarrow> ('l \<Rightarrow> int) \<Rightarrow> bool \<Rightarrow> duration \<Rightarrow> int
     \<Rightarrow> 'l limiter option \<Rightarrow> (go_error option \<times> 'l limiter option) option" where
  "wait_for wait_n burst_of deadline elapsed n q =
     (case q of
        None \<Rightarrow> Some (None, None)
      | Some l \<Rightarrow>
          (let done_at = (\<lambda>l. l\<lparr>waited := wrap64 (waited l + elapsed)\<rparr>) in
           case charge_message wait_n l of
             (Some err, l') \<Rightarrow> Some (Some (WrapErr [classifiable deadline err]), Some (done_at l'))
           | (None, l') \<Rightarrow>
               (case charge_bytes wait_n burst_of n l' of
                  None \<Rightarrow> None
                | Some (Some err, l'') \<Rightarrow> Some (Some (WrapErr [classifiable deadline err]), Some (done_at l''))
                | Some (None, l'') \<Rightarrow>
                    Some (None, Some (done_at (if n > 0 then l''\<lparr>moved := wrap64 (moved l'' + n)\<rparr> else l''))))))"

section \<open>What was spent\<close>

record throttle_stats =
  st_bytes_per_sec :: int
  st_messages_per_sec :: rat
  st_waited :: duration
  st_moved :: int

definition stats :: "'l limiter option \<Rightarrow> throttle_stats" where
  "stats q =
     (case q of
        None \<Rightarrow> \<lparr>st_bytes_per_sec = 0, st_messages_per_sec = 0, st_waited = 0, st_moved = 0\<rparr>
      | Some l \<Rightarrow> \<lparr>st_bytes_per_sec = bytes_per_sec l, st_messages_per_sec = messages_per_sec l,
                   st_waited = waited l, st_moved = moved l\<rparr>)"

definition is_set :: "'l limiter option \<Rightarrow> bool" where
  "is_set q \<longleftrightarrow> q \<noteq> None"

section \<open>Instalments\<close>

text \<open>The charges a size comes to, and what a bucket makes of a list of charges: it stops at the first
  refusal.\<close>

definition instalments :: "int \<Rightarrow> int \<Rightarrow> int list" where
  "instalments burst n =
     (if n \<le> 0 then []
      else replicate (nat (n div burst)) burst @ (if n mod burst = 0 then [] else [n mod burst]))"

fun pay :: "(int \<Rightarrow> 'l \<Rightarrow> go_error option \<times> 'l) \<Rightarrow> int list \<Rightarrow> 'l \<Rightarrow> go_error option \<times> 'l" where
  "pay wait_n [] l = (None, l)"
| "pay wait_n (c # cs) l = (case wait_n c l of (Some err, l') \<Rightarrow> (Some err, l') | (None, l') \<Rightarrow> pay wait_n cs l')"

lemma instalments_step:
  assumes "0 < burst" and "0 < n"
  shows "instalments burst n = min n burst # instalments burst (n - min n burst)"
proof (cases "n < burst")
  case True
  with assms show ?thesis by (simp add: instalments_def)
next
  case False
  have d: "n div burst = (n - burst) div burst + 1" "(n - burst) mod burst = n mod burst"
    using assms(1) div_add_self2 [of burst "n - burst"] mod_add_self2 [of "n - burst" burst] by simp_all
  have nn: "nat (n div burst) = Suc (nat ((n - burst) div burst))"
    using False assms by (simp add: d(1) pos_imp_zdiv_nonneg_iff nat_add_distrib)
  show ?thesis
  proof (cases "n = burst")
    case True
    with assms show ?thesis by (simp add: instalments_def)
  next
    case ne: False
    with False assms nn d(2) show ?thesis by (simp add: instalments_def)
  qed
qed

lemma instalments_sum: "0 < burst \<Longrightarrow> sum_list (instalments burst n) = max n 0"
proof -
  assume b: "0 < burst"
  show ?thesis
  proof (cases "0 < n")
    case True
    with b have "int (nat (n div burst)) * burst + n mod burst = n" by (simp add: pos_imp_zdiv_nonneg_iff)
    with True show ?thesis by (auto simp: instalments_def sum_list_replicate)
  qed (simp add: instalments_def)
qed

lemma instalments_bounds: "0 < burst \<Longrightarrow> c \<in> set (instalments burst n) \<Longrightarrow> 0 < c \<and> c \<le> burst"
  by (auto simp: instalments_def split: if_splits) (metis mod_int_pos_iff order_le_less, simp add: pos_mod_bound less_imp_le)

lemma spend_from_pays:
  assumes "0 < burst"
  shows "spend_from wait_n burst n l = Some (pay wait_n (instalments burst n) l)"
proof (induction "nat n" arbitrary: n l rule: less_induct)
  case less
  show ?case
  proof (cases "0 < n")
    case True
    have "nat (n - min n burst) < nat n" using True assms by simp
    with less have IH: "spend_from wait_n burst (n - min n burst) l' =
        Some (pay wait_n (instalments burst (n - min n burst)) l')" for l' by blast
    show ?thesis
      using True by (subst spend_from.simps) (simp add: instalments_step [OF assms] IH split: prod.split option.split)
  next
    case False
    then show ?thesis by (subst spend_from.simps) (simp add: instalments_def)
  qed
qed

text \<open>Whatever its size a message is charged to the last byte, in instalments between one token and
  what the bucket holds, so a message larger than the bucket is slow instead of impossible; the loop ends, at
  the first refusal or when all is paid.\<close>

theorem spend_charges:
  assumes "0 < burst_of l"
  shows "spend wait_n burst_of n l = Some (pay wait_n (instalments (burst_of l) n) l) \<and>
     sum_list (instalments (burst_of l) n) = max n 0 \<and>
     list_all (\<lambda>c. 0 < c \<and> c \<le> burst_of l) (instalments (burst_of l) n)"
  using spend_from_pays [OF assms] instalments_sum [OF assms] instalments_bounds [OF assms]
  by (simp add: spend_def list_all_iff)

text \<open>A bucket that counts what it gave, holding 1000: 2500 bytes are three waits.\<close>

theorem spend_charges_witness:
  "spend (\<lambda>c l. (None, l @ [c])) (\<lambda>_. 1000) 2500 [] = Some (None, [1000, 1000, 500])"
proof -
  have "spend (\<lambda>c l. (None :: go_error option, l @ [c])) (\<lambda>_. 1000) 2500 [] =
      Some (pay (\<lambda>c l. (None, l @ [c])) (instalments 1000 2500) [])"
    using spend_charges [where burst_of = "\<lambda>_. 1000" and l = "[]" and n = 2500
        and wait_n = "\<lambda>c l. (None :: go_error option, l @ [c])"] by simp
  also have "instalments 1000 2500 = [1000, 1000, 500]" by (simp add: instalments_def eval_nat_numeral)
  finally show ?thesis by simp
qed

lemma new_limiter_bursts:
  assumes "new_limiter mk bytes messages = Some l" and "\<And>r b. burst_of (mk r b) = b"
  shows "\<forall>b. l_bytes l = Some b \<or> l_messages l = Some b \<longrightarrow> 0 < burst_of b"
  using assms by (auto simp: new_limiter_def burst_for_def not_less split: if_splits)

text \<open>A limiter made by \<open>New\<close> never waits for ever.\<close>

lemma wait_returns:
  assumes "\<forall>b. l_bytes l = Some b \<longrightarrow> 0 < burst_of b"
  shows "wait_for wait_n burst_of deadline elapsed n (Some l) \<noteq> None"
proof -
  have "charge_bytes wait_n burst_of n l' \<noteq> None" if "l_bytes l' = l_bytes l" for l'
    using assms that by (auto simp: charge_bytes_def spend_def spend_from_pays split: option.splits prod.splits)
  moreover have "l_bytes (snd (charge_message wait_n l)) = l_bytes l"
    by (simp add: charge_message_def split: option.split prod.split)
  ultimately have "charge_bytes wait_n burst_of n (snd (charge_message wait_n l)) \<noteq> None" by blast
  then show ?thesis by (auto simp: wait_for_def Let_def split: prod.splits option.splits)
qed

lemma new_limiter_returns:
  assumes "new_limiter mk bytes messages = Some l" and "\<And>r b. burst_of (mk r b) = b"
  shows "wait_for wait_n burst_of deadline elapsed n (Some l) \<noteq> None"
  using new_limiter_bursts [OF assms] by (intro wait_returns) blast

section \<open>Refusals\<close>

lemma classifiable_context: "is_context_err (classifiable True err)"
  by (simp add: classifiable_def is_context_err_def)

text \<open>Under a deadline every refusal of the allowance is classified as the end of the run, never as one
  message to give up on.\<close>

theorem throttled_refusal_stops:
  assumes "wait_for wait_n burst_of True elapsed n q = Some (Some err, q')"
  shows "classify (Some err) = Stop"
proof -
  obtain e where "err = WrapErr [classifiable True e]"
    using assms by (auto simp: wait_for_def Let_def split: option.splits prod.splits)
  then show ?thesis using classifiable_context [of e] by (auto simp: classify_def is_context_err_def)
qed

theorem throttled_refusal_stops_witness:
  "classify (Some (WrapErr [WrapErr [Sentinel DeadlineExceeded, PlainErr ''rate: Wait(n=1) would exceed context deadline'']])) = Stop"
proof -
  let ?refuse = "\<lambda>c l. (Some (PlainErr ''rate: Wait(n=1) would exceed context deadline''), l)"
  let ?l = "\<lparr>l_bytes = None, l_messages = Some (), bytes_per_sec = 0, messages_per_sec = 1, waited = 0, moved = 0\<rparr>"
  have "wait_for ?refuse (\<lambda>_. 1) True 0 5 (Some ?l) =
     Some (Some (WrapErr [WrapErr [Sentinel DeadlineExceeded, PlainErr ''rate: Wait(n=1) would exceed context deadline'']]),
       Some (?l\<lparr>waited := wrap64 0\<rparr>))"
    by (simp add: wait_for_def charge_message_def classifiable_def)
  from throttled_refusal_stops [OF this] show ?thesis .
qed

end
