(* ===== verification/SyncCore.thy ===== *)
theory SyncCore
  imports Retry Selection SearchKey StateDb Throttle Dedup
begin

text \<open>
  The parts of the sync engine (\<open>src/internal/syncer/syncer.go\<close>) that decide, without talking to a
  server: the reports, the count of failures that ends a run (\<open>health\<close>), what a folder's workers share
  (\<open>live\<close>), the index of messages to adopt, the lists of what to copy, flags, and the watermarks behind the
  fast path. What a connection returns - mailboxes, UIDs, headers - is data here; the theories built on this one
  thread the calls.

  A method of \<open>live\<close> or \<open>health\<close> holds its mutex from start to end, so it is one operation.
\<close>

section \<open>What a server reports\<close>

text \<open>\<open>imapx.MessageMeta\<close>, \<open>imapx.Mailbox\<close> and the parts of \<open>imapx.Folder\<close> the engine reads.\<close>

record msg_meta =
  meta_uid :: nat
  meta_header :: string
  meta_size :: int
  meta_flags :: "string list"
  meta_date :: go_time

record mailbox =
  box_name :: string
  box_validity :: nat
  box_messages :: nat
  box_modseq :: int
  box_read_only :: bool

record dest_status =
  ds_messages :: "nat option"
  ds_validity :: nat

section \<open>Options\<close>

record sync_opts =
  pair_name :: string
  dry_run :: bool
  retry_policy :: policy
  give_up_after :: int
  full :: bool
  o_filter :: filter_opts
  source_search :: search
  dest_search :: search
  no_resync_flags :: bool
  no_verify_dest :: bool
  delete2_duplicates :: bool
  no_delete2_duplicates :: bool
  sync_duplicates :: bool
  no_subscribe :: bool
  delete2 :: bool
  delete_ceiling :: rat
  force :: bool

text \<open>The defaults \<open>New\<close> fills in.\<close>

definition settle_opts :: "sync_opts \<Rightarrow> sync_opts" where
  "settle_opts opts =
     opts\<lparr>pair_name := (if pair_name opts = '''' then ''default'' else pair_name opts),
          retry_policy := (if attempts (retry_policy opts) = 0 then default_policy else retry_policy opts),
          give_up_after := (if give_up_after opts = 0 then 50 else give_up_after opts)\<rparr>"

definition dedupe_dest_wanted :: "sync_opts \<Rightarrow> bool" where
  "dedupe_dest_wanted opts \<longleftrightarrow> (delete2_duplicates opts \<or> delete2 opts) \<and> \<not> no_delete2_duplicates opts"

section \<open>Reports\<close>

record folder_report =
  r_source :: string
  r_dest :: string
  r_messages :: int
  r_copied :: int
  r_adopted :: int
  r_already :: int
  r_vanished :: int
  r_missing :: int
  r_duplicates :: int
  r_removed :: int
  r_filtered :: int
  r_reflagged :: int
  r_deleted :: int
  r_refused :: int
  r_dest_messages :: int
  r_source_headerless :: int
  r_dest_headerless :: int
  r_failed :: int
  r_errors :: "string list"
  r_err :: "go_error option"

definition new_report :: "string \<Rightarrow> string \<Rightarrow> folder_report" where
  "new_report src dst =
     \<lparr>r_source = src, r_dest = dst, r_messages = 0, r_copied = 0, r_adopted = 0, r_already = 0, r_vanished = 0,
      r_missing = 0, r_duplicates = 0, r_removed = 0, r_filtered = 0, r_reflagged = 0, r_deleted = 0,
      r_refused = 0, r_dest_messages = 0, r_source_headerless = 0, r_dest_headerless = 0, r_failed = 0,
      r_errors = [], r_err = None\<rparr>"

fun replace_report :: "folder_report \<Rightarrow> folder_report list \<Rightarrow> folder_report list" where
  "replace_report fr [] = [fr]"
| "replace_report fr (r # rs) = (if r_source r = r_source fr then fr # rs else r # replace_report fr rs)"

definition totals :: "folder_report list \<Rightarrow> int \<times> int \<times> int" where
  "totals fs = (sum_list (map r_copied fs), sum_list (map r_adopted fs), sum_list (map r_failed fs))"

definition total_headerless :: "folder_report list \<Rightarrow> int \<times> int" where
  "total_headerless fs = (sum_list (map r_source_headerless fs), sum_list (map r_dest_headerless fs))"

definition total_vanished :: "folder_report list \<Rightarrow> int" where
  "total_vanished fs = sum_list (map r_vanished fs)"

definition total_missing :: "folder_report list \<Rightarrow> int" where
  "total_missing fs = sum_list (map r_missing fs)"

definition total_duplicates :: "folder_report list \<Rightarrow> int" where
  "total_duplicates fs = sum_list (map r_duplicates fs)"

definition total_removed :: "folder_report list \<Rightarrow> int" where
  "total_removed fs = sum_list (map r_removed fs)"

definition total_filtered :: "folder_report list \<Rightarrow> int" where
  "total_filtered fs = sum_list (map r_filtered fs)"

definition total_deleted :: "folder_report list \<Rightarrow> int" where
  "total_deleted fs = sum_list (map r_deleted fs)"

definition total_refused :: "folder_report list \<Rightarrow> int" where
  "total_refused fs = sum_list (map r_refused fs)"

text \<open>The folders worth a second pass.\<close>

definition worth_retrying :: "folder_report \<Rightarrow> bool" where
  "worth_retrying fr =
     (case r_err fr of
        None \<Rightarrow> False
      | Some e \<Rightarrow> \<not> (err_is e Canceled \<or> err_is e DeadlineExceeded))"

definition retryable :: "folder_report list \<Rightarrow> (string \<times> string) list" where
  "retryable fs = map (\<lambda>fr. (r_source fr, r_dest fr)) (filter worth_retrying fs)"

section \<open>Knowing when to stop\<close>

record health =
  ceiling_of :: int
  in_a_row :: int
  h_copied :: int
  h_adopted :: int
  h_folders :: int
  h_reason :: "(int \<times> go_error) option"

definition new_health :: "int \<Rightarrow> health" where
  "new_health n =
     \<lparr>ceiling_of = n, in_a_row = 0, h_copied = 0, h_adopted = 0, h_folders = 0, h_reason = None\<rparr>"

definition progress :: "int \<Rightarrow> int \<Rightarrow> health \<Rightarrow> health" where
  "progress copied adopted h =
     (if copied = 0 \<and> adopted = 0 then h
      else h\<lparr>h_copied := h_copied h + copied, h_adopted := h_adopted h + adopted, in_a_row := 0\<rparr>)"

text \<open>\<open>stop\<close> cancels the run with the reason as its cause: a run is stopped exactly when there is one.\<close>

definition trouble :: "go_error \<Rightarrow> health \<Rightarrow> health" where
  "trouble err h =
     (let h = h\<lparr>in_a_row := in_a_row h + 1\<rparr> in
      if in_a_row h < ceiling_of h then h
      else if h_reason h = None then h\<lparr>h_reason := Some (ceiling_of h, err)\<rparr> else h)"

definition verdict :: "health \<Rightarrow> go_error option" where
  "verdict h = map_option (\<lambda>(n, err). WrapErr [err]) (h_reason h)"

section \<open>Messages already on the destination\<close>

text \<open>UIDs by digest; a digest that is not there has none.\<close>

type_synonym adoption = "string \<Rightarrow> nat list"

definition empty_adoption :: adoption where
  "empty_adoption = (\<lambda>_. [])"

definition take_uid :: "adoption \<Rightarrow> identity \<Rightarrow> nat option \<times> adoption" where
  "take_uid a i =
     (case a (digest i) of
        [] \<Rightarrow> (None, a)
      | u # us \<Rightarrow> (Some u, a(digest i := us)))"

definition headerless :: "msg_meta \<Rightarrow> bool" where
  "headerless m \<longleftrightarrow> meta_header m = [] \<and> meta_size m > 0"

text \<open>One message of the destination: left out when a row claims it or when its identity is weak.\<close>

definition index_message :: "(string \<Rightarrow> string) \<Rightarrow> nat set \<Rightarrow> msg_meta \<Rightarrow> adoption \<Rightarrow> adoption" where
  "index_message sha claimed m a =
     (if meta_uid m \<in> claimed then a
      else (let i = parse_ident sha (meta_header m) in
            if weak i then a else a(digest i := a (digest i) @ [meta_uid m])))"

section \<open>What a folder's workers share\<close>

record live =
  l_report :: folder_report
  l_index :: adoption
  l_bodies :: "string \<Rightarrow> nat option"
  l_dupes :: "(nat \<times> nat) list"
  l_health :: health

definition new_live :: "string \<Rightarrow> string \<Rightarrow> health \<Rightarrow> live" where
  "new_live src dst h =
     \<lparr>l_report = new_report src dst, l_index = empty_adoption, l_bodies = Map.empty, l_dupes = [], l_health = h\<rparr>"

definition on_report :: "(folder_report \<Rightarrow> folder_report) \<Rightarrow> live \<Rightarrow> live" where
  "on_report f l = l\<lparr>l_report := f (l_report l)\<rparr>"

definition first_copy_of :: "string \<Rightarrow> nat \<Rightarrow> live \<Rightarrow> nat option \<times> live" where
  "first_copy_of hash u l =
     (case l_bodies l hash of
        Some survivor \<Rightarrow> (Some survivor, l)
      | None \<Rightarrow> (None, l\<lparr>l_bodies := (l_bodies l)(hash \<mapsto> u)\<rparr>))"

definition duplicate :: "nat \<Rightarrow> nat \<Rightarrow> live \<Rightarrow> live" where
  "duplicate u survivor l = l\<lparr>l_dupes := l_dupes l @ [(u, survivor)]\<rparr>"

definition adopt_uid :: "identity \<Rightarrow> live \<Rightarrow> nat option \<times> live" where
  "adopt_uid i l = (let (u, a) = take_uid (l_index l) i in (u, l\<lparr>l_index := a\<rparr>))"

definition note_copied :: "live \<Rightarrow> live" where
  "note_copied l = (on_report (\<lambda>r. r\<lparr>r_copied := r_copied r + 1\<rparr>) l)\<lparr>l_health := progress 1 0 (l_health l)\<rparr>"

definition note_adopted :: "int \<Rightarrow> live \<Rightarrow> live" where
  "note_adopted n l = (on_report (\<lambda>r. r\<lparr>r_adopted := r_adopted r + n\<rparr>) l)\<lparr>l_health := progress 0 n (l_health l)\<rparr>"

definition note_vanished :: "int \<Rightarrow> live \<Rightarrow> live" where
  "note_vanished n = on_report (\<lambda>r. r\<lparr>r_vanished := r_vanished r + n\<rparr>)"

definition note_filtered :: "int \<Rightarrow> live \<Rightarrow> live" where
  "note_filtered n = on_report (\<lambda>r. r\<lparr>r_filtered := r_filtered r + n\<rparr>)"

definition note_deduplicated :: "int \<Rightarrow> live \<Rightarrow> live" where
  "note_deduplicated n = on_report (\<lambda>r. r\<lparr>r_duplicates := r_duplicates r + n\<rparr>)"

definition note_removed :: "int \<Rightarrow> live \<Rightarrow> live" where
  "note_removed n l = (if n = 0 then l else on_report (\<lambda>r. r\<lparr>r_removed := r_removed r + n\<rparr>) l)"

definition note_deleted :: "int \<Rightarrow> live \<Rightarrow> live" where
  "note_deleted n = on_report (\<lambda>r. r\<lparr>r_deleted := r_deleted r + n\<rparr>)"

definition note_refused :: "int \<Rightarrow> int \<Rightarrow> live \<Rightarrow> live" where
  "note_refused n population =
     on_report (\<lambda>r. r\<lparr>r_refused := r_refused r + n, r_dest_messages := population\<rparr>)"

definition note_source_headerless :: "live \<Rightarrow> live" where
  "note_source_headerless = on_report (\<lambda>r. r\<lparr>r_source_headerless := r_source_headerless r + 1\<rparr>)"

definition note_dest_headerless :: "live \<Rightarrow> live" where
  "note_dest_headerless = on_report (\<lambda>r. r\<lparr>r_dest_headerless := r_dest_headerless r + 1\<rparr>)"

definition note_reflagged :: "live \<Rightarrow> live" where
  "note_reflagged = on_report (\<lambda>r. r\<lparr>r_reflagged := r_reflagged r + 1\<rparr>)"

definition note_failed :: "nat \<Rightarrow> string \<Rightarrow> live \<Rightarrow> live" where
  "note_failed u reason =
     on_report (\<lambda>r. r\<lparr>r_failed := r_failed r + 1,
       r_errors := (if length (r_errors r) < 10
                    then r_errors r @ [''uid '' @ show_nat u @ '': '' @ reason] else r_errors r)\<rparr>)"

section \<open>What is left to copy\<close>

fun triage :: "(nat \<Rightarrow> msg_state option) \<Rightarrow> nat list \<Rightarrow> folder_report \<Rightarrow> nat list \<times> folder_report" where
  "triage known [] r = ([], r)"
| "triage known (u # us) r =
     (if known u = Some Done then triage known us (r\<lparr>r_already := r_already r + 1\<rparr>)
      else if known u = Some Gone then triage known us (r\<lparr>r_vanished := r_vanished r + 1\<rparr>)
      else (let (todo, r') = triage known us r in (u # todo, r')))"

text \<open>A binary search over the sorted matches finds exactly the members.\<close>

definition keep_matching :: "nat list \<Rightarrow> nat list \<Rightarrow> nat list \<times> nat" where
  "keep_matching todo matched =
     (let kept = filter (\<lambda>u. List.member matched u) todo in (kept, length todo - length kept))"

definition selected ::
  "(string \<Rightarrow> go_time option) \<Rightarrow> filter_opts \<Rightarrow> go_time \<Rightarrow> msg_meta list \<Rightarrow> live \<Rightarrow> msg_meta list \<times> live" where
  "selected mail_date f started metas l =
     (if \<not> active f then (metas, l)
      else
        (let kept = filter (\<lambda>m. wants f (meta_size m) (sent_date mail_date (meta_header m)) (meta_date m) started) metas;
             n = length metas - length kept
         in (kept, if n > 0 then note_filtered (int n) l else l)))"

section \<open>Flags\<close>

definition flag_text :: "string list \<Rightarrow> string" where
  "flag_text fs = join_str (sort fs) '' ''"

definition copyable_flags :: "string list \<Rightarrow> string list" where
  "copyable_flags fs = filter (\<lambda>f. \<not> equal_fold f (CHR 0x5C # ''Recent'')) fs"

section \<open>Watermarks\<close>

definition watermark :: "folder_row \<Rightarrow> bool \<Rightarrow> int" where
  "watermark row kept = (if \<not> kept then 0 else src_modseq row)"

definition unchanged :: "sync_opts \<Rightarrow> folder_row \<Rightarrow> mailbox \<Rightarrow> bool" where
  "unchanged opts row src =
     (if delete2 opts \<and> src_deleted row \<noteq> box_modseq src then False
      else if full opts \<or> src_modseq row = 0 \<or> box_modseq src = 0 then False
      else src_validity row = box_validity src \<and> src_modseq row = box_modseq src)"

text \<open>\<open>status\<close> is what LIST said of the destination mailboxes.\<close>

definition can_skip ::
  "sync_opts \<Rightarrow> (string \<Rightarrow> dest_status option) \<Rightarrow> db \<Rightarrow> folder_row \<Rightarrow> mailbox \<Rightarrow> string \<Rightarrow> bool" where
  "can_skip opts status d row src dst =
     (if \<not> unchanged opts row src then False
      else if no_verify_dest opts then True
      else (case status dst of
              None \<Rightarrow> True
            | Some st \<Rightarrow>
                (case ds_messages st of
                   None \<Rightarrow> True
                 | Some n \<Rightarrow> claimed_count (f_id row) (box_validity src) (ds_validity st) d \<le> n)))"

text \<open>The two watermarks a folder earns by its report.\<close>

definition earned_modseq :: "folder_report \<Rightarrow> mailbox \<Rightarrow> int" where
  "earned_modseq fr src = (if r_filtered fr > 0 then 0 else if r_failed fr > 0 then 0 else box_modseq src)"

definition earned_deleted :: "sync_opts \<Rightarrow> folder_report \<Rightarrow> mailbox \<Rightarrow> int" where
  "earned_deleted opts fr src =
     (if delete2 opts \<and> r_failed fr = 0 \<and> r_refused fr = 0 then box_modseq src else 0)"

section \<open>The ceiling on deletions\<close>

definition default_delete_ceiling :: rat where
  "default_delete_ceiling = 1 / 10"

definition default_delete_floor :: nat where
  "default_delete_floor = 10"

definition delete_share_ceiling :: "sync_opts \<Rightarrow> rat" where
  "delete_share_ceiling opts = (if delete_ceiling opts = 0 then default_delete_ceiling else delete_ceiling opts)"

text \<open>Go divides two \<open>float64\<close>; the quotient of two counts here is exact.\<close>

definition allowed_to_delete :: "sync_opts \<Rightarrow> nat \<Rightarrow> nat \<Rightarrow> bool" where
  "allowed_to_delete opts nominated population =
     (if nominated = 0 \<or> population = 0 then True
      else if nominated \<le> default_delete_floor then True
      else of_nat nominated / of_nat population \<le> delete_share_ceiling opts \<or> force opts)"

section \<open>A run ends when it shouts into a void\<close>

datatype health_event = Worked int int | Failing go_error

fun note_event :: "health_event \<Rightarrow> health \<Rightarrow> health" where
  "note_event (Worked c a) = progress c a"
| "note_event (Failing e) = trouble e"

text \<open>Whether an event leaves a row of failures standing, and the length of the row a list of events ends with.\<close>

fun quiet :: "health_event \<Rightarrow> bool" where
  "quiet (Worked c a) = (c = 0 \<and> a = 0)"
| "quiet (Failing e) = True"

fun failing :: "health_event \<Rightarrow> bool" where
  "failing (Worked c a) = False"
| "failing (Failing e) = True"

definition streak :: "health_event list \<Rightarrow> nat" where
  "streak es = length (filter failing (takeWhile quiet (rev es)))"

lemma streak_snoc:
  "streak (es @ [e]) = (if \<not> quiet e then 0 else if failing e then streak es + 1 else streak es)"
  by (simp add: streak_def)

lemma health_ceiling: "ceiling_of (fold note_event es h) = ceiling_of h"
proof (induction es arbitrary: h)
  case (Cons e es)
  have "ceiling_of (note_event e h) = ceiling_of h" by (cases e) (simp_all add: progress_def trouble_def Let_def)
  with Cons show ?case by simp
qed simp

lemma in_a_row_streak: "in_a_row (fold note_event es (new_health n)) = int (streak es)"
proof (induction es rule: rev_induct)
  case Nil
  then show ?case by (simp add: new_health_def streak_def)
next
  case (snoc e es)
  then show ?case by (cases e) (simp_all add: progress_def trouble_def streak_snoc Let_def)
qed

lemma reason_snoc:
  "h_reason (fold note_event (es @ [e]) (new_health n)) \<noteq> None \<longleftrightarrow>
     h_reason (fold note_event es (new_health n)) \<noteq> None \<or> (failing e \<and> n \<le> int (streak (es @ [e])))"
  using in_a_row_streak [of es n] health_ceiling [of es "new_health n"]
  by (cases e) (auto simp: progress_def trouble_def streak_snoc Let_def new_health_def)

lemma streak_pos: "0 < streak es \<Longrightarrow> \<exists>k < length es. failing (es ! k) \<and> streak es \<le> streak (take (Suc k) es)"
proof (induction es rule: rev_induct)
  case (snoc e es)
  show ?case
  proof (cases "failing e")
    case True
    then show ?thesis by (intro exI [of _ "length es"]) simp
  next
    case False
    with snoc.prems have "streak (es @ [e]) = streak es" by (auto simp: streak_snoc split: if_splits)
    with snoc obtain k where "k < length es" "failing (es ! k)" "streak es \<le> streak (take (Suc k) es)" by auto
    with \<open>streak (es @ [e]) = streak es\<close> show ?thesis by (intro exI [of _ k]) (simp add: nth_append)
  qed
qed (simp add: streak_def)

lemma stopped_iff:
  "h_reason (fold note_event es (new_health n)) \<noteq> None \<longleftrightarrow>
     (\<exists>k < length es. failing (es ! k) \<and> n \<le> int (streak (take (Suc k) es)))"
proof (induction es rule: rev_induct)
  case Nil
  then show ?case by (simp add: new_health_def)
next
  case (snoc e es)
  let ?P = "\<lambda>es k. failing (es ! k) \<and> n \<le> int (streak (take (Suc k) es))"
  have "(\<exists>k < Suc (length es). ?P (es @ [e]) k) \<longleftrightarrow> (\<exists>k < length es. ?P (es @ [e]) k) \<or> ?P (es @ [e]) (length es)"
    using less_Suc_eq by blast
  moreover have "?P (es @ [e]) k \<longleftrightarrow> ?P es k" if "k < length es" for k
    using that by (simp add: nth_append)
  moreover have "?P (es @ [e]) (length es) \<longleftrightarrow> failing e \<and> n \<le> int (streak (es @ [e]))"
    by simp
  ultimately have "(\<exists>k < length (es @ [e]). ?P (es @ [e]) k) \<longleftrightarrow>
      (\<exists>k < length es. ?P es k) \<or> (failing e \<and> n \<le> int (streak (es @ [e])))"
    unfolding length_append_singleton by blast
  with snoc show ?case unfolding reason_snoc by blast
qed

text \<open>C26: A run is ended exactly when, at some moment, the failures that have nothing copied or adopted
  between them number the ceiling - scattered failures never add up - and once ended it stays ended.\<close>

theorem stops_on_a_row_of_failures:
  "(verdict (fold note_event es (new_health n)) \<noteq> None \<longleftrightarrow>
     (\<exists>k \<le> length es. max 1 n \<le> int (streak (take k es)))) \<and>
   (verdict (fold note_event es (new_health n)) \<noteq> None \<longrightarrow>
     verdict (fold note_event (es @ rest) (new_health n)) \<noteq> None)"
proof -
  have v: "verdict h \<noteq> None \<longleftrightarrow> h_reason h \<noteq> None" for h by (simp add: verdict_def)
  have "(\<exists>k < length es. failing (es ! k) \<and> n \<le> int (streak (take (Suc k) es))) \<longleftrightarrow>
      (\<exists>k \<le> length es. max 1 n \<le> int (streak (take k es)))" for es
  proof
    assume "\<exists>k < length es. failing (es ! k) \<and> n \<le> int (streak (take (Suc k) es))"
    then obtain k where k: "k < length es" "failing (es ! k)" "n \<le> int (streak (take (Suc k) es))" by blast
    have "quiet (es ! k)" using k(2) by (cases "es ! k") simp_all
    with k(1,2) have "0 < streak (take (Suc k) es)" by (simp add: take_Suc_conv_app_nth streak_snoc)
    with k show "\<exists>k \<le> length es. max 1 n \<le> int (streak (take k es))" by (intro exI [of _ "Suc k"]) simp
  next
    assume "\<exists>k \<le> length es. max 1 n \<le> int (streak (take k es))"
    then obtain k where k: "k \<le> length es" "max 1 n \<le> int (streak (take k es))" by blast
    then obtain j where j: "j < length (take k es)" "failing (take k es ! j)"
        "streak (take k es) \<le> streak (take (Suc j) (take k es))"
      using streak_pos [of "take k es"] by auto
    then have "take (Suc j) (take k es) = take (Suc j) es" by simp
    with j k show "\<exists>k < length es. failing (es ! k) \<and> n \<le> int (streak (take (Suc k) es))"
      by (intro exI [of _ j]) auto
  qed
  moreover have "h_reason (fold note_event (es @ rest) (new_health n)) \<noteq> None"
    if "h_reason (fold note_event es (new_health n)) \<noteq> None"
  proof -
    from that obtain k where "k < length es" "failing (es ! k)" "n \<le> int (streak (take (Suc k) es))"
      unfolding stopped_iff by blast
    then show ?thesis unfolding stopped_iff by (intro exI [of _ k]) (simp add: nth_append)
  qed
  ultimately show ?thesis unfolding v using stopped_iff [of es n] by blast
qed

section \<open>Adoption\<close>

text \<open>The answers to a list of identities, one after the other.\<close>

fun adopt_all :: "adoption \<Rightarrow> identity list \<Rightarrow> (identity \<times> nat option) list" where
  "adopt_all a [] = []"
| "adopt_all a (i # is) = (let (u, a') = take_uid a i in (i, u) # adopt_all a' is)"

definition given_to :: "string \<Rightarrow> (identity \<times> nat option) list \<Rightarrow> nat list" where
  "given_to d rs = concat (map (\<lambda>(i, u). case u of None \<Rightarrow> [] | Some u \<Rightarrow> if digest i = d then [u] else []) rs)"

definition indexed :: "(string \<Rightarrow> string) \<Rightarrow> nat set \<Rightarrow> msg_meta list \<Rightarrow> adoption" where
  "indexed sha claimed metas = fold (index_message sha claimed) metas empty_adoption"

definition adoptable :: "(string \<Rightarrow> string) \<Rightarrow> nat set \<Rightarrow> string \<Rightarrow> msg_meta \<Rightarrow> bool" where
  "adoptable sha claimed d m \<longleftrightarrow> meta_uid m \<notin> claimed \<and>
     (let i = parse_ident sha (meta_header m) in \<not> weak i \<and> digest i = d)"

lemma index_fold:
  "fold (index_message sha claimed) metas a d = a d @ map meta_uid (filter (adoptable sha claimed d) metas)"
  by (induction metas arbitrary: a) (auto simp: index_message_def adoptable_def Let_def)

lemma indexed_at: "indexed sha claimed metas d = map meta_uid (filter (adoptable sha claimed d) metas)"
  by (simp add: indexed_def index_fold empty_adoption_def)

lemma given_take:
  "given_to d (adopt_all a is) = take (length (filter (\<lambda>i. digest i = d) is)) (a d)"
proof (induction "is" arbitrary: a)
  case (Cons i "is")
  show ?case
  proof (cases "a (digest i)")
    case Nil
    with Cons show ?thesis by (auto simp: take_uid_def given_to_def)
  next
    case c: (Cons u us)
    have "given_to d (adopt_all (a(digest i := us)) is) =
        take (length (filter (\<lambda>i. digest i = d) is)) ((a(digest i := us)) d)"
      by (rule Cons.IH)
    with c show ?thesis by (auto simp: take_uid_def given_to_def)
  qed
qed (simp add: given_to_def)

text \<open>Adoption gives a source message only an unclaimed, identifiable message of the destination with its
  digest, no destination message twice, and as many of them as there are: of n source messages with one digest,
  exactly as many are adopted as the destination holds, in the order it lists them.\<close>

theorem adoption_is_exact:
  assumes "distinct (map meta_uid metas)"
  shows "given_to d (adopt_all (indexed sha claimed metas) is) =
      take (length (filter (\<lambda>i. digest i = d) is)) (map meta_uid (filter (adoptable sha claimed d) metas)) \<and>
    distinct (given_to d (adopt_all (indexed sha claimed metas) is)) \<and>
    (d \<noteq> d' \<longrightarrow> set (given_to d (adopt_all (indexed sha claimed metas) is)) \<inter>
       set (given_to d' (adopt_all (indexed sha claimed metas) is)) = {})"
proof -
  let ?g = "\<lambda>d. given_to d (adopt_all (indexed sha claimed metas) is)"
  have g: "?g d = take (length (filter (\<lambda>i. digest i = d) is)) (map meta_uid (filter (adoptable sha claimed d) metas))"
    for d by (simp add: given_take indexed_at)
  have "distinct (map meta_uid (filter (adoptable sha claimed d) metas))"
    using assms by (rule distinct_map_filter)
  then have "distinct (?g d)" unfolding g by (rule distinct_take)
  moreover have "set (?g d) \<inter> set (?g d') = {}" if "d \<noteq> d'"
  proof -
    have "m = m'" if "m \<in> set metas" "m' \<in> set metas" "meta_uid m = meta_uid m'" for m m'
      using assms that by (auto simp: distinct_map inj_on_def)
    then have "set (map meta_uid (filter (adoptable sha claimed d) metas)) \<inter>
        set (map meta_uid (filter (adoptable sha claimed d') metas)) = {}"
      using that by (auto simp: adoptable_def Let_def)
    then show ?thesis unfolding g using set_take_subset by fast
  qed
  ultimately show ?thesis using g by blast
qed

text \<open>Two source messages with one digest, one copy unclaimed: one is adopted, the other is copied.\<close>

theorem adoption_is_exact_witness:
  "(let header = ''Subject: a'' @ [CR, LF] @ ''Date: b'' @ [CR, LF, CR, LF];
        m = (\<lambda>u. \<lparr>meta_uid = u, meta_header = header, meta_size = 9, meta_flags = [], meta_date = 0\<rparr>);
        i = parse_ident id header
    in given_to (digest i) (adopt_all (indexed id {7} [m 7, m 9]) [i, i]) = [9])"
proof -
  define header where "header = ''Subject: a'' @ [CR, LF] @ ''Date: b'' @ [CR, LF, CR, LF]"
  define m where "m = (\<lambda>u::nat. \<lparr>meta_uid = u, meta_header = header, meta_size = 9, meta_flags = [], meta_date = 0\<rparr>)"
  define i where "i = parse_ident id header"
  have w: "\<not> weak i" unfolding i_def header_def by code_simp
  have "given_to (digest i) (adopt_all (indexed id {7} [m 7, m 9]) [i, i]) =
      take (length (filter (\<lambda>j. digest j = digest i) [i, i])) (map meta_uid (filter (adoptable id {7} (digest i)) [m 7, m 9]))"
    by (rule conjunct1 [OF adoption_is_exact]) (simp add: m_def)
  also have "\<dots> = [9]" using w by (simp add: m_def adoptable_def i_def [symmetric] Let_def)
  finally show ?thesis unfolding Let_def m_def i_def header_def .
qed


text \<open>Two failures with nothing between them end a run whose ceiling is two; a success afterwards changes nothing.\<close>

theorem stops_on_a_row_of_failures_witness:
  "verdict (fold note_event ([Failing (Sentinel ErrEOF), Failing (Sentinel ErrEOF)] @ [Worked 1 0]) (new_health 2)) \<noteq> None"
proof -
  let ?es = "[Failing (Sentinel ErrEOF), Failing (Sentinel ErrEOF)]"
  have "max 1 (2::int) \<le> int (streak (take 2 ?es))" by (simp add: streak_def)
  then have "\<exists>k \<le> length ?es. max 1 2 \<le> int (streak (take k ?es))" by (intro exI [of _ 2]) simp
  with stops_on_a_row_of_failures [of ?es 2 "[Worked 1 0]"] show ?thesis by blast
qed

end
