(* ===== verification/SyncDelete.thy ===== *)
theory SyncDelete
  imports SyncCore
begin

text \<open>
  What the sync engine takes away: claims the destination no longer honours (\<open>verifyClaims\<close>), destination
  messages the source no longer accounts for (\<open>condemned\<close>, \<open>deleteVanished\<close>) and destination messages
  that repeat another (\<open>dedupe.go\<close>).

  The answers of a connection are a record of functions (\<open>view\<close>); what the server is asked to delete is
  part of each result, so that the theorems speak of the requests. A map that Go iterates in random order is the
  list of its entries, here the rows of the state database in table order, whose keys are distinct. The
  listing of the source (\<open>p_live\<close>) and the answers of a search are sorted before they are searched, so a
  binary search in them is membership.
\<close>

section \<open>A connection's answers\<close>

record view =
  v_uids :: "go_error + nat list"
  v_meta :: "nat list \<Rightarrow> go_error + msg_meta list"
  v_search :: "search \<Rightarrow> go_error + nat list"
  v_body :: "nat \<Rightarrow> go_error + string"
  v_ended :: "nat \<Rightarrow> go_error option"

text \<open>\<open>v_ended n\<close> is the error of the context when the n-th batch is about to be read.\<close>

definition wrap_err :: "go_error + 'a \<Rightarrow> go_error + 'a" where
  "wrap_err r = (case r of Inl e \<Rightarrow> Inl (WrapErr [e]) | Inr x \<Rightarrow> Inr x)"

definition meta_batch :: nat where
  "meta_batch = 500"

function batches :: "nat \<Rightarrow> 'a list \<Rightarrow> 'a list list" where
  "batches n xs = (if xs = [] \<or> n = 0 then [] else take n xs # batches n (drop n xs))"
  by auto
termination batches
  by (relation "measure (\<lambda>(n, xs). length xs)") auto

declare batches.simps [simp del]

text \<open>The headers of the messages listed, a batch at a time.\<close>

fun read_metas :: "view \<Rightarrow> nat \<Rightarrow> nat list list \<Rightarrow> go_error + msg_meta list" where
  "read_metas v n [] = Inr []"
| "read_metas v n (b # bs) =
     (case v_ended v n of
        Some e \<Rightarrow> Inl e
      | None \<Rightarrow>
          bind_err (wrap_err (v_meta v b)) (\<lambda>ms.
          bind_err (read_metas v (n + 1) bs) (\<lambda>rest. Inr (ms @ rest))))"

definition all_metas :: "view \<Rightarrow> nat list \<Rightarrow> go_error + msg_meta list" where
  "all_metas v us = read_metas v 0 (batches meta_batch us)"

section \<open>What a folder's preparation found\<close>

type_synonym mirror = "nat \<times> nat \<times> string"

abbreviation mir_src :: "mirror \<Rightarrow> nat" where "mir_src m \<equiv> fst m"
abbreviation mir_dst :: "mirror \<Rightarrow> nat" where "mir_dst m \<equiv> fst (snd m)"
abbreviation mir_flags :: "mirror \<Rightarrow> string" where "mir_flags m \<equiv> snd (snd m)"

record prepared =
  p_folder :: nat
  p_src :: mailbox
  p_dst :: mailbox
  p_todo :: "nat list"
  p_since :: int
  p_skipped :: bool
  p_live :: "nat list"
  p_mirror :: "mirror list option"

definition mirror_list :: "nat \<Rightarrow> nat \<Rightarrow> nat \<Rightarrow> db \<Rightarrow> mirror list" where
  "mirror_list fid sv dv d = map (\<lambda>m. (src_uid m, m_dst_uid m, m_flags m)) (mirror_rows fid sv dv d)"

text \<open>The message map is read from the database once for a folder and kept.\<close>

definition load_mirror :: "db \<Rightarrow> prepared \<Rightarrow> mirror list \<times> prepared" where
  "load_mirror d p =
     (case p_mirror p of
        Some ms \<Rightarrow> (ms, p)
      | None \<Rightarrow>
          (let ms = mirror_list (p_folder p) (box_validity (p_src p)) (box_validity (p_dst p)) d
           in (ms, p\<lparr>p_mirror := Some ms\<rparr>)))"

section \<open>The index for adoption\<close>

text \<open>A batch that fails leaves the counts of the batches before it.\<close>

definition count_headerless :: "nat set \<Rightarrow> msg_meta \<Rightarrow> live \<Rightarrow> live" where
  "count_headerless claimed m l = (if meta_uid m \<notin> claimed \<and> headerless m then note_dest_headerless l else l)"

fun index_batches ::
  "(string \<Rightarrow> string) \<Rightarrow> view \<Rightarrow> nat set \<Rightarrow> nat \<Rightarrow> nat list list \<Rightarrow> adoption \<Rightarrow> live \<Rightarrow> (go_error + adoption) \<times> live" where
  "index_batches sha v claimed n [] a l = (Inr a, l)"
| "index_batches sha v claimed n (b # bs) a l =
     (case v_ended v n of
        Some e \<Rightarrow> (Inl e, l)
      | None \<Rightarrow>
          (case v_meta v b of
             Inl e \<Rightarrow> (Inl (WrapErr [e]), l)
           | Inr ms \<Rightarrow>
               index_batches sha v claimed (n + 1) bs (fold (index_message sha claimed) ms a) (fold (count_headerless claimed) ms l)))"

definition index_destination ::
  "(string \<Rightarrow> string) \<Rightarrow> view \<Rightarrow> db \<Rightarrow> nat \<Rightarrow> mailbox \<Rightarrow> live \<Rightarrow> (go_error + adoption) \<times> live" where
  "index_destination sha v d fid box l =
     (case v_uids v of
        Inl e \<Rightarrow> (Inl (WrapErr [e]), l)
      | Inr us \<Rightarrow>
          if us = [] then (Inr empty_adoption, l)
          else index_batches sha v (claimed_dest_uids fid (box_validity box) d) 0 (batches meta_batch us) empty_adoption l)"

section \<open>Claims the destination does not honour\<close>

definition unhonoured :: "view \<Rightarrow> db \<Rightarrow> nat \<Rightarrow> mailbox \<Rightarrow> mailbox \<Rightarrow> go_error + nat list" where
  "unhonoured v d fid src dst =
     bind_err (wrap_err (v_uids v)) (\<lambda>us.
       Inr (map mir_src (filter (\<lambda>m. \<not> List.member us (mir_dst m))
              (mirror_list fid (box_validity src) (box_validity dst) d))))"

definition verify_claims :: "sync_opts \<Rightarrow> view \<Rightarrow> db \<Rightarrow> nat \<Rightarrow> mailbox \<Rightarrow> mailbox \<Rightarrow> go_error + nat \<times> db" where
  "verify_claims opts v d fid src dst =
     (if no_verify_dest opts then Inr (0, d)
      else
        (let claimed = claimed_count fid (box_validity src) (box_validity dst) d in
         if claimed = 0 then Inr (0, d)
         else if \<not> full opts \<and> claimed \<le> box_messages dst then Inr (0, d)
         else bind_err (unhonoured v d fid src dst) (\<lambda>gone.
           if gone = [] then Inr (0, d)
           else Inr (length gone, forget_messages fid (box_validity src) gone d))))"

section \<open>What the source no longer accounts for\<close>

record victim =
  v_dst :: nat
  v_src :: nat

fun one_each :: "nat set \<Rightarrow> nat set \<Rightarrow> victim list \<Rightarrow> victim list" where
  "one_each spared seen [] = []"
| "one_each spared seen (x # xs) =
     (if v_dst x \<in> spared then one_each spared seen xs
      else if v_dst x \<in> seen then one_each spared seen xs
      else x # one_each spared (insert (v_dst x) seen) xs)"

definition still_claimed :: "victim list \<Rightarrow> mirror list \<Rightarrow> nat list \<Rightarrow> victim list" where
  "still_claimed victims mirrors alive =
     (if victims = [] then victims
      else
        (let nominated = set (map v_dst victims);
             spared = set (map mir_dst (filter (\<lambda>m. mir_dst m \<in> nominated \<and> List.member alive (mir_src m)) mirrors))
         in one_each spared {} victims))"

definition source_idents :: "db \<Rightarrow> prepared \<Rightarrow> string set" where
  "source_idents d p =
     set (map snd (filter (\<lambda>(u, h). h \<noteq> [] \<and> List.member (p_live p) u)
       (idents (p_folder p) (box_validity (p_src p)) d)))"

definition strange :: "(string \<Rightarrow> string) \<Rightarrow> string set \<Rightarrow> msg_meta \<Rightarrow> bool" where
  "strange sha held m \<longleftrightarrow>
     (let i = parse_ident sha (meta_header m) in \<not> weak i \<and> digest i \<notin> held)"

definition strangers ::
  "(string \<Rightarrow> string) \<Rightarrow> view \<Rightarrow> db \<Rightarrow> prepared \<Rightarrow> mailbox \<Rightarrow> go_error + victim list \<times> nat" where
  "strangers sha v d p box =
     bind_err (wrap_err (v_uids v)) (\<lambda>us.
       if length us = 0 then Inr ([], 0)
       else
         (let claimed = claimed_dest_uids (p_folder p) (box_validity box) d;
              unclaimed = filter (\<lambda>u. u \<notin> claimed) us
          in if unclaimed = [] then Inr ([], length us)
             else
               (let held = source_idents d p in
                bind_err (all_metas v unclaimed) (\<lambda>metas.
                  Inr (map (\<lambda>m. \<lparr>v_dst = meta_uid m, v_src = 0\<rparr>) (filter (strange sha held) metas), length us)))))"

definition narrow_victims :: "sync_opts \<Rightarrow> view \<Rightarrow> victim list \<Rightarrow> go_error + victim list" where
  "narrow_victims opts v victims =
     (if \<not> is_zero (dest_search opts) \<and> victims \<noteq> [] then
        bind_err (wrap_err (v_search v (dest_search opts))) (\<lambda>matched.
          Inr (filter (\<lambda>x. List.member matched (v_dst x)) victims))
      else Inr victims)"

definition condemned ::
  "(string \<Rightarrow> string) \<Rightarrow> sync_opts \<Rightarrow> view \<Rightarrow> db \<Rightarrow> prepared \<Rightarrow> mailbox
     \<Rightarrow> (go_error + victim list \<times> nat \<times> bool) \<times> prepared" where
  "condemned sha opts v d p box =
     (let p = p\<lparr>p_dst := box\<rparr>;
          (mirrors, p) = load_mirror d p;
          nominated = map (\<lambda>m. \<lparr>v_dst = mir_dst m, v_src = mir_src m\<rparr>)
                        (filter (\<lambda>m. \<not> List.member (p_live p) (mir_src m)) mirrors);
          victims = still_claimed nominated mirrors (p_live p)
      in (bind_err (strangers sha v d p box) (\<lambda>(others, population).
            bind_err (narrow_victims opts v (victims @ others)) (\<lambda>victims.
              if victims = [] \<or> population = 0 then Inr (victims, population, True)
              else Inr (victims, population, allowed_to_delete opts (length victims) population))),
          p))"

text \<open>\<open>deleteVanished\<close> over what acquiring a connection, selecting the mailbox and deleting answer. The
  result: the error, the UIDs the server was asked to delete, and the states afterwards.\<close>

definition delete_vanished ::
  "(string \<Rightarrow> string) \<Rightarrow> sync_opts \<Rightarrow> go_error option \<Rightarrow> (go_error + mailbox) \<Rightarrow> view \<Rightarrow> (nat list \<Rightarrow> go_error option)
     \<Rightarrow> prepared \<Rightarrow> live \<Rightarrow> db \<Rightarrow> go_error option \<times> nat list \<times> prepared \<times> live \<times> db" where
  "delete_vanished sha opts acquired chosen v remove p l d =
     (if \<not> delete2 opts \<or> p_skipped p then (None, [], p, l, d)
      else if r_failed (l_report l) > 0 then (None, [], p, l, d)
      else
        (case acquired of
           Some e \<Rightarrow> (Some (WrapErr [e]), [], p, l, d)
         | None \<Rightarrow>
             (case chosen of
                Inl e \<Rightarrow> (Some (WrapErr [e]), [], p, l, d)
              | Inr box \<Rightarrow>
                  (case condemned sha opts v d p box of
                     (Inl e, p) \<Rightarrow> (Some e, [], p, l, d)
                   | (Inr (doomed, population, allowed), p) \<Rightarrow>
                       if doomed = [] then (None, [], p, l, d)
                       else if \<not> allowed
                         then (None, [], p, note_refused (int (length doomed)) (int population) l, d)
                       else
                         (let us = map v_dst doomed;
                              forget = map v_src (filter (\<lambda>x. v_src x \<noteq> 0) doomed)
                          in case remove us of
                               Some e \<Rightarrow> (Some (WrapErr [e]), us, p, l, d)
                             | None \<Rightarrow>
                                 (None, us, p, note_deleted (int (length doomed)) l,
                                  forget_messages (p_folder p) (box_validity (p_src p)) forget d))))))"

section \<open>What the destination holds more than once\<close>

record dedupe_result =
  d_population :: nat
  d_removed :: nat
  d_refused :: nat
  d_unequal :: nat

record dedupe_victim =
  dv_uid :: nat
  dv_survivor :: nat

definition dedupe_candidates :: "(string \<Rightarrow> string) \<Rightarrow> view \<Rightarrow> go_error + dmessage list \<times> nat" where
  "dedupe_candidates sha v =
     bind_err (wrap_err (v_uids v)) (\<lambda>us.
       if length us < 2 then Inr ([], length us)
       else bind_err (all_metas v us) (\<lambda>metas.
         Inr (map (\<lambda>m. \<lparr>uid = meta_uid m, identity = parse_ident sha (meta_header m), msg_size = meta_size m\<rparr>) metas,
              length us)))"

definition body_sum :: "(string \<Rightarrow> string) \<Rightarrow> view \<Rightarrow> nat \<Rightarrow> go_error + string" where
  "body_sum sha v u = bind_err (v_body v u) (\<lambda>b. Inr (sha b))"

text \<open>One group: the confirmed victims and how many candidates proved to differ.\<close>

definition confirm_group ::
  "(string \<Rightarrow> string) \<Rightarrow> view \<Rightarrow> (nat \<Rightarrow> bool) \<Rightarrow> group \<Rightarrow> dedupe_victim list \<times> nat" where
  "confirm_group sha v claimed g =
     (let (survivor, cands) = partition_group (Some claimed) g in
      case body_sum sha v (uid survivor) of
        Inl _ \<Rightarrow> ([], 0)
      | Inr want \<Rightarrow>
          (map (\<lambda>c. \<lparr>dv_uid = uid c, dv_survivor = uid survivor\<rparr>)
             (filter (\<lambda>c. body_sum sha v (uid c) = Inr want) cands),
           length (filter (\<lambda>c. case body_sum sha v (uid c) of Inl _ \<Rightarrow> False | Inr got \<Rightarrow> got \<noteq> want) cands)))"

fun confirm_duplicates ::
  "(string \<Rightarrow> string) \<Rightarrow> view \<Rightarrow> (nat \<Rightarrow> bool) \<Rightarrow> nat \<Rightarrow> group list \<Rightarrow> go_error + dedupe_victim list \<times> nat" where
  "confirm_duplicates sha v claimed n [] = Inr ([], 0)"
| "confirm_duplicates sha v claimed n (g # gs) =
     (case v_ended v n of
        Some e \<Rightarrow> Inl e
      | None \<Rightarrow>
          bind_err (confirm_duplicates sha v claimed (n + 1) gs) (\<lambda>(vs, unequal).
            (let (ws, k) = confirm_group sha v claimed g in Inr (ws @ vs, k + unequal))))"

text \<open>Pointing the rows of a victim at its survivor; a failure leaves the rows done before it.\<close>

fun repoint :: "nat \<Rightarrow> nat \<Rightarrow> nat \<Rightarrow> (nat \<times> nat) list \<Rightarrow> db \<Rightarrow> db_error option \<times> db" where
  "repoint fid sv dv [] d = (None, d)"
| "repoint fid sv dv ((u, t) # r) d =
     (case complete_append fid sv u dv t d of
        Inl e \<Rightarrow> (Some e, d)
      | Inr d' \<Rightarrow> repoint fid sv dv r d')"

definition db_failure :: "db_error \<Rightarrow> go_error" where
  "db_failure e =
     (case e of
        NotRecorded _ \<Rightarrow> WrapErr [Sentinel ErrNotRecorded]
      | NoSuchFolder _ \<Rightarrow> WrapErr [PlainErr ''sql: no rows in result set''])"

definition claims_by :: "mirror list \<Rightarrow> nat \<Rightarrow> nat list" where
  "claims_by mirrors t = map mir_src (filter (\<lambda>m. mir_dst m = t) mirrors)"

definition dedupe_dest ::
  "(string \<Rightarrow> string) \<Rightarrow> sync_opts \<Rightarrow> view \<Rightarrow> (nat list \<Rightarrow> go_error option) \<Rightarrow> nat \<Rightarrow> nat \<Rightarrow> nat \<Rightarrow> bool \<Rightarrow> db
     \<Rightarrow> (go_error option \<times> dedupe_result) \<times> nat list \<times> db" where
  "dedupe_dest sha opts v remove fid sv dv dry d =
     (let none = \<lparr>d_population = 0, d_removed = 0, d_refused = 0, d_unequal = 0\<rparr> in
      case dedupe_candidates sha v of
        Inl e \<Rightarrow> ((Some e, none), [], d)
      | Inr (msgs, population) \<Rightarrow>
          (let res = none\<lparr>d_population := population\<rparr>; groups = candidates msgs in
           if groups = [] then ((None, res), [], d)
           else
             (let mirrors = (if fid \<noteq> 0 then mirror_list fid sv dv d else []);
                  claimed = (\<lambda>t. claims_by mirrors t \<noteq> [])
              in case confirm_duplicates sha v claimed 0 groups of
                   Inl e \<Rightarrow> ((Some e, res), [], d)
                 | Inr (victims, unequal) \<Rightarrow>
                     (let res = res\<lparr>d_unequal := unequal\<rparr> in
                      if victims = [] then ((None, res), [], d)
                      else if \<not> allowed_to_delete opts (length victims) population
                        then ((None, res\<lparr>d_refused := length victims\<rparr>), [], d)
                      else if dry then ((None, res\<lparr>d_removed := length victims\<rparr>), [], d)
                      else
                        (case repoint fid sv dv (concat (map (\<lambda>x. map (\<lambda>u. (u, dv_survivor x))
                                 (claims_by mirrors (dv_uid x))) victims)) d of
                           (Some e, d') \<Rightarrow> ((Some (WrapErr [db_failure e]), res), [], d')
                         | (None, d') \<Rightarrow>
                             (let us = map dv_uid victims in
                              case remove us of
                                Some e \<Rightarrow> ((Some (WrapErr [e]), res), us, d')
                              | None \<Rightarrow> ((None, res\<lparr>d_removed := length us\<rparr>), us, d')))))))"

definition remove_dest_duplicates ::
  "(string \<Rightarrow> string) \<Rightarrow> sync_opts \<Rightarrow> go_error option \<Rightarrow> (go_error + mailbox) \<Rightarrow> view \<Rightarrow> (nat list \<Rightarrow> go_error option)
     \<Rightarrow> prepared \<Rightarrow> live \<Rightarrow> db \<Rightarrow> go_error option \<times> nat list \<times> live \<times> db" where
  "remove_dest_duplicates sha opts acquired chosen v remove p l d =
     (if \<not> dedupe_dest_wanted opts \<or> p_skipped p then (None, [], l, d)
      else
        (case acquired of
           Some e \<Rightarrow> (Some (WrapErr [e]), [], l, d)
         | None \<Rightarrow>
             (case chosen of
                Inl e \<Rightarrow> (Some (WrapErr [e]), [], l, d)
              | Inr box \<Rightarrow>
                  (case dedupe_dest sha opts v remove (p_folder p) (box_validity (p_src p)) (box_validity box) False d of
                     ((Some e, res), us, d') \<Rightarrow> (Some e, us, l, d')
                   | ((None, res), us, d') \<Rightarrow>
                       (let l = note_removed (int (d_removed res)) l in
                        (None, us, (if d_refused res > 0
                                    then note_refused (int (d_refused res)) (int (d_population res)) l else l), d'))))))"


section \<open>Lemmas: what is nominated\<close>

lemma wrap_err_Inr [simp]: "wrap_err r = Inr x \<longleftrightarrow> r = Inr x"
  by (cases r) (simp_all add: wrap_err_def)

lemma one_each_sound:
  "x \<in> set (one_each spared seen xs) \<Longrightarrow> x \<in> set xs \<and> v_dst x \<notin> spared \<and> v_dst x \<notin> seen"
  by (induction xs arbitrary: seen) (auto split: if_splits)

lemma one_each_distinct: "distinct (map v_dst (one_each spared seen xs))"
  by (induction xs arbitrary: seen) (auto dest: one_each_sound)

lemma still_claimed_sound:
  assumes "x \<in> set (still_claimed victims mirrors alive)"
  shows "x \<in> set victims" and "\<forall>m \<in> set mirrors. mir_dst m = v_dst x \<longrightarrow> mir_src m \<notin> set alive"
  using assms by (force simp: still_claimed_def Let_def dest!: one_each_sound split: if_splits)+

lemma still_claimed_distinct: "victims \<noteq> [] \<Longrightarrow> distinct (map v_dst (still_claimed victims mirrors alive))"
  by (simp add: still_claimed_def Let_def one_each_distinct)

lemma batches_concat: "0 < n \<Longrightarrow> concat (batches n xs) = xs"
  by (induction n xs rule: batches.induct) (subst batches.simps, simp)

definition answers_asked :: "view \<Rightarrow> bool" where
  "answers_asked v \<longleftrightarrow> (\<forall>b ms. v_meta v b = Inr ms \<longrightarrow> meta_uid ` set ms \<subseteq> set b)"

lemma read_metas_asked:
  "answers_asked v \<Longrightarrow> read_metas v n bs = Inr ms \<Longrightarrow> meta_uid ` set ms \<subseteq> set (concat bs)"
proof (induction bs arbitrary: n ms)
  case (Cons b bs)
  from Cons.prems(2) obtain x rest where
    "v_meta v b = Inr x" "read_metas v (n + 1) bs = Inr rest" "ms = x @ rest"
    by (auto simp: bind_err_Inr_iff split: option.splits)
  with Cons.IH [OF Cons.prems(1)] Cons.prems(1) show ?case by (fastforce simp: answers_asked_def)
qed simp

lemma all_metas_asked: "answers_asked v \<Longrightarrow> all_metas v us = Inr ms \<Longrightarrow> meta_uid ` set ms \<subseteq> set us"
  using read_metas_asked [of v 0 "batches meta_batch us" ms]
  by (simp add: all_metas_def batches_concat meta_batch_def)

text \<open>A message nobody recorded: listed, unclaimed, identifiable, and with a digest no listed source message has.\<close>

definition foreign :: "(string \<Rightarrow> string) \<Rightarrow> view \<Rightarrow> db \<Rightarrow> prepared \<Rightarrow> mailbox \<Rightarrow> nat \<Rightarrow> bool" where
  "foreign sha v d p box u \<longleftrightarrow> (\<exists>us metas m. v_uids v = Inr us \<and> u \<in> set us \<and>
     u \<notin> claimed_dest_uids (p_folder p) (box_validity box) d \<and>
     all_metas v (filter (\<lambda>u. u \<notin> claimed_dest_uids (p_folder p) (box_validity box) d) us) = Inr metas \<and>
     m \<in> set metas \<and> meta_uid m = u \<and> strange sha (source_idents d p) m)"

lemma strangers_sound:
  assumes "strangers sha v d p box = Inr (xs, n)" and "answers_asked v"
  shows "\<exists>us. v_uids v = Inr us \<and> n = length us"
    and "x \<in> set xs \<Longrightarrow> v_src x = 0 \<and> foreign sha v d p box (v_dst x)"
proof -
  let ?c = "claimed_dest_uids (p_folder p) (box_validity box) d"
  from assms(1) obtain us where us: "v_uids v = Inr us" by (auto simp: strangers_def bind_err_Inr_iff)
  with assms(1) show "\<exists>us. v_uids v = Inr us \<and> n = length us"
    by (auto simp: strangers_def bind_err_Inr_iff Let_def split: if_splits)
  assume x: "x \<in> set xs"
  with assms(1) us obtain metas where metas: "all_metas v (filter (\<lambda>u. u \<notin> ?c) us) = Inr metas"
    and xs: "xs = map (\<lambda>m. \<lparr>v_dst = meta_uid m, v_src = 0\<rparr>) (filter (strange sha (source_idents d p)) metas)"
    by (auto simp: strangers_def bind_err_Inr_iff Let_def split: if_splits)
  from x xs obtain m where m: "m \<in> set metas" "strange sha (source_idents d p) m" "x = \<lparr>v_dst = meta_uid m, v_src = 0\<rparr>"
    by auto
  from all_metas_asked [OF assms(2) metas] m(1) have "meta_uid m \<in> set us" "meta_uid m \<notin> ?c" by auto
  with us metas m show "v_src x = 0 \<and> foreign sha v d p box (v_dst x)" by (auto simp: foreign_def)
qed

lemma narrow_sound:
  "narrow_victims opts v xs = Inr ys \<Longrightarrow> x \<in> set ys \<Longrightarrow> x \<in> set xs \<and>
     (is_zero (dest_search opts) \<or> (\<exists>ms. v_search v (dest_search opts) = Inr ms \<and> v_dst x \<in> set ms))"
  by (auto simp: narrow_victims_def bind_err_Inr_iff split: if_splits)

text \<open>The message map the folder's later stages see, with the mailbox as it was selected for them.\<close>

definition mirrors_for :: "db \<Rightarrow> prepared \<Rightarrow> mailbox \<Rightarrow> mirror list" where
  "mirrors_for d p box = fst (load_mirror d (p\<lparr>p_dst := box\<rparr>))"

definition vanished_copy :: "mirror list \<Rightarrow> nat list \<Rightarrow> nat \<Rightarrow> bool" where
  "vanished_copy mirrors alive u \<longleftrightarrow>
     (\<exists>m \<in> set mirrors. mir_dst m = u) \<and> (\<forall>m \<in> set mirrors. mir_dst m = u \<longrightarrow> mir_src m \<notin> set alive)"

lemma load_mirror_keeps:
  "load_mirror d p = (ms, q) \<Longrightarrow> p_live q = p_live p \<and> p_folder q = p_folder p \<and> p_src q = p_src p \<and>
     p_dst q = p_dst p \<and> p_skipped q = p_skipped p \<and> p_mirror q = Some ms"
  by (auto simp: load_mirror_def Let_def split: option.splits)

lemma foreign_cong:
  "p_live q = p_live p \<Longrightarrow> p_folder q = p_folder p \<Longrightarrow> p_src q = p_src p \<Longrightarrow>
     foreign sha v d q box u = foreign sha v d p box u"
  by (simp add: foreign_def source_idents_def)

lemma condemned_sound:
  assumes "condemned sha opts v d p box = (Inr (xs, n, ok), q)" and "answers_asked v"
  shows "\<exists>us. v_uids v = Inr us \<and> n = length us"
    and "ok \<Longrightarrow> xs = [] \<or> n = 0 \<or> allowed_to_delete opts (length xs) n"
    and "x \<in> set xs \<Longrightarrow>
      (v_src x \<notin> set (p_live p) \<and> vanished_copy (mirrors_for d p box) (p_live p) (v_dst x) \<or>
       v_src x = 0 \<and> foreign sha v d p box (v_dst x)) \<and>
      (is_zero (dest_search opts) \<or> (\<exists>ms. v_search v (dest_search opts) = Inr ms \<and> v_dst x \<in> set ms))"
    and "p_live q = p_live p \<and> p_folder q = p_folder p \<and> p_src q = p_src p"
proof -
  obtain mirrors r where l: "load_mirror d (p\<lparr>p_dst := box\<rparr>) = (mirrors, r)" by fastforce
  note keeps = load_mirror_keeps [OF l]
  let ?nominated = "map (\<lambda>m. \<lparr>v_dst = mir_dst m, v_src = mir_src m\<rparr>) (filter (\<lambda>m. \<not> List.member (p_live r) (mir_src m)) mirrors)"
  let ?mine = "still_claimed ?nominated mirrors (p_live r)"
  from assms(1) l obtain others where q: "q = r" and st: "strangers sha v d r box = Inr (others, n)"
    and nv: "narrow_victims opts v (?mine @ others) = Inr xs"
    and ok: "ok = (if xs = [] \<or> n = 0 then True else allowed_to_delete opts (length xs) n)"
    by (auto simp: condemned_def Let_def bind_err_Inr_iff split: if_splits)
  show "p_live q = p_live p \<and> p_folder q = p_folder p \<and> p_src q = p_src p" using keeps q by simp
  show "\<exists>us. v_uids v = Inr us \<and> n = length us" by (rule strangers_sound(1) [OF st assms(2)])
  show "ok \<Longrightarrow> xs = [] \<or> n = 0 \<or> allowed_to_delete opts (length xs) n" using ok by (auto split: if_splits)
  assume x: "x \<in> set xs"
  note nx = narrow_sound [OF nv x]
  have "v_src x \<notin> set (p_live p) \<and> vanished_copy (mirrors_for d p box) (p_live p) (v_dst x)" if "x \<in> set ?mine"
  proof -
    from still_claimed_sound(1) [OF that] obtain m where "m \<in> set mirrors" "mir_src m \<notin> set (p_live r)"
        "x = \<lparr>v_dst = mir_dst m, v_src = mir_src m\<rparr>" by auto
    with still_claimed_sound(2) [OF that] keeps l show ?thesis by (auto simp: vanished_copy_def mirrors_for_def)
  qed
  moreover have "v_src x = 0 \<and> foreign sha v d p box (v_dst x)" if "x \<in> set others"
    using strangers_sound(2) [OF st assms(2) that] keeps foreign_cong [of r p] by simp
  ultimately show "(v_src x \<notin> set (p_live p) \<and> vanished_copy (mirrors_for d p box) (p_live p) (v_dst x) \<or>
       v_src x = 0 \<and> foreign sha v d p box (v_dst x)) \<and>
      (is_zero (dest_search opts) \<or> (\<exists>ms. v_search v (dest_search opts) = Inr ms \<and> v_dst x \<in> set ms))"
    using nx by auto
qed


lemma set_forget:
  "set (db.messages (forget_messages fid sv us d)) = {m \<in> set (db.messages d). \<not> (in_scope fid sv m \<and> src_uid m \<in> set us)}"
  by (auto simp: forget_messages_def)

lemma forget_keeps: "m \<in> set (db.messages d) \<Longrightarrow> src_uid m \<notin> set us \<Longrightarrow> m \<in> set (db.messages (forget_messages fid sv us d))"
  by (auto simp: forget_messages_def)

section \<open>Properties of deletion\<close>



definition sample_opts :: sync_opts where
  "sample_opts =
     \<lparr>pair_name = ''p'', dry_run = False, retry_policy = default_policy, give_up_after = 50, full = False,
      o_filter = \<lparr>max_size = 0, min_size = 0, max_age = 0, min_age = 0, age_basis = BasisSent\<rparr>,
      source_search = \<lparr>criteria_of = None, search_text = []\<rparr>, dest_search = \<lparr>criteria_of = None, search_text = []\<rparr>,
      no_resync_flags = False, no_verify_dest = False, delete2_duplicates = True, no_delete2_duplicates = False,
      sync_duplicates = False, no_subscribe = False, delete2 = True, delete_ceiling = 0, force = False\<rparr>"

definition sample_box :: "nat \<Rightarrow> nat \<Rightarrow> mailbox" where
  "sample_box validity n =
     \<lparr>box_name = ''INBOX'', box_validity = validity, box_messages = n, box_modseq = 1, box_read_only = False\<rparr>"

definition sample_row :: "nat \<Rightarrow> nat \<Rightarrow> msg_row" where
  "sample_row u t =
     \<lparr>m_key = (1, 5, u), m_dst_validity = 7, m_dst_uid = t, ident_hash = ''h'', stamp_id = [], m_state = Done,
      m_size = 1, m_flags = [], m_date = 0, last_error = []\<rparr>"

definition sample_db :: "msg_row list \<Rightarrow> db" where
  "sample_db ms = \<lparr>folders = [], messages = ms\<rparr>"

definition sample_view :: "nat list \<Rightarrow> view" where
  "sample_view us =
     \<lparr>v_uids = Inr us, v_meta = (\<lambda>b. Inr (map (\<lambda>u. \<lparr>meta_uid = u, meta_header = [],
        meta_size = 9, meta_flags = [], meta_date = 0\<rparr>) b)),
      v_search = (\<lambda>_. Inr []), v_body = (\<lambda>_. Inr ''x''), v_ended = (\<lambda>_. None)\<rparr>"

definition sample_prepared :: "nat list \<Rightarrow> mirror list option \<Rightarrow> prepared" where
  "sample_prepared alive known =
     \<lparr>p_folder = 1, p_src = sample_box 5 9, p_dst = sample_box 7 9, p_todo = [], p_since = 0, p_skipped = False,
      p_live = alive, p_mirror = known\<rparr>"

definition sample_live :: live where
  "sample_live = new_live ''INBOX'' ''INBOX'' (new_health 50)"

lemmas samples = sample_opts_def sample_box_def sample_row_def sample_db_def sample_view_def sample_prepared_def
  sample_live_def

text \<open>Two copies recorded, one source message left: the other copy goes.\<close>

definition sample_deletion :: "nat \<Rightarrow> mirror list option \<Rightarrow> go_error option \<times> nat list \<times> prepared \<times> live \<times> db" where
  "sample_deletion validity known =
     delete_vanished id sample_opts None (Inr (sample_box validity 2)) (sample_view [10, 11]) (\<lambda>_. None)
       (sample_prepared [4] known) sample_live (sample_db [sample_row 3 10, sample_row 4 11])"

lemma sample_deletion_eq: "fst (snd (sample_deletion 7 None)) = [10]"
  by code_simp


text \<open>
  A map read for the folder before its destination was renumbered is used after it: the copies recorded under
  UIDVALIDITY 7 name, in a mailbox that is now 8, messages that are not theirs. Here the UIDs 10 and 11 of the
  new numbering are unclaimed, and UID 10 is deleted because a source message copied to UID 10 of the old one is gone.
\<close>

lemma stale_map_deletes_a_stranger:
  "fst (snd (sample_deletion 8 (Some [(3, 10, []), (4, 11, [])]))) = [10] \<and>
   mirror_list 1 5 8 (sample_db [sample_row 3 10, sample_row 4 11]) = [] \<and>
   \<not> strange id (source_idents (sample_db [sample_row 3 10, sample_row 4 11]) (sample_prepared [4] None))
       \<lparr>meta_uid = 10, meta_header = [], meta_size = 9, meta_flags = [], meta_date = 0\<rparr>"
  by code_simp

text \<open>Two source messages shared one copy and both are gone: the copy is deleted, one of the two rows stays.\<close>

lemma one_row_of_a_shared_copy_stays:
  "(let (e, us, p', l', d') = delete_vanished id sample_opts None (Inr (sample_box 7 1)) (sample_view [10]) (\<lambda>_. None)
          (sample_prepared [] None) sample_live (sample_db [sample_row 3 10, sample_row 4 10])
    in us = [10] \<and> map src_uid (db.messages d') = [4])"
  by code_simp


section \<open>Properties of verification\<close>

lemma mirror_list_iff:
  "x \<in> set (mirror_list fid sv dv d) \<longleftrightarrow> (\<exists>m \<in> set (mirror_rows fid sv dv d). x = (src_uid m, m_dst_uid m, m_flags m))"
  by (auto simp: mirror_list_def)

lemma mirror_row_unique:
  assumes "keyed d" and "m \<in> set (mirror_rows fid sv dv d)" and "r \<in> set (db.messages d)"
    and "in_scope fid sv r" and "src_uid r = src_uid m"
  shows "r = m"
proof -
  have "m_key r = m_key m" using assms by (auto simp: mirror_rows_def in_scope_def src_uid_def prod_eq_iff)
  with assms show ?thesis by (auto simp: keyed_def mirror_rows_def distinct_map dest: inj_onD)
qed

lemma claimed_count_card: "claimed_count fid sv dv d = card (m_dst_uid ` set (mirror_rows fid sv dv d))"
  by (simp add: claimed_count_def flip: length_remdups_card_conv set_map)

text \<open>C6: When verification looks at a destination, the rows it forgets are exactly the recorded copies the
  mailbox no longer lists: every claim left is honoured and every other row is kept as it was. When it decides by
  the counts alone that there is nothing to look for, the claims are at most as many as the messages; and when the
  claims outnumber what the mailbox lists, at least one is found missing.\<close>

theorem verification_is_exact:
  assumes "verify_claims opts v d fid src dst = Inr (n, d')" and "keyed d" and "\<not> no_verify_dest opts"
    and "v_uids v = Inr listed"
  shows "let known = mirror_rows fid (box_validity src) (box_validity dst) d;
             claimed = claimed_count fid (box_validity src) (box_validity dst) d;
             lost = {m \<in> set known. m_dst_uid m \<notin> set listed}
         in folders d' = folders d \<and>
            (full opts \<or> box_messages dst < claimed \<longrightarrow>
               set (db.messages d') = set (db.messages d) - lost \<and> (n = 0 \<longleftrightarrow> lost = {}) \<and>
               (\<forall>m \<in> set (mirror_rows fid (box_validity src) (box_validity dst) d'). m_dst_uid m \<in> set listed) \<and>
               (length listed < claimed \<longrightarrow> 0 < n)) \<and>
            (\<not> full opts \<and> claimed \<le> box_messages dst \<longrightarrow> n = 0 \<and> d' = d)"
proof -
  let ?rows = "mirror_rows fid (box_validity src) (box_validity dst) d"
  let ?claimed = "claimed_count fid (box_validity src) (box_validity dst) d"
  let ?lost = "{m \<in> set ?rows. m_dst_uid m \<notin> set listed}"
  let ?gone = "map src_uid (filter (\<lambda>m. m_dst_uid m \<notin> set listed) ?rows)"
  have gone: "unhonoured v d fid src dst = Inr ?gone"
    by (simp add: unhonoured_def wrap_err_def assms(4) mirror_list_def filter_map comp_def)
  have empty: "?gone = [] \<longleftrightarrow> ?lost = {}" by (auto simp: filter_empty_conv)
  have scope: "in_scope fid (box_validity src) m \<and> m \<in> set (db.messages d)" if "m \<in> set ?rows" for m
    using that by (simp add: mirror_rows_def)
  have forget: "set (db.messages (forget_messages fid (box_validity src) ?gone d)) = set (db.messages d) - ?lost"
  proof -
    have "(in_scope fid (box_validity src) r \<and> src_uid r \<in> set ?gone) \<longleftrightarrow> r \<in> ?lost" if "r \<in> set (db.messages d)" for r
      using that mirror_row_unique [OF assms(2), of _ fid "box_validity src" "box_validity dst" r] scope by fastforce
    then show ?thesis unfolding set_forget by blast
  qed
  have zero: "?lost = {}" if "?claimed = 0" using that by (auto simp: claimed_count_card)
  have pigeon: "?lost \<noteq> {}" if "length listed < ?claimed"
  proof
    assume "?lost = {}"
    then have "m_dst_uid ` set ?rows \<subseteq> set listed" by auto
    then have "?claimed \<le> card (set listed)" unfolding claimed_count_card by (intro card_mono) auto
    with that show False using card_length [of listed] by simp
  qed
  have f: "folders d' = folders d" and skip: "\<not> full opts \<and> ?claimed \<le> box_messages dst \<longrightarrow> n = 0 \<and> d' = d"
    using assms(1,3) gone by (auto simp: verify_claims_def Let_def forget_messages_def split: if_splits)
  have left: "set (db.messages d') = set (db.messages d) - ?lost" and none: "n = 0 \<longleftrightarrow> ?lost = {}"
    if "full opts \<or> box_messages dst < ?claimed"
    using assms(1,3) that gone empty zero forget by (auto simp: verify_claims_def Let_def split: if_splits)
  have honoured: "\<forall>m \<in> set (mirror_rows fid (box_validity src) (box_validity dst) d'). m_dst_uid m \<in> set listed"
    if "full opts \<or> box_messages dst < ?claimed"
  proof
    fix m assume m: "m \<in> set (mirror_rows fid (box_validity src) (box_validity dst) d')"
    then have "m \<in> set (db.messages d')" unfolding mirror_rows_def by simp
    then have "m \<in> set (db.messages d)" "m \<notin> ?lost" unfolding left [OF that] by blast+
    with m show "m_dst_uid m \<in> set listed" unfolding mirror_rows_def by simp
  qed
  have found: "0 < n" if "full opts \<or> box_messages dst < ?claimed" "length listed < ?claimed"
    using none [OF that(1)] pigeon [OF that(2)] by blast
  show ?thesis unfolding Let_def 
    by (intro conjI impI f left none honoured found skip [THEN mp, THEN conjunct1] skip [THEN mp, THEN conjunct2]) blast+
qed


theorem verification_is_exact_witness:
  "(let d = sample_db [sample_row 3 10, sample_row 4 11];
        r = verify_claims sample_opts (sample_view [11]) d 1 (sample_box 5 2) (sample_box 7 1)
    in \<exists>n d'. r = Inr (n, d') \<and> set (db.messages d') = {sample_row 4 11} \<and> 0 < n)"
proof -
  let ?d = "sample_db [sample_row 3 10, sample_row 4 11]"
  have "case verify_claims sample_opts (sample_view [11]) ?d 1 (sample_box 5 2) (sample_box 7 1) of Inl _ \<Rightarrow> False | Inr _ \<Rightarrow> True"
    by code_simp
  then obtain n d' where r: "verify_claims sample_opts (sample_view [11]) ?d 1 (sample_box 5 2) (sample_box 7 1) = Inr (n, d')"
    by (auto split: sum.splits)
  have k: "keyed ?d" by (simp add: keyed_def samples)
  have o: "\<not> no_verify_dest sample_opts" and l: "v_uids (sample_view [11]) = Inr [11]"
    and c: "claimed_count 1 (box_validity (sample_box 5 2)) (box_validity (sample_box 7 1)) ?d = 2"
    and b: "box_messages (sample_box 7 1) = 1"
    and m: "mirror_rows 1 (box_validity (sample_box 5 2)) (box_validity (sample_box 7 1)) ?d = db.messages ?d"
    by (simp_all add: samples claimed_count_def mirror_rows_def in_scope_def)
  have s: "set (db.messages ?d) = {sample_row 3 10, sample_row 4 11}" "m_dst_uid (sample_row u t) = t" for u t
    by (simp_all add: samples)
  show ?thesis using verification_is_exact [OF r k o l] r s(2) [of 4 11] s(2) [of 3 10]
    unfolding Let_def c b m s(1) by auto
qed

section \<open>Lemmas: confirmed duplicates\<close>

definition same_body :: "(string \<Rightarrow> string) \<Rightarrow> view \<Rightarrow> nat \<Rightarrow> nat \<Rightarrow> bool" where
  "same_body sha v a b \<longleftrightarrow> (\<exists>h. body_sum sha v a = Inr h \<and> body_sum sha v b = Inr h)"

lemma confirm_group_sound:
  assumes "confirm_group sha v claimed g = (vs, k)" and "x \<in> set vs"
  shows "\<exists>s cands c. partition_group (Some claimed) g = (s, cands) \<and> c \<in> set cands \<and> dv_uid x = uid c \<and>
     dv_survivor x = uid s \<and> same_body sha v (uid c) (uid s)"
proof -
  obtain s cands where p: "partition_group (Some claimed) g = (s, cands)" by fastforce
  with assms obtain h where h: "body_sum sha v (uid s) = Inr h"
    and vs: "vs = map (\<lambda>c. \<lparr>dv_uid = uid c, dv_survivor = uid s\<rparr>) (filter (\<lambda>c. body_sum sha v (uid c) = Inr h) cands)"
    by (auto simp: confirm_group_def Let_def split: sum.splits)
  from assms(2) vs obtain c where "c \<in> set cands" "body_sum sha v (uid c) = Inr h"
      "x = \<lparr>dv_uid = uid c, dv_survivor = uid s\<rparr>" by auto
  with p h show ?thesis by (auto simp: same_body_def)
qed

lemma confirm_sound:
  "confirm_duplicates sha v claimed n gs = Inr (vs, k) \<Longrightarrow> x \<in> set vs \<Longrightarrow>
     \<exists>g \<in> set gs. \<exists>s cands c. partition_group (Some claimed) g = (s, cands) \<and> c \<in> set cands \<and> dv_uid x = uid c \<and>
       dv_survivor x = uid s \<and> same_body sha v (uid c) (uid s)"
proof (induction gs arbitrary: n vs k)
  case (Cons g gs)
  obtain ws j where w: "confirm_group sha v claimed g = (ws, j)" by fastforce
  from Cons.prems(1) w obtain us i where rest: "confirm_duplicates sha v claimed (n + 1) gs = Inr (us, i)"
    and vs: "vs = ws @ us" by (auto simp: bind_err_Inr_iff split: option.splits)
  show ?case
  proof (cases "x \<in> set ws")
    case True
    from confirm_group_sound [OF w True] show ?thesis by (simp add: Bex_def) blast
  next
    case False
    with Cons.prems(2) vs have "x \<in> set us" by simp
    from Cons.IH [OF rest this] show ?thesis by (simp add: Bex_def) blast
  qed
qed simp

lemma group_members:
  assumes "g \<in> set (candidates msgs)" and "partition_group c g = (s, cands)"
  shows "s \<in> set (messages g)" and "set cands \<subseteq> set (messages g)" and "m \<in> set cands \<Longrightarrow> uid m \<noteq> uid s"
    and "set (messages g) \<subseteq> set msgs" and "m \<in> set (messages g) \<Longrightarrow> g = mk_group msgs (key_of m)"
proof -
  from assms(1) obtain k where k: "g = mk_group msgs k" "2 \<le> length (group_of msgs k)" by (auto simp: set_candidates)
  then have "messages g \<noteq> []" using length_messages [of msgs k] by auto
  with assms(2) show "s \<in> set (messages g)" by (auto simp: partition_group_def Let_def intro: survivor_in)
  from assms(2) show "set cands \<subseteq> set (messages g)" "m \<in> set cands \<Longrightarrow> uid m \<noteq> uid s"
    by (auto simp: partition_group_def Let_def)
  show "set (messages g) \<subseteq> set msgs" "m \<in> set (messages g) \<Longrightarrow> g = mk_group msgs (key_of m)"
    by (auto simp: k messages_mk_group)
qed

text \<open>No survivor is a victim, of its own group or of another.\<close>

lemma survivor_stays:
  assumes "confirm_duplicates sha v claimed n (candidates msgs) = Inr (vs, k)" and "distinct (map uid msgs)"
    and "x \<in> set vs" and "y \<in> set vs"
  shows "dv_survivor x \<noteq> dv_uid y"
proof
  assume e: "dv_survivor x = dv_uid y"
  from confirm_sound [OF assms(1,3)] obtain g s cands where g: "g \<in> set (candidates msgs)"
      "partition_group (Some claimed) g = (s, cands)" "dv_survivor x = uid s" by blast
  from confirm_sound [OF assms(1,4)] obtain h t cands' c where h: "h \<in> set (candidates msgs)"
      "partition_group (Some claimed) h = (t, cands')" "c \<in> set cands'" "dv_uid y = uid c" by blast
  have s: "s \<in> set (messages g)" by (rule group_members(1) [OF g(1,2)])
  have c: "c \<in> set (messages h)" using group_members(2) [OF h(1,2)] h(3) by blast
  have "s \<in> set msgs" "c \<in> set msgs"
    using s c group_members(4) [OF g(1,2)] group_members(4) [OF h(1,2)] by blast+
  with e g(3) h(4) assms(2) have "c = s" by (auto simp: distinct_map dest: inj_onD)
  with s c group_members(5) [OF g(1,2)] group_members(5) [OF h(1,2)] have "g = h" by metis
  with g h \<open>c = s\<close> group_members(3) [OF h(1,2) h(3)] show False by simp
qed

lemma victims_listed:
  assumes "confirm_duplicates sha v claimed n (candidates msgs) = Inr (vs, k)" and "x \<in> set vs"
  shows "dv_survivor x \<in> uid ` set msgs" and "same_body sha v (dv_uid x) (dv_survivor x)"
proof -
  from confirm_sound [OF assms] obtain g s cands c where g: "g \<in> set (candidates msgs)"
      "partition_group (Some claimed) g = (s, cands)" "c \<in> set cands"
      "dv_survivor x = uid s" "dv_uid x = uid c" "same_body sha v (uid c) (uid s)" by blast
  then show "same_body sha v (dv_uid x) (dv_survivor x)" by simp
  have "s \<in> set msgs" using group_members(1,4) [OF g(1,2)] by blast
  then show "dv_survivor x \<in> uid ` set msgs" using g(4) by simp
qed

lemma repoint_keyed: "repoint fid sv dv ps d = (e, d') \<Longrightarrow> keyed d \<Longrightarrow> keyed d'"
proof (induction ps arbitrary: d)
  case (Cons p ps)
  obtain u t where p: "p = (u, t)" by fastforce
  show ?case
  proof (cases "complete_append fid sv u dv t d")
    case (Inl e)
    with Cons.prems p show ?thesis by simp
  next
    case (Inr d1)
    then have "keyed d1" using Cons.prems(2) by (auto simp: complete_append_def elim!: keyed_update)
    with Cons Inr p show ?thesis by simp
  qed
qed simp

lemma repoint_row:
  "repoint fid sv dv ps d = (None, d') \<Longrightarrow>
     (row_at d k = None \<longrightarrow> row_at d' k = None) \<and>
     (\<forall>m. row_at d k = Some m \<longrightarrow> (\<exists>m'. row_at d' k = Some m' \<and>
        (m' = m \<and> (\<forall>u t. (u, t) \<in> set ps \<longrightarrow> k \<noteq> (fid, sv, u)) \<or>
         m_dst_validity m' = dv \<and> m_state m' = Done \<and> (\<exists>u. (u, m_dst_uid m') \<in> set ps \<and> k = (fid, sv, u)))))"
proof (induction ps arbitrary: d)
  case (Cons p ps)
  obtain u t where p: "p = (u, t)" by fastforce
  with Cons.prems obtain d1 where d1: "complete_append fid sv u dv t d = Inr d1"
    and rest: "repoint fid sv dv ps d1 = (None, d')" by (auto split: sum.splits)
  let ?f = "\<lambda>m. m\<lparr>m_state := Done, m_dst_validity := dv, m_dst_uid := t, last_error := ''''\<rparr>"
  have r: "row_at d1 k = (if k = (fid, sv, u) then map_option ?f (row_at d k) else row_at d k)"
    using row_at_update(1) [of "(fid, sv, u)" ?f d d1 k] d1 by (simp add: complete_append_def)
  note IH = Cons.IH [OF rest]
  show ?case
  proof (cases "row_at d k")
    case None
    with r have "row_at d1 k = None" by (auto split: if_splits)
    with IH None show ?thesis by simp
  next
    case (Some m)
    then obtain m1 where m1: "row_at d1 k = Some m1" "m1 = (if k = (fid, sv, u) then ?f m else m)"
      using r by (cases "k = (fid, sv, u)") auto
    with IH obtain m' where m': "row_at d' k = Some m'"
      and alt: "m' = m1 \<and> (\<forall>u t. (u, t) \<in> set ps \<longrightarrow> k \<noteq> (fid, sv, u)) \<or>
         m_dst_validity m' = dv \<and> m_state m' = Done \<and> (\<exists>u. (u, m_dst_uid m') \<in> set ps \<and> k = (fid, sv, u))" by blast
    from alt show ?thesis
    proof
      assume a: "m' = m1 \<and> (\<forall>u t. (u, t) \<in> set ps \<longrightarrow> k \<noteq> (fid, sv, u))"
      with m1 m' Some p show ?thesis by (cases "k = (fid, sv, u)") auto
    next
      assume "m_dst_validity m' = dv \<and> m_state m' = Done \<and> (\<exists>u. (u, m_dst_uid m') \<in> set ps \<and> k = (fid, sv, u))"
      with m' Some p show ?thesis by auto
    qed
  qed
qed simp


section \<open>Properties of duplicate removal\<close>

lemma dedupe_dest_asked:
  assumes "dedupe_dest sha opts v remove fid sv dv dry d = ((e, res), us, d')" and "us \<noteq> []"
  shows "\<exists>msgs n victims k.
    dedupe_candidates sha v = Inr (msgs, n) \<and>
    confirm_duplicates sha v (\<lambda>t. claims_by (if fid \<noteq> 0 then mirror_list fid sv dv d else []) t \<noteq> []) 0 (candidates msgs)
      = Inr (victims, k) \<and>
    us = map dv_uid victims \<and> allowed_to_delete opts (length us) n \<and> \<not> dry \<and>
    repoint fid sv dv (concat (map (\<lambda>x. map (\<lambda>u. (u, dv_survivor x))
      (claims_by (if fid \<noteq> 0 then mirror_list fid sv dv d else []) (dv_uid x))) victims)) d = (None, d')"
  using assms by (auto simp: dedupe_dest_def Let_def split: sum.splits prod.splits if_splits option.splits)


lemma claims_by_iff: "u \<in> set (claims_by (mirror_list fid sv dv d) t) \<longleftrightarrow>
    (\<exists>m \<in> set (mirror_rows fid sv dv d). src_uid m = u \<and> m_dst_uid m = t)"
  by (force simp: claims_by_def mirror_list_def)

lemma mirror_row_at: "keyed d \<Longrightarrow> m \<in> set (mirror_rows fid sv dv d) \<longleftrightarrow>
    row_at d (fid, sv, src_uid m) = Some m \<and> m_dst_validity m = dv \<and> m_state m = Done \<and> m_dst_uid m \<noteq> 0"
  by (auto simp: mirror_rows_def row_at_iff in_scope_def src_uid_def prod_eq_iff)

text \<open>After the rows were pointed at the survivors, none of the folder's claims names a victim, and every
  message recorded before is recorded still, against a copy with the same body.\<close>

lemma repointed_claims:
  assumes "keyed d" and "fid \<noteq> 0"
    and r: "repoint fid sv dv (concat (map (\<lambda>x. map (\<lambda>u. (u, dv_survivor x))
        (claims_by (mirror_list fid sv dv d) (dv_uid x))) victims)) d = (None, d')"
    and stays: "\<And>x y. x \<in> set victims \<Longrightarrow> y \<in> set victims \<Longrightarrow> dv_survivor x \<noteq> dv_uid y"
    and same: "\<And>x. x \<in> set victims \<Longrightarrow> dv_survivor x \<noteq> 0 \<and> same_body sha v (dv_uid x) (dv_survivor x)"
  shows "m' \<in> set (mirror_rows fid sv dv d') \<Longrightarrow> m_dst_uid m' \<notin> dv_uid ` set victims"
    and "m \<in> set (mirror_rows fid sv dv d) \<Longrightarrow> \<exists>m' \<in> set (mirror_rows fid sv dv d'). src_uid m' = src_uid m \<and>
      (m_dst_uid m' = m_dst_uid m \<or> same_body sha v (m_dst_uid m) (m_dst_uid m'))"
proof -
  define ps where "ps = concat (map (\<lambda>x. map (\<lambda>u. (u, dv_survivor x)) (claims_by (mirror_list fid sv dv d) (dv_uid x))) victims)"
  have in_ps: "(u, t) \<in> set ps \<longleftrightarrow> (\<exists>x \<in> set victims. t = dv_survivor x \<and>
      (\<exists>m \<in> set (mirror_rows fid sv dv d). src_uid m = u \<and> m_dst_uid m = dv_uid x))" for u t
  proof -
    have "(u, t) \<in> set ps \<longleftrightarrow> (\<exists>x \<in> set victims. t = dv_survivor x \<and>
        u \<in> set (claims_by (mirror_list fid sv dv d) (dv_uid x)))" unfolding ps_def by auto
    then show ?thesis unfolding claims_by_iff .
  qed
  have k': "keyed d'" by (rule repoint_keyed [OF r assms(1)])
  note row = repoint_row [OF r [folded ps_def]]
  {
    fix m' assume m': "m' \<in> set (mirror_rows fid sv dv d')"
    then have at': "row_at d' (fid, sv, src_uid m') = Some m'" by (simp add: mirror_row_at [OF k'])
    then obtain m where at: "row_at d (fid, sv, src_uid m') = Some m"
      using row [of "(fid, sv, src_uid m')"] by (cases "row_at d (fid, sv, src_uid m')") auto
    with row [of "(fid, sv, src_uid m')"] at' consider
        "m' = m" "\<forall>t. (src_uid m', t) \<notin> set ps" | "(src_uid m', m_dst_uid m') \<in> set ps"
      by auto
    then show "m_dst_uid m' \<notin> dv_uid ` set victims"
    proof cases
      case 1
      then have "m' \<in> set (mirror_rows fid sv dv d)"
        using at m' by (simp add: mirror_row_at [OF assms(1)] mirror_row_at [OF k'])
      with 1(2) show ?thesis unfolding in_ps by blast
    next
      case 2
      with stays show ?thesis unfolding in_ps by fastforce
    qed
  }
  {
    fix m assume m: "m \<in> set (mirror_rows fid sv dv d)"
    then have at: "row_at d (fid, sv, src_uid m) = Some m" by (simp add: mirror_row_at [OF assms(1)])
    with row [of "(fid, sv, src_uid m)"] obtain m' where m': "row_at d' (fid, sv, src_uid m) = Some m'"
      and alt: "m' = m \<or> m_dst_validity m' = dv \<and> m_state m' = Done \<and> (src_uid m, m_dst_uid m') \<in> set ps" by auto
    from m' have u: "src_uid m' = src_uid m" by (auto simp: row_at_iff [OF k'] src_uid_def)
    from alt show "\<exists>m' \<in> set (mirror_rows fid sv dv d'). src_uid m' = src_uid m \<and>
      (m_dst_uid m' = m_dst_uid m \<or> same_body sha v (m_dst_uid m) (m_dst_uid m'))"
    proof
      assume "m' = m"
      with m m' u show ?thesis by (intro bexI [of _ m']) (auto simp: mirror_row_at [OF assms(1)] mirror_row_at [OF k'])
    next
      assume a: "m_dst_validity m' = dv \<and> m_state m' = Done \<and> (src_uid m, m_dst_uid m') \<in> set ps"
      then obtain x n where x: "x \<in> set victims" "m_dst_uid m' = dv_survivor x"
        and n: "n \<in> set (mirror_rows fid sv dv d)" "src_uid n = src_uid m" "m_dst_uid n = dv_uid x" unfolding in_ps by blast
      have "n = m" using mirror_row_unique [OF assms(1) m, of n] n by (simp add: mirror_rows_def)
      with same [OF x(1)] x(2) n(3) a m' u show ?thesis
        by (intro bexI [of _ m']) (auto simp: mirror_row_at [OF k'])
    qed
  }
qed



text \<open>Two copies of one message, each claimed by a source message: one goes, both rows name the other.\<close>

definition twin_view :: view where
  "twin_view = (sample_view [10, 11])\<lparr>v_meta := (\<lambda>b. Inr (map (\<lambda>u.
     \<lparr>meta_uid = u, meta_header = ''Subject: a'' @ [CR, LF] @ ''Date: b'' @ [CR, LF, CR, LF], meta_size = 9,
      meta_flags = [], meta_date = 0\<rparr>) b))\<rparr>"

definition twin_messages :: "dmessage list" where
  "twin_messages = (case dedupe_candidates id twin_view of Inl _ \<Rightarrow> [] | Inr (ms, n) \<Rightarrow> ms)"

lemma twin_candidates: "map uid twin_messages = [10, 11] \<and> dedupe_candidates id twin_view = Inr (twin_messages, 2)"
  unfolding twin_messages_def by code_simp

lemma twin_asked:
  "fst (snd (dedupe_dest id sample_opts twin_view (\<lambda>_. None) 1 5 7 False (sample_db [sample_row 3 10, sample_row 4 11]))) = [11]"
  by code_simp



text \<open>
  A source message no row records as done is not among the digests the source holds. With a size or age filter
  and a state database that knows nothing of the folder yet, a destination message that was there before is taken
  for one the source does not have: the source lists UID 4, the destination's UID 10 has the header twin_view
  gives, and whatever the source's message is, UID 10 is deleted.
\<close>

lemma unrecorded_source_message_is_a_stranger:
  "fst (snd (delete_vanished id sample_opts None (Inr (sample_box 7 1)) (twin_view\<lparr>v_uids := Inr [10]\<rparr>) (\<lambda>_. None)
     (sample_prepared [4] None) sample_live (sample_db []))) = [10]"
  by code_simp

end
