(* ===== verification/SyncCopy.thy ===== *)
theory SyncCopy
  imports SyncDelete
begin

text \<open>
  Copying one folder (\<open>src/internal/syncer/syncer.go\<close>, \<open>copyFolder\<close> and all it calls): chunks of the copy
  list are dealt to fetchers, a fetched message waits in a queue, and append workers deliver it. What a server, the
  rate allowance, the memory budget and the context answer is an argument of each operation; the operations return
  the new state and the calls they made, in order. \<open>copy_step\<close> interleaves any number of workers, one message
  at a time.

  A write to the database that must not be abandoned (\<open>record\<close>) is one that happens; a failure of the database
  itself is not modelled, except that a row an UPDATE names has to be there.
\<close>

section \<open>Looking for a message on the destination\<close>

definition searchable :: "identity \<Rightarrow> bool \<Rightarrow> bool" where
  "searchable i stamped = (if weak i then False else search_terms i stamped \<noteq> None)"

text \<open>\<open>find\<close> answers SEARCH for a header field and its value.\<close>

definition locate :: "(string \<times> string \<Rightarrow> go_error + nat list) \<Rightarrow> identity \<Rightarrow> bool \<Rightarrow> nat" where
  "locate search_for i stamped =
     (if \<not> searchable i stamped then 0
      else
        (case search_for (the (search_terms i stamped)) of
           Inl e \<Rightarrow> 0
         | Inr us \<Rightarrow> if us = [] then 0 else fold max us 0))"

definition locate_on_dest ::
  "go_error option \<Rightarrow> (string \<times> string \<Rightarrow> go_error + nat list) \<Rightarrow> identity \<Rightarrow> bool \<Rightarrow> go_error + nat" where
  "locate_on_dest acquired search_for i stamped =
     (if \<not> searchable i stamped then Inr 0
      else (case acquired of Some e \<Rightarrow> Inl (WrapErr [e]) | None \<Rightarrow> Inr (locate search_for i stamped)))"

section \<open>Calls\<close>

text \<open>What the operations do to the journal, the budget and the destination, in order.\<close>

datatype call =
    Began nat | Completed nat nat | GaveUp nat | Vanished nat
  | Charged nat int | Refunded nat int
  | Appended nat | Looked nat

section \<open>Reading a chunk's headers\<close>

definition note_trouble :: "go_error \<Rightarrow> live \<Rightarrow> live" where
  "note_trouble e l = l\<lparr>l_health := trouble e (l_health l)\<rparr>"

definition check_numbering :: "nat \<Rightarrow> prepared \<Rightarrow> go_error option" where
  "check_numbering validity p =
     (if validity = box_validity (p_src p) then None else Some (WrapErr [Sentinel ErrRenumbered]))"

text \<open>A lease of the source: an error, or the UIDVALIDITY it was given under.\<close>

definition meta_once :: "prepared \<Rightarrow> go_error + nat \<Rightarrow> go_error + msg_meta list \<Rightarrow> go_error + msg_meta list" where
  "meta_once p leased metas =
     bind_err (wrap_err leased) (\<lambda>validity.
       case check_numbering validity p of Some e \<Rightarrow> Inl e | None \<Rightarrow> wrap_err metas)"

record chunk_says =
  ch_lease :: "nat \<Rightarrow> go_error + nat"
  ch_metas :: "nat \<Rightarrow> go_error + msg_meta list"
  ch_pause :: "nat \<Rightarrow> go_error option"

function chunk_meta_from :: "sync_opts \<Rightarrow> prepared \<Rightarrow> chunk_says \<Rightarrow> nat \<Rightarrow> live \<Rightarrow> (go_error + msg_meta list) \<times> live" where
  "chunk_meta_from opts p says n l =
     (case meta_once p (ch_lease says n) (ch_metas says n) of
        Inr metas \<Rightarrow> (Inr metas, l)
      | Inl e \<Rightarrow>
          if err_is e ErrRenumbered then (Inl e, l)
          else
            (let k = classify (Some e); l = note_trouble e l in
             if k \<noteq> Again \<and> k \<noteq> Slower then (Inl e, l)
             else if int n + 1 \<ge> attempts (retry_policy opts) then (Inl e, l)
             else (case ch_pause says n of
                     Some e \<Rightarrow> (Inl e, l)
                   | None \<Rightarrow> chunk_meta_from opts p says (n + 1) l)))"
  by pat_completeness auto
termination chunk_meta_from
  by (relation "measure (\<lambda>(opts, p, says, n, l). nat (attempts (retry_policy opts) - int n))") auto

declare chunk_meta_from.simps [simp del]

definition chunk_meta :: "sync_opts \<Rightarrow> prepared \<Rightarrow> chunk_says \<Rightarrow> live \<Rightarrow> (go_error + msg_meta list) \<times> live" where
  "chunk_meta opts p says l = chunk_meta_from opts p says 0 l"

text \<open>\<open>markGone\<close>: the UIDs of a chunk the server had no message for.\<close>

definition missing :: "nat list \<Rightarrow> msg_meta list \<Rightarrow> nat list" where
  "missing chunk metas = filter (\<lambda>u. \<not> List.member (map meta_uid metas) u) chunk"

definition mark_missing :: "prepared \<Rightarrow> nat list \<Rightarrow> msg_meta list \<Rightarrow> live \<Rightarrow> db \<Rightarrow> call list \<times> live \<times> db" where
  "mark_missing p chunk metas l d =
     (if length metas = length chunk then ([], l, d)
      else
        (let us = missing chunk metas in
         (map Vanished us,
          if length us > 0 then note_vanished (int (length us)) l else l,
          fold (mark_gone (p_folder p) (box_validity (p_src p))) us d)))"

section \<open>Fetching one message\<close>

record pending =
  q_uid :: nat
  q_identity :: identity
  q_stamped :: bool
  q_flags :: "string list"
  q_date :: go_time
  q_body :: string
  q_charge :: int

text \<open>What the allowance, the budget, the source and - while the queue was full - the context answered.\<close>

record fetch_says =
  ft_throttle :: "go_error option"
  ft_budget :: "go_error option"
  ft_body :: "go_error + string"
  ft_ended :: "go_error option"

datatype fetched = Queued pending | Settled | Broke go_error

definition fetch_row :: "prepared \<Rightarrow> msg_meta \<Rightarrow> identity \<Rightarrow> msg_row" where
  "fetch_row p m i =
     \<lparr>m_key = (p_folder p, box_validity (p_src p), meta_uid m), m_dst_validity = 0, m_dst_uid = 0,
      ident_hash = digest i, stamp_id = (if needs_stamp i then stamp_value i else []), m_state = InFlight,
      m_size = meta_size m, m_flags = flag_text (copyable_flags (meta_flags m)), m_date = meta_date m,
      last_error = []\<rparr>"

definition body_to_append :: "identity \<Rightarrow> string \<Rightarrow> string \<Rightarrow> string" where
  "body_to_append i stamp_text body =
     (if stamp_text \<noteq> [] \<and> \<not> already_stamped i then stamp_bytes stamp_text else []) @ body"

text \<open>After the charge: the message is read, and queued unless it repeats one already read.\<close>

definition fetch_body ::
  "(string \<Rightarrow> string) \<Rightarrow> sync_opts \<Rightarrow> prepared \<Rightarrow> fetch_says \<Rightarrow> msg_meta \<Rightarrow> identity \<Rightarrow> live \<Rightarrow> db
     \<Rightarrow> fetched \<times> call list \<times> live \<times> db" where
  "fetch_body sha opts p says m i l d =
     (let u = meta_uid m; n = meta_size m; stamp_text = stamp_id (fetch_row p m i) in
      case ft_body says of
        Inl e \<Rightarrow>
          if err_is e ErrMessageGone
          then (Settled, [Charged u n, Refunded u n, Vanished u], note_vanished 1 l,
                mark_gone (p_folder p) (box_validity (p_src p)) u d)
          else (Broke (WrapErr [e]), [Charged u n, Refunded u n], l, d)
      | Inr b \<Rightarrow>
          (let body = body_to_append i stamp_text b;
               (first, l) = (if sync_duplicates opts then (None, l) else first_copy_of (sha body) u l)
           in case first of
                Some survivor \<Rightarrow> (Settled, [Charged u n, Refunded u n], duplicate u survivor l, d)
              | None \<Rightarrow>
                  (case ft_ended says of
                     Some e \<Rightarrow> (Broke e, [Charged u n, Refunded u n], l, d)
                   | None \<Rightarrow>
                       (Queued \<lparr>q_uid = u, q_identity = i, q_stamped = (stamp_text \<noteq> []),
                                q_flags = copyable_flags (meta_flags m), q_date = meta_date m, q_body = body, q_charge = n\<rparr>,
                        [Charged u n], l, d))))"

definition fetch_one ::
  "(string \<Rightarrow> string) \<Rightarrow> sync_opts \<Rightarrow> prepared \<Rightarrow> fetch_says \<Rightarrow> msg_meta \<Rightarrow> live \<Rightarrow> db \<Rightarrow> fetched \<times> call list \<times> live \<times> db" where
  "fetch_one sha opts p says m l d =
     (let i = parse_ident sha (meta_header m);
          l = (if headerless m then note_source_headerless l else l);
          d = begin_append (fetch_row p m i) d;
          (held, l) = adopt_uid i l;
          u = meta_uid m
      in case held of
           Some t \<Rightarrow>
             (case complete_append (p_folder p) (box_validity (p_src p)) u (box_validity (p_dst p)) t d of
                Inl e \<Rightarrow> (Broke (WrapErr [db_failure e]), [Began u], l, d)
              | Inr d \<Rightarrow> (Settled, [Began u, Completed u t], note_adopted 1 l, d))
         | None \<Rightarrow>
             (case ft_throttle says of
                Some e \<Rightarrow> (Broke e, [Began u], l, d)
              | None \<Rightarrow>
                  (case ft_budget says of
                     Some e \<Rightarrow> (Broke e, [Began u], l, d)
                   | None \<Rightarrow>
                       (let (r, calls, l, d) = fetch_body sha opts p says m i l d in (r, Began u # calls, l, d)))))"

section \<open>Delivering one message\<close>

record deliver_says =
  dl_lease :: "nat \<Rightarrow> go_error option"
  dl_append :: "nat \<Rightarrow> go_error + nat \<times> nat"
  dl_search_lease :: "nat \<Rightarrow> go_error option"
  dl_search :: "nat \<Rightarrow> string \<times> string \<Rightarrow> go_error + nat list"
  dl_pause :: "nat \<Rightarrow> go_error option"

definition assigned :: "nat \<times> nat \<Rightarrow> bool" where
  "assigned r \<longleftrightarrow> snd r \<noteq> 0 \<and> fst r \<noteq> 0"

definition append_one :: "deliver_says \<Rightarrow> nat \<Rightarrow> go_error + nat \<times> nat" where
  "append_one says n =
     (case dl_lease says n of
        Some e \<Rightarrow> Inl (WrapErr [e])
      | None \<Rightarrow>
          (case dl_append says n of
             Inl e \<Rightarrow> Inl (if err_is e ErrConnectionBroken then WrapErr [e] else e)
           | Inr r \<Rightarrow> Inr r))"

definition append_call :: "deliver_says \<Rightarrow> nat \<Rightarrow> nat \<Rightarrow> call list" where
  "append_call says n u = (if dl_lease says n = None then [Appended u] else [])"

definition look_call :: "deliver_says \<Rightarrow> nat \<Rightarrow> pending \<Rightarrow> call list" where
  "look_call says n it =
     (if searchable (q_identity it) (q_stamped it) \<and> dl_search_lease says n = None then [Looked (q_uid it)] else [])"

text \<open>\<open>fail\<close> and \<open>record\<close>.\<close>

definition fail_message ::
  "(go_error \<Rightarrow> string) \<Rightarrow> prepared \<Rightarrow> nat \<Rightarrow> go_error \<Rightarrow> live \<Rightarrow> db \<Rightarrow> go_error option \<times> call list \<times> live \<times> db" where
  "fail_message message p u e l d =
     (case fail_append (p_folder p) (box_validity (p_src p)) u (message e) d of
        Inl x \<Rightarrow> (Some (WrapErr [db_failure x]), [], l, d)
      | Inr d \<Rightarrow> (None, [GaveUp u], note_failed u (message e) l, d))"

definition record_copy ::
  "prepared \<Rightarrow> pending \<Rightarrow> nat \<Rightarrow> nat \<Rightarrow> live \<Rightarrow> db \<Rightarrow> go_error option \<times> call list \<times> live \<times> db" where
  "record_copy p it validity t l d =
     (case complete_append (p_folder p) (box_validity (p_src p)) (q_uid it) validity t d of
        Inl x \<Rightarrow> (Some (WrapErr [db_failure x]), [], l, d)
      | Inr d \<Rightarrow> (None, [Completed (q_uid it) t], note_copied l, d))"

definition settle_append ::
  "prepared \<Rightarrow> pending \<Rightarrow> deliver_says \<Rightarrow> nat \<Rightarrow> nat \<times> nat \<Rightarrow> live \<Rightarrow> db \<Rightarrow> go_error option \<times> call list \<times> live \<times> db" where
  "settle_append p it says n r l d =
     (if assigned r then record_copy p it (fst r) (snd r) l d
      else
        (case locate_on_dest (dl_search_lease says n) (dl_search says n) (q_identity it) (q_stamped it) of
           Inl e \<Rightarrow> (Some e, look_call says n it, l, d)
         | Inr t \<Rightarrow>
             (let (e, calls, l, d) = record_copy p it (box_validity (p_dst p)) t l d
              in (e, look_call says n it @ calls, l, d))))"

function deliver_from ::
  "(go_error \<Rightarrow> string) \<Rightarrow> sync_opts \<Rightarrow> prepared \<Rightarrow> deliver_says \<Rightarrow> pending \<Rightarrow> nat \<Rightarrow> live \<Rightarrow> db
     \<Rightarrow> go_error option \<times> call list \<times> live \<times> db" where
  "deliver_from message opts p says it n l d =
     (case append_one says n of
        Inr r \<Rightarrow>
          (let (e, calls, l, d) = settle_append p it says n r l d
           in (e, append_call says n (q_uid it) @ calls, l, d))
      | Inl e \<Rightarrow>
          (let k = classify (Some e); l = note_trouble e l; tried = append_call says n (q_uid it) in
           if k = Stop then (Some e, tried, l, d)
           else if k = Skip \<or> int n + 1 \<ge> attempts (retry_policy opts)
             then (let (e, calls, l, d) = fail_message message p (q_uid it) e l d in (e, tried @ calls, l, d))
           else
             (case locate_on_dest (dl_search_lease says n) (dl_search says n) (q_identity it) (q_stamped it) of
                Inl e \<Rightarrow> (Some e, tried @ look_call says n it, l, d)
              | Inr t \<Rightarrow>
                  if t \<noteq> 0
                  then (let (e, calls, l, d) = record_copy p it (box_validity (p_dst p)) t l d
                        in (e, tried @ look_call says n it @ calls, l, d))
                  else
                    (case dl_pause says n of
                       Some e \<Rightarrow> (Some e, tried @ look_call says n it, l, d)
                     | None \<Rightarrow>
                         (let (e, calls, l, d) = deliver_from message opts p says it (n + 1) l d
                          in (e, tried @ look_call says n it @ calls, l, d))))))"
  by pat_completeness auto
termination deliver_from
  by (relation "measure (\<lambda>(message, opts, p, says, it, n, l, d). nat (attempts (retry_policy opts) - int n))") auto

declare deliver_from.simps [simp del]

definition deliver ::
  "(go_error \<Rightarrow> string) \<Rightarrow> sync_opts \<Rightarrow> prepared \<Rightarrow> deliver_says \<Rightarrow> pending \<Rightarrow> live \<Rightarrow> db
     \<Rightarrow> go_error option \<times> call list \<times> live \<times> db" where
  "deliver message opts p says it l d = deliver_from message opts p says it 0 l d"


section \<open>The folder's workers\<close>

text \<open>A fetcher: what is left of its chunk, the attempts at the message in front, and whether the present
  connection has finished a message (\<open>n > 0\<close> of \<open>fetchRun\<close>).\<close>

record fetcher =
  w_left :: "msg_meta list"
  w_attempt :: int
  w_moved :: bool

datatype after_break = Abandon | Resume kind int | Drop

text \<open>What \<open>fetchChunk\<close> does about an error of \<open>fetchRun\<close>.\<close>

definition on_break :: "sync_opts \<Rightarrow> go_error \<Rightarrow> fetcher \<Rightarrow> live \<Rightarrow> after_break \<times> live" where
  "on_break opts e w l =
     (let attempt = (if w_moved w then 0 else w_attempt w) in
      if err_is e ErrRenumbered \<or> w_left w = [] then (Abandon, l)
      else
        (let k = classify (Some e); l = note_trouble e l; attempt = attempt + 1 in
         if k = Stop then (Abandon, l)
         else if (k = Again \<or> k = Slower) \<and> attempt < attempts (retry_policy opts) then (Resume k attempt, l)
         else (Drop, l)))"

record copying =
  c_chunks :: "nat list list"
  c_workers :: "fetcher list"
  c_queue :: "pending list"
  c_live :: live
  c_db :: db
  c_calls :: "call list"
  c_over :: "go_error option"

definition copy_chunk :: nat where
  "copy_chunk = 50"

definition start_copy :: "prepared \<Rightarrow> live \<Rightarrow> db \<Rightarrow> copying" where
  "start_copy p l d =
     \<lparr>c_chunks = batches copy_chunk (p_todo p), c_workers = [], c_queue = [], c_live = l, c_db = d, c_calls = [],
      c_over = None\<rparr>"

text \<open>The first error is the one that counts.\<close>

definition first_error :: "go_error option \<Rightarrow> go_error option \<Rightarrow> go_error option" where
  "first_error a b = (case a of Some e \<Rightarrow> Some e | None \<Rightarrow> b)"

definition new_fetcher :: "msg_meta list \<Rightarrow> fetcher" where
  "new_fetcher metas = \<lparr>w_left = metas, w_attempt = 0, w_moved = False\<rparr>"

text \<open>A chunk is dealt to a free fetcher, which reads its headers, marks what is gone and drops what the filter
  leaves out. The result: the fetcher, or the error that ends it.\<close>

definition open_chunk ::
  "(string \<Rightarrow> go_time option) \<Rightarrow> sync_opts \<Rightarrow> go_time \<Rightarrow> prepared \<Rightarrow> chunk_says \<Rightarrow> nat list \<Rightarrow> live \<Rightarrow> db
     \<Rightarrow> (go_error + fetcher) \<times> call list \<times> live \<times> db" where
  "open_chunk mail_date opts started p says chunk l d =
     (case chunk_meta opts p says l of
        (Inl e, l) \<Rightarrow> (Inl e, [], l, d)
      | (Inr metas, l) \<Rightarrow>
          (let (calls, l, d) = mark_missing p chunk metas l d;
               (kept, l) = selected mail_date (o_filter opts) started metas l
           in (Inr (new_fetcher kept), calls, l, d)))"

text \<open>A fetcher's connection broke with \<open>e\<close>: what it does next, given what the pause answers.\<close>

definition break_fetcher ::
  "(go_error \<Rightarrow> string) \<Rightarrow> sync_opts \<Rightarrow> prepared \<Rightarrow> go_error \<Rightarrow> go_error option \<Rightarrow> fetcher \<Rightarrow> live \<Rightarrow> db
     \<Rightarrow> go_error option \<times> fetcher \<times> call list \<times> live \<times> db" where
  "break_fetcher message opts p e paused w l d =
     (case on_break opts e w l of
        (Abandon, l) \<Rightarrow> (Some e, w, [], l, d)
      | (Resume k attempt, l) \<Rightarrow> (paused, w\<lparr>w_attempt := attempt, w_moved := False\<rparr>, [], l, d)
      | (Drop, l) \<Rightarrow>
          (let (x, calls, l, d) = fail_message message p (meta_uid (hd (w_left w))) e l d
           in (x, \<lparr>w_left = tl (w_left w), w_attempt = 0, w_moved = False\<rparr>, calls, l, d)))"

text \<open>One message of one worker. A fetcher that meets an error of its own leaves the folder while the others
  carry on; so does an append worker. Once there is an error the chunks left
  are not dealt any more, and the queue is drained and its charges refunded.\<close>

inductive copy_step ::
  "(string \<Rightarrow> string) \<Rightarrow> (string \<Rightarrow> go_time option) \<Rightarrow> (go_error \<Rightarrow> string) \<Rightarrow> sync_opts \<Rightarrow> go_time \<Rightarrow> prepared
     \<Rightarrow> copying \<Rightarrow> copying \<Rightarrow> bool"
  for sha mail_date message opts started p where
  deal: "copy_step sha mail_date message opts started p s
     (s\<lparr>c_chunks := cs, c_workers := w # c_workers s, c_live := l, c_db := d, c_calls := c_calls s @ calls\<rparr>)"
  if "c_chunks s = chunk # cs"
    and "open_chunk mail_date opts started p says chunk (c_live s) (c_db s) = (Inr w, calls, l, d)"
    and "\<forall>n metas. ch_metas says n = Inr metas \<longrightarrow>
           distinct (map meta_uid metas) \<and> set (map meta_uid metas) \<subseteq> set chunk"
| unread: "copy_step sha mail_date message opts started p s
     (s\<lparr>c_chunks := cs, c_live := l, c_over := first_error (c_over s) (Some e)\<rparr>)"
  if "c_chunks s = chunk # cs"
    and "open_chunk mail_date opts started p says chunk (c_live s) (c_db s) = (Inl e, calls, l, d)"
| fetch: "copy_step sha mail_date message opts started p s
     (s\<lparr>c_workers := ws @ w\<lparr>w_left := ms, w_moved := True\<rparr> # ws', c_queue := c_queue s @ (case r of Queued it \<Rightarrow> [it] | _ \<Rightarrow> []),
        c_live := l, c_db := d, c_calls := c_calls s @ calls\<rparr>)"
  if "c_workers s = ws @ w # ws'" and "w_left w = m # ms"
    and "fetch_one sha opts p says m (c_live s) (c_db s) = (r, calls, l, d)" and "\<forall>e. r \<noteq> Broke e"
| broke: "copy_step sha mail_date message opts started p s
     (s\<lparr>c_workers := (case x of None \<Rightarrow> ws @ w' # ws' | Some e \<Rightarrow> ws @ ws'), c_live := l', c_db := d',
        c_calls := c_calls s @ calls @ calls', c_over := first_error (c_over s) x\<rparr>)"
  if "c_workers s = ws @ w # ws'" and "w_left w = m # ms"
    and "fetch_one sha opts p says m (c_live s) (c_db s) = (Broke e, calls, l, d)"
    and "break_fetcher message opts p e paused w l d = (x, w', calls', l', d')"
| unleased: "copy_step sha mail_date message opts started p s
     (s\<lparr>c_workers := (case x of None \<Rightarrow> ws @ w' # ws' | Some e \<Rightarrow> ws @ ws'), c_live := l', c_db := d',
        c_calls := c_calls s @ calls', c_over := first_error (c_over s) x\<rparr>)"
  if "c_workers s = ws @ w # ws'" and "w_left w \<noteq> []" and "\<not> w_moved w"
    and "bind_err (wrap_err leased) (\<lambda>v. case check_numbering v p of Some e \<Rightarrow> Inl e | None \<Rightarrow> Inr ()) = Inl e"
    and "break_fetcher message opts p e paused w (c_live s) (c_db s) = (x, w', calls', l', d')"
| finish: "copy_step sha mail_date message opts started p s (s\<lparr>c_workers := ws @ ws'\<rparr>)"
  if "c_workers s = ws @ w # ws'" and "w_left w = []"
| append: "copy_step sha mail_date message opts started p s
     (s\<lparr>c_queue := q, c_live := l, c_db := d, c_calls := c_calls s @ calls @ [Refunded (q_uid it) (q_charge it)],
        c_over := first_error (c_over s) x\<rparr>)"
  if "c_queue s = it # q" and "deliver message opts p says it (c_live s) (c_db s) = (x, calls, l, d)"
| drain: "copy_step sha mail_date message opts started p s
     (s\<lparr>c_queue := q, c_calls := c_calls s @ [Refunded (q_uid it) (q_charge it)]\<rparr>)"
  if "c_queue s = it # q" and "c_over s \<noteq> None"
| undealt: "copy_step sha mail_date message opts started p s (s\<lparr>c_chunks := []\<rparr>)"
  if "c_chunks s \<noteq> []" and "c_over s \<noteq> None"

inductive_cases copy_stepE: "copy_step sha mail_date message opts started p s t"

section \<open>Lemmas: what each operation leaves behind\<close>

lemma status_begin: "status_of (begin_append m d) k = (if k = m_key m then Some InFlight else status_of d k)"
  by (simp add: status_of_def row_at_begin)

lemma status_complete:
  "complete_append f s u v t d = Inr d' \<Longrightarrow> status_of d' k = (if k = (f, s, u) then Some Done else status_of d k)"
  using row_at_update(1) [of "(f, s, u)" _ d d' k] row_at_update(2) [of "(f, s, u)" _ d d'] by (fastforce simp: complete_append_def status_of_def)

lemma status_fail:
  "fail_append f s u why d = Inr d' \<Longrightarrow> status_of d' k = (if k = (f, s, u) then Some Failed else status_of d k)"
  using row_at_update(1) [of "(f, s, u)" _ d d' k] row_at_update(2) [of "(f, s, u)" _ d d'] by (fastforce simp: fail_append_def status_of_def)

lemma status_gone: "status_of (mark_gone f s u d) k = (if k = (f, s, u) then Some Gone else status_of d k)"
  by (auto simp: status_of_def row_at_def mark_gone_def find_upsert split: option.splits)

lemma status_gone_all:
  "status_of (fold (mark_gone f s) us d) k = (if \<exists>u \<in> set us. k = (f, s, u) then Some Gone else status_of d k)"
  by (induction us arbitrary: d) (auto simp: status_gone)

definition state_key :: "prepared \<Rightarrow> nat \<Rightarrow> msg_key" where
  "state_key p u = (p_folder p, box_validity (p_src p), u)"

lemma state_key_inj [simp]: "state_key p u = state_key p v \<longleftrightarrow> u = v"
  by (simp add: state_key_def)

abbreviation failures_noted :: "live \<Rightarrow> int" where "failures_noted l \<equiv> r_failed (l_report l)"

text \<open>A message is resolved when its row is final - failed only if the report says so - or when it waits for the
  copy that stands for it.\<close>

definition resolved :: "prepared \<Rightarrow> live \<Rightarrow> db \<Rightarrow> nat \<Rightarrow> bool" where
  "resolved p l d u \<longleftrightarrow> status_of d (state_key p u) \<in> {Some Done, Some Gone} \<or>
     status_of d (state_key p u) = Some Failed \<and> 0 < failures_noted l \<or>
     status_of d (state_key p u) = Some InFlight \<and> u \<in> fst ` set (l_dupes l)"

definition tally :: "live \<Rightarrow> int" where
  "tally l = r_copied (l_report l) + r_adopted (l_report l) + r_vanished (l_report l) + r_failed (l_report l)
     + r_filtered (l_report l) + int (length (l_dupes l))"

abbreviation left_out :: "live \<Rightarrow> int" where "left_out l \<equiv> r_filtered (l_report l)"

text \<open>What an operation on one message may do: count \<open>n\<close> messages, write no row but that message's, forget no repeat.\<close>

definition touches :: "prepared \<Rightarrow> nat set \<Rightarrow> int \<Rightarrow> live \<Rightarrow> db \<Rightarrow> live \<Rightarrow> db \<Rightarrow> bool" where
  "touches p us n l d l' d' \<longleftrightarrow> tally l' = tally l + n \<and> left_out l' = left_out l \<and>
     failures_noted l \<le> failures_noted l' \<and> set (l_dupes l) \<subseteq> set (l_dupes l') \<and>
     (\<forall>v. v \<notin> us \<longrightarrow> status_of d' (state_key p v) = status_of d (state_key p v))"

lemma touches_resolved: "touches p us n l d l' d' \<Longrightarrow> v \<notin> us \<Longrightarrow> resolved p l d v \<Longrightarrow> resolved p l' d' v"
  by (auto simp: touches_def resolved_def)

lemma touches_trans: "touches p us m l d l' d' \<Longrightarrow> touches p us n l' d' l'' d'' \<Longrightarrow> touches p us (m + n) l d l'' d''"
  by (auto simp: touches_def)

lemmas live_ops = on_report_def note_source_headerless_def note_adopted_def note_vanished_def note_copied_def
  note_failed_def note_filtered_def note_trouble_def duplicate_def adopt_uid_def first_copy_of_def

lemma fetch_body_effect:
  assumes "fetch_body sha opts p says m i l d = (r, calls, l', d')"
    and "status_of d (state_key p (meta_uid m)) = Some InFlight"
  shows "touches p {meta_uid m} (if r = Settled then 1 else 0) l d l' d'"
    and "r = Settled \<Longrightarrow> resolved p l' d' (meta_uid m)"
    and "r = Queued it \<Longrightarrow> q_uid it = meta_uid m \<and> status_of d' (state_key p (meta_uid m)) = Some InFlight"
proof -
  have "touches p {meta_uid m} (if r = Settled then 1 else 0) l d l' d' \<and> (r = Settled \<longrightarrow> resolved p l' d' (meta_uid m)) \<and>
      (r = Queued it \<longrightarrow> q_uid it = meta_uid m \<and> status_of d' (state_key p (meta_uid m)) = Some InFlight)"
  proof (cases "ft_body says")
    case (Inl e)
    with assms show ?thesis
      by (auto simp: fetch_body_def Let_def touches_def tally_def live_ops resolved_def status_gone state_key_def split: if_splits)
  next
    case (Inr b)
    with assms show ?thesis
      by (cases "l_bodies l (sha (body_to_append i (stamp_id (fetch_row p m i)) b))"; cases "ft_ended says")
        (auto simp: fetch_body_def Let_def touches_def tally_def live_ops resolved_def split: if_splits)
  qed
  then show "touches p {meta_uid m} (if r = Settled then 1 else 0) l d l' d'"
    and "r = Settled \<Longrightarrow> resolved p l' d' (meta_uid m)"
    and "r = Queued it \<Longrightarrow> q_uid it = meta_uid m \<and> status_of d' (state_key p (meta_uid m)) = Some InFlight" by blast+
qed


lemma touches_refl: "touches p us 0 l d l d"
  by (simp add: touches_def)

lemma touches_live: "tally l' = tally l + n \<Longrightarrow> left_out l' = left_out l \<Longrightarrow> failures_noted l \<le> failures_noted l' \<Longrightarrow> l_dupes l' = l_dupes l \<Longrightarrow> touches p us n l d l' d"
  by (simp add: touches_def)

lemma fetch_one_effect:
  assumes "fetch_one sha opts p says m l d = (r, calls, l', d')"
  shows "touches p {meta_uid m} (if r = Settled then 1 else 0) l d l' d'"
    and "r = Settled \<Longrightarrow> resolved p l' d' (meta_uid m)"
    and "r = Queued it \<Longrightarrow> q_uid it = meta_uid m \<and> status_of d' (state_key p (meta_uid m)) = Some InFlight"
proof -
  let ?i = "parse_ident sha (meta_header m)" and ?u = "meta_uid m"
  define l1 where "l1 = (if headerless m then note_source_headerless l else l)"
  define d1 where "d1 = begin_append (fetch_row p m ?i) d"
  obtain held l2 where a: "adopt_uid ?i l1 = (held, l2)" by fastforce
  have k: "m_key (fetch_row p m ?i) = state_key p ?u" by (simp add: fetch_row_def state_key_def)
  have s1: "status_of d1 (state_key p ?u) = Some InFlight" by (simp add: d1_def status_begin k)
  have "l_report l2 = l_report l1" "l_dupes l2 = l_dupes l1"
    using a by (auto simp: adopt_uid_def Let_def split: prod.splits)
  then have t: "touches p {?u} 0 l d l2 d1"
    by (auto simp: touches_def tally_def l1_def live_ops d1_def status_begin k Let_def)
  have "touches p {?u} (if r = Settled then 1 else 0) l d l' d' \<and> (r = Settled \<longrightarrow> resolved p l' d' ?u) \<and>
      (r = Queued it \<longrightarrow> q_uid it = ?u \<and> status_of d' (state_key p ?u) = Some InFlight)"
  proof (cases held)
    case (Some t)
    show ?thesis
    proof (cases "complete_append (p_folder p) (box_validity (p_src p)) ?u (box_validity (p_dst p)) t d1")
      case (Inl e)
      with assms a Some t show ?thesis by (auto simp: fetch_one_def Let_def l1_def d1_def)
    next
      case (Inr d2)
      with assms a Some have r: "r = Settled" "l' = note_adopted 1 l2" "d' = d2"
        by (auto simp: fetch_one_def Let_def l1_def d1_def)
      have "touches p {?u} 1 l2 d1 l' d'"
        using status_complete [OF Inr] r by (auto simp: touches_def tally_def live_ops state_key_def)
      with touches_trans [OF t this] r show ?thesis
        using status_complete [OF Inr] by (auto simp: resolved_def state_key_def)
    qed
  next
    case None
    show ?thesis
    proof (cases "ft_throttle says = None \<and> ft_budget says = None")
      case True
      obtain calls' where b: "fetch_body sha opts p says m ?i l2 d1 = (r, calls', l', d')"
        using assms a None True by (auto simp: fetch_one_def Let_def l1_def d1_def split: prod.splits)
      from fetch_body_effect [OF b s1] touches_trans [OF t] show ?thesis by fastforce
    next
      case False
      with assms a None t show ?thesis
        by (auto simp: fetch_one_def Let_def l1_def d1_def split: option.splits)
    qed
  qed
  then show "touches p {?u} (if r = Settled then 1 else 0) l d l' d'" and "r = Settled \<Longrightarrow> resolved p l' d' ?u"
    and "r = Queued it \<Longrightarrow> q_uid it = ?u \<and> status_of d' (state_key p ?u) = Some InFlight" by blast+
qed

lemma touches_trouble: "touches p us 0 l d (note_trouble e l) d"
  by (rule touches_live) (simp_all add: note_trouble_def tally_def)

lemma fail_effect:
  assumes "fail_message message p u e l d = (x, calls, l', d')" and "0 \<le> failures_noted l"
  shows "touches p {u} (if x = None then 1 else 0) l d l' d'" and "x = None \<Longrightarrow> resolved p l' d' u"
proof -
  have "touches p {u} (if x = None then 1 else 0) l d l' d' \<and> (x = None \<longrightarrow> resolved p l' d' u)"
  proof (cases "fail_append (p_folder p) (box_validity (p_src p)) u (message e) d")
    case (Inr d1)
    with assms status_fail [OF Inr] show ?thesis
      by (auto simp: fail_message_def touches_def tally_def live_ops resolved_def state_key_def Let_def)
  qed (use assms in \<open>auto simp: fail_message_def touches_refl\<close>)
  then show "touches p {u} (if x = None then 1 else 0) l d l' d'" "x = None \<Longrightarrow> resolved p l' d' u" by blast+
qed

lemma record_effect:
  assumes "record_copy p it v t l d = (x, calls, l', d')"
  shows "touches p {q_uid it} (if x = None then 1 else 0) l d l' d'" and "x = None \<Longrightarrow> resolved p l' d' (q_uid it)"
proof -
  have "touches p {q_uid it} (if x = None then 1 else 0) l d l' d' \<and> (x = None \<longrightarrow> resolved p l' d' (q_uid it))"
  proof (cases "complete_append (p_folder p) (box_validity (p_src p)) (q_uid it) v t d")
    case (Inr d1)
    with assms status_complete [OF Inr] show ?thesis
      by (auto simp: record_copy_def touches_def tally_def live_ops resolved_def state_key_def Let_def)
  qed (use assms in \<open>auto simp: record_copy_def touches_refl\<close>)
  then show "touches p {q_uid it} (if x = None then 1 else 0) l d l' d'" "x = None \<Longrightarrow> resolved p l' d' (q_uid it)" by blast+
qed

lemma settle_effect:
  assumes "settle_append p it says n r l d = (x, calls, l', d')"
  shows "touches p {q_uid it} (if x = None then 1 else 0) l d l' d'" and "x = None \<Longrightarrow> resolved p l' d' (q_uid it)"
  using assms record_effect [of p it] by (fastforce simp: settle_append_def touches_refl split: if_splits sum.splits prod.splits)+

text \<open>The ways one attempt at a delivery can go.\<close>

lemma deliver_from_cases:
  assumes "deliver_from message opts p says it n l d = (x, calls, l', d')"
  obtains
    (accepted) r calls' where "append_one says n = Inr r" "settle_append p it says n r l d = (x, calls', l', d')"
      "calls = append_call says n (q_uid it) @ calls'"
  | (given_up) e calls' where "append_one says n = Inl e"
      "fail_message message p (q_uid it) e (note_trouble e l) d = (x, calls', l', d')"
      "calls = append_call says n (q_uid it) @ calls'"
  | (lost) e y where "append_one says n = Inl e" "x = Some y" "l' = note_trouble e l" "d' = d"
      "calls = append_call says n (q_uid it) \<or> calls = append_call says n (q_uid it) @ look_call says n it"
  | (found) e t calls' where "append_one says n = Inl e" "t \<noteq> 0"
      "locate_on_dest (dl_search_lease says n) (dl_search says n) (q_identity it) (q_stamped it) = Inr t"
      "record_copy p it (box_validity (p_dst p)) t (note_trouble e l) d = (x, calls', l', d')"
      "calls = append_call says n (q_uid it) @ look_call says n it @ calls'"
  | (again) e calls' where "append_one says n = Inl e" "int n + 1 < attempts (retry_policy opts)"
      "classify (Some e) = Again \<or> classify (Some e) = Slower"
      "locate_on_dest (dl_search_lease says n) (dl_search says n) (q_identity it) (q_stamped it) = Inr 0"
      "deliver_from message opts p says it (n + 1) (note_trouble e l) d = (x, calls', l', d')"
      "calls = append_call says n (q_uid it) @ look_call says n it @ calls'"
proof (cases "append_one says n")
  case (Inr r)
  with assms accepted show thesis by (subst (asm) deliver_from.simps) (auto split: prod.splits)
next
  case e: (Inl e)
  let ?k = "classify (Some e)" and ?over = "int n + 1 \<ge> attempts (retry_policy opts)"
  note pr = assms [unfolded deliver_from.simps [of message opts p says it n l d] e Let_def sum.case]
  consider "?k = Stop" | "?k \<noteq> Stop" "?k = Skip \<or> ?over" | "?k \<noteq> Stop" "\<not> (?k = Skip \<or> ?over)" by blast
  then show thesis
  proof cases
    case 1
    with pr show thesis by (intro lost [OF e]) auto
  next
    case 2
    with pr given_up e show thesis by (auto split: prod.splits)
  next
    case 3
    then have k: "int n + 1 < attempts (retry_policy opts)" "?k = Again \<or> ?k = Slower" by (cases ?k; simp)+
    show thesis
    proof (cases "locate_on_dest (dl_search_lease says n) (dl_search says n) (q_identity it) (q_stamped it)")
      case (Inl y)
      with pr 3 show thesis by (intro lost [OF e]) auto
    next
      case t: (Inr t)
      consider "t \<noteq> 0" | y where "t = 0" "dl_pause says n = Some y" | "t = 0" "dl_pause says n = None" by fastforce
      then show thesis
      proof cases
        case 1
        with pr 3 t found [OF e 1 t] show thesis by (auto split: prod.splits)
      next
        case 2
        with pr \<open>\<not> (?k = Skip \<or> ?over)\<close> \<open>?k \<noteq> Stop\<close> t show thesis by (intro lost [OF e, of y]) (use 2 in auto)
      next
        case 3
        with pr \<open>\<not> (?k = Skip \<or> ?over)\<close> \<open>?k \<noteq> Stop\<close> t again [OF e k] show thesis by (auto split: prod.splits)
      qed
    qed
  qed
qed

lemma deliver_from_effect:
  "deliver_from message opts p says it n l d = (x, calls, l', d') \<Longrightarrow> 0 \<le> failures_noted l \<Longrightarrow>
     touches p {q_uid it} (if x = None then 1 else 0) l d l' d' \<and> (x = None \<longrightarrow> resolved p l' d' (q_uid it))"
proof (induction "nat (attempts (retry_policy opts) - int n)" arbitrary: n l calls rule: less_induct)
  case less
  note up = touches_trans [OF touches_trouble [of p "{q_uid it}" l d]]
  have f: "0 \<le> failures_noted (note_trouble e l)" for e using less.prems(2) by (simp add: note_trouble_def)
  from less.prems(1) show ?case
  proof (cases rule: deliver_from_cases)
    case accepted
    with settle_effect [OF accepted(2)] show ?thesis by blast
  next
    case given_up
    with fail_effect [OF given_up(2) f] up show ?thesis by fastforce
  next
    case lost
    with touches_trouble show ?thesis by simp
  next
    case found
    with record_effect [OF found(4)] up show ?thesis by fastforce
  next
    case again
    with less.hyps [OF _ again(5) f] up show ?thesis by fastforce
  qed
qed


lemma deliver_effect:
  assumes "deliver message opts p says it l d = (x, calls, l', d')" and "0 \<le> failures_noted l"
  shows "touches p {q_uid it} (if x = None then 1 else 0) l d l' d'" and "x = None \<Longrightarrow> resolved p l' d' (q_uid it)"
  using deliver_from_effect [of message opts p says it 0 l d] assms by (simp_all add: deliver_def)

section \<open>Lemmas: a chunk is opened\<close>

definition as_asked :: "nat list \<Rightarrow> msg_meta list \<Rightarrow> bool" where
  "as_asked chunk metas \<longleftrightarrow> distinct (map meta_uid metas) \<and> set (map meta_uid metas) \<subseteq> set chunk"

lemma chunk_meta_from_effect:
  "chunk_meta_from opts p says n l = (r, l') \<Longrightarrow> touches p us 0 l d l' d \<and>
     (\<forall>metas. r = Inr metas \<longrightarrow> (\<exists>k. ch_metas says k = Inr metas))"
proof (induction "nat (attempts (retry_policy opts) - int n)" arbitrary: n l rule: less_induct)
  case less
  show ?case
  proof (cases "meta_once p (ch_lease says n) (ch_metas says n)")
    case (Inr metas)
    have "r = Inr metas" "l' = l"
      using less.prems unfolding chunk_meta_from.simps [of opts p says n l] Inr by simp_all
    moreover have "ch_metas says n = Inr metas"
      using Inr by (auto simp: meta_once_def bind_err_Inr_iff split: option.splits)
    ultimately show ?thesis by (auto simp: touches_refl)
  next
    case (Inl e)
    note pr = less.prems [unfolded chunk_meta_from.simps [of opts p says n l] Inl Let_def sum.case]
    consider "(r, l') = (Inl e, l)" | "(r, l') = (Inl e, note_trouble e l)"
      | y where "(r, l') = (Inl y, note_trouble e l)"
      | "int n + 1 < attempts (retry_policy opts)" "chunk_meta_from opts p says (n + 1) (note_trouble e l) = (r, l')"
      using pr by (auto split: if_splits option.splits)
    then show ?thesis
    proof cases
      case 4
      then have "nat (attempts (retry_policy opts) - int (n + 1)) < nat (attempts (retry_policy opts) - int n)" by simp
      from less.hyps [OF this 4(2)] touches_trans [OF touches_trouble [of p us l d e]] show ?thesis by fastforce
    qed (use touches_refl touches_trouble in auto)
  qed
qed

lemma mset_missing:
  assumes "as_asked chunk metas" and "distinct chunk"
  shows "mset chunk = mset (map meta_uid metas) + mset (missing chunk metas)"
proof -
  have "distinct (map meta_uid metas @ missing chunk metas)"
    using assms by (auto simp: as_asked_def missing_def)
  moreover have "set (map meta_uid metas @ missing chunk metas) = set chunk"
    using assms(1) by (auto simp: as_asked_def missing_def)
  ultimately have "mset (map meta_uid metas @ missing chunk metas) = mset chunk"
    using assms(2) set_eq_iff_mset_eq_distinct by blast
  then show ?thesis by simp
qed

lemma mark_missing_effect:
  assumes "mark_missing p chunk metas l d = (calls, l', d')" and "as_asked chunk metas" and "distinct chunk"
  shows "touches p (set (missing chunk metas)) (int (length (missing chunk metas))) l d l' d'"
    and "u \<in> set (missing chunk metas) \<Longrightarrow> resolved p l' d' u"
proof -
  have n: "length chunk = length metas + length (missing chunk metas)"
    using arg_cong [OF mset_missing [OF assms(2,3)], of size] by simp
  then have e: "length metas = length chunk \<Longrightarrow> missing chunk metas = []" by simp
  show "touches p (set (missing chunk metas)) (int (length (missing chunk metas))) l d l' d'"
    using assms(1) e by (auto simp: mark_missing_def Let_def touches_def tally_def live_ops status_gone_all state_key_def split: if_splits)
  show "resolved p l' d' u" if "u \<in> set (missing chunk metas)"
    using assms(1) e that by (auto simp: mark_missing_def Let_def resolved_def status_gone_all state_key_def split: if_splits)
qed

lemma selected_effect:
  assumes "selected mail_date f started metas l = (kept, l')"
  shows "\<exists>cut. mset (map meta_uid metas) = mset (map meta_uid kept) + mset cut \<and> tally l' = tally l + int (length cut) \<and>
    left_out l' = left_out l + int (length cut) \<and> l_dupes l' = l_dupes l \<and> failures_noted l' = failures_noted l"
proof (cases "active f")
  case False
  with assms show ?thesis by (auto simp: selected_def)
next
  case True
  let ?c = "\<lambda>m. wants f (meta_size m) (sent_date mail_date (meta_header m)) (meta_date m) started"
  let ?cut = "map meta_uid (filter (\<lambda>m. \<not> ?c m) metas)"
  have k: "kept = filter ?c metas" using assms True by (auto simp: selected_def Let_def)
  have l: "l' = (if length metas - length kept > 0 then note_filtered (int (length metas - length kept)) l else l)"
    using assms True by (auto simp: selected_def Let_def)
  have m: "mset (map meta_uid metas) = mset (map meta_uid kept) + mset ?cut"
    unfolding k mset_map mset_filter by (metis image_mset_union multiset_partition)
  have n: "length metas = length kept + length ?cut" unfolding k by (simp add: sum_length_filter_compl)
  then have "tally l' = tally l + int (length ?cut) \<and> left_out l' = left_out l + int (length ?cut) \<and>
      l_dupes l' = l_dupes l \<and> failures_noted l' = failures_noted l"
    unfolding l by (auto simp: note_filtered_def on_report_def tally_def)
  with m show ?thesis by blast
qed


section \<open>Every message is accounted for\<close>

definition in_work :: "copying \<Rightarrow> nat multiset" where
  "in_work s = mset (concat (c_chunks s)) + mset (map meta_uid (concat (map w_left (c_workers s)))) + mset (map q_uid (c_queue s))"

text \<open>Each message of the copy list is still in work, resolved, left out by the filter or - only once the copy is
  over with an error - abandoned; the report counts the resolved and the filtered ones.\<close>

definition accounted :: "prepared \<Rightarrow> live \<Rightarrow> copying \<Rightarrow> bool" where
  "accounted p l0 s \<longleftrightarrow> 0 \<le> failures_noted (c_live s) \<and> (\<exists>S F L. mset (p_todo p) = in_work s + mset S + mset F + mset L \<and>
     (c_over s = None \<longrightarrow> L = []) \<and> (\<forall>u \<in> set S. resolved p (c_live s) (c_db s) u) \<and>
     tally (c_live s) = tally l0 + int (length S) + int (length F) \<and>
     left_out (c_live s) = left_out l0 + int (length F))"

lemma accounted_move:
  assumes "accounted p l0 s" and "distinct (p_todo p)"
    and move: "in_work s = in_work t + mset S' + mset F' + mset L'"
    and "c_over t = None \<longrightarrow> c_over s = None \<and> L' = []"
    and "\<forall>u \<in> set S'. resolved p (c_live t) (c_db t) u"
    and keep: "\<And>u. u \<notin># in_work s \<Longrightarrow> resolved p (c_live s) (c_db s) u \<Longrightarrow> resolved p (c_live t) (c_db t) u"
    and "tally (c_live t) = tally (c_live s) + int (length S') + int (length F')"
    and "left_out (c_live t) = left_out (c_live s) + int (length F')"
    and "failures_noted (c_live s) \<le> failures_noted (c_live t)"
  shows "accounted p l0 t"
proof -
  from assms(1) obtain S F L where all: "mset (p_todo p) = in_work s + mset S + mset F + mset L"
    and o: "c_over s = None \<longrightarrow> L = []" and S: "\<forall>u \<in> set S. resolved p (c_live s) (c_db s) u"
    and n: "tally (c_live s) = tally l0 + int (length S) + int (length F)" "left_out (c_live s) = left_out l0 + int (length F)"
    unfolding accounted_def by (elim exE conjE)
  have nonneg: "0 \<le> failures_noted (c_live s)" using assms(1) by (simp add: accounted_def)
  have "u \<notin># in_work s" if "u \<in> set S" for u
  proof
    assume "u \<in># in_work s"
    with that have "2 \<le> count (in_work s) u + count (mset S) u"
      by (metis add_mono_thms_linordered_semiring(1) count_greater_eq_one_iff one_add_one set_mset_mset)
    then have "2 \<le> count (mset (p_todo p)) u" unfolding all by simp
    with assms(2) show False by (simp add: distinct_count_atmost_1 split: if_splits)
  qed
  with S keep have "\<forall>u \<in> set (S @ S'). resolved p (c_live t) (c_db t) u" using assms(5) by auto
  then show ?thesis unfolding accounted_def
    using all o n assms(4,7-9) move nonneg
    by (intro conjI exI [of _ "S @ S'"] exI [of _ "F @ F'"] exI [of _ "L @ L'"]) auto
qed

lemma accounted_start:
  "0 \<le> failures_noted l \<Longrightarrow> accounted p l (start_copy p l d)"
  unfolding accounted_def
  by (intro conjI exI [of _ "[]"]) (simp_all add: start_copy_def in_work_def batches_concat copy_chunk_def)


text \<open>An operation on one message that is in work moves it at most.\<close>

lemma accounted_touch:
  assumes "accounted p l0 s" and "distinct (p_todo p)" and "u \<in># in_work s"
    and "touches p {u} n (c_live s) (c_db s) (c_live t) (c_db t)"
    and "in_work s = in_work t + mset S' + mset L'" and "n = int (length S')"
    and "c_over t = None \<longrightarrow> c_over s = None \<and> L' = []"
    and "\<forall>u \<in> set S'. resolved p (c_live t) (c_db t) u"
  shows "accounted p l0 t"
proof (rule accounted_move [OF assms(1,2), where S' = S' and F' = "[]" and L' = L'])
  show "resolved p (c_live s) (c_db s) v \<Longrightarrow> resolved p (c_live t) (c_db t) v" if "v \<notin># in_work s" for v
    using touches_resolved [OF assms(4)] that assms(3) by (metis singletonD)
qed (use assms in \<open>auto simp: touches_def\<close>)

lemma break_effect:
  assumes "break_fetcher message opts p e paused w l d = (x, w', calls, l', d')" and "w_left w = m # ms"
    and "0 \<le> failures_noted l"
  shows "\<exists>S L. touches p {meta_uid m} (int (length S)) l d l' d' \<and> (x = None \<longrightarrow> L = []) \<and>
    (\<forall>u \<in> set S. resolved p l' d' u) \<and>
    mset (map meta_uid (w_left w)) = mset (map meta_uid (case x of None \<Rightarrow> w_left w' | Some _ \<Rightarrow> [])) + mset S + mset L"
proof -
  obtain b l1 where b: "on_break opts e w l = (b, l1)" by fastforce
  then have t: "touches p {meta_uid m} 0 l d l1 d"
    by (auto simp: on_break_def Let_def touches_refl touches_trouble split: if_splits)
  show ?thesis
  proof (cases b)
    case Abandon
    with assms b t show ?thesis
      by (intro exI [of _ "[]"] exI [of _ "map meta_uid (w_left w)"]) (auto simp: break_fetcher_def)
  next
    case (Resume k a)
    with assms b t show ?thesis
      by (intro exI [of _ "[]"] exI [of _ "case x of None \<Rightarrow> [] | Some _ \<Rightarrow> map meta_uid (w_left w)"])
        (auto simp: break_fetcher_def split: option.splits)
  next
    case Drop
    have n: "0 \<le> failures_noted l1" using t assms(3) by (simp add: touches_def)
    from Drop assms b have f: "fail_message message p (meta_uid m) e l1 d = (x, calls, l', d')"
      and w': "w_left w' = ms" by (auto simp: break_fetcher_def split: prod.splits)
    from fail_effect [OF f n] touches_trans [OF t fail_effect(1) [OF f n]] w' assms(2) show ?thesis
      by (intro exI [of _ "if x = None then [meta_uid m] else []"]
          exI [of _ "case x of None \<Rightarrow> [] | Some _ \<Rightarrow> map meta_uid (w_left w)"]) (auto split: option.splits)
  qed
qed

lemma first_error_None [simp]: "first_error a b = None \<longleftrightarrow> a = None \<and> b = None"
  by (simp add: first_error_def split: option.split)

lemma distinct_part:
  assumes "mset xs \<subseteq># mset ys" and "distinct ys"
  shows "distinct xs"
proof -
  have "count (mset xs) a \<le> 1" for a
  proof (cases "a \<in> set ys")
    case True
    with assms(2) have "count (mset ys) a = 1" by (simp add: distinct_count_atmost_1)
    then show ?thesis using mset_subset_eq_count [OF assms(1), of a] by simp
  next
    case False
    then have "count (mset ys) a = 0" using not_in_iff [of a "mset ys"] by simp
    with mset_subset_eq_count [OF assms(1), of a] have "count (mset xs) a \<le> 0" by (simp only:)
    then show ?thesis by linarith
  qed
  then have "count (mset xs) a = (if a \<in> set xs then 1 else 0)" for a
    using count_greater_zero_iff [of "mset xs" a] by (simp add: le_Suc_eq split: if_splits)
  then show ?thesis by (simp add: distinct_count_atmost_1)
qed

lemma accounted_deal:
  assumes "accounted p l0 s" and "distinct (p_todo p)" and "c_chunks s = chunk # cs"
    and o: "open_chunk mail_date opts started p says chunk (c_live s) (c_db s) = (Inr w, calls, l, d)"
    and asked: "\<forall>n metas. ch_metas says n = Inr metas \<longrightarrow> as_asked chunk metas"
  shows "accounted p l0 (s\<lparr>c_chunks := cs, c_workers := w # c_workers s, c_live := l, c_db := d, c_calls := c_calls s @ calls\<rparr>)"
proof -
  from o obtain metas l1 l2 kept where cm: "chunk_meta opts p says (c_live s) = (Inr metas, l1)"
    and mm: "mark_missing p chunk metas l1 (c_db s) = (calls, l2, d)"
    and se: "selected mail_date (o_filter opts) started metas l2 = (kept, l)" and w: "w = new_fetcher kept"
    by (auto simp: open_chunk_def Let_def split: prod.splits sum.splits)
  have c: "mset chunk \<subseteq># in_work s" by (simp add: in_work_def assms(3))
  have "in_work s \<subseteq># mset (p_todo p)" using assms(1) unfolding accounted_def by (auto simp: ac_simps)
  with c have "mset chunk \<subseteq># mset (p_todo p)" by (rule subset_mset.order_trans)
  then have dc: "distinct chunk" using assms(2) by (rule distinct_part)
  have ask: "as_asked chunk metas"
    using chunk_meta_from_effect [of opts p says 0 "c_live s" "Inr metas" l1 "{}" d] cm asked by (auto simp: chunk_meta_def)
  let ?M = "missing chunk metas"
  have t: "touches p (set ?M) (int (length ?M)) (c_live s) (c_db s) l2 d"
    using touches_trans [OF conjunct1 [OF chunk_meta_from_effect] mark_missing_effect(1) [OF mm ask dc]] cm
    by (simp add: chunk_meta_def)
  from selected_effect [OF se] obtain cut where cut: "mset (map meta_uid metas) = mset (map meta_uid kept) + mset cut"
    "tally l = tally l2 + int (length cut)" "left_out l = left_out l2 + int (length cut)" "l_dupes l = l_dupes l2"
    "failures_noted l = failures_noted l2" by blast
  have r: "resolved p l2 d u \<Longrightarrow> resolved p l d u" for u using cut(4,5) by (simp add: resolved_def)
  show ?thesis
  proof (rule accounted_move [OF assms(1,2), where S' = ?M and F' = cut and L' = "[]"])
    show "in_work s = in_work (s\<lparr>c_chunks := cs, c_workers := w # c_workers s, c_live := l, c_db := d,
        c_calls := c_calls s @ calls\<rparr>) + mset ?M + mset cut + mset []"
      using cut(1) mset_missing [OF ask dc] by (simp add: in_work_def assms(3) w new_fetcher_def ac_simps)
    show "\<forall>u \<in> set ?M. resolved p (c_live (s\<lparr>c_chunks := cs, c_workers := w # c_workers s, c_live := l, c_db := d,
        c_calls := c_calls s @ calls\<rparr>)) (c_db (s\<lparr>c_chunks := cs, c_workers := w # c_workers s, c_live := l, c_db := d,
        c_calls := c_calls s @ calls\<rparr>)) u"
      using mark_missing_effect(2) [OF mm ask dc] r by simp
    fix u assume u: "u \<notin># in_work s" "resolved p (c_live s) (c_db s) u"
    then have "u \<notin> set ?M" using c mset_subset_eqD by (fastforce simp: missing_def)
    from r [OF touches_resolved [OF t this u(2)]]
    show "resolved p (c_live (s\<lparr>c_chunks := cs, c_workers := w # c_workers s, c_live := l, c_db := d,
        c_calls := c_calls s @ calls\<rparr>)) (c_db (s\<lparr>c_chunks := cs, c_workers := w # c_workers s, c_live := l, c_db := d,
        c_calls := c_calls s @ calls\<rparr>)) u" by simp
  qed (use t cut in \<open>simp_all add: touches_def\<close>)
qed


lemma accounted_fetch:
  assumes "accounted p l0 s" and "distinct (p_todo p)" and "c_workers s = ws @ w # ws'" and "w_left w = m # ms"
    and f: "fetch_one sha opts p says m (c_live s) (c_db s) = (r, calls, l, d)" and "\<forall>e. r \<noteq> Broke e"
  shows "accounted p l0 (s\<lparr>c_workers := ws @ w\<lparr>w_left := ms, w_moved := True\<rparr> # ws',
     c_queue := c_queue s @ (case r of Queued it \<Rightarrow> [it] | _ \<Rightarrow> []), c_live := l, c_db := d, c_calls := c_calls s @ calls\<rparr>)"
  using fetch_one_effect [OF f] assms(3-6)
  by (intro accounted_touch [OF assms(1,2), where u = "meta_uid m" and L' = "[]" and n = "if r = Settled then 1 else 0"
        and S' = "if r = Settled then [meta_uid m] else []"])
    (auto simp: in_work_def split: fetched.splits)

lemma accounted_broke:
  assumes "accounted p l0 s" and "distinct (p_todo p)" and "c_workers s = ws @ w # ws'" and "w_left w = m # ms"
    and t: "touches p {meta_uid m} 0 (c_live s) (c_db s) l d"
    and b: "break_fetcher message opts p e paused w l d = (x, w', calls', l', d')"
  shows "accounted p l0 (s\<lparr>c_workers := (case x of None \<Rightarrow> ws @ w' # ws' | Some e \<Rightarrow> ws @ ws'), c_live := l', c_db := d',
     c_calls := calls, c_over := first_error (c_over s) x\<rparr>)"
proof -
  have n: "0 \<le> failures_noted l" using assms(1) t by (simp add: accounted_def touches_def)
  from break_effect [OF b assms(4) n] obtain S L where SL: "touches p {meta_uid m} (int (length S)) l d l' d'"
    "x = None \<longrightarrow> L = []" "\<forall>u \<in> set S. resolved p l' d' u"
    "mset (map meta_uid (w_left w)) = mset (map meta_uid (case x of None \<Rightarrow> w_left w' | Some _ \<Rightarrow> [])) + mset S + mset L"
    by blast
  from touches_trans [OF t SL(1)] show ?thesis
    by (intro accounted_touch [OF assms(1,2), where u = "meta_uid m" and S' = S and L' = L and n = "int (length S)"])
      (use SL assms(3,4) in \<open>auto simp: in_work_def split: option.splits\<close>)
qed

lemma accounted_append:
  assumes "accounted p l0 s" and "distinct (p_todo p)" and "c_queue s = it # q"
    and f: "deliver message opts p says it (c_live s) (c_db s) = (x, calls, l, d)"
  shows "accounted p l0 (s\<lparr>c_queue := q, c_live := l, c_db := d, c_calls := cs, c_over := first_error (c_over s) x\<rparr>)"
  using deliver_effect [OF f conjunct1 [OF assms(1) [unfolded accounted_def]]] assms(3)
  by (intro accounted_touch [OF assms(1,2), where u = "q_uid it" and n = "if x = None then 1 else 0"
        and S' = "if x = None then [q_uid it] else []" and L' = "if x = None then [] else [q_uid it]"])
    (auto simp: in_work_def)

lemma accounted_lose:
  assumes "accounted p l0 s" and "distinct (p_todo p)" and "in_work s = in_work t + mset L" and "c_over t \<noteq> None"
    and "touches p {} 0 (c_live s) (c_db s) (c_live t) (c_db t)"
  shows "accounted p l0 t"
  by (rule accounted_move [OF assms(1,2), where S' = "[]" and F' = "[]" and L' = L])
    (use assms touches_resolved [OF assms(5)] in \<open>auto simp: touches_def\<close>)

lemma unread_effect:
  assumes "open_chunk mail_date opts started p says chunk l d = (Inl e, calls, l', d')"
  shows "touches p {} 0 l d l' d"
proof -
  from assms obtain l1 where "chunk_meta opts p says l = (Inl e, l1)" "l' = l1"
    by (auto simp: open_chunk_def Let_def split: prod.splits sum.splits)
  with chunk_meta_from_effect [of opts p says 0 l "Inl e" l1 "{}" d] show ?thesis by (simp add: chunk_meta_def)
qed

lemma accounted_step:
  assumes "copy_step sha mail_date message opts started p s t" and "accounted p l0 s" and "distinct (p_todo p)"
  shows "accounted p l0 t"
  using assms(1)
proof cases
  case (deal chunk cs says w calls l d)
  with accounted_deal [OF assms(2,3) deal(2,3)] show ?thesis by (simp add: as_asked_def)
next
  case (unread chunk cs says e calls l d)
  then show ?thesis using unread_effect [OF unread(3)]
    by (intro accounted_lose [OF assms(2,3), where L = chunk]) (simp_all add: in_work_def)
next
  case fetch
  then show ?thesis using accounted_fetch [OF assms(2,3)] by blast
next
  case (broke ws w ws' m ms says e calls l d paused x w' calls' l' d')
  with fetch_one_effect(1) [OF broke(4)] accounted_broke [OF assms(2,3) broke(2,3) _ broke(5)] show ?thesis by simp
next
  case (unleased ws w ws' leased e paused x w' calls' l' d')
  then obtain m ms where "w_left w = m # ms" by (cases "w_left w") auto
  with accounted_broke [OF assms(2,3) unleased(2) _ touches_refl unleased(6)] unleased(1) show ?thesis by simp
next
  case (finish ws w ws')
  then show ?thesis
    by (intro accounted_move [OF assms(2,3), where S' = "[]" and F' = "[]" and L' = "[]"]) (simp_all add: in_work_def)
next
  case append
  with accounted_append [OF assms(2,3)] show ?thesis by blast
next
  case (drain it q)
  then show ?thesis
    by (intro accounted_lose [OF assms(2,3), where L = "[q_uid it]"]) (simp_all add: in_work_def touches_refl)
next
  case undealt
  then show ?thesis
    by (intro accounted_lose [OF assms(2,3), where L = "concat (c_chunks s)"]) (simp_all add: in_work_def touches_refl)
qed


section \<open>Every schedule ends\<close>

text \<open>A bound on the steps left: a message is worth one step for each attempt and a few to be queued and appended.\<close>

definition worker_weight :: "nat \<Rightarrow> fetcher \<Rightarrow> nat" where
  "worker_weight a w = length (w_left w) * (a + 3) + (if w_moved w then a else nat (int a - w_attempt w)) + 1"

definition copy_weight :: "nat \<Rightarrow> copying \<Rightarrow> nat" where
  "copy_weight a s = sum_list (map (\<lambda>c. length c * (a + 3) + a + 2) (c_chunks s)) +
     sum_list (map (worker_weight a) (c_workers s)) + length (c_queue s)"

lemma open_chunk_kept:
  assumes "open_chunk mail_date opts started p says chunk l d = (Inr w, calls, l', d')"
    and "\<forall>n metas. ch_metas says n = Inr metas \<longrightarrow> as_asked chunk metas"
  shows "length (w_left w) \<le> length chunk \<and> w_attempt w = 0 \<and> \<not> w_moved w"
proof -
  from assms(1) obtain metas l1 l2 kept where cm: "chunk_meta opts p says l = (Inr metas, l1)"
    and se: "selected mail_date (o_filter opts) started metas l2 = (kept, l')" and w: "w = new_fetcher kept"
    by (auto simp: open_chunk_def Let_def split: prod.splits sum.splits)
  have "as_asked chunk metas"
    using chunk_meta_from_effect [of opts p says 0 l "Inr metas" l1 "{}" d] cm assms(2) by (auto simp: chunk_meta_def)
  then have "length metas \<le> card (set chunk)"
    unfolding as_asked_def using card_mono [of "set chunk" "meta_uid ` set metas"] distinct_card [of "map meta_uid metas"] by simp
  then have "length metas \<le> length chunk" using card_length le_trans by blast
  moreover have "kept = metas \<or> (\<exists>c. kept = filter c metas)"
    using se unfolding selected_def Let_def by (auto split: if_splits)
  then have "length kept \<le> length metas" by auto
  ultimately show ?thesis by (simp add: w new_fetcher_def)
qed

lemma break_weight:
  assumes "break_fetcher message opts p e paused w l d = (None, w', calls, l', d')" and "w_left w \<noteq> []"
  shows "worker_weight (nat (attempts (retry_policy opts))) w' < worker_weight (nat (attempts (retry_policy opts))) w"
  using assms by (cases "w_left w")
    (auto simp: break_fetcher_def on_break_def worker_weight_def Let_def split: if_splits prod.splits)

lemma weight_step:
  assumes "copy_step sha mail_date message opts started p s t"
  shows "copy_weight (nat (attempts (retry_policy opts))) t < copy_weight (nat (attempts (retry_policy opts))) s"
  using assms
proof cases
  case (deal chunk cs says w calls l d)
  define a where "a = nat (attempts (retry_policy opts))"
  have k: "length (w_left w) \<le> length chunk" "w_attempt w = 0" "\<not> w_moved w"
    using open_chunk_kept [OF deal(3)] deal(4) by (simp_all add: as_asked_def)
  then have "worker_weight a w = length (w_left w) * (a + 3) + a + 1" by (simp add: worker_weight_def)
  with mult_le_mono1 [OF k(1), of "a + 3"] have "worker_weight a w < length chunk * (a + 3) + a + 2" by linarith
  with deal show ?thesis unfolding a_def [symmetric] by (simp add: copy_weight_def)
next
  case (fetch ws w ws' m ms says r calls l d)
  then show ?thesis by (cases r) (auto simp: copy_weight_def worker_weight_def)
next
  case (broke ws w ws' m ms says e calls l d paused x w' calls' l' d')
  then show ?thesis using break_weight [of message opts p e paused w l d w' calls' l' d']
    by (cases x) (auto simp: copy_weight_def worker_weight_def)
next
  case (unleased ws w ws' leased e paused x w' calls' l' d')
  then show ?thesis using break_weight [of message opts p e paused w "c_live s" "c_db s" w' calls' l' d']
    by (cases x) (auto simp: copy_weight_def worker_weight_def)
next
  case undealt
  then show ?thesis by (cases "c_chunks s") (simp_all add: copy_weight_def)
qed (auto simp: copy_weight_def worker_weight_def)


section \<open>Runs\<close>

definition at_rest :: "copying \<Rightarrow> bool" where
  "at_rest s \<longleftrightarrow> c_chunks s = [] \<and> c_workers s = [] \<and> c_queue s = []"

lemma accounted_run:
  assumes "(copy_step sha mail_date message opts started p)\<^sup>*\<^sup>* (start_copy p l d) s" and "distinct (p_todo p)"
    and "0 \<le> failures_noted l"
  shows "accounted p l s"
  using assms(1)
  by (induction rule: rtranclp_induct) (auto intro: accounted_start [OF assms(3)] accounted_step [OF _ _ assms(2)])

lemma weight_run:
  "(copy_step sha mail_date message opts started p ^^ n) s t \<Longrightarrow>
     n + copy_weight (nat (attempts (retry_policy opts))) t \<le> copy_weight (nat (attempts (retry_policy opts))) s"
proof (induction n arbitrary: t)
  case (Suc n)
  then obtain r where r: "(copy_step sha mail_date message opts started p ^^ n) s r" "copy_step sha mail_date message opts started p r t"
    by auto
  with Suc.IH [OF r(1)] weight_step [OF r(2)] show ?case by linarith
qed simp

lemma batches_weight: "sum_list (map (\<lambda>c. length c * a + b) (batches n xs)) \<le> length xs * (a + b)"
proof (induction n xs rule: batches.induct)
  case (1 n xs)
  show ?case
  proof (cases "xs = [] \<or> n = 0")
    case True
    then show ?thesis by (subst batches.simps) simp
  next
    case False
    let ?k = "length (take n xs)"
    have k: "1 \<le> ?k" "length xs = ?k + length (drop n xs)" using False by (cases xs; simp)+
    have "sum_list (map (\<lambda>c. length c * a + b) (batches n xs)) =
        ?k * a + b + sum_list (map (\<lambda>c. length c * a + b) (batches n (drop n xs)))"
      using False by (subst batches.simps) simp
    also have "\<dots> \<le> ?k * a + ?k * b + length (drop n xs) * (a + b)"
      using "1.IH" False k(1) by (intro add_mono) simp_all
    also have "\<dots> = length xs * (a + b)" using k(2) by (simp only: algebra_simps)
    finally show ?thesis .
  qed
qed

lemma start_weight: "copy_weight a (start_copy p l d) \<le> length (p_todo p) * (2 * a + 5)"
proof -
  have "copy_weight a (start_copy p l d) \<le> length (p_todo p) * ((a + 3) + (a + 2))"
    using batches_weight [of "a + 3" "a + 2" copy_chunk "p_todo p"] by (simp add: copy_weight_def start_copy_def add.assoc)
  also have "(a + 3) + (a + 2) = 2 * a + 5" by simp
  finally show ?thesis .
qed

lemma copy_not_stuck:
  assumes "\<not> at_rest s"
  shows "\<exists>t. copy_step sha mail_date message opts started p s t"
proof -
  consider chunk cs where "c_chunks s = chunk # cs" | w ws where "c_workers s = w # ws" | it q where "c_queue s = it # q"
    using assms unfolding at_rest_def by (meson list.exhaust)
  then show ?thesis
  proof cases
    case 1
    define says :: chunk_says where "says = \<lparr>ch_lease = (\<lambda>_. Inr 0), ch_metas = (\<lambda>_. Inr []), ch_pause = (\<lambda>_. None)\<rparr>"
    obtain r calls l d where o: "open_chunk mail_date opts started p says chunk (c_live s) (c_db s) = (r, calls, l, d)"
      by (metis prod.collapse)
    show ?thesis
    proof (cases r)
      case (Inl e)
      with unread [where says = says, OF 1] o show ?thesis by blast
    next
      case (Inr w)
      have "\<forall>n metas. ch_metas says n = Inr metas \<longrightarrow> distinct (map meta_uid metas) \<and> set (map meta_uid metas) \<subseteq> set chunk"
        by (simp add: says_def)
      with deal [OF 1 o [unfolded Inr]] show ?thesis by blast
    qed
  next
    case 2
    then have w: "c_workers s = [] @ w # ws" by simp
    show ?thesis
    proof (cases "w_left w")
      case Nil
      with finish [OF w] show ?thesis by blast
    next
      case (Cons m ms)
      define says :: fetch_says where "says = \<lparr>ft_throttle = None, ft_budget = None, ft_body = Inr [], ft_ended = None\<rparr>"
      obtain r calls l d where f: "fetch_one sha opts p says m (c_live s) (c_db s) = (r, calls, l, d)"
        by (metis prod.collapse)
      show ?thesis
      proof (cases "\<exists>e. r = Broke e")
        case True
        then obtain e where "r = Broke e" ..
        moreover obtain x w' calls' l' d' where "break_fetcher message opts p e None w l d = (x, w', calls', l', d')"
          by (metis prod.collapse)
        ultimately show ?thesis using broke [OF w Cons] f by blast
      next
        case False
        with fetch [OF w Cons f] show ?thesis by blast
      qed
    qed
  next
    case 3
    define says :: deliver_says where "says = \<lparr>dl_lease = (\<lambda>_. None), dl_append = (\<lambda>_. Inr (1, 1)),
      dl_search_lease = (\<lambda>_. None), dl_search = (\<lambda>_ _. Inr []), dl_pause = (\<lambda>_. None)\<rparr>"
    obtain x calls l d where "deliver message opts p says it (c_live s) (c_db s) = (x, calls, l, d)"
      by (metis prod.collapse)
    with append [OF 3] show ?thesis by blast
  qed
qed


text \<open>C1: When the copy of a folder comes to rest without an error, every message of the copy list is accounted
  for. But for those the filter left out, each is recorded as copied or adopted, as gone from the source or as
  failed - failed only if the report counts a failure - or waits in flight for the copy of an identical message that stands for it; and the report's counters
  add up to the length of the list, however the workers interleaved and whatever went wrong on the way.\<close>

theorem every_message_accounted_for:
  assumes "(copy_step sha mail_date message opts started p)\<^sup>*\<^sup>* (start_copy p l d) s" and "distinct (p_todo p)"
    and "0 \<le> failures_noted l" and "at_rest s" and "c_over s = None"
  shows "tally (c_live s) - tally l = int (length (p_todo p)) \<and>
    (\<exists>cut \<subseteq> set (p_todo p). left_out (c_live s) - left_out l = int (card cut) \<and>
       (\<forall>u \<in> set (p_todo p) - cut. resolved p (c_live s) (c_db s) u))"
proof -
  obtain S F where all: "mset (p_todo p) = mset S + mset F" and S: "\<forall>u \<in> set S. resolved p (c_live s) (c_db s) u"
    and n: "tally (c_live s) = tally l + int (length S) + int (length F)" "left_out (c_live s) = left_out l + int (length F)"
    using accounted_run [OF assms(1-3)] assms(4,5) unfolding accounted_def by (auto simp: at_rest_def in_work_def)
  have len: "length (p_todo p) = length S + length F" using arg_cong [OF all, of size] by simp
  have sets: "set (p_todo p) = set S \<union> set F" using arg_cong [OF all, of set_mset] by simp
  have "distinct F" by (rule distinct_part [OF _ assms(2)]) (simp add: all)
  then have "card (set F) = length F" by (rule distinct_card)
  then show ?thesis using n len sets S by (intro conjI exI [of _ "set F"]) auto
qed


section \<open>What is queued is in the journal and in the budget\<close>

fun held :: "call list \<Rightarrow> int" where
  "held [] = 0"
| "held (Charged u n # cs) = held cs + n"
| "held (Refunded u n # cs) = held cs - n"
| "held (c # cs) = held cs"

lemma held_append [simp]: "held (a @ b) = held a + held b"
  by (induction a rule: held.induct) simp_all

lemma held_vanished [simp]: "held (map Vanished us) = 0"
  by (induction us) simp_all

lemma held_fetch:
  assumes "fetch_one sha opts p says m l d = (r, calls, l', d')"
  shows "held calls = (case r of Queued it \<Rightarrow> q_charge it | _ \<Rightarrow> 0)"
  using assms
  by (auto simp: fetch_one_def fetch_body_def Let_def split: sum.splits option.splits prod.splits if_splits)

lemma held_deliver: "deliver_from message opts p says it n l d = (x, calls, l', d') \<Longrightarrow> held calls = 0"
proof (induction "nat (attempts (retry_policy opts) - int n)" arbitrary: n l calls rule: less_induct)
  case less
  have [simp]: "held (append_call says n u) = 0" "held (look_call says n it) = 0" for u
    by (simp_all add: append_call_def look_call_def)
  have rec: "record_copy p it v t l d = (x, cs, l', d') \<Longrightarrow> held cs = 0" for v t l cs
    by (auto simp: record_copy_def split: sum.splits)
  from less.prems show ?case
  proof (cases rule: deliver_from_cases)
    case accepted
    then show ?thesis using rec by (fastforce simp: settle_append_def split: if_splits sum.splits prod.splits)
  next
    case given_up
    then show ?thesis by (auto simp: fail_message_def split: sum.splits)
  next
    case lost
    then show ?thesis by auto
  next
    case found
    then show ?thesis using rec by simp
  next
    case again
    then show ?thesis using less.hyps [OF _ again(5)] by simp
  qed
qed

lemma held_break: "break_fetcher message opts p e paused w l d = (x, w', calls, l', d') \<Longrightarrow> held calls = 0"
  by (auto simp: break_fetcher_def fail_message_def split: sum.splits prod.splits after_break.splits)

lemma held_open: "open_chunk mail_date opts started p says chunk l d = (r, calls, l', d') \<Longrightarrow> held calls = 0"
  by (auto simp: open_chunk_def mark_missing_def Let_def split: sum.splits prod.splits if_splits)

lemma held_step:
  assumes "copy_step sha mail_date message opts started p s t"
  shows "held (c_calls t) - sum_list (map q_charge (c_queue t)) = held (c_calls s) - sum_list (map q_charge (c_queue s))"
  using assms
proof cases
  case deal
  then show ?thesis using held_open [OF deal(3)] by simp
next
  case (fetch ws w ws' m ms says r)
  then show ?thesis using held_fetch [OF fetch(4)] by (cases r) simp_all
next
  case broke
  then show ?thesis using held_fetch [OF broke(4)] held_break [OF broke(5)] by simp
next
  case unleased
  then show ?thesis using held_break [OF unleased(6)] by simp
next
  case append
  then show ?thesis using held_deliver [of message opts p _ _ 0] by (fastforce simp: deliver_def)
qed simp_all

text \<open>C8: The memory the folder's copy holds of the budget is at every moment exactly what its queued messages
  were charged, on every path: adopted, repeated, vanished, failed and drained messages hold nothing. When the copy
  rests, with an error or without, it holds nothing.\<close>

theorem budget_is_returned:
  assumes "(copy_step sha mail_date message opts started p)\<^sup>*\<^sup>* (start_copy p l d) s"
  shows "held (c_calls s) = sum_list (map q_charge (c_queue s)) \<and> (at_rest s \<longrightarrow> held (c_calls s) = 0)"
proof -
  have "held (c_calls s) - sum_list (map q_charge (c_queue s)) = 0"
    using assms by (induction rule: rtranclp_induct) (simp_all add: start_copy_def held_step)
  then show ?thesis by (simp add: at_rest_def)
qed

text \<open>Queued messages are in flight. The database changes only in rows of messages taken from work.\<close>

definition queue_in_flight :: "prepared \<Rightarrow> copying \<Rightarrow> bool" where
  "queue_in_flight p s \<longleftrightarrow> (\<forall>it \<in> set (c_queue s). status_of (c_db s) (state_key p (q_uid it)) = Some InFlight)"

lemma in_work_once:
  assumes "accounted p l s" and "distinct (p_todo p)"
  shows "count (in_work s) u \<le> 1"
proof -
  have "in_work s \<subseteq># mset (p_todo p)" using assms(1) unfolding accounted_def by (auto simp: ac_simps)
  then obtain xs where xs: "mset xs = in_work s" "mset xs \<subseteq># mset (p_todo p)" by (metis ex_mset)
  from distinct_part [OF xs(2) assms(2)] have "count (mset xs) u \<le> 1" by (simp add: distinct_count_atmost_1)
  with xs(1) show ?thesis by simp
qed

lemma not_queued_elsewhere:
  assumes "accounted p l s" and "distinct (p_todo p)" and "u \<in># in_work s - mset (map q_uid (c_queue s))"
  shows "\<forall>it \<in> set (c_queue s). q_uid it \<noteq> u"
proof (rule ccontr)
  assume "\<not> ?thesis"
  then have "u \<in># mset (map q_uid (c_queue s))" by auto
  moreover have "mset (map q_uid (c_queue s)) \<subseteq># in_work s" by (simp add: in_work_def)
  ultimately have "2 \<le> count (in_work s) u"
    using assms(3) by (metis add_mono count_diff count_greater_eq_one_iff in_diff_count le_add_diff_inverse2 mset_subset_eq_count one_add_one)
  with in_work_once [OF assms(1,2), of u] show False by simp
qed


lemma in_flight_touch:
  assumes "queue_in_flight p s" and "touches p us n l (c_db s) l' d'" and "\<forall>it \<in> set q. it \<in> set (c_queue s) \<and> q_uid it \<notin> us"
  shows "\<forall>it \<in> set q. status_of d' (state_key p (q_uid it)) = Some InFlight"
  using assms by (auto simp: queue_in_flight_def touches_def)

lemma in_flight_step:
  assumes "copy_step sha mail_date message opts started p s t" and "accounted p l0 s" and "distinct (p_todo p)"
    and q: "queue_in_flight p s"
  shows "queue_in_flight p t"
  using assms(1)
proof cases
  case (deal chunk cs says w calls l d)
  then obtain metas l1 l2 kept where cm: "chunk_meta opts p says (c_live s) = (Inr metas, l1)"
    and mm: "mark_missing p chunk metas l1 (c_db s) = (calls, l2, d)"
    by (auto simp: open_chunk_def Let_def split: prod.splits sum.splits)
  have sub: "mset chunk \<subseteq># in_work s - mset (map q_uid (c_queue s))" by (simp add: in_work_def deal(2))
  then have "mset chunk \<subseteq># mset (p_todo p)"
    using assms(2) unfolding accounted_def by (auto simp: in_work_def deal(2) ac_simps)
  then have dc: "distinct chunk" by (rule distinct_part [OF _ assms(3)])
  have ask: "as_asked chunk metas"
    using chunk_meta_from_effect [of opts p says 0 "c_live s" "Inr metas" l1 "{}" d] cm deal(4)
    by (auto simp: chunk_meta_def as_asked_def)
  have "\<forall>it \<in> set (c_queue s). it \<in> set (c_queue s) \<and> q_uid it \<notin> set (missing chunk metas)"
  proof
    fix it assume it: "it \<in> set (c_queue s)"
    have "q_uid it \<notin> set chunk"
    proof
      assume "q_uid it \<in> set chunk"
      then have "q_uid it \<in># in_work s - mset (map q_uid (c_queue s))" using mset_subset_eqD [OF sub] by simp
      with not_queued_elsewhere [OF assms(2,3)] it show False by blast
    qed
    with it show "it \<in> set (c_queue s) \<and> q_uid it \<notin> set (missing chunk metas)" by (simp add: missing_def)
  qed
  from in_flight_touch [OF q mark_missing_effect(1) [OF mm ask dc] this] show ?thesis
    by (simp add: deal(1) queue_in_flight_def)
next
  case (fetch ws w ws' m ms says r calls l d)
  have "\<forall>it \<in> set (c_queue s). it \<in> set (c_queue s) \<and> q_uid it \<notin> {meta_uid m}"
    using not_queued_elsewhere [OF assms(2,3), of "meta_uid m"] by (simp add: in_work_def fetch(2,3))
  from in_flight_touch [OF q fetch_one_effect(1) [OF fetch(4)] this] fetch_one_effect(3) [OF fetch(4)] show ?thesis
    by (auto simp: fetch(1) queue_in_flight_def split: fetched.splits)
next
  case (broke ws w ws' m ms says e calls l d paused x w' calls' l' d')
  have o: "\<forall>it \<in> set (c_queue s). it \<in> set (c_queue s) \<and> q_uid it \<notin> {meta_uid m}"
    using not_queued_elsewhere [OF assms(2,3), of "meta_uid m"] by (simp add: in_work_def broke(2,3))
  have "0 \<le> failures_noted l"
    using assms(2) fetch_one_effect(1) [OF broke(4)] by (auto simp: accounted_def touches_def)
  from break_effect [OF broke(5,3) this] obtain n where "touches p {meta_uid m} n l d l' d'" by blast
  from in_flight_touch [OF q touches_trans [OF fetch_one_effect(1) [OF broke(4)] this] o] show ?thesis
    by (simp add: broke(1) queue_in_flight_def)
next
  case (unleased ws w ws' leased e paused x w' calls' l' d')
  then obtain m ms where m: "w_left w = m # ms" by (cases "w_left w") auto
  have o: "\<forall>it \<in> set (c_queue s). it \<in> set (c_queue s) \<and> q_uid it \<notin> {meta_uid m}"
    using not_queued_elsewhere [OF assms(2,3), of "meta_uid m"] by (simp add: in_work_def unleased(2) m)
  from break_effect [OF unleased(6) m conjunct1 [OF assms(2) [unfolded accounted_def]]] obtain n where "touches p {meta_uid m} n (c_live s) (c_db s) l' d'" by blast
  from in_flight_touch [OF q this o] show ?thesis by (simp add: unleased(1) queue_in_flight_def)
next
  case (append it q' says x calls l d)
  have "q_uid it \<notin> set (map q_uid q')"
    using in_work_once [OF assms(2,3), of "q_uid it"] count_greater_eq_one_iff [of "mset (map q_uid q')" "q_uid it"]
    by (auto simp: in_work_def append(2))
  then have "\<forall>i \<in> set q'. i \<in> set (c_queue s) \<and> q_uid i \<notin> {q_uid it}"
    using append(2) by (metis imageI list.set_intros(2) list.set_map singletonD)
  from in_flight_touch [OF q deliver_effect(1) [OF append(3) conjunct1 [OF assms(2) [unfolded accounted_def]]] this] show ?thesis
    by (simp add: append(1) queue_in_flight_def)
qed (use q in \<open>auto simp: queue_in_flight_def\<close>)

lemma in_flight_run:
  assumes "(copy_step sha mail_date message opts started p)\<^sup>*\<^sup>* (start_copy p l d) s" and "distinct (p_todo p)"
    and "0 \<le> failures_noted l"
  shows "queue_in_flight p s"
  using assms(1)
proof (induction rule: rtranclp_induct)
  case base
  then show ?case by (simp add: queue_in_flight_def start_copy_def)
next
  case (step s t)
  then show ?case using in_flight_step accounted_run [OF step(1) assms(2,3)] assms(2) by blast
qed

section \<open>One delivery\<close>

text \<open>Before every APPEND but the first the destination has been searched.\<close>

fun looks_first :: "bool \<Rightarrow> call list \<Rightarrow> bool" where
  "looks_first fresh [] = True"
| "looks_first fresh (Appended u # cs) = (fresh \<and> looks_first False cs)"
| "looks_first fresh (Looked u # cs) = looks_first True cs"
| "looks_first fresh (c # cs) = looks_first fresh cs"

definition appends :: "nat \<Rightarrow> call list \<Rightarrow> nat" where
  "appends u cs = length (filter (\<lambda>c. c = Appended u) cs)"

definition asking :: "nat \<Rightarrow> call \<Rightarrow> bool" where
  "asking u c \<longleftrightarrow> c = Appended u \<or> c = Looked u"

definition verdicts :: "nat \<Rightarrow> call list \<Rightarrow> bool" where
  "verdicts u cs \<longleftrightarrow> (\<exists>t. cs = [Completed u t]) \<or> cs = [GaveUp u]"

lemma record_calls: "record_copy p it v t l d = (x, calls, l', d') \<Longrightarrow>
    (x = None \<longrightarrow> verdicts (q_uid it) calls) \<and> (x \<noteq> None \<longrightarrow> calls = [] \<and> d' = d)"
  by (auto simp: record_copy_def verdicts_def split: sum.splits)

lemma fail_calls: "fail_message message p u e l d = (x, calls, l', d') \<Longrightarrow>
    (x = None \<longrightarrow> verdicts u calls) \<and> (x \<noteq> None \<longrightarrow> calls = [] \<and> d' = d)"
  by (auto simp: fail_message_def verdicts_def split: sum.splits)

text \<open>A delivery is a run of appends and searches and then, when it succeeds, one write.\<close>

definition delivery_shape :: "pending \<Rightarrow> nat \<Rightarrow> go_error option \<Rightarrow> call list \<Rightarrow> db \<Rightarrow> db \<Rightarrow> bool" where
  "delivery_shape it bound x calls d d' \<longleftrightarrow> (\<exists>pre post. calls = pre @ post \<and> (\<forall>c \<in> set pre. asking (q_uid it) c) \<and>
     appends (q_uid it) pre \<le> bound \<and> (searchable (q_identity it) (q_stamped it) \<longrightarrow> looks_first True pre) \<and>
     (if x = None then verdicts (q_uid it) post else post = [] \<and> d' = d))"

lemma append_shape: "\<forall>c \<in> set (append_call says n u). asking u c" "appends u (append_call says n u) \<le> 1"
    "looks_first True (append_call says n u)"
  by (simp_all add: append_call_def asking_def appends_def)

lemma look_shape: "\<forall>c \<in> set (look_call says n it). asking (q_uid it) c" "appends u (look_call says n it) = 0"
  by (simp_all add: look_call_def asking_def appends_def)

lemma looks_first_append: "looks_first f a \<Longrightarrow> looks_first True b \<Longrightarrow>
    (\<exists>u a'. a = a' @ [Looked u]) \<Longrightarrow> looks_first f (a @ b)"
  by (induction f a rule: looks_first.induct) (auto simp: append_eq_Cons_conv Cons_eq_append_conv)

lemma appends_append [simp]: "appends u (a @ b) = appends u a + appends u b"
  by (simp add: appends_def)


lemma shape_end:
  assumes "calls = pre @ post" and "\<forall>c \<in> set pre. asking (q_uid it) c" and "appends (q_uid it) pre \<le> bound"
    and "searchable (q_identity it) (q_stamped it) \<Longrightarrow> looks_first True pre"
    and "if x = None then verdicts (q_uid it) post else post = [] \<and> d' = d"
  shows "delivery_shape it bound x calls d d'"
  using assms unfolding delivery_shape_def by blast

lemma looks_first_look: "looks_first True (append_call says n u @ look_call says n it)"
  by (simp add: append_call_def look_call_def)

lemma settle_shape:
  assumes "settle_append p it says n r l d = (x, calls, l', d')"
  shows "delivery_shape it 1 x (append_call says n (q_uid it) @ calls) d d'"
proof -
  let ?a = "append_call says n (q_uid it)" and ?k = "look_call says n it"
  note a = append_shape(1) [of says n "q_uid it"] append_shape(2) [of "q_uid it" says n] append_shape(3) [of says n "q_uid it"]
    and k = look_shape(1) [of says n it] look_shape(2) [of "q_uid it" says n it] and f = looks_first_look [of says n "q_uid it" it]
  show ?thesis
  proof (cases "assigned r")
    case True
    with assms have "record_copy p it (fst r) (snd r) l d = (x, calls, l', d')" by (simp add: settle_append_def)
    from record_calls [OF this] a show ?thesis by (intro shape_end [of _ ?a calls]) auto
  next
    case False
    show ?thesis
    proof (cases "locate_on_dest (dl_search_lease says n) (dl_search says n) (q_identity it) (q_stamped it)")
      case (Inl e)
      with assms False a k f show ?thesis by (intro shape_end [of _ "?a @ ?k" "[]"]) (auto simp: settle_append_def)
    next
      case (Inr t)
      with assms False obtain cs where r: "record_copy p it (box_validity (p_dst p)) t l d = (x, cs, l', d')"
        and "calls = ?k @ cs" by (auto simp: settle_append_def split: prod.splits)
      with record_calls [OF r] a k f show ?thesis by (intro shape_end [of _ "?a @ ?k" cs]) auto
    qed
  qed
qed

lemma deliver_from_shape:
  "deliver_from message opts p says it n l d = (x, calls, l', d') \<Longrightarrow>
     delivery_shape it (max 1 (nat (attempts (retry_policy opts) - int n))) x calls d d'"
proof (induction "nat (attempts (retry_policy opts) - int n)" arbitrary: n l calls rule: less_induct)
  case less
  let ?a = "append_call says n (q_uid it)" and ?k = "look_call says n it"
  note a = append_shape(1) [of says n "q_uid it"] append_shape(2) [of "q_uid it" says n] append_shape(3) [of says n "q_uid it"]
    and k = look_shape(1) [of says n it] look_shape(2) [of "q_uid it" says n it] and f = looks_first_look [of says n "q_uid it" it]
  from less.prems show ?case
  proof (cases rule: deliver_from_cases)
    case accepted
    then show ?thesis using settle_shape [OF accepted(2)] unfolding delivery_shape_def by fastforce
  next
    case (given_up e cs)
    with fail_calls [OF given_up(2)] a show ?thesis by (intro shape_end [of _ ?a cs]) auto
  next
    case lost
    from lost(5) show ?thesis
    proof
      assume "calls = ?a"
      with lost a show ?thesis by (intro shape_end [of _ ?a "[]"]) auto
    next
      assume "calls = ?a @ ?k"
      with lost a k f show ?thesis by (intro shape_end [of _ "?a @ ?k" "[]"]) auto
    qed
  next
    case (found e t cs)
    with record_calls [OF found(4)] a k f show ?thesis by (intro shape_end [of _ "?a @ ?k" cs]) auto
  next
    case (again e cs)
    let ?rest = "attempts (retry_policy opts) - int n"
    have b: "nat (attempts (retry_policy opts) - int (n + 1)) < nat ?rest" "1 < nat ?rest"
      "max 1 (nat (attempts (retry_policy opts) - int (n + 1))) + 1 \<le> max 1 (nat ?rest)" using again(2) by auto
    from less.hyps [OF b(1) again(5)] obtain pre post where pre: "cs = pre @ post" "\<forall>c \<in> set pre. asking (q_uid it) c"
      "appends (q_uid it) pre \<le> max 1 (nat (attempts (retry_policy opts) - int (n + 1)))"
      "searchable (q_identity it) (q_stamped it) \<longrightarrow> looks_first True pre"
      "if x = None then verdicts (q_uid it) post else post = [] \<and> d' = d"
      unfolding delivery_shape_def by blast
    show ?thesis
    proof (rule shape_end [of _ "?a @ ?k @ pre" post])
      show "looks_first True (?a @ ?k @ pre)" if s: "searchable (q_identity it) (q_stamped it)"
      proof -
        have "dl_search_lease says n = None" using again(4) s by (auto simp: locate_on_dest_def split: option.splits)
        then have "?k = [Looked (q_uid it)]" using s by (simp add: look_call_def)
        with looks_first_append [OF f, of pre] pre(4) s show ?thesis by simp
      qed
      show "appends (q_uid it) (?a @ ?k @ pre) \<le> max 1 (nat ?rest)" using a(2) k(2) pre(3) b(3) by simp
    qed (use again(6) pre a k in auto)
  qed
qed


text \<open>C3: At every moment of a folder's copy the next message to be delivered is in flight in the database, and
  delivering it leaves its row alone until the outcome is known: a delivery is APPENDs and searches, at most as many
  APPENDs as the policy has attempts, each but the first after a search of the destination where the message can be
  searched for, and then one write - copied or failed - or none at all when the folder ends with an error.\<close>

theorem delivery_is_journalled:
  assumes "(copy_step sha mail_date message opts started p)\<^sup>*\<^sup>* (start_copy p l0 d0) s" and "distinct (p_todo p)"
    and "0 \<le> failures_noted l0" and "c_queue s = it # q" and "deliver message opts p says it (c_live s) (c_db s) = (x, calls, l, d)"
  shows "status_of (c_db s) (state_key p (q_uid it)) = Some InFlight \<and>
    (\<exists>pre post. calls = pre @ post \<and> (\<forall>c \<in> set pre. asking (q_uid it) c) \<and>
       appends (q_uid it) pre \<le> max 1 (nat (attempts (retry_policy opts))) \<and>
       (searchable (q_identity it) (q_stamped it) \<longrightarrow> looks_first True pre) \<and>
       (if x = None then verdicts (q_uid it) post \<and> resolved p l d (q_uid it) else post = [] \<and> d = c_db s))"
proof -
  have "status_of (c_db s) (state_key p (q_uid it)) = Some InFlight"
    using in_flight_run [OF assms(1-3)] assms(4) by (simp add: queue_in_flight_def)
  moreover have "delivery_shape it (max 1 (nat (attempts (retry_policy opts)))) x calls (c_db s) d"
    using deliver_from_shape [of message opts p says it 0] assms(5) by (simp add: deliver_def)
  moreover have "0 \<le> failures_noted (c_live s)" using accounted_run [OF assms(1-3)] by (simp add: accounted_def)
  ultimately show ?thesis using deliver_effect(2) [OF assms(5)] unfolding delivery_shape_def
    by (cases x) (simp_all only: if_True if_False option.distinct simp_thms)
qed

section \<open>A run, step by step\<close>

definition one_message :: msg_meta where
  "one_message = \<lparr>meta_uid = 4, meta_header = ''Message-ID: <a>'' @ [CR, LF, CR, LF], meta_size = 9, meta_flags = [], meta_date = 0\<rparr>"

definition one_folder :: prepared where
  "one_folder = (sample_prepared [] None)\<lparr>p_todo := [4]\<rparr>"

definition one_chunk :: chunk_says where
  "one_chunk = \<lparr>ch_lease = (\<lambda>_. Inr 5), ch_metas = (\<lambda>_. Inr [one_message]), ch_pause = (\<lambda>_. None)\<rparr>"

definition one_fetch :: fetch_says where
  "one_fetch = \<lparr>ft_throttle = None, ft_budget = None, ft_body = Inr ''x'', ft_ended = None\<rparr>"

text \<open>The first APPEND is lost with its connection, the search finds nothing, the second is accepted.\<close>

definition one_delivery :: deliver_says where
  "one_delivery =
     \<lparr>dl_lease = (\<lambda>_. None), dl_append = (\<lambda>n. if n = 0 then Inl (Sentinel ErrConnectionBroken) else Inr (7, 31)),
      dl_search_lease = (\<lambda>_. None), dl_search = (\<lambda>_ _. Inr []), dl_pause = (\<lambda>_. None)\<rparr>"

definition one_reason :: "go_error \<Rightarrow> string" where
  "one_reason e = ''error''"

abbreviation one_step :: "copying \<Rightarrow> copying \<Rightarrow> bool" where
  "one_step \<equiv> copy_step id (\<lambda>_. None) one_reason sample_opts 0 one_folder"

abbreviation one_start :: copying where
  "one_start \<equiv> start_copy one_folder sample_live (sample_db [])"

definition after_deal :: copying where
  "after_deal = (let (r, calls, l, d) = open_chunk (\<lambda>_. None) sample_opts 0 one_folder one_chunk [4] sample_live (sample_db [])
     in one_start\<lparr>c_chunks := [], c_workers := [new_fetcher [one_message]], c_live := l, c_db := d, c_calls := calls\<rparr>)"

definition after_fetch :: copying where
  "after_fetch = (let (r, calls, l, d) = fetch_one id sample_opts one_folder one_fetch one_message (c_live after_deal) (c_db after_deal)
     in after_deal\<lparr>c_workers := [(new_fetcher [one_message])\<lparr>w_left := [], w_moved := True\<rparr>],
          c_queue := (case r of Queued it \<Rightarrow> [it] | _ \<Rightarrow> []), c_live := l, c_db := d, c_calls := c_calls after_deal @ calls\<rparr>)"

definition after_delivery :: copying where
  "after_delivery = (let it = hd (c_queue after_fetch);
        (x, calls, l, d) = deliver one_reason sample_opts one_folder one_delivery it (c_live after_fetch) (c_db after_fetch)
     in after_fetch\<lparr>c_queue := [], c_live := l, c_db := d,
          c_calls := c_calls after_fetch @ calls @ [Refunded (q_uid it) (q_charge it)], c_over := first_error None x\<rparr>)"

lemma one_dealt: "one_step one_start after_deal"
proof -
  obtain r calls l d where o: "open_chunk (\<lambda>_. None) sample_opts 0 one_folder one_chunk [4] sample_live (sample_db []) = (r, calls, l, d)"
    by (metis prod.collapse)
  have "fst (open_chunk (\<lambda>_. None) sample_opts 0 one_folder one_chunk [4] sample_live (sample_db [])) = Inr (new_fetcher [one_message])"
    by code_simp
  with o have r: "r = Inr (new_fetcher [one_message])" by simp
  have c: "c_chunks one_start = [4] # []" by code_simp
  show ?thesis using deal [OF c, where says = one_chunk] o r
    by (simp add: after_deal_def one_chunk_def one_message_def start_copy_def)
qed

lemma one_fetched: "one_step after_deal after_fetch"
proof -
  obtain r calls l d where f: "fetch_one id sample_opts one_folder one_fetch one_message (c_live after_deal) (c_db after_deal) = (r, calls, l, d)"
    by (metis prod.collapse)
  have "case fst (fetch_one id sample_opts one_folder one_fetch one_message (c_live after_deal) (c_db after_deal)) of
      Queued it \<Rightarrow> True | _ \<Rightarrow> False"
    by code_simp
  with f have r: "\<forall>e. r \<noteq> Broke e" by (cases r) simp_all
  have w: "c_workers after_deal = [] @ new_fetcher [one_message] # []" and q: "c_queue after_deal = []"
    by (simp_all add: after_deal_def start_copy_def Let_def split: prod.split)
  have l: "w_left (new_fetcher [one_message]) = one_message # []" by (simp add: new_fetcher_def)
  show ?thesis using fetch [OF w l f r] f q by (simp add: after_fetch_def)
qed

lemma one_delivered: "one_step after_fetch after_delivery"
proof -
  let ?it = "hd (c_queue after_fetch)"
  obtain x calls l d where f: "deliver one_reason sample_opts one_folder one_delivery ?it (c_live after_fetch) (c_db after_fetch) = (x, calls, l, d)"
    by (metis prod.collapse)
  have n: "length (c_queue after_fetch) = 1" by code_simp
  have c: "c_over after_fetch = None" by (simp add: after_fetch_def after_deal_def start_copy_def Let_def split: prod.split)
  from n have "c_queue after_fetch = ?it # []" by (cases "c_queue after_fetch") simp_all
  from append [OF this f] f c show ?thesis by (simp add: after_delivery_def Let_def)
qed

definition after_all :: copying where
  "after_all = after_delivery\<lparr>c_workers := []\<rparr>"

lemma one_finished: "one_step after_delivery after_all"
proof -
  have "c_workers after_delivery = [] @ (new_fetcher [one_message])\<lparr>w_left := [], w_moved := True\<rparr> # []"
    by (simp add: after_delivery_def after_fetch_def Let_def split: prod.split)
  from finish [OF this] show ?thesis by (simp add: after_all_def)
qed

lemma one_run: "one_step\<^sup>*\<^sup>* one_start after_fetch" "one_step\<^sup>*\<^sup>* one_start after_all"
proof -
  note go = rtranclp.rtrancl_into_rtrancl [where r = one_step]
  have "one_step\<^sup>*\<^sup>* one_start one_start" by (rule rtranclp.rtrancl_refl)
  then have "one_step\<^sup>*\<^sup>* one_start after_deal" by (rule go) (rule one_dealt)
  then show f: "one_step\<^sup>*\<^sup>* one_start after_fetch" by (rule go) (rule one_fetched)
  then have "one_step\<^sup>*\<^sup>* one_start after_delivery" by (rule go) (rule one_delivered)
  then show "one_step\<^sup>*\<^sup>* one_start after_all" by (rule go) (rule one_finished)
qed

lemma one_run_counted: "(one_step ^^ 4) one_start after_all"
  using one_dealt one_fetched one_delivered one_finished by (auto simp: numeral_eq_Suc)


lemma one_todo: "p_todo one_folder = [4]"
  by (simp add: one_folder_def)

lemma one_at_rest: "at_rest after_all" "c_over after_all = None"
proof -
  show "c_over after_all = None" by code_simp
  show "at_rest after_all"
    by (simp add: at_rest_def after_all_def after_delivery_def after_fetch_def after_deal_def start_copy_def Let_def split: prod.split)
qed


theorem every_message_accounted_for_witness:
  "tally (c_live after_all) - tally sample_live = 1"
  using every_message_accounted_for [OF one_run(2) _ _ one_at_rest] by (simp add: one_todo sample_live_def new_live_def new_report_def)

theorem budget_is_returned_witness:
  "held (c_calls after_fetch) = 9 \<and> held (c_calls after_all) = 0"
proof -
  have "sum_list (map q_charge (c_queue after_fetch)) = 9" by code_simp
  with budget_is_returned [OF one_run(1)] budget_is_returned [OF one_run(2)] one_at_rest(1) show ?thesis by simp
qed

theorem delivery_is_journalled_witness:
  "status_of (c_db after_fetch) (state_key one_folder 4) = Some InFlight \<and>
   (let (x, calls, l, d) = deliver one_reason sample_opts one_folder one_delivery (hd (c_queue after_fetch))
          (c_live after_fetch) (c_db after_fetch)
    in x = None \<and> calls = [Appended 4, Looked 4, Appended 4, Completed 4 31])"
proof -
  let ?it = "hd (c_queue after_fetch)"
  let ?r = "deliver one_reason sample_opts one_folder one_delivery ?it (c_live after_fetch) (c_db after_fetch)"
  obtain x calls l d where r: "?r = (x, calls, l, d)" by (metis prod.collapse)
  have "length (c_queue after_fetch) = 1" and u: "q_uid ?it = 4" by code_simp+
  then have q: "c_queue after_fetch = ?it # []" by (cases "c_queue after_fetch") simp_all
  have "fst ?r = None \<and> fst (snd ?r) = [Appended 4, Looked 4, Appended 4, Completed 4 31]" by code_simp
  with delivery_is_journalled [OF one_run(1) _ _ q r] r show ?thesis
    by (simp add: one_todo u sample_live_def new_live_def new_report_def)
qed

end
