(* ===== verification/SyncFolder.thy ===== *)
theory SyncFolder
  imports SyncCopy FolderPlan
begin

text \<open>
  One folder from end to end (\<open>src/internal/syncer/syncer.go\<close>): what has to be copied is worked out
  (\<open>prepareFolder\<close>), the copy runs, repeats are settled, flags are brought into line, what is gone is deleted,
  duplicates are removed, and the watermarks are written (\<open>syncFolder\<close>). A dry run goes the same way without
  the writes.
\<close>

section \<open>Settling what a crash left in flight\<close>

definition identify :: "(string \<Rightarrow> string) \<Rightarrow> go_error + msg_meta list \<Rightarrow> go_error + identity option" where
  "identify sha metas =
     (case metas of
        Inl e \<Rightarrow> if err_is e ErrMessageGone then Inr None else Inl (WrapErr [e])
      | Inr [] \<Rightarrow> Inr None
      | Inr (m # ms) \<Rightarrow> Inr (Some (parse_ident sha (meta_header m))))"

record recover_says =
  rc_ended :: "nat \<Rightarrow> go_error option"
  rc_meta :: "nat \<Rightarrow> go_error + msg_meta list"
  rc_search :: "string \<times> string \<Rightarrow> go_error + nat list"

definition expunged_in_flight :: string where
  "expunged_in_flight = ''source message expunged while its copy was in flight; destination state unknown''"

fun recover_from ::
  "(string \<Rightarrow> string) \<Rightarrow> recover_says \<Rightarrow> nat \<Rightarrow> nat \<Rightarrow> nat \<Rightarrow> msg_row list \<Rightarrow> nat \<Rightarrow> db \<Rightarrow> go_error option \<times> nat \<times> db" where
  "recover_from sha says fid dv n [] adopted d = (None, adopted, d)"
| "recover_from sha says fid dv n (m # ms) adopted d =
     (case rc_ended says n of
        Some e \<Rightarrow> (Some e, adopted, d)
      | None \<Rightarrow>
          (case identify sha (rc_meta says (src_uid m)) of
             Inl e \<Rightarrow> (Some e, adopted, d)
           | Inr None \<Rightarrow>
               (case fail_append fid (fst (snd (m_key m))) (src_uid m) expunged_in_flight d of
                  Inl x \<Rightarrow> (Some (db_failure x), adopted, d)
                | Inr d \<Rightarrow> recover_from sha says fid dv (n + 1) ms adopted d)
           | Inr (Some i) \<Rightarrow>
               (let t = locate (rc_search says) i (stamp_id m \<noteq> []) in
                if t = 0 then recover_from sha says fid dv (n + 1) ms adopted d
                else
                  (case complete_append fid (fst (snd (m_key m))) (src_uid m) dv t d of
                     Inl x \<Rightarrow> (Some (db_failure x), adopted, d)
                   | Inr d \<Rightarrow> recover_from sha says fid dv (n + 1) ms (adopted + 1) d))))"

definition recover :: "(string \<Rightarrow> string) \<Rightarrow> recover_says \<Rightarrow> nat \<Rightarrow> nat \<Rightarrow> db \<Rightarrow> go_error option \<times> nat \<times> db" where
  "recover sha says fid dv d = recover_from sha says fid dv 0 (in_flight fid d) 0 d"

section \<open>Preparing a folder\<close>

text \<open>The error of a mailbox that cannot be written to.\<close>

definition read_only_error :: go_error where
  "read_only_error = PlainErr ''destination mailbox is read-only''"

definition open_dest :: "go_error + mailbox \<Rightarrow> nat \<Rightarrow> nat \<Rightarrow> db \<Rightarrow> (go_error + mailbox \<times> bool) \<times> db" where
  "open_dest chosen fid sv d =
     (case chosen of
        Inl e \<Rightarrow> (Inl (WrapErr [e]), d)
      | Inr box \<Rightarrow>
          if box_read_only box then (Inl read_only_error, d)
          else
            (case fence_uid_validity fid sv (box_validity box) d of
               Inl x \<Rightarrow> (Inl (WrapErr [db_failure x]), d)
             | Inr (same, d) \<Rightarrow> (Inr (box, same), d)))"

definition note_missing :: "int \<Rightarrow> live \<Rightarrow> live" where
  "note_missing n = on_report (\<lambda>r. r\<lparr>r_missing := r_missing r + n\<rparr>)"

definition note_recovered :: "int \<Rightarrow> live \<Rightarrow> live" where
  "note_recovered n = on_report (\<lambda>r. r\<lparr>r_adopted := r_adopted r + n\<rparr>)"

definition reconcile_folder ::
  "(string \<Rightarrow> string) \<Rightarrow> sync_opts \<Rightarrow> recover_says \<Rightarrow> view \<Rightarrow> nat \<Rightarrow> mailbox \<Rightarrow> mailbox \<Rightarrow> bool \<Rightarrow> live \<Rightarrow> db
     \<Rightarrow> go_error option \<times> live \<times> db" where
  "reconcile_folder sha opts says v fid src dst same l d =
     (case recover sha says fid (box_validity dst) d of
        (Some e, adopted, d) \<Rightarrow> (Some (WrapErr [e]), l, d)
      | (None, adopted, d) \<Rightarrow>
          (let l = note_recovered (int adopted) l in
           if \<not> same then (None, l, d)
           else
             (case verify_claims opts v d fid src dst of
                Inl e \<Rightarrow> (Some e, l, d)
              | Inr (n, d) \<Rightarrow> (None, note_missing (int n) l, d))))"

definition searched_into ::
  "sync_opts \<Rightarrow> (search \<Rightarrow> go_error + nat list) \<Rightarrow> nat list \<Rightarrow> go_error + nat list \<times> nat" where
  "searched_into opts search_for todo =
     (if is_zero (source_search opts) then Inr (todo, 0)
      else bind_err (wrap_err (search_for (source_search opts))) (\<lambda>matched. Inr (keep_matching todo matched)))"

record prepare_says =
  pr_src_lease :: "go_error option"
  pr_src_box :: "go_error + mailbox"
  pr_status :: "string \<Rightarrow> dest_status option"
  pr_dst_lease :: "go_error option"
  pr_dst_box :: "go_error + mailbox"
  pr_recover :: recover_says
  pr_view :: view
  pr_uids :: "go_error + nat list"
  pr_search :: "search \<Rightarrow> go_error + nat list"

definition no_mailbox :: mailbox where
  "no_mailbox = \<lparr>box_name = [], box_validity = 0, box_messages = 0, box_modseq = 0, box_read_only = False\<rparr>"

definition skipped_folder :: "nat \<Rightarrow> mailbox \<Rightarrow> prepared" where
  "skipped_folder fid src =
     \<lparr>p_folder = fid, p_src = src, p_dst = no_mailbox, p_todo = [], p_since = 0, p_skipped = True, p_live = [],
      p_mirror = None\<rparr>"

text \<open>Once both mailboxes are open: settle, diff, narrow, index.\<close>

definition diff_folder ::
  "(string \<Rightarrow> string) \<Rightarrow> sync_opts \<Rightarrow> prepare_says \<Rightarrow> folder_row \<Rightarrow> mailbox \<Rightarrow> mailbox \<Rightarrow> bool \<Rightarrow> live \<Rightarrow> db
     \<Rightarrow> (go_error + prepared) \<times> live \<times> db" where
  "diff_folder sha opts says row src dst same l d =
     (case reconcile_folder sha opts (pr_recover says) (pr_view says) (f_id row) src dst same l d of
        (Some e, l, d) \<Rightarrow> (Inl e, l, d)
      | (None, l, d) \<Rightarrow>
          (case pr_uids says of
             Inl e \<Rightarrow> (Inl (WrapErr [e]), l, d)
           | Inr us \<Rightarrow>
               (let (todo, r) = triage (synced_uids (f_id row) (box_validity src) d) us (l_report l);
                    l = l\<lparr>l_report := r\<rparr>
                in case searched_into opts (pr_search says) todo of
                     Inl e \<Rightarrow> (Inl e, l, d)
                   | Inr (todo, dropped) \<Rightarrow>
                       (let l = (if dropped > 0 then note_filtered (int dropped) l else l);
                            p = \<lparr>p_folder = f_id row, p_src = src, p_dst = dst, p_todo = todo,
                                 p_since = watermark row same, p_skipped = False,
                                 p_live = (if delete2 opts then sort us else []), p_mirror = None\<rparr>
                        in if todo \<noteq> [] \<and> box_messages dst > 0 \<and> (last_sync row = 0 \<or> \<not> same)
                           then (case index_destination sha (pr_view says) d (f_id row) dst l of
                                   (Inl e, l) \<Rightarrow> (Inl e, l, d)
                                 | (Inr a, l) \<Rightarrow> (Inr p, l\<lparr>l_index := a\<rparr>, d))
                           else (Inr p, l, d)))))"

definition prepare_folder ::
  "(string \<Rightarrow> string) \<Rightarrow> sync_opts \<Rightarrow> prepare_says \<Rightarrow> pair \<Rightarrow> live \<Rightarrow> db \<Rightarrow> (go_error + prepared) \<times> live \<times> db" where
  "prepare_folder sha opts says fp l d =
     (case pr_src_lease says of
        Some e \<Rightarrow> (Inl (WrapErr [e]), l, d)
      | None \<Rightarrow>
          (case pr_src_box says of
             Inl e \<Rightarrow> (Inl (WrapErr [e]), l, d)
           | Inr src \<Rightarrow>
               (let l = on_report (\<lambda>r. r\<lparr>r_messages := int (box_messages src)\<rparr>) l;
                    (found, d) = ensure_folder (pair_name opts) (p_source fp) (p_dest fp) d
                in case found of
                     None \<Rightarrow> (Inl (WrapErr [PlainErr ''sql: no rows in result set'']), l, d)
                   | Some row \<Rightarrow>
                       if can_skip opts (pr_status says) d row src (p_dest fp)
                       then (Inr (skipped_folder (f_id row) src),
                             on_report (\<lambda>r. r\<lparr>r_already := int (box_messages src)\<rparr>) l, d)
                       else
                         (case pr_dst_lease says of
                            Some e \<Rightarrow> (Inl (WrapErr [e]), l, d)
                          | None \<Rightarrow>
                              (case open_dest (pr_dst_box says) (f_id row) (box_validity src) d of
                                 (Inl e, d) \<Rightarrow> (Inl e, l, d)
                               | (Inr (dst, same), d) \<Rightarrow> diff_folder sha opts says row src dst same l d)))))"


section \<open>After the copy\<close>

text \<open>Repeats are recorded against the copy that stands for them, where it landed.\<close>

fun settle_repeats :: "prepared \<Rightarrow> mirror list \<Rightarrow> (nat \<times> nat) list \<Rightarrow> nat \<Rightarrow> db \<Rightarrow> db_error option \<times> nat \<times> db" where
  "settle_repeats p mirrors [] settled d = (None, settled, d)"
| "settle_repeats p mirrors ((u, survivor) # ds) settled d =
     (case find (\<lambda>m. mir_src m = survivor) mirrors of
        None \<Rightarrow> settle_repeats p mirrors ds settled d
      | Some m \<Rightarrow>
          if mir_dst m = 0 then settle_repeats p mirrors ds settled d
          else
            (case complete_append (p_folder p) (box_validity (p_src p)) u (box_validity (p_dst p)) (mir_dst m) d of
               Inl x \<Rightarrow> (Some x, settled, d)
             | Inr d \<Rightarrow> settle_repeats p mirrors ds (settled + 1) d))"

definition settle_duplicates :: "prepared \<Rightarrow> live \<Rightarrow> db \<Rightarrow> go_error option \<times> prepared \<times> live \<times> db" where
  "settle_duplicates p l d =
     (if l_dupes l = [] then (None, p, l, d)
      else
        (let (mirrors, p) = load_mirror d p in
         case settle_repeats p mirrors (l_dupes l) 0 d of
           (Some x, settled, d) \<Rightarrow> (Some (WrapErr [db_failure x]), p, l, d)
         | (None, settled, d) \<Rightarrow> (None, p, note_deduplicated (int settled) l, d)))"

section \<open>Flags\<close>

record flag_says =
  fl_src_lease :: "go_error option"
  fl_src_select :: "go_error option"
  fl_current :: "int \<Rightarrow> go_error + (nat \<times> string list) list"
  fl_dst_lease :: "go_error option"
  fl_dst_select :: "go_error option"
  fl_ended :: "nat \<Rightarrow> go_error option"
  fl_store :: "nat \<Rightarrow> string list \<Rightarrow> go_error option"

definition source_flags :: "flag_says \<Rightarrow> int \<Rightarrow> go_error + (nat \<times> string list) list" where
  "source_flags says since =
     (case fl_src_lease says of
        Some e \<Rightarrow> Inl (WrapErr [e])
      | None \<Rightarrow> (case fl_src_select says of Some e \<Rightarrow> Inl (WrapErr [e]) | None \<Rightarrow> fl_current says since))"

record flag_change =
  fc_src :: nat
  fc_dst :: nat
  fc_flags :: "string list"
  fc_text :: string

definition flag_change_of :: "mirror list \<Rightarrow> nat \<times> string list \<Rightarrow> flag_change option" where
  "flag_change_of mirrors fs =
     (case find (\<lambda>m. mir_src m = fst fs) mirrors of
        None \<Rightarrow> None
      | Some m \<Rightarrow>
          (let fl = copyable_flags (snd fs); txt = flag_text fl in
           if txt = flag_text (fields_str (mir_flags m)) then None
           else Some \<lparr>fc_src = fst fs, fc_dst = mir_dst m, fc_flags = fl, fc_text = txt\<rparr>))"

definition flag_changes :: "mirror list \<Rightarrow> (nat \<times> string list) list \<Rightarrow> flag_change list" where
  "flag_changes mirrors current = List.map_filter (flag_change_of mirrors) current"

text \<open>The STOREs issued, as destination UID and flags, come with the result.\<close>

fun store_changes ::
  "(go_error \<Rightarrow> string) \<Rightarrow> flag_says \<Rightarrow> prepared \<Rightarrow> nat \<Rightarrow> flag_change list \<Rightarrow> live \<Rightarrow> db
     \<Rightarrow> go_error option \<times> (nat \<times> string list) list \<times> live \<times> db" where
  "store_changes message says p n [] l d = (None, [], l, d)"
| "store_changes message says p n (c # cs) l d =
     (case fl_ended says n of
        Some e \<Rightarrow> (Some e, [], l, d)
      | None \<Rightarrow>
          (case fl_store says (fc_dst c) (fc_flags c) of
             Some e \<Rightarrow>
               if err_is e ErrConnectionBroken then (Some (WrapErr [e]), [(fc_dst c, fc_flags c)], l, d)
               else
                 (let (x, sent, l, d) = store_changes message says p (n + 1) cs
                        (note_failed (fc_src c) (''storing flags: '' @ message e) l) d
                  in (x, (fc_dst c, fc_flags c) # sent, l, d))
           | None \<Rightarrow>
               (case record_flags (p_folder p) (box_validity (p_src p)) (fc_src c) (fc_text c) d of
                  Inl x \<Rightarrow> (Some (WrapErr [db_failure x]), [(fc_dst c, fc_flags c)], l, d)
                | Inr d \<Rightarrow>
                    (let (x, sent, l, d) = store_changes message says p (n + 1) cs (note_reflagged l) d
                     in (x, (fc_dst c, fc_flags c) # sent, l, d)))))"

definition resync_flags ::
  "(go_error \<Rightarrow> string) \<Rightarrow> sync_opts \<Rightarrow> flag_says \<Rightarrow> prepared \<Rightarrow> live \<Rightarrow> db
     \<Rightarrow> go_error option \<times> (nat \<times> string list) list \<times> prepared \<times> live \<times> db" where
  "resync_flags message opts says p l d =
     (if no_resync_flags opts \<or> p_skipped p then (None, [], p, l, d)
      else
        (let (mirrors, p) = load_mirror d p in
         if mirrors = [] then (None, [], p, l, d)
         else
           (case source_flags says (p_since p) of
              Inl e \<Rightarrow> (Some e, [], p, l, d)
            | Inr current \<Rightarrow>
                (let changes = flag_changes mirrors current in
                 if changes = [] then (None, [], p, l, d)
                 else
                   (case fl_dst_lease says of
                      Some e \<Rightarrow> (Some (WrapErr [e]), [], p, l, d)
                    | None \<Rightarrow>
                        (case fl_dst_select says of
                           Some e \<Rightarrow> (Some (WrapErr [e]), [], p, l, d)
                         | None \<Rightarrow>
                             (let (x, sent, l, d) = store_changes message says p 0 changes l d
                              in (x, sent, p, l, d))))))))"

section \<open>One folder\<close>

text \<open>What the stages after the copy are answered. Each of the two destructive stages leases and selects the
  destination itself.\<close>

record finish_says =
  fi_flags :: flag_says
  fi_delete_lease :: "go_error option"
  fi_delete_box :: "go_error + mailbox"
  fi_delete_view :: view
  fi_delete :: "nat list \<Rightarrow> go_error option"
  fi_dedupe_lease :: "go_error option"
  fi_dedupe_box :: "go_error + mailbox"
  fi_dedupe_view :: view
  fi_dedupe :: "nat list \<Rightarrow> go_error option"
  fi_now :: int

text \<open>What the destination was asked to change after the copy.\<close>

record requests =
  rq_flags :: "(nat \<times> string list) list"
  rq_deleted :: "nat list"
  rq_removed :: "nat list"

definition no_requests :: requests where
  "no_requests = \<lparr>rq_flags = [], rq_deleted = [], rq_removed = []\<rparr>"

definition finish_folder ::
  "(string \<Rightarrow> string) \<Rightarrow> (go_error \<Rightarrow> string) \<Rightarrow> sync_opts \<Rightarrow> finish_says \<Rightarrow> prepared \<Rightarrow> live \<Rightarrow> db
     \<Rightarrow> (go_error option \<times> folder_report) \<times> requests \<times> live \<times> db" where
  "finish_folder sha message opts says p l d =
     (case settle_duplicates p l d of
        (Some e, p, l, d) \<Rightarrow> ((Some e, l_report l), no_requests, l, d)
      | (None, p, l, d) \<Rightarrow>
     (case resync_flags message opts (fi_flags says) p l d of
        (Some e, sent, p, l, d) \<Rightarrow> ((Some e, l_report l), no_requests\<lparr>rq_flags := sent\<rparr>, l, d)
      | (None, sent, p, l, d) \<Rightarrow>
     (case delete_vanished sha opts (fi_delete_lease says) (fi_delete_box says) (fi_delete_view says) (fi_delete says) p l d of
        (Some e, us, p, l, d) \<Rightarrow> ((Some e, l_report l), no_requests\<lparr>rq_flags := sent, rq_deleted := us\<rparr>, l, d)
      | (None, us, p, l, d) \<Rightarrow>
     (case remove_dest_duplicates sha opts (fi_dedupe_lease says) (fi_dedupe_box says) (fi_dedupe_view says) (fi_dedupe says) p l d of
        (Some e, vs, l, d) \<Rightarrow> ((Some e, l_report l), \<lparr>rq_flags = sent, rq_deleted = us, rq_removed = vs\<rparr>, l, d)
      | (None, vs, l, d) \<Rightarrow>
          (let fr = l_report l in
           ((None, fr), \<lparr>rq_flags = sent, rq_deleted = us, rq_removed = vs\<rparr>, l,
            mark_synced (p_folder p) (earned_modseq fr (p_src p)) (earned_deleted opts fr (p_src p)) (fi_now says) d))))))"

text \<open>The run of one folder: prepared, copied by workers in any order, finished.\<close>

inductive folder_run ::
  "(string \<Rightarrow> string) \<Rightarrow> (string \<Rightarrow> go_time option) \<Rightarrow> (go_error \<Rightarrow> string) \<Rightarrow> sync_opts \<Rightarrow> go_time \<Rightarrow> pair \<Rightarrow> health \<Rightarrow> db
     \<Rightarrow> (go_error option \<times> folder_report) \<Rightarrow> requests \<Rightarrow> db \<Rightarrow> bool"
  for sha mail_date message opts started fp hp d where
  unprepared: "folder_run sha mail_date message opts started fp hp d (Some e, l_report l) no_requests d1"
  if "prepare_folder sha opts says fp (new_live (p_source fp) (p_dest fp) hp) d = (Inl e, l, d1)"
| uncopied: "folder_run sha mail_date message opts started fp hp d (Some e, l_report (c_live s)) no_requests (c_db s)"
  if "prepare_folder sha opts says fp (new_live (p_source fp) (p_dest fp) hp) d = (Inr p, l, d1)"
    and "(copy_step sha mail_date message opts started p)\<^sup>*\<^sup>* (start_copy p l d1) s"
    and "at_rest s" and "c_over s = Some e"
| finished: "folder_run sha mail_date message opts started fp hp d r rq d2"
  if "prepare_folder sha opts says fp (new_live (p_source fp) (p_dest fp) hp) d = (Inr p, l, d1)"
    and "(copy_step sha mail_date message opts started p)\<^sup>*\<^sup>* (start_copy p l d1) s"
    and "at_rest s" and "c_over s = None"
    and "finish_folder sha message opts fsays p (c_live s) (c_db s) = (r, rq, l', d2)"

inductive_cases folder_runE: "folder_run sha mail_date message opts started fp hp d r rq d2"


section \<open>A dry run\<close>

record dry_says =
  dr_src_lease :: "go_error option"
  dr_src_box :: "go_error + mailbox"
  dr_uids :: "go_error + nat list"
  dr_search :: "search \<Rightarrow> go_error + nat list"
  dr_metas :: "nat list \<Rightarrow> go_error + msg_meta list"
  dr_verify_lease :: "go_error option"
  dr_verify_box :: "go_error + mailbox"
  dr_verify_view :: view
  dr_delete_lease :: "go_error option"
  dr_delete_box :: "go_error + mailbox"
  dr_delete_view :: view
  dr_dedupe_lease :: "go_error option"
  dr_dedupe_box :: "go_error + mailbox"
  dr_dedupe_view :: view

definition dry_run_verify :: "sync_opts \<Rightarrow> dry_says \<Rightarrow> db \<Rightarrow> nat \<Rightarrow> mailbox \<Rightarrow> go_error + nat list" where
  "dry_run_verify opts says d fid src =
     (if no_verify_dest opts then Inr []
      else
        (case dr_verify_lease says of
           Some e \<Rightarrow> Inl (WrapErr [e])
         | None \<Rightarrow>
             (case dr_verify_box says of
                Inl e \<Rightarrow> Inl (WrapErr [e])
              | Inr dst \<Rightarrow>
                  (let claimed = claimed_count fid (box_validity src) (box_validity dst) d in
                   if claimed = 0 \<or> \<not> full opts \<and> claimed \<le> box_messages dst then Inr []
                   else unhonoured (dr_verify_view says) d fid src dst))))"

fun dry_triage :: "(nat \<Rightarrow> msg_state option) \<Rightarrow> nat list \<Rightarrow> nat list \<Rightarrow> folder_report \<Rightarrow> nat list \<times> folder_report" where
  "dry_triage known lost [] r = ([], r)"
| "dry_triage known lost (u # us) r =
     (if known u = Some Done then
        (if List.member lost u
         then (let (todo, r) = dry_triage known lost us (r\<lparr>r_missing := r_missing r + 1\<rparr>) in (u # todo, r))
         else dry_triage known lost us (r\<lparr>r_already := r_already r + 1\<rparr>))
      else if known u = Some Gone then dry_triage known lost us (r\<lparr>r_vanished := r_vanished r + 1\<rparr>)
      else (let (todo, r) = dry_triage known lost us r in (u # todo, r)))"

text \<open>The messages of the copy list the filter leaves out, a chunk at a time.\<close>

fun dry_filter_from ::
  "(string \<Rightarrow> go_time option) \<Rightarrow> filter_opts \<Rightarrow> go_time \<Rightarrow> dry_says \<Rightarrow> nat list list \<Rightarrow> folder_report
     \<Rightarrow> go_error option \<times> folder_report" where
  "dry_filter_from mail_date f started says [] r = (None, r)"
| "dry_filter_from mail_date f started says (c # cs) r =
     (case dr_metas says c of
        Inl e \<Rightarrow> (Some (WrapErr [e]), r)
      | Inr metas \<Rightarrow>
          (let n = int (length (filter (\<lambda>m. \<not> wants f (meta_size m) (sent_date mail_date (meta_header m)) (meta_date m) started) metas))
           in dry_filter_from mail_date f started says cs (r\<lparr>r_copied := r_copied r - n, r_filtered := r_filtered r + n\<rparr>)))"

definition dry_run_filter ::
  "(string \<Rightarrow> go_time option) \<Rightarrow> sync_opts \<Rightarrow> go_time \<Rightarrow> dry_says \<Rightarrow> nat list \<Rightarrow> folder_report
     \<Rightarrow> go_error option \<times> folder_report" where
  "dry_run_filter mail_date opts started says todo r =
     (if \<not> active (o_filter opts) \<or> todo = [] then (None, r)
      else dry_filter_from mail_date (o_filter opts) started says (batches copy_chunk todo) r)"

definition dry_run_deletions ::
  "(string \<Rightarrow> string) \<Rightarrow> sync_opts \<Rightarrow> dry_says \<Rightarrow> db \<Rightarrow> nat \<Rightarrow> mailbox \<Rightarrow> nat list \<Rightarrow> folder_report
     \<Rightarrow> go_error option \<times> folder_report" where
  "dry_run_deletions sha opts says d fid src us r =
     (case dr_delete_lease says of
        Some e \<Rightarrow> (Some (WrapErr [e]), r)
      | None \<Rightarrow>
          (case dr_delete_box says of
             Inl e \<Rightarrow> (Some (WrapErr [e]), r)
           | Inr dst \<Rightarrow>
               (let p = \<lparr>p_folder = fid, p_src = src, p_dst = dst, p_todo = [], p_since = 0, p_skipped = False,
                         p_live = sort us, p_mirror = None\<rparr>
                in case fst (condemned sha opts (dr_delete_view says) d p dst) of
                     Inl e \<Rightarrow> (Some e, r)
                   | Inr (doomed, population, allowed) \<Rightarrow>
                       if doomed = [] then (None, r)
                       else if \<not> allowed
                         then (None, r\<lparr>r_refused := int (length doomed), r_dest_messages := int population\<rparr>)
                       else (None, r\<lparr>r_deleted := int (length doomed)\<rparr>))))"

text \<open>\<open>dedupeDest\<close> with its writes withheld: the server it would ask is never asked.\<close>

definition dry_run_duplicates ::
  "(string \<Rightarrow> string) \<Rightarrow> sync_opts \<Rightarrow> dry_says \<Rightarrow> db \<Rightarrow> nat \<Rightarrow> mailbox \<Rightarrow> folder_report
     \<Rightarrow> (go_error option \<times> folder_report) \<times> nat list \<times> db" where
  "dry_run_duplicates sha opts says d fid src r =
     (if \<not> dedupe_dest_wanted opts then ((None, r), [], d)
      else
        (case dr_dedupe_lease says of
           Some e \<Rightarrow> ((Some (WrapErr [e]), r), [], d)
         | None \<Rightarrow>
             (case dr_dedupe_box says of
                Inl e \<Rightarrow> ((Some (WrapErr [e]), r), [], d)
              | Inr dst \<Rightarrow>
                  (case dedupe_dest sha opts (dr_dedupe_view says) (\<lambda>_. None) fid (box_validity src) (box_validity dst) True d of
                     ((Some e, res), us, d) \<Rightarrow> ((Some e, r), us, d)
                   | ((None, res), us, d) \<Rightarrow>
                       ((None, r\<lparr>r_removed := int (d_removed res), r_refused := r_refused r + int (d_refused res)\<rparr>), us, d)))))"

definition dry_run_folder ::
  "(string \<Rightarrow> string) \<Rightarrow> (string \<Rightarrow> go_time option) \<Rightarrow> sync_opts \<Rightarrow> go_time \<Rightarrow> dry_says \<Rightarrow> pair \<Rightarrow> db
     \<Rightarrow> (go_error option \<times> folder_report) \<times> nat list \<times> db" where
  "dry_run_folder sha mail_date opts started says fp d =
     (let r = new_report (p_source fp) (p_dest fp) in
      case dr_src_lease says of
        Some e \<Rightarrow> ((Some (WrapErr [e]), r), [], d)
      | None \<Rightarrow>
     (case dr_src_box says of
        Inl e \<Rightarrow> ((Some (WrapErr [e]), r), [], d)
      | Inr src \<Rightarrow>
     (let r = r\<lparr>r_messages := int (box_messages src)\<rparr> in
      if create_dest fp then ((None, r\<lparr>r_copied := r_messages r\<rparr>), [], d)
      else
     (case ensure_folder (pair_name opts) (p_source fp) (p_dest fp) d of
        (None, d) \<Rightarrow> ((Some (WrapErr [PlainErr ''sql: no rows in result set'']), r), [], d)
      | (Some row, d) \<Rightarrow>
     (case dr_uids says of
        Inl e \<Rightarrow> ((Some (WrapErr [e]), r), [], d)
      | Inr us \<Rightarrow>
     (case dry_run_verify opts says d (f_id row) src of
        Inl e \<Rightarrow> ((Some e, r), [], d)
      | Inr lost \<Rightarrow>
     (let (todo, r) = dry_triage (synced_uids (f_id row) (box_validity src) d) lost us r in
      case searched_into opts (dr_search says) todo of
        Inl e \<Rightarrow> ((Some e, r), [], d)
      | Inr (todo, dropped) \<Rightarrow>
     (let r = r\<lparr>r_filtered := r_filtered r + int dropped, r_copied := int (length todo)\<rparr> in
      case dry_run_filter mail_date opts started says todo r of
        (Some e, r) \<Rightarrow> ((Some e, r), [], d)
      | (None, r) \<Rightarrow>
     (case (if delete2 opts then dry_run_deletions sha opts says d (f_id row) src us r else (None, r)) of
        (Some e, r) \<Rightarrow> ((Some e, r), [], d)
      | (None, r) \<Rightarrow> dry_run_duplicates sha opts says d (f_id row) src r)))))))))"


section \<open>A dry run changes nothing and previews the run\<close>

lemma dry_dedupe:
  assumes "dedupe_dest sha opts v remove fid sv dv True d = (r, us, d')"
  shows "us = [] \<and> d' = d"
  using assms by (auto simp: dedupe_dest_def Let_def split: sum.splits prod.splits if_splits)

lemma dry_duplicates:
  assumes "dry_run_duplicates sha opts says d fid src r = (x, us, d')"
  shows "us = [] \<and> d' = d"
  using assms dry_dedupe unfolding dry_run_duplicates_def
  by (auto split: if_splits option.splits sum.splits prod.splits; blast)

text \<open>A dry run asks no server to remove anything and leaves every message row as it was. The one thing it
  writes is the folder's own row, where there was none or the destination's name had changed.\<close>

theorem dry_run_writes_no_message:
  "case dry_run_folder sha mail_date opts started says fp d of
     (r, us, d') \<Rightarrow> us = [] \<and> db.messages d' = db.messages d \<and>
       (folders d' = folders d \<or> folders d' = folders (snd (ensure_folder (pair_name opts) (p_source fp) (p_dest fp) d)))"
proof -
  obtain r us d' where eq: "dry_run_folder sha mail_date opts started says fp d = (r, us, d')" by (metis prod.collapse)
  obtain row d1 where e: "ensure_folder (pair_name opts) (p_source fp) (p_dest fp) d = (row, d1)" by fastforce
  then have d1: "db.messages d1 = db.messages d" by (auto simp: ensure_folder_def Let_def)
  have "us = [] \<and> (d' = d \<or> d' = d1)"
    using eq e dry_duplicates unfolding dry_run_folder_def Let_def
    by (auto split: option.splits sum.splits if_splits prod.splits; blast)
  then show ?thesis using eq e d1 by auto
qed


text \<open>What is condemned depends on the folder, the source's listing and the message map alone.\<close>

lemma strangers_cong:
  "p_live q = p_live p \<Longrightarrow> p_folder q = p_folder p \<Longrightarrow> p_src q = p_src p \<Longrightarrow> strangers sha v d q box = strangers sha v d p box"
proof -
  assume p: "p_live q = p_live p" "p_folder q = p_folder p" "p_src q = p_src p"
  then have "source_idents d q = source_idents d p" by (simp add: source_idents_def)
  with p show ?thesis unfolding strangers_def by (simp only:)
qed

lemma condemned_cong:
  assumes "p_live q = p_live p" and "p_folder q = p_folder p" and "p_src q = p_src p"
    and "p_mirror q = None" and "p_mirror p = None"
  shows "fst (condemned sha opts v d q box) = fst (condemned sha opts v d p box)"
  using assms
  by (simp add: condemned_def load_mirror_def Let_def
      strangers_cong [of "q\<lparr>p_dst := box, p_mirror := m\<rparr>" "p\<lparr>p_dst := box, p_mirror := m\<rparr>" for m])



text \<open>The deletion of SyncDelete's sample, previewed.\<close>

definition sample_dry :: dry_says where
  "sample_dry =
     \<lparr>dr_src_lease = None, dr_src_box = Inr (sample_box 5 9), dr_uids = Inr [4], dr_search = (\<lambda>_. Inr []),
      dr_metas = (\<lambda>_. Inr []), dr_verify_lease = None, dr_verify_box = Inr (sample_box 7 2),
      dr_verify_view = sample_view [10, 11], dr_delete_lease = None, dr_delete_box = Inr (sample_box 7 2),
      dr_delete_view = sample_view [10, 11], dr_dedupe_lease = None, dr_dedupe_box = Inr (sample_box 7 2),
      dr_dedupe_view = sample_view [10, 11]\<rparr>"



section \<open>Recovery\<close>

text \<open>What becomes of one suspect.\<close>

definition suspect_after :: "(string \<Rightarrow> string) \<Rightarrow> recover_says \<Rightarrow> nat \<Rightarrow> msg_row \<Rightarrow> msg_row" where
  "suspect_after sha says dv m =
     (case identify sha (rc_meta says (src_uid m)) of
        Inl e \<Rightarrow> m
      | Inr None \<Rightarrow> m\<lparr>m_state := Failed, last_error := expunged_in_flight\<rparr>
      | Inr (Some i) \<Rightarrow>
          (let t = locate (rc_search says) i (stamp_id m \<noteq> []) in
           if t = 0 then m else m\<lparr>m_state := Done, m_dst_validity := dv, m_dst_uid := t, last_error := []\<rparr>))"

definition suspect_found :: "(string \<Rightarrow> string) \<Rightarrow> recover_says \<Rightarrow> msg_row \<Rightarrow> bool" where
  "suspect_found sha says m \<longleftrightarrow>
     (case identify sha (rc_meta says (src_uid m)) of
        Inr (Some i) \<Rightarrow> locate (rc_search says) i (stamp_id m \<noteq> []) \<noteq> 0 | _ \<Rightarrow> False)"

lemma update_one_row:
  assumes "keyed d" and "m \<in> set (db.messages d)" and "update_message (m_key m) f d = Inr d'"
  shows "db.messages d' = map (\<lambda>r. if r = m then f m else r) (db.messages d) \<and> folders d' = folders d"
proof -
  have "r = m" if "r \<in> set (db.messages d)" "m_key r = m_key m" for r
    using assms(1,2) that by (auto simp: keyed_def distinct_map dest: inj_onD)
  with assms(3) show ?thesis by (auto simp: update_message_def set_where_def split: if_splits)
qed

lemma suspect_key: "m_key (suspect_after sha says dv m) = m_key m"
  by (simp add: suspect_after_def Let_def split: sum.split option.split)

lemma recover_from_map:
  assumes "recover_from sha says fid dv n ms a d = (None, b, d')" and "keyed d"
    and "set ms \<subseteq> set (db.messages d)" and "distinct ms" and "\<forall>m \<in> set ms. fst (m_key m) = fid"
  shows "db.messages d' = map (\<lambda>r. if r \<in> set ms then suspect_after sha says dv r else r) (db.messages d) \<and>
    folders d' = folders d \<and> b = a + length (filter (suspect_found sha says) ms)"
  using assms
proof (induction ms arbitrary: n a d)
  case (Cons m ms)
  let ?s = "suspect_after sha says dv"
  have k: "m_key m = (fid, fst (snd (m_key m)), src_uid m)" using Cons.prems(5) by (simp add: src_uid_def prod_eq_iff)
  have step: ?case if rest: "recover_from sha says fid dv (n + 1) ms a' d1 = (None, b, d')"
    and d1: "db.messages d1 = map (\<lambda>r. if r = m then ?s m else r) (db.messages d)" "folders d1 = folders d"
    and a': "a' = a + (if suspect_found sha says m then 1 else 0)" for a' d1
  proof -
    have keys: "map m_key (db.messages d1) = map m_key (db.messages d)" unfolding d1 by (simp add: suspect_key comp_def)
    with Cons.prems(2) d1(2) have "keyed d1" by (simp add: keyed_def)
    moreover have "set ms \<subseteq> set (db.messages d1)" using Cons.prems(3,4) unfolding d1 by auto
    ultimately have IH: "db.messages d' = map (\<lambda>r. if r \<in> set ms then ?s r else r) (db.messages d1) \<and> folders d' = folders d1 \<and>
        b = a' + length (filter (suspect_found sha says) ms)"
      using Cons.IH [OF rest] Cons.prems(4,5) by simp
    have "?s m \<notin> set ms"
    proof
      assume "?s m \<in> set ms"
      then have "?s m \<in> set (db.messages d)" using Cons.prems(3) by auto
      moreover have "m \<in> set (db.messages d)" using Cons.prems(3) by simp
      moreover have "inj_on m_key (set (db.messages d))" using Cons.prems(2) by (simp add: keyed_def distinct_map)
      ultimately have "?s m = m" by (intro inj_onD [of m_key]) (simp_all add: suspect_key)
      with \<open>?s m \<in> set ms\<close> Cons.prems(4) show False by simp
    qed
    with IH d1 a' show ?thesis by auto
  qed
  from Cons.prems(1) have e: "rc_ended says n = None" by (cases "rc_ended says n") simp_all
  show ?case
  proof (cases "identify sha (rc_meta says (src_uid m))")
    case (Inl x)
    with Cons.prems(1) e show ?thesis by simp
  next
    case (Inr oi)
    show ?thesis
    proof (cases oi)
      case None
      with Inr e Cons.prems(1) obtain d1 where d1: "fail_append fid (fst (snd (m_key m))) (src_uid m) expunged_in_flight d = Inr d1"
        and rest: "recover_from sha says fid dv (n + 1) ms a d1 = (None, b, d')" by (auto split: sum.splits)
      from update_one_row [OF Cons.prems(2), of m] d1 k Cons.prems(3)
      have "db.messages d1 = map (\<lambda>r. if r = m then m\<lparr>m_state := Failed, last_error := expunged_in_flight\<rparr> else r) (db.messages d)"
        "folders d1 = folders d" by (auto simp: fail_append_def)
      with Inr None show ?thesis by (intro step [OF rest]) (simp_all add: suspect_after_def suspect_found_def)
    next
      case (Some i)
      define t where "t = locate (rc_search says) i (stamp_id m \<noteq> [])"
      show ?thesis
      proof (cases "t = 0")
        case True
        with Inr Some e Cons.prems(1) have rest: "recover_from sha says fid dv (n + 1) ms a d = (None, b, d')"
          by (simp add: t_def)
        have "?s m = m" using Inr Some True by (simp add: suspect_after_def t_def)
        then have "map (\<lambda>r. if r = m then ?s m else r) (db.messages d) = db.messages d" by (simp add: map_idI)
        with Inr Some True show ?thesis by (intro step [OF rest]) (simp_all add: suspect_found_def t_def)
      next
        case False
        with Inr Some e Cons.prems(1) obtain d1 where d1: "complete_append fid (fst (snd (m_key m))) (src_uid m) dv t d = Inr d1"
          and rest: "recover_from sha says fid dv (n + 1) ms (a + 1) d1 = (None, b, d')" by (auto simp: t_def split: sum.splits)
        from update_one_row [OF Cons.prems(2), of m] d1 k Cons.prems(3)
        have "db.messages d1 = map (\<lambda>r. if r = m then m\<lparr>m_state := Done, m_dst_validity := dv, m_dst_uid := t, last_error := []\<rparr> else r)
            (db.messages d)" "folders d1 = folders d" by (auto simp: complete_append_def)
        with Inr Some False show ?thesis by (intro step [OF rest]) (simp_all add: suspect_after_def suspect_found_def t_def)
      qed
    qed
  qed
qed simp

text \<open>C9: Recovery, when it ends without an error, has done exactly this to the store: a row of the folder that was
  in flight has become failed if the source no longer has its message, copied - at the message of the destination
  the search found - if it is there, and is as it was if it is not; every other row is as it was. The number it
  reports is that of the rows now copied.\<close>

theorem recovery_is_exact:
  assumes "recover sha says fid dv d = (None, n, d')" and "keyed d"
  shows "db.messages d' = map (\<lambda>m. if in_folder fid m \<and> m_state m = InFlight then suspect_after sha says dv m else m) (db.messages d) \<and>
    folders d' = folders d \<and> n = length (filter (suspect_found sha says) (in_flight fid d))"
proof -
  have set: "set (in_flight fid d) = {m \<in> set (db.messages d). in_folder fid m \<and> m_state m = InFlight}" by (auto simp: in_flight_def)
  have "distinct (in_flight fid d)" by (simp add: in_flight_def distinct_rows [OF assms(2)])
  then have facts: "db.messages d' = map (\<lambda>r. if r \<in> set (in_flight fid d) then suspect_after sha says dv r else r) (db.messages d) \<and>
      folders d' = folders d \<and> n = 0 + length (filter (suspect_found sha says) (in_flight fid d))"
    by (intro recover_from_map [OF assms(1) [unfolded recover_def] assms(2)]) (auto simp: set in_folder_def)
  have "map (\<lambda>r. if r \<in> set (in_flight fid d) then suspect_after sha says dv r else r) (db.messages d) =
      map (\<lambda>m. if in_folder fid m \<and> m_state m = InFlight then suspect_after sha says dv m else m) (db.messages d)"
    by (rule map_cong) (simp_all add: set)
  with facts show ?thesis by simp
qed

text \<open>Of two rows a crash left in flight, the message of one is found at the destination's 12.\<close>

definition sample_recover :: recover_says where
  "sample_recover =
     \<lparr>rc_ended = (\<lambda>_. None), rc_meta = (\<lambda>u. if u = 4 then Inr [one_message] else Inr []), rc_search = (\<lambda>_. Inr [12])\<rparr>"

definition in_flight_row :: "nat \<Rightarrow> msg_row" where
  "in_flight_row u = (sample_row u 0)\<lparr>m_state := InFlight\<rparr>"

theorem recovery_is_exact_witness:
  "let d = sample_db [in_flight_row 3, in_flight_row 4]; (e, n, d') = recover id sample_recover 1 7 d
   in e = None \<and> n = 1 \<and> map m_state (db.messages d') = [Failed, Done] \<and> map m_dst_uid (db.messages d') = [0, 12]"
proof -
  let ?d = "sample_db [in_flight_row 3, in_flight_row 4]"
  obtain n d' where r: "recover id sample_recover 1 7 ?d = (None, n, d')"
  proof -
    have "fst (recover id sample_recover 1 7 ?d) = None" by code_simp
    then show ?thesis using that by (metis prod.collapse)
  qed
  have "keyed ?d" by (simp add: keyed_def in_flight_row_def samples)
  note facts = recovery_is_exact [OF r this]
  have "suspect_after id sample_recover 7 (in_flight_row 3) = (in_flight_row 3)\<lparr>m_state := Failed, last_error := expunged_in_flight\<rparr>"
    "suspect_after id sample_recover 7 (in_flight_row 4) = (in_flight_row 4)\<lparr>m_state := Done, m_dst_uid := 12\<rparr>"
    "length (filter (suspect_found id sample_recover) (in_flight 1 ?d)) = 1"
    by code_simp+
  with facts r show ?thesis by (simp add: samples in_flight_row_def in_folder_def)
qed

end
