(* ===== verification/Watermark.thy ===== *)
theory Watermark
  imports SyncFolder
begin

text \<open>
  When a folder's watermark may be trusted. The watermark written at the end of \<open>syncFolder\<close>
  (\<open>src/internal/syncer/syncer.go\<close>) lets a later run skip the folder unread, so every message the source listed
  has to be dealt with by then. Each stage of SyncFolder is shown to keep what the stages before it recorded, and
  the stages are composed.
\<close>

section \<open>Preparation\<close>

abbreviation settled :: "prepared \<Rightarrow> db \<Rightarrow> nat \<Rightarrow> bool" where
  "settled p d u \<equiv> status_of d (state_key p u) \<in> {Some Done, Some Gone}"

lemma triage_splits:
  "triage known us r = (todo, r') \<Longrightarrow> r_failed r' = r_failed r \<and> r_filtered r' = r_filtered r \<and> set todo \<subseteq> set us \<and>
     (distinct us \<longrightarrow> distinct todo) \<and> (\<forall>u \<in> set us. u \<in> set todo \<or> known u \<in> {Some Done, Some Gone})"
proof (induction us arbitrary: r todo)
  case (Cons u us)
  show ?case
  proof (cases "known u = Some Done \<or> known u = Some Gone")
    case True
    with Cons.prems obtain r1 where "triage known us r1 = (todo, r')" "r_failed r1 = r_failed r" "r_filtered r1 = r_filtered r"
      by (auto split: if_splits)
    with Cons.IH [of r1 todo] True show ?thesis by auto
  next
    case False
    with Cons.prems obtain t where "triage known us r = (t, r')" "todo = u # t" by (auto split: prod.splits)
    with Cons.IH [of r t] show ?thesis by auto
  qed
qed simp

lemma synced_status: "keyed d \<Longrightarrow> synced_uids fid sv d u = status_of d (fid, sv, u)"
proof -
  assume k: "keyed d"
  have "synced_uids fid sv d u = Some st \<longleftrightarrow> status_of d (fid, sv, u) = Some st" for st
    using synced_iff [OF k] by (auto simp: status_of_def)
  then show ?thesis by (metis option.exhaust)
qed

lemma headerless_counted:
  "r_failed (l_report (fold (count_headerless claimed) ms l)) = r_failed (l_report l) \<and>
   r_filtered (l_report (fold (count_headerless claimed) ms l)) = r_filtered (l_report l)"
  by (induction ms arbitrary: l) (simp_all add: count_headerless_def note_dest_headerless_def on_report_def)

lemma index_batches_report:
  "index_batches sha v claimed n bs a l = (x, l') \<Longrightarrow>
     r_failed (l_report l') = r_failed (l_report l) \<and> r_filtered (l_report l') = r_filtered (l_report l)"
proof (induction bs arbitrary: n a l)
  case (Cons b bs)
  then show ?case by (cases "v_ended v n"; cases "v_meta v b") (auto simp: headerless_counted dest: Cons.IH)
qed simp

lemma index_report:
  "index_destination sha v d fid box l = (x, l') \<Longrightarrow>
     r_failed (l_report l') = r_failed (l_report l) \<and> r_filtered (l_report l') = r_filtered (l_report l)"
  by (auto simp: index_destination_def dest: index_batches_report split: sum.splits if_splits)

lemma recover_keyed: "recover_from sha says fid dv n ms a d = (e, b, d') \<Longrightarrow> keyed d \<Longrightarrow> keyed d'"
proof (induction ms arbitrary: n a d)
  case (Cons m ms)
  have f: "keyed d1" if "fail_append fid s u why d = Inr d1" for s u why d1
    using that Cons.prems(2) by (auto simp: fail_append_def elim!: keyed_update)
  have c: "keyed d1" if "complete_append fid s u dv t d = Inr d1" for s u t d1
    using that Cons.prems(2) by (auto simp: complete_append_def elim!: keyed_update)
  from Cons.prems f c show ?case
    by (cases "rc_ended says n"; cases "identify sha (rc_meta says (src_uid m))")
      (auto simp: Let_def intro: Cons.IH split: option.splits sum.splits if_splits)
qed simp

lemma reconcile_keyed:
  assumes "reconcile_folder sha opts says v fid src dst same l d = (x, l', d')" and "keyed d"
  shows "keyed d' \<and> r_failed (l_report l') = r_failed (l_report l) \<and> r_filtered (l_report l') = r_filtered (l_report l)"
proof -
  obtain e n d1 where r: "recover sha says fid (box_validity dst) d = (e, n, d1)" by (metis prod.collapse)
  then have k: "keyed d1" using recover_keyed assms(2) by (simp add: recover_def)
  have "keyed d2" if "verify_claims opts v d1 fid src dst = Inr (m, d2)" for m d2
    using that k by (auto simp: verify_claims_def Let_def bind_err_Inr_iff keyed_forget split: if_splits)
  with r k assms(1) show ?thesis
    by (cases e; cases "verify_claims opts v d1 fid src dst"; cases same)
      (auto simp: reconcile_folder_def Let_def note_recovered_def note_missing_def on_report_def split: prod.splits)
qed

lemma all_kept: "length xs \<le> length (filter c xs) \<Longrightarrow> filter c xs = xs"
proof (induction xs)
  case (Cons x xs)
  with length_filter_le [of c xs] show ?case by (auto split: if_splits)
qed simp

lemma searched_all:
  assumes "searched_into opts f todo = Inr (ts, n)"
  shows "set ts \<subseteq> set todo \<and> (distinct todo \<longrightarrow> distinct ts) \<and> (n = 0 \<longrightarrow> ts = todo)"
  using assms all_kept [of todo]
  by (auto simp: searched_into_def bind_err_Inr_iff keep_matching_def Let_def split: if_splits)

text \<open>What a prepared folder is to start the copy with.\<close>

definition well_prepared :: "nat list \<Rightarrow> prepared \<Rightarrow> live \<Rightarrow> db \<Rightarrow> bool" where
  "well_prepared us p l d \<longleftrightarrow> keyed d \<and> p_mirror p = None \<and> distinct (p_todo p) \<and> r_failed (l_report l) = 0 \<and> 0 \<le> r_filtered (l_report l) \<and>
     (r_filtered (l_report l) = 0 \<longrightarrow> (\<forall>u \<in> set us. u \<in> set (p_todo p) \<or> settled p d u))"

lemma diff_well_prepared:
  assumes "diff_folder sha opts says row src dst same l d = (Inr p, l', d')"
    and "keyed d" and "r_failed (l_report l) = 0" and "r_filtered (l_report l) = 0"
    and "pr_uids says = Inr us" and "distinct us"
  shows "well_prepared us p l' d' \<and> (delete2 opts \<longrightarrow> set (p_live p) = set us)"
proof -
  obtain x l1 d1 where rc: "reconcile_folder sha opts (pr_recover says) (pr_view says) (f_id row) src dst same l d = (x, l1, d1)"
    by (metis prod.collapse)
  with assms(1) have x: "x = None" by (cases x) (auto simp: diff_folder_def)
  note r1 = reconcile_keyed [OF rc assms(2), unfolded assms(3,4)]
  obtain todo r where t: "triage (synced_uids (f_id row) (box_validity src) d1) us (l_report l1) = (todo, r)" by fastforce
  note r2 = triage_splits [OF t, unfolded synced_status [OF conjunct1 [OF r1]]]
  from assms(1) rc x t assms(5) obtain ts n where s: "searched_into opts (pr_search says) todo = Inr (ts, n)"
    by (cases "searched_into opts (pr_search says) todo") (auto simp: diff_folder_def)
  note r3 = searched_all [OF s]
  define l2 where "l2 = (if n > 0 then note_filtered (int n) (l1\<lparr>l_report := r\<rparr>) else l1\<lparr>l_report := r\<rparr>)"
  have f: "r_failed (l_report l2) = 0" "r_filtered (l_report l2) = int n"
    using r1 r2 by (simp_all add: l2_def note_filtered_def on_report_def)
  from assms(1) rc x t s assms(5) have p: "p = \<lparr>p_folder = f_id row, p_src = src, p_dst = dst, p_todo = ts,
      p_since = watermark row same, p_skipped = False, p_live = (if delete2 opts then sort us else []), p_mirror = None\<rparr>"
    and d': "d' = d1" and l': "l' = l2 \<or> (\<exists>a l3. index_destination sha (pr_view says) d1 (f_id row) dst l2 = (Inr a, l3) \<and>
      l' = l3\<lparr>l_index := a\<rparr>)"
    by (auto simp: diff_folder_def Let_def l2_def [symmetric] split: if_splits sum.splits prod.splits)
  from l' have g: "r_failed (l_report l') = 0" "r_filtered (l_report l') = int n"
    using f index_report by force+
  show ?thesis using r1 r2 r3 g assms(6) unfolding well_prepared_def p d' by (auto simp: state_key_def)
qed

text \<open>A prepared folder that is not skipped: every listed message is in the copy list or settled.\<close>

lemma prepare_well:
  assumes "prepare_folder sha opts says fp (new_live src dst hp) d = (Inr p, l', d')" and "\<not> p_skipped p"
    and "keyed d" and "pr_uids says = Inr us" and "distinct us"
  shows "well_prepared us p l' d' \<and> (delete2 opts \<longrightarrow> set (p_live p) = set us)"
proof -
  obtain found d1 where e: "ensure_folder (pair_name opts) (p_source fp) (p_dest fp) d = (found, d1)" by fastforce
  with keyed_ensure [OF assms(3)] have k: "keyed d1" by (metis snd_conv)
  from assms(1,2) e obtain row b box where
    skip: "found = Some row" "pr_src_box says = Inr b" "pr_src_lease says = None" "pr_dst_lease says = None"
    and o: "\<not> can_skip opts (pr_status says) d1 row b (p_dest fp)"
    by (auto simp: prepare_folder_def Let_def skipped_folder_def split: option.splits sum.splits if_splits)
  obtain y d2 where od: "open_dest (pr_dst_box says) (f_id row) (box_validity b) d1 = (y, d2)" by fastforce
  have k2: "keyed d2" using od keyed_fence [OF k] k
    by (cases "pr_dst_box says"; cases "fence_uid_validity (f_id row) (box_validity b) (box_validity (projr (pr_dst_box says))) d1")
      (auto simp: open_dest_def split: if_splits)
  let ?l = "on_report (\<lambda>r. r\<lparr>r_messages := int (box_messages b)\<rparr>) (new_live src dst hp)"
  from assms(1) e skip o od obtain same box where
    "diff_folder sha opts says row b box same ?l d2 = (Inr p, l', d')"
    by (cases y) (auto simp: prepare_folder_def Let_def split: prod.splits)
  from diff_well_prepared [OF this k2 _ _ assms(4,5)] show ?thesis
    by (simp add: on_report_def new_live_def new_report_def)
qed

section \<open>The copy\<close>

lemma missing_subset: "set (missing chunk metas) \<subseteq> set chunk"
  by (auto simp: missing_def)

lemma work_in_todo: "accounted p l0 s \<Longrightarrow> u \<in># in_work s \<Longrightarrow> u \<in> set (p_todo p)"
  unfolding accounted_def by (metis UnCI set_mset_mset set_mset_union)

text \<open>A step writes no row of a message outside the copy list.\<close>

lemma open_chunk_outside:
  assumes "open_chunk mail_date opts started p says chunk l d = (x, calls, l', d')" and "v \<notin> set chunk"
  shows "status_of d' (state_key p v) = status_of d (state_key p v)"
proof -
  have "status_of d1 (state_key p v) = status_of d (state_key p v)"
    if "mark_missing p chunk metas l1 d = (calls1, l2, d1)" for metas l1 calls1 l2 d1
    using that missing_subset [of chunk metas] assms(2)
    by (auto simp: mark_missing_def Let_def status_gone_all state_key_def split: if_splits)
  with assms(1) show ?thesis
    by (auto simp: open_chunk_def Let_def split: prod.splits sum.splits)
qed

lemma outside_step:
  assumes "copy_step sha mail_date message opts started p s t" and "accounted p l0 s" and v: "v \<notin> set (p_todo p)"
  shows "status_of (c_db t) (state_key p v) = status_of (c_db s) (state_key p v)"
proof -
  have other: "v \<noteq> u" if "u \<in># in_work s" for u using work_in_todo [OF assms(2) that] v by blast
  have n: "0 \<le> failures_noted (c_live s)" using assms(2) by (simp add: accounted_def)
  have broken: "status_of d' (state_key p v) = status_of d (state_key p v)"
    if "break_fetcher message opts p e paused w l d = (x, w', calls', l', d')" "w_left w = m # ms" "0 \<le> failures_noted l"
      "v \<noteq> meta_uid m" for e paused w l d x w' calls' l' d' m ms
    using break_effect [OF that(1-3)] that(4) by (auto simp: touches_def)
  show ?thesis using assms(1)
  proof cases
    case (deal chunk cs says w calls l d)
    then have "\<forall>u \<in> set chunk. u \<in># in_work s" by (simp add: in_work_def)
    then have "v \<notin> set chunk" using other by blast
    with open_chunk_outside [OF deal(3)] deal(1) show ?thesis by simp
  next
    case (fetch ws w ws' m ms says r calls l d)
    then have "v \<noteq> meta_uid m" using other by (simp add: in_work_def)
    with fetch_one_effect(1) [OF fetch(4)] fetch(1) show ?thesis by (simp add: touches_def)
  next
    case (broke ws w ws' m ms says e calls l d paused x w' calls' l' d')
    then have v: "v \<noteq> meta_uid m" using other by (simp add: in_work_def)
    note f = fetch_one_effect(1) [OF broke(4)]
    with n have "0 \<le> failures_noted l" by (simp add: touches_def)
    with broken [OF broke(5,3) _ v] f v broke(1) show ?thesis by (simp add: touches_def)
  next
    case (unleased ws w ws' leased e paused x w' calls' l' d')
    then obtain m ms where m: "w_left w = m # ms" by (cases "w_left w") auto
    with unleased(2) have "v \<noteq> meta_uid m" using other by (simp add: in_work_def)
    with broken [OF unleased(6) m n] unleased(1) show ?thesis by simp
  next
    case (append it q says x calls l d)
    then have "v \<noteq> q_uid it" using other by (simp add: in_work_def)
    with deliver_effect(1) [OF append(3) n] append(1) show ?thesis by (simp add: touches_def)
  qed simp_all
qed

lemma outside_run:
  assumes "(copy_step sha mail_date message opts started p)\<^sup>*\<^sup>* (start_copy p l d) s" and "distinct (p_todo p)"
    and "0 \<le> failures_noted l" and "v \<notin> set (p_todo p)"
  shows "status_of (c_db s) (state_key p v) = status_of d (state_key p v)"
  using assms(1)
proof (induction rule: rtranclp_induct)
  case base
  then show ?case by (simp add: start_copy_def)
next
  case (step s t)
  with outside_step [OF step(2) accounted_run [OF step(1) assms(2,3)] assms(4)] show ?case by simp
qed

section \<open>The stages after the copy\<close>

text \<open>A stage keeps the counts of failures and of filtered messages or raises them, and each listed message's state or
  makes it copied.\<close>

definition stage :: "prepared \<Rightarrow> nat set \<Rightarrow> live \<Rightarrow> db \<Rightarrow> live \<Rightarrow> db \<Rightarrow> bool" where
  "stage p us l d l' d' \<longleftrightarrow> r_failed (l_report l) \<le> r_failed (l_report l') \<and> r_filtered (l_report l) \<le> r_filtered (l_report l') \<and>
     (\<forall>u \<in> us. status_of d' (state_key p u) = status_of d (state_key p u) \<or> status_of d' (state_key p u) = Some Done)"

lemma stage_refl [simp]: "stage p us l d l d"
  by (simp add: stage_def)

lemma stage_trans: "stage p us l d l1 d1 \<Longrightarrow> stage p us l1 d1 l2 d2 \<Longrightarrow> stage p us l d l2 d2"
  unfolding stage_def by (metis order_trans)

lemma stage_cong: "p_folder q = p_folder p \<Longrightarrow> p_src q = p_src p \<Longrightarrow> stage q us = stage p us"
  by (intro ext) (simp add: stage_def state_key_def)

lemma repeats_effect:
  assumes "settle_repeats p mirrors ds n d = (None, k, d')"
  shows "(\<forall>u. status_of d' (state_key p u) = status_of d (state_key p u) \<or> status_of d' (state_key p u) = Some Done) \<and>
    (\<forall>(u, v) \<in> set ds. v \<in> mir_src ` set mirrors \<longrightarrow> 0 \<notin> mir_dst ` set mirrors \<longrightarrow> status_of d' (state_key p u) = Some Done)"
  using assms
proof (induction p mirrors ds n d rule: settle_repeats.induct)
  case (2 p mirrors u v ds n d)
  show ?case
  proof (cases "find (\<lambda>m. mir_src m = v) mirrors")
    case None
    then have "v \<notin> mir_src ` set mirrors" by (auto simp: find_None_iff)
    with 2 None show ?thesis by simp
  next
    case (Some m)
    then have m: "m \<in> set mirrors" by (auto simp: find_Some_iff)
    show ?thesis
    proof (cases "mir_dst m = 0")
      case True
      with 2 Some m show ?thesis by (auto simp: image_iff)
    next
      case False
      with 2(4) Some obtain d1 where c: "complete_append (p_folder p) (box_validity (p_src p)) u (box_validity (p_dst p)) (mir_dst m) d = Inr d1"
        and rest: "settle_repeats p mirrors ds (n + 1) d1 = (None, k, d')"
        by (cases "complete_append (p_folder p) (box_validity (p_src p)) u (box_validity (p_dst p)) (mir_dst m) d") simp_all
      have s: "status_of d1 (state_key p x) = (if x = u then Some Done else status_of d (state_key p x))" for x
        using status_complete [OF c] by (simp add: state_key_def)
      from 2(3) [OF Some False c rest] show ?thesis by (simp add: s split_beta) (metis option.inject)
    qed
  qed
qed simp

lemma mirror_list_landed: "0 \<notin> mir_dst ` set (mirror_list fid sv dv d)"
  by (auto simp: mirror_list_def mirror_rows_def)

lemma flags_status:
  "record_flags f s u fl d = Inr d' \<Longrightarrow> status_of d' k = status_of d k"
  using row_at_update(1) [of "(f, s, u)" "\<lambda>m. m\<lparr>m_flags := fl\<rparr>" d d' k] row_at_update(2) [of "(f, s, u)" "\<lambda>m. m\<lparr>m_flags := fl\<rparr>" d d']
  by (fastforce simp: record_flags_def status_of_def)

lemma store_stage:
  "store_changes message says p n cs l d = (None, sent, l', d') \<Longrightarrow> stage p us l d l' d'"
proof (induction cs arbitrary: n l d sent)
  case (Cons c cs)
  from Cons.prems have e: "fl_ended says n = None" by (cases "fl_ended says n") simp_all
  show ?case
  proof (cases "fl_store says (fc_dst c) (fc_flags c)")
    case (Some x)
    with Cons.prems e obtain sent1 where
      "store_changes message says p (n + 1) cs (note_failed (fc_src c) (''storing flags: '' @ message x) l) d = (None, sent1, l', d')"
      by (auto split: if_splits prod.splits)
    from Cons.IH [OF this] show ?thesis by (auto simp: stage_def note_failed_def on_report_def)
  next
    case None
    with Cons.prems e obtain d1 sent1 where
      r: "record_flags (p_folder p) (box_validity (p_src p)) (fc_src c) (fc_text c) d = Inr d1"
      and "store_changes message says p (n + 1) cs (note_reflagged l) d1 = (None, sent1, l', d')"
      by (cases "record_flags (p_folder p) (box_validity (p_src p)) (fc_src c) (fc_text c) d") (auto split: prod.splits)
    from Cons.IH [OF this(2)] flags_status [OF r] show ?thesis by (simp add: stage_def note_reflagged_def on_report_def)
  qed
qed simp

lemma resync_stage:
  assumes "resync_flags message opts says p l d = (None, sent, q, l', d')"
  shows "stage p us l d l' d' \<and> p_folder q = p_folder p \<and> p_src q = p_src p \<and> p_live q = p_live p \<and> p_skipped q = p_skipped p"
proof -
  obtain mirrors r where l: "load_mirror d p = (mirrors, r)" by fastforce
  note keeps = load_mirror_keeps [OF l]
  show ?thesis
  proof (cases "no_resync_flags opts \<or> p_skipped p \<or> mirrors = []")
    case True
    with assms l have "(q = p \<or> q = r) \<and> l' = l \<and> d' = d" by (cases "no_resync_flags opts \<or> p_skipped p") (auto simp: resync_flags_def)
    with keeps show ?thesis by auto
  next
    case False
    with assms l obtain current where c: "source_flags says (p_since r) = Inr current"
      by (cases "source_flags says (p_since r)") (auto simp: resync_flags_def)
    with False assms l keeps stage_cong [of r p us] store_stage [of message says r 0 "flag_changes mirrors current" l d _ l' d' us]
    show ?thesis by (auto simp: resync_flags_def Let_def split: if_splits option.splits prod.splits)
  qed
qed

lemma find_filter: "(\<And>x. x \<in> set xs \<Longrightarrow> c x \<Longrightarrow> k x) \<Longrightarrow> find c (filter k xs) = find c xs"
  by (induction xs) auto

lemma status_forget: "u \<notin> set vs \<Longrightarrow> status_of (forget_messages f s vs d) (f, s, u) = status_of d (f, s, u)"
  unfolding status_of_def row_at_def forget_messages_def
  by (cases "vs = []") (auto simp: src_uid_def intro!: arg_cong [where f = "map_option m_state"] find_filter)

lemma condemned_spares:
  assumes "condemned sha opts v d p box = (Inr (xs, n, ok), q)" and "x \<in> set xs" and "v_src x \<noteq> 0"
  shows "v_src x \<notin> set (p_live p)"
proof -
  obtain mirrors r where l: "load_mirror d (p\<lparr>p_dst := box\<rparr>) = (mirrors, r)" by fastforce
  note keeps = load_mirror_keeps [OF l]
  let ?nominated = "map (\<lambda>m. \<lparr>v_dst = mir_dst m, v_src = mir_src m\<rparr>) (filter (\<lambda>m. \<not> List.member (p_live r) (mir_src m)) mirrors)"
  from assms(1) l obtain others where st: "strangers sha v d r box = Inr (others, n)"
    and nv: "narrow_victims opts v (still_claimed ?nominated mirrors (p_live r) @ others) = Inr xs"
    by (auto simp: condemned_def Let_def bind_err_Inr_iff split: if_splits)
  have "x \<notin> set others" using st assms(3) by (auto simp: strangers_def bind_err_Inr_iff Let_def split: if_splits)
  with narrow_sound [OF nv assms(2)] still_claimed_sound(1) [of x ?nominated mirrors "p_live r"] keeps show ?thesis by auto
qed

lemma delete_stage:
  assumes "delete_vanished sha opts acquired chosen v remove p l d = (None, asked, q, l', d')"
    and "delete2 opts \<longrightarrow> us \<subseteq> set (p_live p)"
  shows "stage p us l d l' d' \<and> p_folder q = p_folder p \<and> p_src q = p_src p"
proof -
  have keeps: "p_folder r = p_folder p \<and> p_src r = p_src p" if "condemned sha opts v d p box = (x, r)" for x r box
    using that load_mirror_keeps [of d "p\<lparr>p_dst := box\<rparr>"] by (auto simp: condemned_def Let_def split: prod.splits)
  show ?thesis
  proof (cases "\<not> delete2 opts \<or> p_skipped p \<or> r_failed (l_report l) > 0")
    case True
    with assms(1) show ?thesis by (simp add: delete_vanished_def split: if_splits)
  next
    case False
    with assms(1) obtain box where box: "acquired = None" "chosen = Inr box"
      by (cases acquired; cases chosen) (simp_all add: delete_vanished_def)
    obtain y r where c: "condemned sha opts v d p box = (y, r)" by fastforce
    note real = assms(1) [unfolded delete_vanished_def box c option.case sum.case prod.case]
    from real False obtain x n ok where y: "y = Inr (x, n, ok)" by (cases y) auto
    let ?forget = "map v_src (filter (\<lambda>y. v_src y \<noteq> 0) x)"
    have "u \<notin> set ?forget" if "u \<in> us" for u
      using condemned_spares [OF c [unfolded y]] assms(2) False that by auto
    then have "stage p us l d (note_deleted a l) (forget_messages (p_folder p) (box_validity (p_src p)) ?forget d)" for a
      by (simp add: stage_def note_deleted_def on_report_def state_key_def status_forget)
    moreover have "stage p us l d (note_refused a b l) d" for a b by (simp add: stage_def note_refused_def on_report_def)
    ultimately show ?thesis using real False keeps [OF c] unfolding y
      by (cases "x = []"; cases ok; cases "remove (map v_dst x)") (auto simp: Let_def)
  qed
qed

lemma repoint_status:
  "repoint fid sv dv ps d = (None, d') \<Longrightarrow> status_of d' k = status_of d k \<or> status_of d' k = Some Done"
proof (induction ps arbitrary: d)
  case (Cons x ps)
  obtain u t where x: "x = (u, t)" by fastforce
  with Cons.prems obtain d1 where c: "complete_append fid sv u dv t d = Inr d1" and "repoint fid sv dv ps d1 = (None, d')"
    by (cases "complete_append fid sv u dv t d") simp_all
  with Cons.IH [of d1] status_complete [OF c] show ?case by (metis option.inject)
qed simp

lemma dedupe_stage:
  assumes "remove_dest_duplicates sha opts acquired chosen v remove p l d = (None, asked, l', d')"
  shows "stage p us l d l' d'"
proof -
  have "status_of d1 k = status_of d k \<or> status_of d1 k = Some Done"
    if "dedupe_dest sha opts v remove fid sv dv False d = ((None, res), asked1, d1)" for fid sv dv res asked1 d1 k
    using that by (auto simp: dedupe_dest_def Let_def dest: repoint_status split: sum.splits prod.splits if_splits option.splits)
  with assms show ?thesis
    by (auto simp: remove_dest_duplicates_def Let_def stage_def note_removed_def note_refused_def on_report_def
        split: if_splits option.splits sum.splits prod.splits)
qed

lemma stage_dup: "stage p us l d (note_deduplicated n l) d"
  by (simp add: stage_def note_deduplicated_def on_report_def)

text \<open>The repeats: each is copied if the message that stands for it landed.\<close>

definition landed :: "prepared \<Rightarrow> db \<Rightarrow> nat \<Rightarrow> bool" where
  "landed p d u \<longleftrightarrow> u \<in> mir_src ` set (mirror_list (p_folder p) (box_validity (p_src p)) (box_validity (p_dst p)) d)"

lemma settle_stage:
  assumes "settle_duplicates p l d = (None, q, l', d')" and "p_mirror p = None"
  shows "stage p us l d l' d' \<and> p_folder q = p_folder p \<and> p_src q = p_src p \<and> p_live q = p_live p \<and> p_skipped q = p_skipped p \<and>
    (\<forall>(u, v) \<in> set (l_dupes l). landed p d v \<longrightarrow> status_of d' (state_key p u) = Some Done)"
proof (cases "l_dupes l = []")
  case True
  with assms show ?thesis by (simp add: settle_duplicates_def)
next
  case False
  let ?ms = "mirror_list (p_folder p) (box_validity (p_src p)) (box_validity (p_dst p)) d"
  let ?q = "p\<lparr>p_mirror := Some ?ms\<rparr>"
  have m: "load_mirror d p = (?ms, ?q)" using assms(2) by (simp add: load_mirror_def Let_def)
  obtain x k d1 where r: "settle_repeats ?q ?ms (l_dupes l) 0 d = (x, k, d1)" by (metis prod.collapse)
  with assms(1) False m have x: "x = None" and e: "q = ?q" "l' = note_deduplicated (int k) l" "d' = d1"
    by (cases x; simp add: settle_duplicates_def)+
  have key: "state_key ?q u = state_key p u" for u by (simp add: state_key_def)
  note f = repeats_effect [OF r [unfolded x], unfolded key]
  have "stage p us l d l' d1" using f e stage_dup by (simp add: stage_def note_deduplicated_def on_report_def)
  moreover have "\<forall>(u, v) \<in> set (l_dupes l). landed p d v \<longrightarrow> status_of d1 (state_key p u) = Some Done"
    using f mirror_list_landed by (simp add: landed_def)
  ultimately show ?thesis using e by simp
qed

lemma finish_stage:
  assumes "finish_folder sha message opts says p l d = ((None, fr), rq, l', d')" and "p_mirror p = None"
    and "delete2 opts \<longrightarrow> us \<subseteq> set (p_live p)"
  shows "fr = l_report l' \<and> stage p us l d l' d' \<and>
    (\<forall>(u, v) \<in> set (l_dupes l). u \<in> us \<longrightarrow> landed p d v \<longrightarrow> status_of d' (state_key p u) = Some Done)"
proof -
  obtain e1 p1 l1 d1 where s1: "settle_duplicates p l d = (e1, p1, l1, d1)" by (metis prod.collapse)
  with assms(1) have e1: "e1 = None" by (cases e1) (simp_all add: finish_folder_def)
  note g1 = settle_stage [OF s1 [unfolded e1] assms(2), where us = us]
  obtain e2 sent p2 l2 d2 where s2: "resync_flags message opts (fi_flags says) p1 l1 d1 = (e2, sent, p2, l2, d2)" by (metis prod.collapse)
  with assms(1) s1 e1 have e2: "e2 = None" by (cases e2) (simp_all add: finish_folder_def)
  note g2 = resync_stage [OF s2 [unfolded e2], where us = us]
  obtain e3 asked p3 l3 d3 where s3: "delete_vanished sha opts (fi_delete_lease says) (fi_delete_box says) (fi_delete_view says)
      (fi_delete says) p2 l2 d2 = (e3, asked, p3, l3, d3)" by (metis prod.collapse)
  with assms(1) s1 e1 s2 e2 have e3: "e3 = None" by (cases e3) (simp_all add: finish_folder_def)
  have live: "delete2 opts \<longrightarrow> us \<subseteq> set (p_live p2)" using assms(3) g1 g2 by simp
  note g3 = delete_stage [OF s3 [unfolded e3] live]
  obtain e4 vs l4 d4 where s4: "remove_dest_duplicates sha opts (fi_dedupe_lease says) (fi_dedupe_box says) (fi_dedupe_view says)
      (fi_dedupe says) p3 l3 d3 = (e4, vs, l4, d4)" by (metis prod.collapse)
  with assms(1) s1 e1 s2 e2 s3 e3 have e4: "e4 = None" by (cases e4) (simp_all add: finish_folder_def)
  note g4 = dedupe_stage [OF s4 [unfolded e4], where us = us]
  have same: "stage p1 us = stage p us" "stage p2 us = stage p us" "stage p3 us = stage p us"
    using g1 g2 g3 by (intro stage_cong; simp)+
  have rest: "stage p us l1 d1 l4 d4"
    using stage_trans [OF stage_trans [OF conjunct1 [OF g2, unfolded same] conjunct1 [OF g3, unfolded same]] g4 [unfolded same]] same by simp
  have l': "l' = l4" "fr = l_report l4" and d': "status_of d' k = status_of d4 k" for k
    using assms(1) s1 e1 s2 e2 s3 e3 s4 e4 by (auto simp: finish_folder_def Let_def mark_synced_def status_of_def row_at_def)
  have st: "stage p us l d l4 d4" by (rule stage_trans [OF conjunct1 [OF g1] rest])
  have "status_of d4 (state_key p u) = Some Done" if "(u, v) \<in> set (l_dupes l)" "u \<in> us" "landed p d v" for u v
  proof -
    from g1 that have "status_of d1 (state_key p u) = Some Done" by blast
    with rest that(2) show ?thesis unfolding stage_def by fastforce
  qed
  with st l' d' show ?thesis by (auto simp: stage_def)
qed

section \<open>Properties\<close>

text \<open>C2: The watermark is earned. Let a folder be prepared, copied to rest by any interleaving of its workers and
  finished without an error, with a report that lets the source's MODSEQ be written as the watermark. Then every
  message the source listed is recorded as copied or as gone from the source - or it waits in flight as the repeat of
  a message that did not land: a later run that skips the folder on the strength of the watermark skips nothing
  else. It holds whatever the flags, deletions and duplicate removals after the copy did to the journal.\<close>

theorem watermark_is_earned:
  assumes "prepare_folder sha opts says fp (new_live (p_source fp) (p_dest fp) hp) d = (Inr p, l, d1)" and "\<not> p_skipped p"
    and "keyed d" and "pr_uids says = Inr us" and "distinct us"
    and "(copy_step sha mail_date message opts started p)\<^sup>*\<^sup>* (start_copy p l d1) s" and "at_rest s" and "c_over s = None"
    and "finish_folder sha message opts fsays p (c_live s) (c_db s) = ((None, fr), rq, l', d2)"
    and "earned_modseq fr (p_src p) \<noteq> 0" and "u \<in> set us"
  shows "settled p d2 u \<or>
    status_of d2 (state_key p u) = Some InFlight \<and> (\<exists>v. (u, v) \<in> set (l_dupes (c_live s)) \<and> \<not> landed p (c_db s) v)"
proof -
  from prepare_well [OF assms(1-5)] have w: "well_prepared us p l d1" and live: "delete2 opts \<longrightarrow> set us \<subseteq> set (p_live p)" by auto
  then have dist: "distinct (p_todo p)" and nonneg: "0 \<le> failures_noted l" and mirror: "p_mirror p = None"
    by (simp_all add: well_prepared_def)
  note fin = finish_stage [OF assms(9) mirror live]
  have "r_failed fr \<le> 0" "r_filtered fr \<le> 0" using assms(10) by (simp_all add: earned_modseq_def split: if_splits)
  with fin have none: "r_failed (l_report (c_live s)) \<le> 0" "r_filtered (l_report (c_live s)) \<le> 0" by (auto simp: stage_def)
  from every_message_accounted_for [OF assms(6) dist nonneg assms(7,8)] obtain cut where
    cut: "SyncCopy.left_out (c_live s) - SyncCopy.left_out l = int (card cut)" "cut \<subseteq> set (p_todo p)"
      "\<forall>u \<in> set (p_todo p) - cut. resolved p (c_live s) (c_db s) u" by blast
  have l0: "r_filtered (l_report l) = 0" and "card cut = 0" using cut(1) none w by (simp_all add: well_prepared_def)
  with cut(2) have "cut = {}" using finite_subset by fastforce
  with cut(3) none have dealt: "\<forall>u \<in> set (p_todo p). settled p (c_db s) u \<or>
      status_of (c_db s) (state_key p u) = Some InFlight \<and> u \<in> fst ` set (l_dupes (c_live s))" by (simp add: resolved_def)
  have now: "settled p (c_db s) u \<or> status_of (c_db s) (state_key p u) = Some InFlight \<and> u \<in> fst ` set (l_dupes (c_live s))"
  proof (cases "u \<in> set (p_todo p)")
    case False
    with w l0 assms(11) have "settled p d1 u" unfolding well_prepared_def by blast
    with outside_run [OF assms(6) dist nonneg False] show ?thesis by simp
  qed (use dealt in blast)
  from fin assms(11) have "status_of d2 (state_key p u) = status_of (c_db s) (state_key p u) \<or> status_of d2 (state_key p u) = Some Done"
    by (simp add: stage_def)
  with now show ?thesis using fin assms(11) by fastforce
qed

text \<open>A folder of two messages, one copied and one gone before the run: the watermark is written with nothing to copy.\<close>

definition sample_folder :: folder_row where
  "sample_folder =
     \<lparr>f_id = 1, pair_id = ''p'', source = ''INBOX'', dest = ''INBOX'', src_validity = 5, dst_validity = 7, src_modseq = 0,
      src_deleted = 0, last_sync = 1\<rparr>"

definition sample_state :: db where
  "sample_state = \<lparr>folders = [sample_folder], messages = [sample_row 3 10, (sample_row 4 0)\<lparr>m_state := Gone\<rparr>]\<rparr>"

definition sample_pair :: pair where
  "sample_pair = \<lparr>p_source = ''INBOX'', p_dest = ''INBOX'', p_role = RoleInbox, create_dest = False\<rparr>"

definition sample_prepare :: prepare_says where
  "sample_prepare =
     \<lparr>pr_src_lease = None, pr_src_box = Inr (sample_box 5 2), pr_status = (\<lambda>_. None), pr_dst_lease = None,
      pr_dst_box = Inr (sample_box 7 1), pr_recover = sample_recover, pr_view = sample_view [10], pr_uids = Inr [3, 4],
      pr_search = (\<lambda>_. Inr [])\<rparr>"

definition sample_finish :: finish_says where
  "sample_finish =
     \<lparr>fi_flags = \<lparr>fl_src_lease = None, fl_src_select = None, fl_current = (\<lambda>_. Inr [(3, [''seen''])]), fl_dst_lease = None,
        fl_dst_select = None, fl_ended = (\<lambda>_. None), fl_store = (\<lambda>_ _. None)\<rparr>,
      fi_delete_lease = None, fi_delete_box = Inr (sample_box 7 1), fi_delete_view = sample_view [10], fi_delete = (\<lambda>_. None),
      fi_dedupe_lease = None, fi_dedupe_box = Inr (sample_box 7 1), fi_dedupe_view = sample_view [10], fi_dedupe = (\<lambda>_. None),
      fi_now = 2\<rparr>"

definition sample_preparation :: "(go_error + prepared) \<times> live \<times> db" where
  "sample_preparation =
     prepare_folder id sample_opts sample_prepare sample_pair (new_live (p_source sample_pair) (p_dest sample_pair) (new_health 50)) sample_state"

definition sample_ending :: "(go_error option \<times> folder_report) \<times> requests \<times> live \<times> db" where
  "sample_ending =
     finish_folder id one_reason sample_opts sample_finish (projr (fst sample_preparation)) (fst (snd sample_preparation))
       (snd (snd sample_preparation))"

theorem watermark_is_earned_witness:
  "rq_flags (fst (snd sample_ending)) = [(10, [''seen''])] \<and>
   map (\<lambda>m. (m_state m, m_flags m)) (db.messages (snd (snd (snd sample_ending)))) = [(Done, ''seen''), (Gone, [])] \<and>
   map src_modseq (folders (snd (snd (snd sample_ending)))) = [1] \<and>
   settled (projr (fst sample_preparation)) (snd (snd (snd sample_ending))) 3 \<and>
   settled (projr (fst sample_preparation)) (snd (snd (snd sample_ending))) 4"
proof -
  let ?p = "projr (fst sample_preparation)" and ?l = "fst (snd sample_preparation)" and ?d = "snd (snd sample_preparation)"
  have ok: "(case fst sample_preparation of Inl _ \<Rightarrow> False | Inr _ \<Rightarrow> True)" by code_simp
  then have "fst sample_preparation = Inr ?p" by (simp split: sum.splits)
  then have prep: "sample_preparation = (Inr ?p, ?l, ?d)" by (metis prod.collapse)
  have prep': "prepare_folder id sample_opts sample_prepare sample_pair (new_live (p_source sample_pair) (p_dest sample_pair) (new_health 50))
      sample_state = (Inr ?p, ?l, ?d)" by (fold sample_preparation_def) (rule prep)
  have todo: "p_todo ?p = []" and skip: "\<not> p_skipped ?p" and dupes: "l_dupes ?l = []" by code_simp+
  let ?s = "start_copy ?p ?l ?d"
  have run: "(copy_step id (\<lambda>_. None) one_reason sample_opts 0 ?p)\<^sup>*\<^sup>* ?s ?s" by simp
  have rest: "at_rest ?s" "c_over ?s = None" "c_live ?s = ?l" "c_db ?s = ?d"
    using todo by (simp_all add: at_rest_def start_copy_def batches.simps)
  obtain e fr rq l2 d2 where fin: "sample_ending = ((e, fr), rq, l2, d2)" by (metis prod.collapse)
  have "fst (fst sample_ending) = None" and earned: "earned_modseq (snd (fst sample_ending)) (p_src ?p) \<noteq> 0" by code_simp+
  with fin have ends: "finish_folder id one_reason sample_opts sample_finish ?p (c_live ?s) (c_db ?s) = ((None, fr), rq, l2, d2)"
    using rest by (simp add: sample_ending_def)
  have earned': "earned_modseq fr (p_src ?p) \<noteq> 0" using earned by (simp add: fin)
  have keyed: "keyed sample_state" by (simp add: keyed_def sample_state_def sample_folder_def samples)
  have uids: "pr_uids sample_prepare = Inr [3, 4]" by (simp add: sample_prepare_def)
  have both: "settled ?p d2 u" if "u \<in> {3, 4}" for u
    using watermark_is_earned [OF prep' skip keyed uids _ run rest(1,2) ends, of u] that
      earned' dupes rest(3) by auto
  have "rq_flags (fst (snd sample_ending)) = [(10, [''seen''])]"
    "map (\<lambda>m. (m_state m, m_flags m)) (db.messages (snd (snd (snd sample_ending)))) = [(Done, ''seen''), (Gone, [])]"
    "map src_modseq (folders (snd (snd (snd sample_ending)))) = [1]" by code_simp+
  moreover have "snd (snd (snd sample_ending)) = d2" by (simp only: fin snd_conv)
  ultimately show ?thesis using both [of 3] both [of 4] by (intro conjI) simp_all
qed

text \<open>The fast path counts claims under the UIDVALIDITY the destination has now. A mailbox deleted and made anew
  has none of them: no claim is missed, and the folder is skipped although its copies are gone.\<close>

lemma recreated_destination_is_skipped:
  "let d = sample_state\<lparr>folders := [sample_folder\<lparr>src_modseq := 1, src_deleted := 1\<rparr>]\<rparr>;
       status = (\<lambda>_. Some \<lparr>ds_messages = Some 0, ds_validity = v\<rparr>)
   in claimed_count 1 5 7 d = 1 \<and>
      (can_skip sample_opts status d (hd (folders d)) (sample_box 5 2) ''INBOX'' \<longleftrightarrow> v \<noteq> 7)"
  by (simp add: Let_def can_skip_def unchanged_def claimed_count_def mirror_rows_def in_scope_def sample_state_def
      sample_folder_def samples)

end
