(* ===== verification/SyncRun.thy ===== *)
theory SyncRun
  imports Watermark Selection
begin

text \<open>
  A run over an account (\<open>Run\<close> in \<open>src/internal/syncer/syncer.go\<close>): the folders of both sides are listed and
  planned, the missing ones created, every pair is copied, what failed is tried once more, and one report is put
  together. The other run over an account removes the duplicates of the destination alone
  (\<open>Dedup\<close> in \<open>src/internal/syncer/dedupe.go\<close>).
\<close>

section \<open>Listing and planning\<close>

text \<open>One mailbox of a LIST answer.\<close>

record listed =
  li_folder :: folder
  li_delim :: string
  li_status :: dest_status

record list_says =
  ls_lease :: "go_error option"
  ls_folders :: "go_error + listed list"
  ls_namespace :: "go_error + string"

definition delim_of :: "list_says \<Rightarrow> listed list \<Rightarrow> string" where
  "delim_of says boxes =
     (case find (\<lambda>b. li_delim b \<noteq> []) boxes of
        Some b \<Rightarrow> li_delim b
      | None \<Rightarrow> (case ls_namespace says of Inr d \<Rightarrow> d | Inl _ \<Rightarrow> []))"

definition list_account :: "list_says \<Rightarrow> go_error + listed list \<times> string" where
  "list_account says =
     (case ls_lease says of
        Some e \<Rightarrow> Inl (WrapErr [e])
      | None \<Rightarrow> bind_err (ls_folders says) (\<lambda>boxes. Inr (boxes, delim_of says boxes)))"

text \<open>What LIST said of each destination mailbox; of two with one name the later counts.\<close>

definition status_map :: "listed list \<Rightarrow> string \<Rightarrow> dest_status option" where
  "status_map boxes = map_of (rev (map (\<lambda>b. (name (li_folder b), li_status b)) boxes))"

definition settle_delims :: "options \<Rightarrow> string \<Rightarrow> string \<Rightarrow> options" where
  "settle_delims fo s t =
     fo\<lparr>source_delim := (if source_delim fo = [] then s else source_delim fo),
        dest_delim := (if dest_delim fo = [] then t else dest_delim fo)\<rparr>"

text \<open>The text names the collisions; nothing depends on it.\<close>

definition collision_error :: go_error where
  "collision_error = PlainErr ''these source folders would be merged into one destination, which cannot be undone''"

text \<open>The destination is asked with STATUS unless its claims are not to be verified.\<close>

definition plan_run :: "sync_opts \<Rightarrow> options \<Rightarrow> list_says \<Rightarrow> (bool \<Rightarrow> list_says) \<Rightarrow> go_error + plan \<times> (string \<Rightarrow> dest_status option)" where
  "plan_run opts fopts src dst =
     bind_err (wrap_err (list_account src)) (\<lambda>(sb, sd).
     bind_err (wrap_err (list_account (dst (\<not> no_verify_dest opts)))) (\<lambda>(db, dd).
       case build (map li_folder sb) (map li_folder db) (settle_delims fopts sd dd) of
         Inl cs \<Rightarrow> Inl (WrapErr [collision_error])
       | Inr p \<Rightarrow> Inr (p, status_map db)))"

section \<open>The size limit of the destination\<close>

definition filter_error :: "int \<times> int \<Rightarrow> go_error" where
  "filter_error b = PlainErr (''no message can be both larger than '' @ show_nat (nat (fst b)) @ '' bytes and smaller than '' @ show_nat (nat (snd b)))"

definition resolve_filter :: "filter_opts \<Rightarrow> go_error + int option \<Rightarrow> go_error + filter_opts" where
  "resolve_filter f answered =
     (case validate f of
        Some b \<Rightarrow> Inl (filter_error b)
      | None \<Rightarrow>
          (case answered of
             Inl _ \<Rightarrow> Inr f
           | Inr None \<Rightarrow> Inr f
           | Inr (Some limit) \<Rightarrow> Inr (cap_size f limit)))"

section \<open>Missing folders\<close>

text \<open>The mailboxes made and those subscribed to come with the result.\<close>

fun create_each :: "sync_opts \<Rightarrow> (string \<Rightarrow> go_error option) \<Rightarrow> string list \<Rightarrow> go_error option \<times> string list \<times> string list" where
  "create_each opts create [] = (None, [], [])"
| "create_each opts create (n # ns) =
     (case create n of
        Some e \<Rightarrow> (Some (WrapErr [e]), [], [])
      | None \<Rightarrow>
          (let (x, made, subscribed) = create_each opts create ns
           in (x, n # made, if no_subscribe opts then subscribed else n # subscribed)))"

text \<open>What the report lists as created, and what the server was asked to create and subscribe.\<close>

definition create_folders ::
  "sync_opts \<Rightarrow> go_error option \<Rightarrow> (string \<Rightarrow> go_error option) \<Rightarrow> string list
     \<Rightarrow> go_error option \<times> string list \<times> string list \<times> string list" where
  "create_folders opts acquired create ns =
     (if ns = [] then (None, [], [], [])
      else if dry_run opts then (None, ns, [], [])
      else
        (case acquired of
           Some e \<Rightarrow> (Some (WrapErr [e]), [], [], [])
         | None \<Rightarrow> (let (x, made, subscribed) = create_each opts create ns in (x, made, made, subscribed))))"

section \<open>Passes\<close>

text \<open>The report a folder leaves in a pass: its own, with the error it ended with.\<close>

definition pass_report :: "(pair \<Rightarrow> go_error option \<times> folder_report) \<Rightarrow> pair \<Rightarrow> folder_report" where
  "pass_report sync p =
     (case sync p of
        (None, fr) \<Rightarrow> fr
      | (Some e, fr) \<Rightarrow> fr\<lparr>r_err := Some e\<rparr>)"

text \<open>A pass starts its folders in order, unless the run is cancelled, and collects the reports as they finish:
  \<open>n\<close> folders were started and their reports arrived as \<open>out\<close>.\<close>

definition passed :: "(pair \<Rightarrow> go_error option \<times> folder_report) \<Rightarrow> nat \<Rightarrow> pair list \<Rightarrow> folder_report list \<Rightarrow> bool" where
  "passed sync n ps out \<longleftrightarrow> mset out = mset (map (pass_report sync) (take n ps))"

text \<open>The pairs of a second pass carry the names alone.\<close>

definition retry_pair :: "string \<times> string \<Rightarrow> pair" where
  "retry_pair x = \<lparr>p_source = fst x, p_dest = snd x, p_role = RoleNone, create_dest = False\<rparr>"

record run_says =
  rn_limit :: "go_error + int option"
  rn_src :: list_says
  rn_dst :: "bool \<Rightarrow> list_says"
  rn_create_lease :: "go_error option"
  rn_create :: "string \<Rightarrow> go_error option"
  rn_first :: "filter_opts \<Rightarrow> (string \<Rightarrow> dest_status option) \<Rightarrow> pair list \<Rightarrow> folder_report list"
  rn_cut :: "go_error option"
  rn_second :: "filter_opts \<Rightarrow> (string \<Rightarrow> dest_status option) \<Rightarrow> pair list \<Rightarrow> folder_report list"
  rn_health :: health
  rn_ended :: "go_error option"

record run_report =
  rr_folders :: "folder_report list"
  rr_skips :: "skip list"
  rr_created :: "string list"

definition no_report :: run_report where
  "no_report = \<lparr>rr_folders = [], rr_skips = [], rr_created = []\<rparr>"

definition run_account :: "sync_opts \<Rightarrow> options \<Rightarrow> run_says \<Rightarrow> go_error option \<times> run_report" where
  "run_account opts fopts says =
     (case resolve_filter (o_filter opts) (rn_limit says) of
        Inl e \<Rightarrow> (Some e, no_report)
      | Inr f \<Rightarrow>
     (case plan_run opts fopts (rn_src says) (rn_dst says) of
        Inl e \<Rightarrow> (Some e, no_report)
      | Inr (p, status) \<Rightarrow>
     (let rep = no_report\<lparr>rr_skips := skips p\<rparr> in
      case create_folders opts (rn_create_lease says) (rn_create says) (creates p) of
        (Some e, made, _) \<Rightarrow> (Some e, rep\<lparr>rr_created := made\<rparr>)
      | (None, made, _) \<Rightarrow>
          (let first = rn_first says f status (pairs p);
               again = map retry_pair (retryable first);
               fs = (if again \<noteq> [] \<and> rn_cut says = None
                     then fold replace_report (rn_second says f status again) first else first)
           in (case verdict (rn_health says) of Some e \<Rightarrow> Some e | None \<Rightarrow> rn_ended says,
               rep\<lparr>rr_created := made, rr_folders := sort_key r_source fs\<rparr>)))))"

section \<open>Removing duplicates alone\<close>

record dedup_selection =
  ds_only :: "string list"
  ds_include :: "pattern list"
  ds_exclude :: "pattern list"

fun apply_selection :: "dedup_selection \<Rightarrow> folder list \<Rightarrow> string list \<times> (string \<times> string) list" where
  "apply_selection sel [] = ([], [])"
| "apply_selection sel (b # bs) =
     (let (targets, left) = apply_selection sel bs in
      if \<not> selectable b then (targets, (name b, ''not selectable'') # left)
      else if ds_only sel \<noteq> [] \<and> \<not> List.member (ds_only sel) (name b) then (targets, (name b, ''not in --folder'') # left)
      else if ds_include sel \<noteq> [] \<and> \<not> matches_any (ds_include sel) (name b)
        then (targets, (name b, ''does not match --include'') # left)
      else if matches_any (ds_exclude sel) (name b) then (targets, (name b, ''matches --exclude'') # left)
      else (name b # targets, left))"

text \<open>The one source folder recorded as copying into a destination, if there is one.\<close>

definition claims_over :: "string \<Rightarrow> db \<Rightarrow> string \<Rightarrow> go_error + nat \<times> nat \<times> nat" where
  "claims_over pid d dst =
     (case folders_by_dest pid dst d of
        [] \<Rightarrow> Inr (0, 0, 0)
      | [r] \<Rightarrow> Inr (f_id r, src_validity r, dst_validity r)
      | _ \<Rightarrow> Inl (PlainErr (''refusing to deduplicate '' @ dst)))"

record dedup_says =
  dd_lease :: "go_error option"
  dd_box :: "go_error + mailbox"
  dd_view :: view
  dd_remove :: "nat list \<Rightarrow> go_error option"

record dedup_report =
  dp_dest :: string
  dp_result :: dedupe_result
  dp_err :: "go_error option"

definition no_result :: dedupe_result where
  "no_result = \<lparr>d_population = 0, d_removed = 0, d_refused = 0, d_unequal = 0\<rparr>"

definition dedup_one ::
  "(string \<Rightarrow> string) \<Rightarrow> sync_opts \<Rightarrow> dedup_says \<Rightarrow> string \<Rightarrow> db \<Rightarrow> dedup_report \<times> nat list \<times> db" where
  "dedup_one sha opts says dst d =
     (let fr = \<lparr>dp_dest = dst, dp_result = no_result, dp_err = None\<rparr>; failed = (\<lambda>e. fr\<lparr>dp_err := Some e\<rparr>) in
      case claims_over (pair_name opts) d dst of
        Inl e \<Rightarrow> (failed e, [], d)
      | Inr (fid, sv, stored) \<Rightarrow>
          (case dd_lease says of
             Some e \<Rightarrow> (failed (WrapErr [e]), [], d)
           | None \<Rightarrow>
               (case dd_box says of
                  Inl e \<Rightarrow> (failed (WrapErr [e]), [], d)
                | Inr box \<Rightarrow>
                    (case dedupe_dest sha opts (dd_view says) (dd_remove says) fid sv (box_validity box) (dry_run opts) d of
                       ((Some e, res), us, d) \<Rightarrow> (failed e, us, d)
                     | ((None, res), us, d) \<Rightarrow> (fr\<lparr>dp_result := res\<rparr>, us, d)))))"

text \<open>The run over all of them; \<open>work\<close> is what the workers report, in whatever order they finish.\<close>

definition dedup_account ::
  "list_says \<Rightarrow> dedup_selection \<Rightarrow> (string list \<Rightarrow> dedup_report list) \<Rightarrow> go_error option
     \<Rightarrow> go_error option \<times> dedup_report list \<times> (string \<times> string) list" where
  "dedup_account says sel work ended =
     (case list_account says of
        Inl e \<Rightarrow> (Some (WrapErr [e]), [], [])
      | Inr (boxes, _) \<Rightarrow>
          (let (targets, left) = apply_selection sel (map li_folder boxes)
           in (ended, sort_key dp_dest (work targets), left)))"

definition dedup_totals :: "dedup_report list \<Rightarrow> nat \<times> nat \<times> nat \<times> nat" where
  "dedup_totals rs =
     (sum_list (map (d_population \<circ> dp_result) rs), sum_list (map (d_removed \<circ> dp_result) rs),
      sum_list (map (d_refused \<circ> dp_result) rs), sum_list (map (d_unequal \<circ> dp_result) rs))"

section \<open>Lemmas: reports\<close>

lemma replace_sources:
  "r_source fr \<in> r_source ` set rs \<Longrightarrow> map r_source (replace_report fr rs) = map r_source rs"
  by (induction rs) auto

lemma replace_set:
  "distinct (map r_source rs) \<Longrightarrow> r_source fr \<in> r_source ` set rs \<Longrightarrow>
     set (replace_report fr rs) = insert fr {r \<in> set rs. r_source r \<noteq> r_source fr}"
proof (induction rs)
  case (Cons r rs)
  show ?case
  proof (cases "r_source r = r_source fr")
    case True
    with Cons.prems(1) have "r_source fr \<notin> r_source ` set rs" by simp
    then have "\<forall>x \<in> set rs. r_source x \<noteq> r_source fr" by (metis imageI)
    with True show ?thesis by auto
  next
    case False
    with Cons.prems have "r_source fr \<in> r_source ` set rs" by auto
    with Cons.IH Cons.prems(1) False show ?thesis by auto
  qed
qed simp

lemma replace_all:
  assumes "distinct (map r_source rs)" and "distinct (map r_source new)" and "r_source ` set new \<subseteq> r_source ` set rs"
  shows "map r_source (fold replace_report new rs) = map r_source rs \<and>
    set (fold replace_report new rs) = set new \<union> {r \<in> set rs. r_source r \<notin> r_source ` set new}"
  using assms
proof (induction new arbitrary: rs)
  case (Cons fr new)
  let ?rs = "replace_report fr rs"
  have in_rs: "r_source fr \<in> r_source ` set rs" using Cons.prems(3) by simp
  note m = replace_sources [OF in_rs] and s = replace_set [OF Cons.prems(1) in_rs]
  have "r_source ` set ?rs = r_source ` set rs" using m by (metis list.set_map)
  with Cons.IH [of ?rs] Cons.prems m have IH: "map r_source (fold replace_report new ?rs) = map r_source ?rs"
    "set (fold replace_report new ?rs) = set new \<union> {r \<in> set ?rs. r_source r \<notin> r_source ` set new}" by auto
  have "r_source fr \<notin> r_source ` set new" using Cons.prems(2) by auto
  then show ?case using IH m unfolding s by auto
qed simp

lemma pass_report_names:
  "r_source (snd (sync q)) = p_source q \<Longrightarrow> r_dest (snd (sync q)) = p_dest q \<Longrightarrow>
     r_source (pass_report sync q) = p_source q \<and> r_dest (pass_report sync q) = p_dest q"
  by (auto simp: pass_report_def split: prod.splits option.splits)

lemma passed_sources:
  assumes "passed sync n ps out" and names: "\<forall>q. r_source (snd (sync q)) = p_source q \<and> r_dest (snd (sync q)) = p_dest q"
  shows "mset (map r_source out) = mset (map p_source (take n ps))" and "set out = pass_report sync ` set (take n ps)"
proof -
  have p: "r_source (pass_report sync q) = p_source q" for q using names pass_report_names by blast
  then have e: "image_mset r_source (mset (map (pass_report sync) xs)) = mset (map p_source xs)" for xs by (induction xs) simp_all
  show "mset (map r_source out) = mset (map p_source (take n ps))"
    unfolding mset_map [of r_source out] assms(1) [unfolded passed_def] by (rule e)
  show "set out = pass_report sync ` set (take n ps)"
    using arg_cong [OF assms(1) [unfolded passed_def], of set_mset] by simp
qed

lemma plan_run_Inr:
  assumes "plan_run opts fopts src dst = Inr (p, status)" and "list_account src = Inr (sb, sd)"
  shows "\<exists>db dd. list_account (dst (\<not> no_verify_dest opts)) = Inr (db, dd) \<and>
    build (map li_folder sb) (map li_folder db) (settle_delims fopts sd dd) = Inr p \<and> status = status_map db"
proof (cases "list_account (dst (\<not> no_verify_dest opts))")
  case (Inl e)
  with assms show ?thesis by (simp add: plan_run_def wrap_err_def bind_err_def)
next
  case (Inr l)
  obtain db dd where l: "l = (db, dd)" by fastforce
  with assms Inr show ?thesis
    by (cases "build (map li_folder sb) (map li_folder db) (settle_delims fopts sd dd)")
      (simp_all add: plan_run_def wrap_err_def bind_err_def)
qed

lemma build_sources:
  assumes "build fs gs fo = Inr p"
  shows "mset (map p_source (pairs p)) + mset (map s_source (skips p)) = mset (map name fs)"
  using outcomes_accounted [of fo "roles_of gs (dest_prefix fo)" "dest_names gs" fs]
  by (simp add: build_Inr(1,2) [OF assms])

text \<open>Every mailbox is chosen or left out with its reason, and chosen only if nothing speaks against it.\<close>

lemma selection_partitions:
  assumes "apply_selection sel boxes = (targets, left)"
  shows "mset targets + mset (map fst left) = mset (map name boxes)"
    and "t \<in> set targets \<Longrightarrow> \<exists>b \<in> set boxes. name b = t \<and> selectable b \<and> (ds_only sel = [] \<or> t \<in> set (ds_only sel)) \<and>
      (ds_include sel = [] \<or> matches_any (ds_include sel) t) \<and> \<not> matches_any (ds_exclude sel) t"
  using assms
  by (induction sel boxes arbitrary: targets left rule: apply_selection.induct) (force split: prod.splits if_splits)+

section \<open>Properties\<close>


text \<open>Two mailboxes, one of them not on the destination; the first attempt at INBOX loses its connection.\<close>

definition sample_listing :: "string list \<Rightarrow> list_says" where
  "sample_listing ns =
     \<lparr>ls_lease = None,
      ls_folders = Inr (map (\<lambda>n. \<lparr>li_folder = \<lparr>name = n, attrs = [], selectable = True\<rparr>, li_delim = ''/'',
        li_status = \<lparr>ds_messages = None, ds_validity = 0\<rparr>\<rparr>) ns), ls_namespace = Inr []\<rparr>"

definition sample_folder_opts :: options where
  "sample_folder_opts =
     \<lparr>source_delim = [], dest_delim = [], source_prefix = [], dest_prefix = [], automap = True, include_virtual = False,
      only_folders = [], include_pats = [], exclude_pats = [], mappings = Map.empty, dest_subfolder = []\<rparr>"

definition sample_sync :: "bool \<Rightarrow> pair \<Rightarrow> go_error option \<times> folder_report" where
  "sample_sync first q =
     (if first \<and> p_source q = ''INBOX'' then Some (Sentinel ErrConnectionBroken) else None, new_report (p_source q) (p_dest q))"

definition sample_run :: run_says where
  "sample_run =
     \<lparr>rn_limit = Inr None, rn_src = sample_listing [''Work'', ''INBOX''], rn_dst = (\<lambda>_. sample_listing [''INBOX'']),
      rn_create_lease = None, rn_create = (\<lambda>_. None), rn_first = (\<lambda>f status ps. rev (map (pass_report (sample_sync True)) ps)),
      rn_cut = None, rn_second = (\<lambda>f status ps. map (pass_report (sample_sync False)) ps), rn_health = new_health 50,
      rn_ended = None\<rparr>"


text \<open>Removing duplicates from one mailbox does nothing at all where more than one source folder is recorded as
  copying into it - no removal, no change to the state, and an error - and nothing but report in a dry run. What it
  removes otherwise, it removes on the strength of the claims of the one folder recorded there, or of none.\<close>

theorem dedup_is_guarded:
  "case dedup_one sha opts says dst d of
     (fr, us, d') \<Rightarrow>
       (if length (folders_by_dest (pair_name opts) dst d) > 1
        then us = [] \<and> d' = d \<and> dp_err fr \<noteq> None \<and> dp_result fr = no_result
        else case (dd_lease says, dd_box says) of
          (Some e, _) \<Rightarrow> us = [] \<and> d' = d \<and> dp_err fr \<noteq> None
        | (None, Inl e) \<Rightarrow> us = [] \<and> d' = d \<and> dp_err fr \<noteq> None
        | (None, Inr box) \<Rightarrow>
            (let (fid, sv) = (case folders_by_dest (pair_name opts) dst d of [] \<Rightarrow> (0, 0) | r # _ \<Rightarrow> (f_id r, src_validity r));
                 (res, asked, e) = dedupe_dest sha opts (dd_view says) (dd_remove says) fid sv (box_validity box) (dry_run opts) d
             in us = asked \<and> d' = e \<and> dp_err fr = fst res \<and>
                dp_result fr = (if fst res = None then snd res else no_result) \<and>
                (if dry_run opts then us = [] \<and> d' = d else True)))"
proof (cases "length (folders_by_dest (pair_name opts) dst d) > 1 \<or> dd_lease says \<noteq> None")
  case True
  then show ?thesis
    by (cases "folders_by_dest (pair_name opts) dst d"; cases "tl (folders_by_dest (pair_name opts) dst d)")
      (auto simp: dedup_one_def claims_over_def)
next
  case False
  let ?k = "case folders_by_dest (pair_name opts) dst d of [] \<Rightarrow> (0, 0) | r # _ \<Rightarrow> (f_id r, src_validity r)"
  obtain fid sv where k: "?k = (fid, sv)" by fastforce
  from False have "\<exists>n. claims_over (pair_name opts) d dst = Inr (fst ?k, snd ?k, n)"
    by (cases "folders_by_dest (pair_name opts) dst d"; cases "tl (folders_by_dest (pair_name opts) dst d)")
      (auto simp: claims_over_def)
  then obtain n where c: "claims_over (pair_name opts) d dst = Inr (fid, sv, n)" unfolding k by auto
  show ?thesis
  proof (cases "dd_box says")
    case (Inl e)
    with False c show ?thesis by (simp add: dedup_one_def)
  next
    case (Inr box)
    obtain x res us e where r: "dedupe_dest sha opts (dd_view says) (dd_remove says) fid sv (box_validity box) (dry_run opts) d
        = ((x, res), us, e)" by (metis prod.collapse)
    have "if dry_run opts then us = [] \<and> e = d else True"
    proof (cases "dry_run opts")
      case True
      with r have "dedupe_dest sha opts (dd_view says) (dd_remove says) fid sv (box_validity box) True d = ((x, res), us, e)" by simp
      from dry_dedupe [OF this] show ?thesis by simp
    qed simp
    with False c Inr r show ?thesis by (cases x) (simp_all add: dedup_one_def k)
  qed
qed

text \<open>The second pass forgets that a destination is still to be made. A dry run that failed to read the source of such
  a folder tries it again as though the mailbox were there, and fails on it: the report carries the second error.\<close>

lemma dry_retry_forgets_the_creation:
  "let says = sample_dry\<lparr>dr_verify_box := Inl (PlainErr ''no such mailbox'')\<rparr>;
       p = sample_pair\<lparr>create_dest := True\<rparr>;
       preview = (\<lambda>p. fst (fst (dry_run_folder id (\<lambda>_. None) sample_opts 0 says p (sample_db []))))
   in preview p = None \<and> preview (retry_pair (p_source p, p_dest p)) \<noteq> None"
  by code_simp

end
