(* ===== verification/Getopt.thy ===== *)
theory Getopt
  imports Prelude "HOL-Library.Multiset"
begin

text \<open>
  The option parser of the imapsync compatibility layer (\<open>src/internal/compat/getopt.go\<close>), which
  follows Perl's Getopt::Long: \<open>index\<close> lists the assignments that fill the map of accepted spellings,
  \<open>entries\<close> is the map that results, \<open>resolve\<close> finds the option a spelling names, exactly or by
  unique abbreviation, and \<open>parse_args\<close> reads a command line. Go's iteration order over a map is not
  fixed: \<open>resolve\<close> takes the entries in some order and is proved not to depend on it.

  Pointers to table entries are compared in the code. An option of the model is its record: a table
  entry equal to a later one has every spelling overwritten by it, so within one map equal records are one
  entry.
\<close>

section \<open>Options\<close>

datatype value_kind = NoValue | Boolean | Text | TextList | TextPairs | Integer | Number

definition takes_value :: "value_kind \<Rightarrow> bool" where
  "takes_value k \<longleftrightarrow> k \<noteq> NoValue \<and> k \<noteq> Boolean"

datatype disposition = Refuse | Translate | Ignore | Endpoint

record outcome =
  how :: disposition
  native :: string
  why :: string

record option_t =
  names :: "string list"
  kind :: value_kind
  on_outcome :: outcome
  off_outcome :: "outcome option"

definition opt_name :: "option_t \<Rightarrow> string" where
  "opt_name p = names p ! 0"

definition answer :: "option_t \<Rightarrow> bool \<Rightarrow> outcome" where
  "answer p on = (case off_outcome p of Some off \<Rightarrow> if \<not> on then off else on_outcome p | None \<Rightarrow> on_outcome p)"

type_synonym target = "option_t \<times> bool"

record given =
  g_opt :: option_t
  g_on :: bool
  g_value :: string

section \<open>The map of spellings\<close>

definition spellings :: "option_t \<Rightarrow> string \<Rightarrow> (string \<times> target) list" where
  "spellings p n =
     (let lower = go_lower n in
      (lower, (p, True)) #
      (if kind p = Boolean then [(''no'' @ lower, (p, False)), (''no-'' @ lower, (p, False))] else []))"

definition index :: "option_t list \<Rightarrow> (string \<times> target) list" where
  "index opts = concat (map (\<lambda>p. concat (map (spellings p) (names p))) opts)"

text \<open>A later assignment to the same key wins.\<close>

fun entries :: "('k \<times> 'v) list \<Rightarrow> ('k \<times> 'v) list" where
  "entries [] = []"
| "entries ((k, v) # r) = (if list_ex (\<lambda>(k', _). k' = k) r then entries r else (k, v) # entries r)"

section \<open>Errors\<close>

datatype getopt_error =
  Ambiguous string "string list"
| UnknownOption string
| TakesNoArgument string
| RequiresArgument string
| StrayArguments "string list"

text \<open>The messages. \<open>quote\<close> stands for \<open>strconv.Quote\<close>, whose notion of a printable rune is a
  table of the Unicode standard.\<close>

fun getopt_error_text :: "(string \<Rightarrow> string) \<Rightarrow> getopt_error \<Rightarrow> string" where
  "getopt_error_text quote (Ambiguous s ms) = ''option --'' @ s @ '' is ambiguous: it could be '' @ join_str ms '', ''"
| "getopt_error_text quote (UnknownOption s) = ''unknown option --'' @ s"
| "getopt_error_text quote (TakesNoArgument s) = ''option --'' @ s @ '' does not take an argument''"
| "getopt_error_text quote (RequiresArgument s) = ''option --'' @ s @ '' requires an argument''"
| "getopt_error_text quote (StrayArguments xs) =
     ''imapsync takes no arguments of its own, but got '' @ quote (join_str xs '' '')"

section \<open>Resolving a spelling\<close>

definition dashed :: "string list \<Rightarrow> string list" where
  "dashed ns = map (\<lambda>n. ''--'' @ n) ns"

definition resolve :: "(string \<times> target) list \<Rightarrow> string \<Rightarrow> getopt_error + target" where
  "resolve idx spelling =
     (let key = go_lower spelling in
      case map_of idx key of
        Some t \<Rightarrow> Inr t
      | None \<Rightarrow>
          (let matching = filter (\<lambda>(k, t). has_prefix k key) idx in
           case map snd matching of
             [] \<Rightarrow> Inl (UnknownOption spelling)
           | found # others \<Rightarrow>
               if list_ex (\<lambda>t. t \<noteq> found) others
               then Inl (Ambiguous spelling (dashed (sort (map fst matching))))
               else Inr found))"

section \<open>Parsing a command line\<close>

fun parse_from :: "(string \<times> target) list \<Rightarrow> string list \<Rightarrow> given list \<Rightarrow> string list
    \<Rightarrow> getopt_error + given list \<times> string list" where
  "parse_from idx [] out extra = Inr (out, extra)"
| "parse_from idx (a # rest) out extra =
     (if a = ''--'' then Inr (out, extra @ rest)
      else if length a < 2 \<or> hd a \<noteq> CHR ''-'' then parse_from idx rest out (extra @ [a])
      else
        (let body = trim_prefix (trim_prefix a ''-'') ''-'';
             (spelling, val, has_value) = cut (CHR ''='') body
         in case resolve idx spelling of
              Inl e \<Rightarrow> Inl e
            | Inr (p, on) \<Rightarrow>
                if \<not> takes_value (kind p) then
                  (if has_value then Inl (TakesNoArgument spelling)
                   else parse_from idx rest (out @ [\<lparr>g_opt = p, g_on = on, g_value = ''''\<rparr>]) extra)
                else if has_value then
                  parse_from idx rest (out @ [\<lparr>g_opt = p, g_on = True, g_value = val\<rparr>]) extra
                else (case rest of
                        [] \<Rightarrow> Inl (RequiresArgument spelling)
                      | v # rest' \<Rightarrow>
                          parse_from idx rest' (out @ [\<lparr>g_opt = p, g_on = True, g_value = v\<rparr>]) extra)))"

definition parse_args :: "string list \<Rightarrow> option_t list \<Rightarrow> getopt_error + given list" where
  "parse_args args opts =
     bind_err (parse_from (entries (index opts)) args [] [])
       (\<lambda>(out, extra). if extra \<noteq> [] then Inl (StrayArguments extra) else Inr out)"

text \<open>How an option is spelled in messages (\<open>spell\<close> of \<open>translate.go\<close>).\<close>

definition spell :: "given \<Rightarrow> string" where
  "spell g = (if kind (g_opt g) = Boolean \<and> \<not> g_on g then ''--no'' @ opt_name (g_opt g)
              else ''--'' @ opt_name (g_opt g))"

section \<open>The map is what its assignments leave\<close>

lemma entries_keys: "fst ` set (entries es) = fst ` set es"
proof (induction es)
  case (Cons e es)
  then show ?case by (cases e) (force simp: list_ex_iff)
qed simp

lemma entries_subset: "set (entries es) \<subseteq> set es"
proof (induction es)
  case (Cons e es)
  then show ?case by (cases e) auto
qed simp

lemma entries_distinct: "distinct (map fst (entries es))"
proof (induction es)
  case (Cons e es)
  obtain k v where e: "e = (k, v)" by (cases e)
  have "k \<notin> fst ` set (entries es)" if "\<not> list_ex (\<lambda>(k', _). k' = k) es"
    using that entries_keys [of es] by (auto simp: list_ex_iff)
  with Cons show ?case by (simp add: e)
qed simp

lemma entries_are_map: "map_of (entries es) = map_of (rev es)"
proof (induction es)
  case (Cons e es)
  obtain k v where e: "e = (k, v)" by (cases e)
  show ?case
  proof (cases "list_ex (\<lambda>(k', _). k' = k) es")
    case True
    then obtain w where "(k, w) \<in> set es" by (auto simp: list_ex_iff)
    then have "\<exists>w. map_of (rev es) k = Some w" using weak_map_of_SomeI [of k w "rev es"] by simp
    then have "[k \<mapsto> v] ++ map_of (rev es) = map_of (rev es)"
      by (auto simp: map_add_def split: option.splits)
    with True Cons show ?thesis by (simp add: e map_add_def [symmetric] del: fun_upd_apply)
  next
    case False
    then have "map_of (rev es) k = None" by (force simp: list_ex_iff map_of_eq_None_iff)
    then have "[k \<mapsto> v] ++ map_of (rev es) = (map_of (rev es))(k \<mapsto> v)"
      by (auto simp: map_add_def fun_eq_iff split: option.splits)
    with False Cons show ?thesis by (simp add: e)
  qed
qed simp

lemma entries_id: "distinct (map fst es) \<Longrightarrow> entries es = es"
proof (induction es)
  case (Cons e es)
  then show ?case by (cases e) (force simp: list_ex_iff)
qed simp

section \<open>What a spelling resolves to\<close>

text \<open>The meanings a spelling could abbreviate.\<close>

definition meanings :: "(string \<times> target) list \<Rightarrow> string \<Rightarrow> target set" where
  "meanings idx key = snd ` {e \<in> set idx. has_prefix (fst e) key}"

lemma resolve_cases:
  "resolve idx s =
     (case map_of idx (go_lower s) of
        Some t \<Rightarrow> Inr t
      | None \<Rightarrow>
          if meanings idx (go_lower s) = {} then Inl (UnknownOption s)
          else if is_singleton (meanings idx (go_lower s)) then Inr (the_elem (meanings idx (go_lower s)))
          else Inl (Ambiguous s (dashed (sort (map fst (filter (\<lambda>e. has_prefix (fst e) (go_lower s)) idx))))))"
proof -
  define ms where "ms = filter (\<lambda>(k, t). has_prefix k (go_lower s)) idx"
  have f: "filter (\<lambda>e. has_prefix (fst e) (go_lower s)) idx = ms"
    by (simp add: ms_def case_prod_beta')
  have m: "meanings idx (go_lower s) = set (map snd ms)"
    by (force simp: meanings_def ms_def)
  show ?thesis
  proof (cases "map_of idx (go_lower s)")
    case None
    show ?thesis
    proof (cases "map snd ms")
      case Nil
      with None show ?thesis by (simp add: resolve_def ms_def [symmetric] m)
    next
      case (Cons t r)
      have single: "is_singleton (set (t # r)) \<longleftrightarrow> \<not> list_ex (\<lambda>u. u \<noteq> t) r"
        by (auto simp: is_singleton_def list_ex_iff)
      have "set (t # r) = {t}" if "\<not> list_ex (\<lambda>u. u \<noteq> t) r"
        using that by (auto simp: list_ex_iff)
      with None Cons single show ?thesis
        by (simp add: resolve_def ms_def [symmetric] m f del: set_simps)
    qed
  qed (simp add: resolve_def)
qed

text \<open>An option is found exactly when its spelling, in any letter case, is one of the accepted ones or
  abbreviates accepted ones that all mean the same option in the same polarity; it is unknown exactly when it
  abbreviates nothing.\<close>

theorem resolve_exact:
  "(resolve idx s = Inr t \<longleftrightarrow>
      (case map_of idx (go_lower s) of Some u \<Rightarrow> u = t | None \<Rightarrow> meanings idx (go_lower s) = {t})) \<and>
   (resolve idx s = Inl (UnknownOption s) \<longleftrightarrow> meanings idx (go_lower s) = {})"
proof -
  have n: "meanings idx (go_lower s) \<noteq> {}" if "map_of idx (go_lower s) = Some u" for u
    proof -
    have "has_prefix (go_lower s) (go_lower s)" by (simp add: has_prefix_def)
    with map_of_SomeD [OF that] have "u \<in> meanings idx (go_lower s)"
      unfolding meanings_def by (intro rev_image_eqI [where x = "(go_lower s, u)"]) simp_all
    then show ?thesis by blast
  qed
  show ?thesis
  proof (cases "map_of idx (go_lower s)")
    case None
    consider "meanings idx (go_lower s) = {}" | u where "meanings idx (go_lower s) = {u}"
      | "meanings idx (go_lower s) \<noteq> {}" "\<not> is_singleton (meanings idx (go_lower s))"
      by (auto simp: is_singleton_def)
    then show ?thesis
    proof cases
      case 3
      then have "meanings idx (go_lower s) \<noteq> {t}" by auto
      with 3 None show ?thesis by (simp add: resolve_cases)
    qed (use None in \<open>simp_all add: resolve_cases\<close>)
  qed (use n in \<open>simp add: resolve_cases\<close>)
qed

text \<open>Go may enumerate a map in any order; the answer, the list of candidates in an ambiguity
  included, is the same.\<close>

theorem resolve_any_order:
  assumes "distinct (map fst m)" and "mset m' = mset m"
  shows "resolve m' s = resolve m s"
proof -
  have "mset (map fst m') = mset (map fst m)" using assms(2) by simp
  then have d: "distinct (map fst m')" using assms(1) mset_eq_imp_distinct_iff by blast
  have st: "set m' = set m" using assms(2) by (rule mset_eq_setD)
  have look: "map_of m' k = map_of m k" for k
    using d assms(1) st by (metis map_of_eq_Some_iff not_Some_eq)
  have "mset (filter P m') = mset (filter P m)" for P
    using assms(2) by (simp add: mset_filter)
  then have "sort (map fst (filter P m')) = sort (map fst (filter P m))" for P
    by (metis mset_map mset_sort properties_for_sort sorted_sort)
  moreover have "meanings m' k = meanings m k" for k by (simp add: meanings_def st)
  ultimately show ?thesis by (simp add: resolve_cases look split: option.split)
qed

text \<open>The map itself does not hold a spelling twice, so the theorem applies to every map of options.\<close>

theorem resolve_any_order_witness:
  "(let p = \<lparr>names = [''dry''], kind = Boolean, on_outcome = \<lparr>how = Ignore, native = [], why = []\<rparr>, off_outcome = None\<rparr>;
        m = entries (index [p])
    in resolve (rev m) ''no'' = resolve m ''no'' \<and> resolve m ''no'' = Inr (p, False))"
proof -
  define p where "p = \<lparr>names = [''dry''], kind = Boolean, on_outcome = \<lparr>how = Ignore, native = [], why = []\<rparr>, off_outcome = None\<rparr>"
  have "resolve (rev (entries (index [p]))) ''no'' = resolve (entries (index [p])) ''no''"
    by (rule resolve_any_order) (simp_all add: entries_distinct)
  moreover have "resolve (entries (index [p])) ''no'' = Inr (p, False)"
    unfolding p_def by code_simp
  ultimately show ?thesis unfolding Let_def p_def by blast
qed

section \<open>Typing an option back\<close>

text \<open>An option as a command line would give it: its canonical spelling, then its value.\<close>

definition retype :: "given \<Rightarrow> string list" where
  "retype g = spell g # (if takes_value (kind (g_opt g)) then [g_value g] else [])"

definition plain_name :: "string \<Rightarrow> bool" where
  "plain_name n \<longleftrightarrow> n \<noteq> [] \<and> CHR ''='' \<notin> set n"

text \<open>A usable table: no spelling twice, every option named, no name that would read as a value.\<close>

definition wf_table :: "option_t list \<Rightarrow> bool" where
  "wf_table opts \<longleftrightarrow> distinct (map fst (index opts)) \<and>
     list_all (\<lambda>p. names p \<noteq> [] \<and> plain_name (opt_name p)) opts"

definition wf_given :: "option_t list \<Rightarrow> given \<Rightarrow> bool" where
  "wf_given opts g \<longleftrightarrow> List.member opts (g_opt g) \<and> (kind (g_opt g) = Boolean \<or> g_on g) \<and>
     (takes_value (kind (g_opt g)) \<or> g_value g = [])"

lemma go_lower_ascii: "byte a < 128 \<Longrightarrow> go_lower (a # s) = lower_byte a # go_lower s"
  by (cases "(a # s, True)" rule: prod.exhaust, cases s; cases "tl s") auto

lemma go_lower_no: "go_lower (''no'' @ s) = ''no'' @ go_lower s"
  by (simp add: go_lower_ascii lower_byte_def)

lemma lookup_option:
  assumes "wf_table opts" and "p \<in> set opts"
  shows "map_of (entries (index opts)) (go_lower (opt_name p)) = Some (p, True)"
    and "kind p = Boolean \<Longrightarrow> map_of (entries (index opts)) (go_lower (''no'' @ opt_name p)) = Some (p, False)"
proof -
  have d: "distinct (map fst (index opts))" and n: "names p \<noteq> []"
    using assms by (auto simp: wf_table_def list_all_iff)
  have m: "opt_name p \<in> set (names p)" using n by (simp add: opt_name_def)
  have in1: "e \<in> set (spellings p (opt_name p)) \<Longrightarrow> e \<in> set (index opts)" for e
    using assms(2) m by (auto simp: index_def)
  show "map_of (entries (index opts)) (go_lower (opt_name p)) = Some (p, True)"
    using d by (simp add: entries_id in1 spellings_def Let_def)
  show "map_of (entries (index opts)) (go_lower (''no'' @ opt_name p)) = Some (p, False)" if "kind p = Boolean"
    unfolding go_lower_no using d that by (simp add: entries_id in1 spellings_def Let_def)
qed

lemma resolve_lookup: "map_of idx (go_lower s) = Some t \<Longrightarrow> resolve idx s = Inr t"
  by (simp add: resolve_def)

lemma parse_retyped_step:
  assumes "wf_table opts" and "wf_given opts g"
  shows "parse_from (entries (index opts)) (retype g @ rest) out extra =
         parse_from (entries (index opts)) rest (out @ [g]) extra"
proof -
  let ?p = "g_opt g"
  have p: "?p \<in> set opts" and k: "kind ?p = Boolean \<or> g_on g"
    and v: "takes_value (kind ?p) \<or> g_value g = []"
    using assms(2) by (auto simp: wf_given_def)
  have n: "opt_name ?p \<noteq> []" "CHR ''='' \<notin> set (opt_name ?p)"
    using assms(1) p by (auto simp: wf_table_def list_all_iff plain_name_def)
  have tp: "trim_prefix (trim_prefix (CHR ''-'' # CHR ''-'' # s) ''-'') ''-'' = s" for s
    by (simp add: trim_prefix_def has_prefix_def)
  show ?thesis
  proof (cases "kind ?p = Boolean \<and> \<not> g_on g")
    case True
    have r: "resolve (entries (index opts)) (''no'' @ opt_name ?p) = Inr (?p, False)"
      using resolve_lookup lookup_option(2) [OF assms(1) p] True by blast
    have c: "cut (CHR ''='') (''no'' @ opt_name ?p) = (''no'' @ opt_name ?p, [], False)"
      using n by (intro cut_missing) simp
    have g: "\<lparr>g_opt = ?p, g_on = False, g_value = []\<rparr> = g"
      using True v by (simp add: takes_value_def)
    from True r c g show ?thesis by (simp add: retype_def spell_def tp takes_value_def)
  next
    case False
    with k have on: "g_on g" by blast
    have r: "resolve (entries (index opts)) (opt_name ?p) = Inr (?p, True)"
      using resolve_lookup lookup_option(1) [OF assms(1) p] by blast
    have c: "cut (CHR ''='') (opt_name ?p) = (opt_name ?p, [], False)" using n by (intro cut_missing)
    have g: "\<lparr>g_opt = ?p, g_on = True, g_value = g_value g\<rparr> = g"
      "g_value g = [] \<Longrightarrow> \<lparr>g_opt = ?p, g_on = True, g_value = []\<rparr> = g" using on by simp_all
    from False on r c n v show ?thesis by (auto simp: retype_def spell_def tp g)
  qed
qed

lemma parse_retyped_from:
  assumes "wf_table opts" and "\<forall>g \<in> set gs. wf_given opts g"
  shows "parse_from (entries (index opts)) (concat (map retype gs)) out [] = Inr (out @ gs, [])"
  using assms(2)
proof (induction gs arbitrary: out)
  case (Cons g gs)
  then show ?case by (simp add: parse_retyped_step [OF assms(1)])
qed simp

lemma parse_retyped:
  assumes "wf_table opts" and "\<forall>g \<in> set gs. wf_given opts g"
  shows "parse_args (concat (map retype gs)) opts = Inr gs"
  using parse_retyped_from [OF assms, of "[]"] by (simp add: parse_args_def)

text \<open>Whatever is parsed is an option of the table, off only when the option can be negated, with a value
  only when it takes one.\<close>

lemma resolve_target: "resolve idx s = Inr t \<Longrightarrow> \<exists>k. (k, t) \<in> set idx"
proof (cases "map_of idx (go_lower s)")
  case None
  assume "resolve idx s = Inr t"
  with None have "meanings idx (go_lower s) = {t}" using resolve_exact [of idx s t] by simp
  then have "t \<in> meanings idx (go_lower s)" by blast
  then show ?thesis by (force simp: meanings_def)
next
  case (Some u)
  assume "resolve idx s = Inr t"
  with Some have "u = t" using resolve_exact [of idx s t] by simp
  with map_of_SomeD [OF Some] show ?thesis by blast
qed

lemma index_targets: "(k, p, on) \<in> set (index opts) \<Longrightarrow> p \<in> set opts \<and> (kind p = Boolean \<or> on)"
  by (auto simp: index_def spellings_def Let_def split: if_splits)

lemma parse_from_given:
  assumes "set idx \<subseteq> set (index opts)"
  shows "parse_from idx args out extra = Inr (out', extra') \<Longrightarrow> \<forall>g \<in> set out. wf_given opts g \<Longrightarrow>
     \<forall>g \<in> set out'. wf_given opts g"
  using assms
proof (induction idx args out extra arbitrary: out' extra' rule: parse_from.induct)
  case (2 idx a rest out extra)
  obtain spelling val has where c: "cut (CHR ''='') (trim_prefix (trim_prefix a ''-'') ''-'') = (spelling, val, has)"
    by (metis prod_cases3)
  show ?case
  proof (cases "a = ''--'' \<or> length a < 2 \<or> hd a \<noteq> CHR ''-''")
    case True
    with 2 show ?thesis by (auto split: if_splits)
  next
    case False
    with "2.prems"(1) c obtain p on where r: "resolve idx spelling = Inr (p, on)"
      by (auto split: sum.splits)
    with resolve_target "2.prems"(3) index_targets have p: "p \<in> set opts" "kind p = Boolean \<or> on" by blast+
    have w: "wf_given opts \<lparr>g_opt = p, g_on = on, g_value = []\<rparr>" using p by (simp add: wf_given_def)
    have wv: "takes_value (kind p) \<Longrightarrow> wf_given opts \<lparr>g_opt = p, g_on = True, g_value = v\<rparr>" for v
      using p by (simp add: wf_given_def)
    have ok: "\<not> (length a < 2 \<or> hd a \<noteq> CHR ''-'')" "a \<noteq> ''--''" using False by blast+
    note IH = "2.IH"(2-4) [OF ok(2,1) refl refl c [symmetric] refl r refl]
    have out: "wf_given opts g \<Longrightarrow> \<forall>h \<in> set (out @ [g]). wf_given opts h" for g
      using "2.prems"(2) by simp
    show ?thesis
    proof (cases "takes_value (kind p)")
      case tv: False
      then have "parse_from idx rest (out @ [\<lparr>g_opt = p, g_on = on, g_value = []\<rparr>]) extra = Inr (out', extra')"
        and "\<not> has"
        using "2.prems"(1) ok c r by (simp_all split: if_splits)
      from IH(1) [OF tv this(2,1) out [OF w] "2.prems"(3)] show ?thesis .
    next
      case tv: True
      show ?thesis
      proof (cases has)
        case True
        then have "parse_from idx rest (out @ [\<lparr>g_opt = p, g_on = True, g_value = val\<rparr>]) extra = Inr (out', extra')"
          using "2.prems"(1) ok c r tv by simp
        from IH(2) [OF _ True this out [OF wv [OF tv]] "2.prems"(3)] tv show ?thesis by blast
      next
        case nv: False
        show ?thesis
        proof (cases rest)
          case Nil
          then show ?thesis using "2.prems"(1) False c r tv nv by simp
        next
          case (Cons v rest')
          have "parse_from idx rest' (out @ [\<lparr>g_opt = p, g_on = True, g_value = v\<rparr>]) extra = Inr (out', extra')"
            using "2.prems"(1) False c r tv nv Cons by simp
          from IH(3) [OF _ nv Cons this out [OF wv [OF tv]] "2.prems"(3)] tv show ?thesis by blast
        qed
      qed
    qed
  qed
qed auto

lemma parse_args_given:
  assumes "parse_args args opts = Inr gs"
  shows "\<forall>g \<in> set gs. wf_given opts g"
proof -
  from assms have "parse_from (entries (index opts)) args [] [] = Inr (gs, [])"
    by (auto simp: parse_args_def bind_err_Inr_iff split: if_splits)
  then show ?thesis
    using parse_from_given [OF entries_subset, of opts args "[]" "[]" gs "[]"] by simp
qed

text \<open>C28: Every option parsed belongs to the table, is off only when it may be negated and has a value only
  when it takes one; and typing the parsed options back in their canonical spelling, values apart from their
  options, gives a command line that parses to the same.\<close>

theorem parse_retype_round_trip:
  assumes "wf_table opts" and "parse_args args opts = Inr gs"
  shows "list_all (wf_given opts) gs \<and> parse_args (concat (map retype gs)) opts = Inr gs"
  using parse_args_given [OF assms(2)] parse_retyped [OF assms(1)] by (simp add: list_all_iff)

text \<open>The negated short form, a value after an equals sign and a value that looks like an option.\<close>

theorem parse_retype_round_trip_witness:
  "(let dry = \<lparr>names = [''dry''], kind = Boolean, on_outcome = \<lparr>how = Ignore, native = [], why = []\<rparr>, off_outcome = None\<rparr>;
        host = \<lparr>names = [''host1''], kind = Text, on_outcome = \<lparr>how = Endpoint, native = [], why = []\<rparr>, off_outcome = None\<rparr>;
        gs = [\<lparr>g_opt = dry, g_on = False, g_value = []\<rparr>, \<lparr>g_opt = host, g_on = True, g_value = ''a=b''\<rparr>,
              \<lparr>g_opt = host, g_on = True, g_value = ''--dry''\<rparr>]
    in parse_args [''--no-D'', ''-host1=a=b'', ''--ho'', ''--dry''] [dry, host] = Inr gs \<and>
       parse_args (concat (map retype gs)) [dry, host] = Inr gs)"
proof -
  define dry where "dry = \<lparr>names = [''dry''], kind = Boolean, on_outcome = \<lparr>how = Ignore, native = [], why = []\<rparr>, off_outcome = None\<rparr>"
  define host where "host = \<lparr>names = [''host1''], kind = Text, on_outcome = \<lparr>how = Endpoint, native = [], why = []\<rparr>, off_outcome = None\<rparr>"
  define gs where "gs = [\<lparr>g_opt = dry, g_on = False, g_value = []\<rparr>, \<lparr>g_opt = host, g_on = True, g_value = ''a=b''\<rparr>,
              \<lparr>g_opt = host, g_on = True, g_value = ''--dry''\<rparr>]"
  have w: "wf_table [dry, host]" unfolding dry_def host_def by code_simp
  have p: "parse_args [''--no-D'', ''-host1=a=b'', ''--ho'', ''--dry''] [dry, host] = Inr gs"
    unfolding gs_def dry_def host_def by code_simp
  show ?thesis
    using p parse_retype_round_trip [OF w p] unfolding Let_def gs_def dry_def host_def by blast
qed

end
