(* ===== verification/OptionTable.thy ===== *)
theory OptionTable
  imports Getopt "HOL-Library.Code_Target_Numeral"
begin

text \<open>
  The option table of the imapsync compatibility layer (\<open>src/internal/compat/table.go\<close>) with the
  data exposed for the documentation (\<open>support.go\<close>). \<open>opt\<close> builds an entry from Getopt::Long's
  spelling of it and panics on one it cannot read: the panic is \<open>None\<close>, and \<open>table_is_sound\<close> shows that
  no entry of the table panics. The six groups list every option in the order of the source.
\<close>

section \<open>Building entries\<close>

text \<open>The pattern \<open>^([a-zA-Z0-9_|-]+)(=[sif][@%]?|!)?$\<close>: the names, then a suffix. A suffix that matches
  the pattern and is not one of the cases below leaves the kind at its zero value.\<close>

definition name_char :: "char \<Rightarrow> bool" where
  "name_char c \<longleftrightarrow>
     (if 97 \<le> byte c \<and> byte c \<le> 122 then True
      else (65 \<le> byte c \<and> byte c \<le> 90) \<or> is_digit c \<or> c = CHR ''_'' \<or> c = CHR ''|'' \<or> c = CHR ''-'')"

definition spec_match :: "string \<Rightarrow> (string \<times> string) option" where
  "spec_match spec =
     (let m1 = takeWhile name_char spec; m2 = dropWhile name_char spec in
      if m1 \<noteq> [] \<and> List.member ['''', ''!'', ''=s'', ''=s@'', ''=s%'', ''=i'', ''=i@'', ''=i%'', ''=f'', ''=f@'', ''=f%''] m2
      then Some (m1, m2) else None)"

definition opt :: "string \<Rightarrow> outcome \<Rightarrow> option_t option" where
  "opt spec on =
     (case spec_match spec of
        None \<Rightarrow> None
      | Some (m1, m2) \<Rightarrow>
          let k = (if m2 = ''!'' then Boolean
                   else if m2 = ''=s'' then Text
                   else if m2 = ''=s@'' then TextList
                   else if m2 = ''=s%'' then TextPairs
                   else if m2 = ''=i'' then Integer
                   else if m2 = ''=f'' then Number
                   else NoValue)
          in Some \<lparr>names = split_str m1 ''|'', kind = k, on_outcome = on, off_outcome = None\<rparr>)"

definition tr :: "string \<Rightarrow> string \<Rightarrow> option_t option" where
  "tr spec nat_word = opt spec \<lparr>how = Translate, native = nat_word, why = ''''\<rparr>"

definition ig :: "string \<Rightarrow> string \<Rightarrow> option_t option" where
  "ig spec reason = opt spec \<lparr>how = Ignore, native = '''', why = reason\<rparr>"

definition no :: "string \<Rightarrow> string \<Rightarrow> option_t option" where
  "no spec reason = opt spec \<lparr>how = Refuse, native = '''', why = reason\<rparr>"

definition ep :: "string \<Rightarrow> option_t option" where
  "ep spec = opt spec \<lparr>how = Endpoint, native = '''', why = ''''\<rparr>"

definition off_refuses :: "option_t option \<Rightarrow> string \<Rightarrow> option_t option" where
  "off_refuses p reason =
     map_option (\<lambda>p. p\<lparr>off_outcome := Some \<lparr>how = Refuse, native = '''', why = reason\<rparr>\<rparr>) p"

definition off_ignores :: "option_t option \<Rightarrow> string \<Rightarrow> option_t option" where
  "off_ignores p reason =
     map_option (\<lambda>p. p\<lparr>off_outcome := Some \<lparr>how = Ignore, native = '''', why = reason\<rparr>\<rparr>) p"

definition off_translates :: "option_t option \<Rightarrow> string \<Rightarrow> option_t option" where
  "off_translates p nat_word =
     map_option (\<lambda>p. p\<lparr>off_outcome := Some \<lparr>how = Translate, native = nat_word, why = ''''\<rparr>\<rparr>) p"

section \<open>The table\<close>

definition not_implemented :: string where
  "not_implemented = ''this tool does not implement it''"

definition state_instead_of :: string where
  "state_instead_of = ''the state database records what has been copied, so this is not needed''"

definition per_connection :: string where
  "per_connection = ''connection tuning; this tool opens several connections instead, see --source-connections and --dest-connections''"

definition log_to_stderr :: string where
  "log_to_stderr = ''this tool logs to stderr; redirect it, or use --log-json''"

definition already_the_case :: string where
  "already_the_case = ''this is already what happens''"

definition changes_selection :: string where
  "changes_selection = ''it changes which messages are copied, and this tool would copy all of them instead''"

definition ages_from_sent_date :: string where
  "ages_from_sent_date = ''--max-age and --min-age already measure from the Date: header''"

definition dest_not_selected_by_age :: string where
  "dest_not_selected_by_age = ''only source messages are selected by age; narrowing the destination view would duplicate mail rather than skip it''"

definition endpoint_options :: "option_t option list" where
  "endpoint_options = [
     ep ''host1=s'',
     ep ''host2=s'',
     ep ''port1=i'',
     ep ''port2=i'',
     ep ''user1=s'',
     ep ''user2=s'',
     ep ''password1=s'',
     ep ''password2=s'',
     ep ''passfile1=s'',
     ep ''passfile2=s'',
     ep ''ssl1!'',
     ep ''ssl2!'',
     ep ''tls1!'',
     ep ''tls2!'',
     ep ''office1'',
     ep ''office2'',
     ig ''exchange1'' ''it does nothing in imapsync either'',
     ig ''exchange2'' ''it does nothing in imapsync either'',
     no ''gmail1'' ''--gmail1 is a bundle: it sets a byte-rate limit, rewrites [Gmail] out of folder names, matches on X-Gmail-Received and synchronises labels. Labels and rate limiting are not implemented here, so give --host1/--ssl1 yourself and decide about the rest'',
     no ''gmail2'' ''--gmail2 is a bundle; see --gmail1'',
     no ''domino1'' ''it sets a backslash folder separator and a namespace prefix, neither of which this tool can be told to use'',
     no ''domino2'' ''it sets a backslash folder separator and a namespace prefix, neither of which this tool can be told to use'',
     no ''domain1=s'' ''authentication domains are not implemented; put the whole login in --host1's user part'',
     no ''domain2=s'' ''authentication domains are not implemented; put the whole login in --host2's user part'',
     no ''authmech1=s'' ''the mechanism follows from the credential: a password is sent with LOGIN and an OAuth token with XOAUTH2, so a separate mechanism could only contradict it'',
     no ''authmech2=s'' ''the mechanism follows from the credential; see --authmech1'',
     no ''authuser1=s'' ''authenticating as one user to act as another is not implemented'',
     no ''authuser2=s'' ''authenticating as one user to act as another is not implemented'',
     no ''proxyauth1'' ''PROXYAUTH is not implemented'',
     no ''proxyauth2'' ''PROXYAUTH is not implemented'',
     no ''oauthdirect1=s'' ''a token in the command line is readable by any process on the machine and expires within the hour; run `imapsync-go oauth login` once and use --source-oauth-refresh-file, or --source-oauth-cmd or --source-oauth-file, all of which can be asked again'',
     no ''oauthdirect2=s'' ''a token in the command line is readable by any process on the machine; see --oauthdirect1'',
     tr ''oauthaccesstoken1=s'' ''--source-oauth-file'',
     tr ''oauthaccesstoken2=s'' ''--dest-oauth-file'',
     tr ''oauthrefreshcmd1=s'' ''--source-oauth-cmd'',
     tr ''oauthrefreshcmd2=s'' ''--dest-oauth-cmd'',
     off_ignores (ig ''authmd51!'' ''this tool does not offer CRAM-MD5, so there is nothing to turn off'') ''this tool does not offer CRAM-MD5'',
     off_ignores (ig ''authmd52!'' ''this tool does not offer CRAM-MD5, so there is nothing to turn off'') ''this tool does not offer CRAM-MD5'',
     off_ignores (ig ''authmd5!'' ''this tool does not offer CRAM-MD5, so there is nothing to turn off'') ''this tool does not offer CRAM-MD5'',
     off_translates (ig ''sslcheck!'' already_the_case) ''--source-insecure --dest-insecure'',
     no ''ssl1_ssl_version=s'' ''the TLS version is negotiated and cannot be pinned'',
     no ''ssl2_ssl_version=s'' ''the TLS version is negotiated and cannot be pinned'',
     no ''sslargs1=s%'' ''arbitrary IO::Socket::SSL arguments have no equivalent'',
     no ''sslargs2=s%'' ''arbitrary IO::Socket::SSL arguments have no equivalent'',
     no ''inet4|ipv4'' ''the address family cannot be pinned'',
     no ''inet6|ipv6'' ''the address family cannot be pinned'',
     tr ''timeout=f'' ''--dial-timeout'',
     ig ''timeout1=f'' ''one timeout covers both ends here; use --dial-timeout'',
     ig ''timeout2=f'' ''one timeout covers both ends here; use --dial-timeout'',
     off_ignores (ig ''compress1!'' ''COMPRESS=DEFLATE is not implemented; this costs bandwidth, not correctness'') ''COMPRESS=DEFLATE is not implemented, so it is already off'',
     off_ignores (ig ''compress2!'' ''COMPRESS=DEFLATE is not implemented; this costs bandwidth, not correctness'') ''COMPRESS=DEFLATE is not implemented, so it is already off'',
     off_ignores (ig ''keepalive1!'' per_connection) per_connection,
     off_ignores (ig ''keepalive2!'' per_connection) per_connection,
     off_ignores (ig ''fastio1!'' per_connection) per_connection,
     off_ignores (ig ''fastio2!'' per_connection) per_connection,
     ig ''split1=i'' per_connection,
     ig ''split2=i'' per_connection,
     ig ''buffersize=i'' per_connection,
     ig ''reconnectretry1=i'' ''this tool has its own retry policy'',
     ig ''reconnectretry2=i'' ''this tool has its own retry policy'',
     off_ignores (ig ''trylogin!'' already_the_case) ''logging in is not optional'']"

definition selection_options :: "option_t option list" where
  "selection_options = [
     tr ''folder=s@'' ''--folder'',
     tr ''include=s'' ''--include'',
     tr ''exclude=s'' ''--exclude'',
     tr ''subfolder2=s'' ''--subfolder2'',
     tr ''automap!'' ''--automap'',
     tr ''f1f2=s@'' ''--map'',
     no ''nof1f2'' ''--f1f2 has no default here to cancel; leave --map off instead'',
     no ''noexclude'' ''--exclude has no default here to cancel; leave it off instead'',
     no ''folderrec=s@'' ''recursive folder selection is not implemented; --include takes a regular expression, so --include '^Parent(/|$)' does the same job'',
     no ''subfolder1=s'' ''reading from a subtree of the source is not implemented; select the folders with --folder or --include'',
     no ''prefix1=s'' ''namespace prefixes are detected rather than configured'',
     no ''prefix2=s'' ''namespace prefixes are detected rather than configured'',
     no ''sep1=s'' ''the hierarchy separator is read from the server and cannot be overridden'',
     no ''sep2=s'' ''the hierarchy separator is read from the server and cannot be overridden'',
     no ''regextrans2=s@'' ''folder-name rewriting by regular expression is not implemented; --map renames folders one at a time'',
     no ''fixslash2!'' ''folder-name rewriting is not implemented; --map renames folders one at a time'',
     no ''fixInboxINBOX!'' ''folder-name rewriting is not implemented; --map renames folders one at a time'',
     no ''mixfolders!'' ''this tool always copies into the mapped destination folder'',
     no ''skipemptyfolders!'' ''an empty source folder is always created on the destination, so that the two trees match'',
     no ''justautomap!'' ''printing the folder mapping and stopping is not implemented; --dry-run reports the whole plan instead'',
     no ''delete2foldersonly=s'' ''this tool never deletes folders'',
     no ''delete2foldersbutnot=s'' ''this tool never deletes folders'',
     ig ''folderfirst=s'' ''folders are copied concurrently, so their order is not something this tool can promise'',
     ig ''folderlast=s'' ''folders are copied concurrently, so their order is not something this tool can promise'',
     off_refuses (ig ''checkselectable!'' already_the_case) ''unselectable folders are always skipped'',
     off_ignores (ig ''checkfoldersexist!'' already_the_case) already_the_case,
     ig ''justfolderlists!'' ''folder lists are reported by --dry-run'']"

definition message_options :: "option_t option list" where
  "message_options = [
     tr ''dry!'' ''--dry-run'',
     tr ''resyncflags!'' ''--resyncflags'',
     tr ''subscribe!'' ''--subscribe'',
     off_ignores (ig ''dry1!'' ''this tool never writes to the source'') already_the_case,
     off_refuses (ig ''syncinternaldates!'' ''this tool always gives the copy the source's INTERNALDATE'') ''this tool cannot be asked to stamp copies with the time they arrived instead'',
     off_refuses (ig ''useuid!'' state_instead_of) state_instead_of,
     off_ignores (ig ''uid1!'' state_instead_of) state_instead_of,
     off_ignores (ig ''uid2!'' state_instead_of) state_instead_of,
     off_ignores (ig ''addheader!'' ''this tool stamps only the messages that have no Message-ID, and its digest covers a fixed list of header fields, so a stamp cannot change how anything is matched'') ''messages with a Message-ID are never stamped; ones without it cannot be found again any other way'',
     off_ignores (ig ''skipsize!'' ''message sizes are never compared'') ''message sizes are never compared'',
     off_ignores (ig ''allowsizemismatch!'' ''message sizes are never compared'') ''message sizes are never compared'',
     ig ''appendlimit=i'' ''the server's own APPENDLIMIT is read and obeyed, so there is nothing to state by hand; use --max-size to be stricter than the server is'',
     ig ''maxlinelength=i'' ''messages are copied byte for byte, whatever their lines look like'',
     off_refuses (ig ''checkmessageexists!'' ''an interrupted append is always looked for before it is copied again'') ''an interrupted append is always looked for before it is copied again, and skipping that check duplicates mail'',
     off_ignores (ig ''expungeaftereach!'' ''deletions are expunged by UID as they are made'') already_the_case,
     off_translates (ig ''abletosearch!'' ages_from_sent_date) ''--age-basis internal'',
     off_translates (ig ''abletosearch1!'' ages_from_sent_date) ''--age-basis internal'',
     off_ignores (ig ''abletosearch2!'' dest_not_selected_by_age) dest_not_selected_by_age,
     off_ignores (ig ''checknoabletosearch!'' ''no search is made to check'') already_the_case,
     off_ignores (ig ''fixcolonbug!'' ''message bodies are copied byte for byte'') already_the_case,
     off_ignores (ig ''create_folder_old!'' ''folders are created the modern way'') already_the_case,
     ig ''fetch_hash_set=s'' ''an internal fetch tuning knob with no equivalent'',
     off_ignores (ig ''sanitize!'' ''output is already safe to redirect to a file'') already_the_case,
     off_ignores (ig ''showpasswords!'' ''this tool never prints passwords'') already_the_case,
     tr ''minsize=i'' ''--min-size'',
     tr ''maxsize=i'' ''--max-size'',
     tr ''maxage=f'' ''--max-age'',
     tr ''minage=f'' ''--min-age'',
     tr ''search=s'' ''--source-search --dest-search'',
     tr ''search1=s'' ''--source-search'',
     tr ''search2=s'' ''--dest-search'',
     no ''skipmess=s'' changes_selection,
     no ''regexmess=s'' ''rewriting messages in flight is not implemented, and would make the copy differ from the original'',
     no ''noregexmess'' ''--regexmess has no default here to cancel'',
     no ''pipemess=s'' ''piping messages through a command is not implemented'',
     no ''pipemesscheck!'' ''piping messages through a command is not implemented'',
     no ''truncmess=i'' ''truncating messages is not implemented'',
     no ''disarmreadreceipts!'' ''rewriting messages in flight is not implemented'',
     no ''useheader=s@'' ''the headers a message is identified by are fixed; changing them changes which messages count as duplicates'',
     no ''skipheader=s'' ''the headers a message is identified by are fixed; changing them changes which messages count as duplicates'',
     no ''wholeheaderifneeded!'' ''the headers a message is identified by are fixed'',
     no ''messageidnodomain!'' ''the headers a message is identified by are fixed'',
     no ''regexflag=s@'' ''rewriting flags is not implemented'',
     no ''noregexflag'' ''--regexflag has no default here to cancel'',
     no ''filterflags!'' ''flags are copied as the source has them, and rejected by the destination if it will not take them'',
     no ''filterbuggyflags!'' ''flags are copied as the source has them'',
     no ''flagscase!'' ''flags are copied as the source has them'',
     no ''syncflagsaftercopy!'' ''flags are set as part of the copy, not afterwards'',
     no ''synclabels!'' ''Gmail labels are not implemented'',
     no ''resynclabels!'' ''Gmail labels are not implemented'',
     no ''syncacls!'' ''access control lists are not copied'',
     no ''idatefromheader!'' ''this tool takes INTERNALDATE from the source's INTERNALDATE, not from the Date header'',
     tr ''syncduplicates!'' ''--sync-duplicates'',
     no ''skipcrossduplicates!'' ''duplicates are found within a folder, not across folders; a message in two mailboxes is filed twice, not repeated'',
     no ''debugcrossduplicates!'' ''duplicates are found within a folder, not across folders'',
     tr ''maxmessagespersecond=f'' ''--max-messages-per-second'',
     tr ''maxbytespersecond=i'' ''--max-bytes-per-second'',
     no ''maxbytesafter=i'' ''it asks for the rate limit to begin only once a number of bytes has moved; --max-bytes-per-second applies from the start of the run'',
     no ''maxsleep=f'' ''it caps the sleep imapsync inserts between messages, and --max-bytes-per-second is a shared allowance rather than a per-message sleep, so there is nothing to cap'',
     no ''subscribed'' ''copying only subscribed folders is not implemented; name them with --folder or --include'',
     no ''subscribeall|subscribe_all!'' ''this tool subscribes the folders it creates and leaves every other folder alone'']"

definition deletion_options :: "option_t option list" where
  "deletion_options = [
     tr ''delete2!'' ''--delete2'',
     off_refuses (ig ''expunge2!'' ''--delete2 expunges by UID as part of deleting'') ''this tool cannot mark messages deleted and leave them; --delete2 expunges what it deletes'',
     off_refuses (ig ''uidexpunge2!'' ''--delete2 always expunges by UID, so that a message the owner marked deleted by hand survives'') ''plain EXPUNGE would purge messages the owner marked deleted by hand, so this tool will not do it'',
     no ''delete1!'' ''this tool opens the source read-only and will not delete from it'',
     no ''expunge1|expunge!'' ''this tool opens the source read-only and will not expunge it'',
     tr ''delete2duplicates!'' ''--delete2duplicates'',
     no ''delete1emptyfolders'' ''this tool never deletes folders'',
     no ''delete2folders!'' ''this tool never deletes folders'']"

definition reporting_options :: "option_t option list" where
  "reporting_options = [
     tr ''debug!'' ''--log-level debug'',
     tr ''debuglist!'' ''--log-level debug'',
     tr ''debugcontent!'' ''--log-level debug'',
     tr ''debugflags!'' ''--log-level debug'',
     tr ''debugfolders!'' ''--log-level debug'',
     tr ''debugmemory!'' ''--log-level debug'',
     tr ''debugenv!'' ''--log-level debug'',
     tr ''debugsig!'' ''--log-level debug'',
     tr ''debuglabels!'' ''--log-level debug'',
     tr ''debugcache!'' ''--log-level debug'',
     tr ''debugimap!'' ''--trace'',
     tr ''debugimap1!'' ''--trace'',
     tr ''debugimap2!'' ''--trace'',
     ig ''debugssl=i'' ''TLS negotiation is not traced separately'',
     off_ignores (ig ''log!'' log_to_stderr) log_to_stderr,
     off_ignores (ig ''loglogfile!'' log_to_stderr) log_to_stderr,
     ig ''logfile=s'' log_to_stderr,
     ig ''logdir=s'' log_to_stderr,
     off_ignores (ig ''tail!'' log_to_stderr) log_to_stderr,
     off_ignores (ig ''foldersizes!'' ''folder sizes are not counted up front; the run reports what it did as it goes'') ''folder sizes are not counted up front'',
     off_ignores (ig ''foldersizesatend!'' ''folder sizes are not counted'') already_the_case,
     ig ''errorsmax=i'' ''a run gives up after a run of failures with nothing copied in between, which is not a count of errors'',
     off_ignores (ig ''errorsdump!'' ''failures are logged as they happen'') already_the_case,
     off_ignores (ig ''releasecheck!'' ''this tool does not phone home'') already_the_case,
     off_ignores (ig ''modulesversion!'' ''there are no modules to report'') already_the_case,
     off_ignores (ig ''id!'' ''the IMAP ID command is not sent'') already_the_case,
     off_ignores (ig ''dockercontext!'' ''this is imapsync's own packaging'') already_the_case,
     ig ''emailreportfrom=s'' ''this tool does not send mail; redirect its output instead'',
     off_ignores (ig ''emailreport1!'' ''this tool does not send mail'') already_the_case,
     off_ignores (ig ''emailreport2!'' ''this tool does not send mail'') already_the_case,
     no ''justbanner!'' ''run: imapsync-go probe --url imaps://user@host'',
     no ''justlogin!'' ''run: imapsync-go probe --url imaps://user@host --password-env VAR'',
     no ''justconnect!'' ''run: imapsync-go probe --url imaps://user@host'',
     no ''justfolders!'' ''copying folders without their messages is not implemented; --dry-run reports the plan instead'',
     no ''justfoldersizes!'' ''folder sizes are not counted'',
     no ''version'' ''run: imapsync-go --version'',
     no ''help'' ''run: imapsync-go compat --help'']"

definition machinery_options :: "option_t option list" where
  "machinery_options = [
     off_ignores (ig ''tmpdir=s'' ''an IMAP-to-IMAP sync writes no temporary files; message bodies are held in memory, bounded by --memory-limit'') already_the_case,
     ig ''pidfile=s'' ''this tool writes no pid file'',
     off_ignores (ig ''pidfilelocking!'' ''this tool writes no pid file'') already_the_case,
     off_ignores (ig ''usecache!'' state_instead_of) ''the state database is not optional'',
     off_refuses (ig ''cacheaftercopy!'' state_instead_of) ''the state database is written as the copy proceeds and cannot be turned off'',
     no ''abort'' ''there is no run to abort; stop the process'',
     no ''abortbyfile'' ''there is no run to abort; stop the process'',
     no ''exitwhenover=i'' ''stopping after a number of bytes is not implemented, and ignoring it would transfer more than asked'',
     no ''exitonload!'' ''stopping when the machine is busy is not implemented'',
     no ''sigexit=s@'' ''signal handling is not configurable; SIGINT and SIGTERM stop the run cleanly'',
     no ''sigreconnect=s@'' ''signal handling is not configurable'',
     no ''sigignore=s@'' ''signal handling is not configurable'',
     no ''simulong=f'' ''an imapsync test hook'',
     no ''debugsleep=f'' ''an imapsync test hook'',
     no ''memorystress!'' ''an imapsync test hook'',
     no ''tests!'' ''an imapsync test hook'',
     no ''testsdebug!'' ''an imapsync test hook'',
     no ''testsunit=s@'' ''an imapsync test hook'',
     no ''testslive!'' ''an imapsync test hook'',
     no ''testslive2!'' ''an imapsync test hook'',
     no ''testslive6!'' ''an imapsync test hook'',
     no ''var=s@'' ''an imapsync internal'',
     no ''extra=s@'' ''an imapsync internal'',
     no ''f1f2h=s%'' ''an imapsync internal; use --f1f2 to map folders'']"

definition table_entries :: "option_t option list" where
  "table_entries = concat [endpoint_options, selection_options, message_options, deletion_options,
     reporting_options, machinery_options]"

definition table :: "option_t list" where
  "table = map the table_entries"

section \<open>What the documentation and the tests read off the table\<close>

record support =
  s_name :: string
  s_aliases :: "string list"
  s_value :: string
  s_status :: string
  s_native :: string
  s_why :: string
  negated_status :: string
  negated_native :: string
  negated_why :: string

definition negates :: "support \<Rightarrow> bool" where
  "negates s \<longleftrightarrow> negated_status s \<noteq> ''''"

fun describe_how :: "disposition \<Rightarrow> string" where
  "describe_how Translate = ''translated''"
| "describe_how Endpoint = ''endpoint''"
| "describe_how Ignore = ''ignored''"
| "describe_how Refuse = ''refused''"

definition describe :: "outcome \<Rightarrow> string \<times> string \<times> string" where
  "describe on =
     (case how on of
        Translate \<Rightarrow> (describe_how Translate, native on, '''')
      | Endpoint \<Rightarrow> (describe_how Endpoint, '''', '''')
      | Ignore \<Rightarrow> (describe_how Ignore, '''', why on)
      | Refuse \<Rightarrow> (describe_how Refuse, '''', why on))"

fun value_text :: "value_kind \<Rightarrow> string" where
  "value_text Boolean = ''on/off''"
| "value_text Text = ''string''"
| "value_text TextList = ''string (repeatable)''"
| "value_text TextPairs = ''key=value (repeatable)''"
| "value_text Integer = ''integer''"
| "value_text Number = ''number''"
| "value_text NoValue = ''''"

definition support_of :: "option_t \<Rightarrow> support" where
  "support_of p =
     (let (st, nat_word, reason) = describe (on_outcome p);
          (nst, nnat, nreason) =
            (case off_outcome p of None \<Rightarrow> ('''', '''', '''') | Some off \<Rightarrow> describe off)
      in \<lparr>s_name = opt_name p, s_aliases = tl (names p), s_value = value_text (kind p),
          s_status = st, s_native = nat_word, s_why = reason,
          negated_status = nst, negated_native = nnat, negated_why = nreason\<rparr>)"

definition options_of :: "option_t list \<Rightarrow> support list" where
  "options_of opts = map support_of opts"

definition outcomes :: "option_t \<Rightarrow> outcome list" where
  "outcomes p = on_outcome p # (case off_outcome p of None \<Rightarrow> [] | Some off \<Rightarrow> [off])"

text \<open>The names of the flags a translation can emit, each once, sorted.\<close>

definition flag_word :: "string \<Rightarrow> string" where
  "flag_word w = trim_prefix (fst (cut (CHR ''='') w)) ''--''"

definition native_flags :: "option_t list \<Rightarrow> string list" where
  "native_flags opts =
     sort (fold (\<lambda>w out. if has_prefix w ''--'' \<and> \<not> List.member out (flag_word w) then out @ [flag_word w] else out)
       (concat (map (\<lambda>out. fields_str (native out))
          (filter (\<lambda>out. how out = Translate) (concat (map outcomes opts))))) [])"

section \<open>The table is usable\<close>

text \<open>The options \<open>endpoint\<close> of \<open>translate.go\<close> knows, less the number of the side.\<close>

definition endpoint_bases :: "string list" where
  "endpoint_bases = [''host'', ''user'', ''password'', ''passfile'', ''port'', ''ssl'', ''tls'', ''office'']"

definition base_of_name :: "string \<Rightarrow> string" where
  "base_of_name n = trim_suffix (trim_suffix n ''2'') ''1''"

definition explained :: "outcome \<Rightarrow> bool" where
  "explained out \<longleftrightarrow>
     (case how out of
        Translate \<Rightarrow> fields_str (native out) \<noteq> [] \<and> has_prefix (hd (fields_str (native out))) ''--''
      | Endpoint \<Rightarrow> True
      | _ \<Rightarrow> why out \<noteq> '''')"

text \<open>One word for a flag that takes a value, at most a flag and its value for one that does not.\<close>

definition one_flag :: "option_t \<Rightarrow> outcome \<Rightarrow> bool" where
  "one_flag p out \<longleftrightarrow>
     (if how out = Translate then
        (if takes_value (kind p) then opt_name p = ''search'' \<or> length (fields_str (native out)) = 1
         else length (fields_str (native out)) \<le> 2)
      else True)"

definition sound_entry :: "option_t \<Rightarrow> bool" where
  "sound_entry p \<longleftrightarrow>
     (let base = base_of_name (opt_name p) in
      list_all explained (outcomes p) \<and> list_all (one_flag p) (outcomes p) \<and>
      (if how (on_outcome p) = Endpoint then List.member endpoint_bases base \<and> off_outcome p = None
       else base \<noteq> ''password'' \<and> list_all (\<lambda>out. how out \<noteq> Endpoint) (outcomes p)))"

text \<open>Distinctness of many strings, decided letter by letter instead of pair by pair.\<close>

primrec keep :: "bool \<Rightarrow> 'a \<Rightarrow> 'a list \<Rightarrow> 'a list" where
  "keep True x r = x # r"
| "keep False x r = r"

primrec tail_under :: "string \<Rightarrow> char \<Rightarrow> string list \<Rightarrow> string list" where
  "tail_under [] c r = r"
| "tail_under (d # t) c r = keep (d = c) t r"

primrec tails_of :: "char \<Rightarrow> string list \<Rightarrow> string list" where
  "tails_of c [] = []"
| "tails_of c (x # xs) = tail_under x c (tails_of c xs)"

primrec starts_other :: "string \<Rightarrow> char \<Rightarrow> bool" where
  "starts_other [] c = True"
| "starts_other (d # t) c = (d \<noteq> c)"

primrec others_than :: "char \<Rightarrow> string list \<Rightarrow> string list" where
  "others_than c [] = []"
| "others_than c (x # xs) = keep (starts_other x c) x (others_than c xs)"

lemma keep_if: "keep b x r = (if b then x # r else r)"
  by (cases b) simp_all

abbreviation letters :: "string list \<Rightarrow> nat" where
  "letters xs \<equiv> sum_list (map (\<lambda>x. Suc (length x)) xs)"

lemma tails_shrink: "letters (tails_of c xs) \<le> letters xs"
proof (induction xs)
  case (Cons x xs)
  then show ?case by (cases x) (simp_all add: keep_if)
qed simp

lemma others_shrink: "letters (others_than c xs) \<le> letters xs"
  by (induction xs) (simp_all add: keep_if)

function radix_distinct :: "string list \<Rightarrow> bool" where
  "radix_distinct [] = True"
| "radix_distinct ([] # xs) = (\<not> list_ex (\<lambda>x. x = []) xs \<and> radix_distinct xs)"
| "radix_distinct ((c # s) # xs) = (radix_distinct (s # tails_of c xs) \<and> radix_distinct (others_than c xs))"
  by pat_completeness auto
termination radix_distinct
proof (relation "measure letters")
  fix c s and xs :: "string list"
  show "(s # tails_of c xs, (c # s) # xs) \<in> measure letters"
    using tails_shrink [of c xs] by simp
  show "(others_than c xs, (c # s) # xs) \<in> measure letters"
    using others_shrink [of c xs] by simp
qed simp_all

lemma tails_of_mem: "s \<in> set (tails_of c xs) \<longleftrightarrow> c # s \<in> set xs"
proof (induction xs)
  case (Cons x xs)
  then show ?case by (cases x) (auto simp: keep_if)
qed simp

lemma others_than_mem: "x \<in> set (others_than c xs) \<longleftrightarrow> x \<in> set xs \<and> starts_other x c"
  by (induction xs) (auto simp: keep_if)

lemma tails_others_distinct:
  "distinct (tails_of c xs) \<and> distinct (others_than c xs) \<longleftrightarrow> distinct xs"
proof (induction xs)
  case (Cons x xs)
  then show ?case by (cases x) (auto simp: keep_if tails_of_mem others_than_mem)
qed simp

lemma radix_distinct_iff: "radix_distinct xs \<longleftrightarrow> distinct xs"
proof (induction xs rule: radix_distinct.induct)
  case (3 c s xs)
  have "distinct ((c # s) # xs) \<longleftrightarrow> distinct (s # tails_of c xs) \<and> distinct (others_than c xs)"
    using tails_others_distinct [of c xs] by (auto simp: tails_of_mem)
  with 3 show ?case by simp
qed (auto simp: list_ex_iff)

definition named :: "option_t \<Rightarrow> bool" where
  "named p \<longleftrightarrow> names p \<noteq> [] \<and> plain_name (opt_name p)"

lemma list_all_id_map: "list_all id (map f xs) = list_all f xs"
  by (induction xs) simp_all

text \<open>One evaluation of the table serves all its checks.\<close>

lemma table_checks:
  "(let es = table_entries; t = map the es in
     list_all id (map (\<lambda>p. p \<noteq> None) es) \<and> radix_distinct (map fst (index t)) \<and>
     list_all id (map named t) \<and> list_all id (map sound_entry t))"
  by code_simp

lemma table_sound:
  "list_all (\<lambda>p. p \<noteq> None) table_entries \<and> wf_table table \<and> list_all sound_entry table"
  using table_checks
  unfolding Let_def list_all_id_map radix_distinct_iff wf_table_def table_def [symmetric] named_def by blast

text \<open>No entry of the table panics; no spelling, negations and letter case included, belongs to
  two options; every option ignored or refused says why; what is translated becomes a flag; and every endpoint
  option is one that the translator files under an end of the copy.\<close>

theorem table_is_sound:
  "list_all (\<lambda>p. p \<noteq> None) table_entries \<and> wf_table table \<and> list_all sound_entry table"
  by (rule table_sound)

text \<open>An option with a value has no negated spelling, so the answer the table holds for the negation of
  one (\<open>--tmpdir\<close>) is documented by \<open>Options\<close> and can never be given.\<close>

lemma value_options_have_no_negation: "takes_value (kind p) \<Longrightarrow> (k, p, False) \<notin> set (index opts)"
  using index_targets [of k p False opts] by (auto simp: takes_value_def)

lemma tmpdir_documents_negation:
  "(case off_ignores (ig ''tmpdir=s'' '''') already_the_case of
      Some p \<Rightarrow> negates (support_of p) \<and> takes_value (kind p) | None \<Rightarrow> False)"
  by code_simp

end
