(* ===== verification/CompatTranslate.thy ===== *)
theory CompatTranslate
  imports OptionTable Interfaces "HOL-Library.Sublist"
begin

text \<open>
  The translation of an imapsync command line into this tool's own
  (\<open>src/internal/compat/translate.go\<close>): every option parsed is refused, ignored with a note, filed under
  an end of the copy, or emitted as a native flag; the two ends become URLs; passwords go to the environment.

  Floating-point text (\<open>strconv.ParseFloat\<close> followed by \<open>strconv.FormatFloat\<close>) is the argument
  \<open>number\<close>: \<open>None\<close> where the text is not a number. The Unicode table behind \<open>%q\<close> is the argument
  \<open>quote\<close>, used only to print a reason. URLs are rendered as \<open>net/url\<close> and
  \<open>net.JoinHostPort\<close> render them, byte by byte.
\<close>

section \<open>The standard library calls\<close>

definition atoi :: "string \<Rightarrow> int option" where
  "atoi s =
     (let neg = (s \<noteq> [] \<and> hd s = CHR ''-'');
          d = (if s \<noteq> [] \<and> (hd s = CHR ''-'' \<or> hd s = CHR ''+'') then tl s else s);
          v = (if neg then - int (dec_value d) else int (dec_value d))
      in if d \<noteq> [] \<and> list_all is_digit d \<and> int64 v then Some v else None)"

definition alnum :: "char \<Rightarrow> bool" where
  "alnum c \<longleftrightarrow> (97 \<le> byte c \<and> byte c \<le> 122) \<or> (65 \<le> byte c \<and> byte c \<le> 90) \<or> is_digit c"

text \<open>\<open>url.shouldEscape\<close> for the user information and for the host.\<close>

definition user_plain :: "char \<Rightarrow> bool" where
  "user_plain c \<longleftrightarrow> alnum c \<or> List.member ''-_.~$&+,;='' c"

definition host_plain :: "char \<Rightarrow> bool" where
  "host_plain c \<longleftrightarrow> alnum c \<or> List.member (CHR 0x27 # CHR 0x22 # ''!$&()*+,;=:[]<>-_.~'') c"

definition hex_digit :: "nat \<Rightarrow> char" where
  "hex_digit n = (if n < 10 then char_of (48 + n) else char_of (55 + n))"

definition escape_with :: "(char \<Rightarrow> bool) \<Rightarrow> string \<Rightarrow> string" where
  "escape_with plain s =
     concat (map (\<lambda>c. if plain c then [c]
                      else [CHR ''%'', hex_digit (byte c div 16), hex_digit (byte c mod 16)]) s)"

definition join_host_port :: "string \<Rightarrow> string \<Rightarrow> string" where
  "join_host_port host port =
     (if contains host '':'' then ''['' @ host @ '']:'' @ port else host @ '':'' @ port)"

definition url_string :: "string \<Rightarrow> string \<Rightarrow> string \<Rightarrow> string" where
  "url_string scheme user hostport =
     scheme @ ''://'' @ escape_with user_plain user @ ''@'' @ escape_with host_plain hostport"

section \<open>Notes, plans and refusals\<close>

text \<open>Why an option is refused or ignored: the table's own reason, or one found while translating.\<close>

datatype reason =
  Because string
| CannotTurnOff
| NotSeconds string
| NotDays string
| NotAPort string
| NoHost string nat
| NoUser string nat
| NoPassword string nat

fun reason_text :: "(string \<Rightarrow> string) \<Rightarrow> reason \<Rightarrow> string" where
  "reason_text quote (Because w) = w"
| "reason_text quote CannotTurnOff = ''cannot be turned off''"
| "reason_text quote (NotSeconds v) = quote v @ '' is not a number of seconds''"
| "reason_text quote (NotDays v) = quote v @ '' is not a number of days''"
| "reason_text quote (NotAPort v) = quote v @ '' is not a port number''"
| "reason_text quote (NoHost end_of n) =
     ''no host given for the '' @ end_of @ ''; imapsync calls it --host'' @ show_nat n"
| "reason_text quote (NoUser end_of n) =
     ''no user given for the '' @ end_of @ ''; imapsync calls it --user'' @ show_nat n"
| "reason_text quote (NoPassword end_of n) =
     ''no password given for the '' @ end_of @ ''; imapsync calls it --password'' @ show_nat n @
     '' or --passfile'' @ show_nat n"

record note_t =
  n_option :: string
  n_why :: reason

record tplan =
  p_args :: "string list"
  p_env :: "string \<Rightarrow> string option"
  p_ignored :: "note_t list"
  p_assumed :: "string list"

definition refused_text :: "(string \<Rightarrow> string) \<Rightarrow> note_t list \<Rightarrow> string" where
  "refused_text quote rs =
     (if length rs = 1 then ''this imapsync option cannot be honoured:''
      else show_nat (length rs) @ '' imapsync options cannot be honoured:'') @
     concat (map (\<lambda>r. CHR 0x0A # ''  '' @ n_option r @ '': '' @ reason_text quote (n_why r)) rs)"

record side =
  s_n :: nat
  s_host :: string
  s_user :: string
  s_password :: string
  s_passfile :: string
  s_port :: int
  s_ssl :: "bool option"
  s_tls :: "bool option"

record translator =
  t_src :: side
  t_dst :: side
  t_flags :: "string list"
  t_seen :: "string set"
  t_plan :: tplan
  t_refusals :: "note_t list"

definition new_side :: "nat \<Rightarrow> side" where
  "new_side n = \<lparr>s_n = n, s_host = '''', s_user = '''', s_password = '''', s_passfile = '''', s_port = 0,
     s_ssl = None, s_tls = None\<rparr>"

definition new_translator :: translator where
  "new_translator = \<lparr>t_src = new_side 1, t_dst = new_side 2, t_flags = [], t_seen = {},
     t_plan = \<lparr>p_args = [], p_env = Map.empty, p_ignored = [], p_assumed = []\<rparr>, t_refusals = []\<rparr>"

definition refuse_note :: "note_t \<Rightarrow> translator \<Rightarrow> translator" where
  "refuse_note n t = t\<lparr>t_refusals := t_refusals t @ [n]\<rparr>"

section \<open>Emitting flags\<close>

definition append_flag :: "string list \<Rightarrow> translator \<Rightarrow> translator" where
  "append_flag ws t =
     (let key = join_str ws '' '' in
      if key \<in> t_seen t then t
      else t\<lparr>t_seen := insert key (t_seen t), t_flags := t_flags t @ ws\<rparr>)"

definition emit :: "(string \<Rightarrow> string option) \<Rightarrow> given \<Rightarrow> outcome \<Rightarrow> translator \<Rightarrow> reason + translator" where
  "emit number g out t =
     (let ws = fields_str (native out); name = opt_name (g_opt g); val = g_value g in
      if \<not> takes_value (kind (g_opt g)) then
        (if \<not> g_on g \<and> off_outcome (g_opt g) = None then
           (case ws of
              [w] \<Rightarrow> Inr (append_flag [w @ ''=false''] t)
            | _ \<Rightarrow> Inl CannotTurnOff)
         else Inr (append_flag ws t))
      else if name = ''timeout'' then
        (case number val of
           None \<Rightarrow> Inl (NotSeconds val)
         | Some secs \<Rightarrow> Inr (append_flag (ws @ [secs @ ''s'']) t))
      else if name = ''maxage'' \<or> name = ''minage'' then
        (case number val of
           None \<Rightarrow> Inl (NotDays val)
         | Some days \<Rightarrow> Inr (append_flag (ws @ [days @ ''d'']) t))
      else if name = ''search'' then Inr (fold (\<lambda>w. append_flag [w, val]) ws t)
      else Inr (append_flag (ws @ [val]) t))"

section \<open>Filing an option under an end of the copy\<close>

definition on_side :: "bool \<Rightarrow> (side \<Rightarrow> side) \<Rightarrow> translator \<Rightarrow> translator" where
  "on_side dst f t = (if dst then t\<lparr>t_dst := f (t_dst t)\<rparr> else t\<lparr>t_src := f (t_src t)\<rparr>)"

definition office :: "side \<Rightarrow> side" where
  "office s =
     (let s = (if s_host s = '''' then s\<lparr>s_host := ''outlook.office365.com''\<rparr> else s)
      in if s_ssl s = None then s\<lparr>s_ssl := Some True\<rparr> else s)"

definition file_endpoint :: "given \<Rightarrow> translator \<Rightarrow> translator" where
  "file_endpoint g t =
     (let name = opt_name (g_opt g);
          dst = has_suffix name ''2'';
          base = base_of_name name
      in if base = ''host'' then on_side dst (\<lambda>s. s\<lparr>s_host := g_value g\<rparr>) t
         else if base = ''user'' then on_side dst (\<lambda>s. s\<lparr>s_user := g_value g\<rparr>) t
         else if base = ''password'' then on_side dst (\<lambda>s. s\<lparr>s_password := g_value g\<rparr>) t
         else if base = ''passfile'' then on_side dst (\<lambda>s. s\<lparr>s_passfile := g_value g\<rparr>) t
         else if base = ''port'' then
           (case atoi (g_value g) of
              None \<Rightarrow> refuse_note \<lparr>n_option = spell g, n_why = NotAPort (g_value g)\<rparr> t
            | Some port \<Rightarrow>
                if port < 1 \<or> port > 65535
                then refuse_note \<lparr>n_option = spell g, n_why = NotAPort (g_value g)\<rparr> t
                else on_side dst (\<lambda>s. s\<lparr>s_port := port\<rparr>) t)
         else if base = ''ssl'' then on_side dst (\<lambda>s. s\<lparr>s_ssl := Some (g_on g)\<rparr>) t
         else if base = ''tls'' then on_side dst (\<lambda>s. s\<lparr>s_tls := Some (g_on g)\<rparr>) t
         else if base = ''office'' then append_flag [''--exclude'', ''^Files$''] (on_side dst office t)
         else t)"

section \<open>The two ends\<close>

definition assumption_text :: "nat \<Rightarrow> string" where
  "assumption_text n =
     ''neither --ssl'' @ show_nat n @ '' nor --tls'' @ show_nat n @
     '' was given, so TLS on port 993 was assumed; say --tls'' @ show_nat n @
     '' for STARTTLS, or --nossl'' @ show_nat n @ '' for no encryption''"

definition scheme :: "side \<Rightarrow> translator \<Rightarrow> (string \<times> int) \<times> translator" where
  "scheme s t =
     (if s_ssl s = Some True then ((''imaps'', 993), t)
      else if s_tls s = Some True then ((''imap'', 143), t)
      else if s_ssl s \<noteq> None \<or> s_tls s \<noteq> None then ((''imap+insecure'', 143), t)
      else ((''imaps'', 993),
            t\<lparr>t_plan := (t_plan t)\<lparr>p_assumed := p_assumed (t_plan t) @ [assumption_text (s_n s)]\<rparr>\<rparr>))"

definition password_variable :: "nat \<Rightarrow> string" where
  "password_variable n = ''IMAPSYNC_COMPAT_PASSWORD'' @ show_nat n"

definition side_args :: "side \<Rightarrow> string \<Rightarrow> translator \<Rightarrow> (reason + string list) \<times> translator" where
  "side_args s end_of t =
     (if s_host s = '''' then (Inl (NoHost end_of (s_n s)), t)
      else if s_user s = '''' then (Inl (NoUser end_of (s_n s)), t)
      else
        (let ((sch, port0), t) = scheme s t;
             port = (if s_port s \<noteq> 0 then s_port s else port0);
             url = url_string sch (s_user s) (join_host_port (s_host s) (show_nat (nat port)));
             args = [''--'' @ end_of @ ''-url'', url]
         in if s_passfile s \<noteq> '''' then (Inr (args @ [''--'' @ end_of @ ''-password-file'', s_passfile s]), t)
            else if s_password s \<noteq> '''' then
              (Inr (args @ [''--'' @ end_of @ ''-password-env'', password_variable (s_n s)]),
               t\<lparr>t_plan := (t_plan t)\<lparr>p_env := (p_env (t_plan t))(password_variable (s_n s) \<mapsto> s_password s)\<rparr>\<rparr>)
            else (Inl (NoPassword end_of (s_n s)), t)))"

section \<open>The translation\<close>

definition translate_one :: "(string \<Rightarrow> string option) \<Rightarrow> given \<Rightarrow> translator \<Rightarrow> translator" where
  "translate_one number g t =
     (let out = answer (g_opt g) (g_on g) in
      case how out of
        Refuse \<Rightarrow> refuse_note \<lparr>n_option = spell g, n_why = Because (why out)\<rparr> t
      | Ignore \<Rightarrow>
          t\<lparr>t_plan := (t_plan t)\<lparr>p_ignored :=
              p_ignored (t_plan t) @ [\<lparr>n_option = spell g, n_why = Because (why out)\<rparr>]\<rparr>\<rparr>
      | Endpoint \<Rightarrow> file_endpoint g t
      | Translate \<Rightarrow>
          (case emit number g out t of
             Inl e \<Rightarrow> refuse_note \<lparr>n_option = spell g, n_why = e\<rparr> t
           | Inr t' \<Rightarrow> t'))"

definition add_side :: "side \<Rightarrow> string \<Rightarrow> string \<Rightarrow> translator \<Rightarrow> string list \<times> translator" where
  "add_side s end_of blame t =
     (case side_args s end_of t of
        (Inl e, t') \<Rightarrow> ([], refuse_note \<lparr>n_option = blame, n_why = e\<rparr> t')
      | (Inr args, t') \<Rightarrow> (args, t'))"

definition translate_givens :: "(string \<Rightarrow> string option) \<Rightarrow> given list \<Rightarrow> note_t list + tplan" where
  "translate_givens number gs =
     (let t = fold (translate_one number) gs new_translator;
          (src_args, t) = add_side (t_src t) ''source'' ''--host1'' t;
          (dst_args, t) = add_side (t_dst t) ''dest'' ''--host2'' t
      in if t_refusals t \<noteq> [] then Inl (t_refusals t)
         else Inr ((t_plan t)\<lparr>p_args := [''sync''] @ src_args @ dst_args @ t_flags t\<rparr>))"

datatype translate_error = Unreadable getopt_error | Refused "note_t list"

definition translate_argv :: "(string \<Rightarrow> string option) \<Rightarrow> string list \<Rightarrow> translate_error + tplan" where
  "translate_argv number argv =
     (case parse_args argv table of
        Inl e \<Rightarrow> Inl (Unreadable e)
      | Inr gs \<Rightarrow> (case translate_givens number gs of Inl rs \<Rightarrow> Inl (Refused rs) | Inr p \<Rightarrow> Inr p))"

section \<open>Printing a plan\<close>

definition shell_special :: string where
  "shell_special = [CHR '' '', CHR 0x09, CHR 0x0A, CHR 0x22, CHR 0x27, CHR 0x5C, CHR ''$'', CHR 0x60] @
     ''*?[]{}()<>|&;#~!''"

definition shell_quote :: "string \<Rightarrow> string" where
  "shell_quote s =
     (if s \<noteq> '''' \<and> \<not> contains_any s shell_special then s
      else [CHR 0x27] @ concat (map (\<lambda>c. if c = CHR 0x27 then [CHR 0x27, CHR 0x5C, CHR 0x27, CHR 0x27] else [c]) s) @
           [CHR 0x27])"

text \<open>The command line as it is echoed, without the name of the program.\<close>

definition quoted_args :: "string list \<Rightarrow> string" where
  "quoted_args args = concat (map (\<lambda>a. '' '' @ shell_quote a) args)"

definition pad_right :: "nat \<Rightarrow> string \<Rightarrow> string" where
  "pad_right w s = s @ replicate (w - length s) (CHR '' '')"

definition explain :: "(string \<Rightarrow> string) \<Rightarrow> tplan \<Rightarrow> string \<Rightarrow> string" where
  "explain quote p name =
     (let nl = [CHR 0x0A] in
      ''translated to:'' @ nl @ ''  '' @ name @ quoted_args (p_args p) @ nl @
      concat (map (\<lambda>a. nl @ ''assumed: '' @ a @ nl) (p_assumed p)) @
      (if p_ignored p \<noteq> [] then
         nl @ ''accepted but did nothing:'' @ nl @
         concat (map (\<lambda>n. ''  '' @ pad_right 24 (n_option n) @ '' '' @ reason_text quote (n_why n) @ nl)
           (sort_key n_option (p_ignored p)))
       else ''''))"

section \<open>What is echoed reads back\<close>

text \<open>A shell reading its command line: words apart by spaces, single quotes, backslashes; a character that
  means something else to a shell when it is not quoted is an error here, because the word would then not be
  the argument.\<close>

datatype sh_state = Between | InWord string | Quoted string

definition sh_meta :: string where
  "sh_meta = [CHR 0x09, CHR 0x0A, CHR 0x22, CHR ''$'', CHR 0x60] @ ''*?[]{}()<>|&;#~!''"

fun sh_read :: "sh_state \<Rightarrow> string list \<Rightarrow> string \<Rightarrow> string list option" where
  "sh_read Between ws [] = Some ws"
| "sh_read (InWord w) ws [] = Some (ws @ [w])"
| "sh_read (Quoted w) ws [] = None"
| "sh_read (Quoted w) ws (c # cs) =
     (if c = CHR 0x27 then sh_read (InWord w) ws cs else sh_read (Quoted (w @ [c])) ws cs)"
| "sh_read Between ws (c # cs) =
     (if c = CHR '' '' then sh_read Between ws cs
      else if c = CHR 0x27 then sh_read (Quoted []) ws cs
      else if c = CHR 0x5C then (case cs of [] \<Rightarrow> None | d # r \<Rightarrow> sh_read (InWord [d]) ws r)
      else if List.member sh_meta c then None
      else sh_read (InWord [c]) ws cs)"
| "sh_read (InWord w) ws (c # cs) =
     (if c = CHR '' '' then sh_read Between (ws @ [w]) cs
      else if c = CHR 0x27 then sh_read (Quoted w) ws cs
      else if c = CHR 0x5C then (case cs of [] \<Rightarrow> None | d # r \<Rightarrow> sh_read (InWord (w @ [d])) ws r)
      else if List.member sh_meta c then None
      else sh_read (InWord (w @ [c])) ws cs)"

definition sh_words :: "string \<Rightarrow> string list option" where
  "sh_words s = sh_read Between [] s"

lemma special_covers: "c \<notin> set shell_special \<Longrightarrow>
    c \<noteq> CHR '' '' \<and> c \<noteq> CHR 0x27 \<and> c \<noteq> CHR 0x5C \<and> \<not> List.member sh_meta c"
  by (auto simp: shell_special_def sh_meta_def)

lemma read_plain:
  "\<forall>c \<in> set s. c \<notin> set shell_special \<Longrightarrow> sh_read (InWord w) ws (s @ rest) = sh_read (InWord (w @ s)) ws rest"
proof (induction s arbitrary: w)
  case (Cons c s)
  then show ?case using special_covers [of c] by simp
qed simp

lemma read_quoted:
  "sh_read (Quoted w) ws
     (concat (map (\<lambda>c. if c = CHR 0x27 then [CHR 0x27, CHR 0x5C, CHR 0x27, CHR 0x27] else [c]) s) @ CHR 0x27 # rest) =
   sh_read (InWord (w @ s)) ws rest"
  by (induction s arbitrary: w) simp_all

lemma read_shell_quote: "sh_read Between ws (shell_quote s @ rest) = sh_read (InWord s) ws rest"
proof (cases "s \<noteq> '''' \<and> \<not> contains_any s shell_special")
  case True
  then obtain c cs where s: "s = c # cs" by (cases s) auto
  from True s have "c \<notin> set shell_special" "\<forall>d \<in> set cs. d \<notin> set shell_special"
    by (auto simp: contains_any_def list_ex_iff)
  with True s show ?thesis
    using special_covers [of c] read_plain [of cs "[c]" ws rest] by (simp add: shell_quote_def)
next
  case False
  then show ?thesis using read_quoted [of "[]" ws s rest] by (auto simp: shell_quote_def)
qed

lemma read_quoted_args: "sh_read (InWord w) ws (quoted_args args) = Some (ws @ w # args)"
  by (induction args arbitrary: w ws) (simp_all add: quoted_args_def read_shell_quote)

text \<open>The command line echoed for the user, pasted into a shell, runs exactly the arguments of the plan,
  whatever characters hosts, folders and patterns hold.\<close>

theorem echoed_plan_reads_back: "sh_words (quoted_args (p_args p)) = Some (p_args p)"
proof (cases "p_args p")
  case (Cons a as)
  then show ?thesis
    using read_quoted_args [of a "[]" as] by (simp add: sh_words_def quoted_args_def read_shell_quote)
qed (simp add: sh_words_def quoted_args_def)

text \<open>One word.\<close>

definition sh_word :: "string \<Rightarrow> string option" where
  "sh_word s = (case sh_words s of Some [w] \<Rightarrow> Some w | _ \<Rightarrow> None)"

interpretation shell: codec shell_quote sh_word "\<lambda>_. True"
  by unfold_locales
    (use read_shell_quote [of "[]" _ "[]"] in \<open>simp add: sh_word_def sh_words_def\<close>)

section \<open>URLs keep the user apart\<close>

fun unescape :: "string \<Rightarrow> string option" where
  "unescape [] = Some []"
| "unescape (c # cs) =
     (if c = CHR ''%'' then
        (case cs of
           h # l # r \<Rightarrow>
             (case (find (\<lambda>n. hex_digit n = h) [0..<16], find (\<lambda>n. hex_digit n = l) [0..<16]) of
                (Some a, Some b) \<Rightarrow> map_option (\<lambda>s. char_of (16 * a + b) # s) (unescape r)
              | _ \<Rightarrow> None)
         | _ \<Rightarrow> None)
      else map_option (\<lambda>s. c # s) (unescape cs))"

lemma find_hex: "n < 16 \<Longrightarrow> find (\<lambda>k. hex_digit k = hex_digit n) [0..<16] = Some n"
proof -
  assume "n < 16"
  then have "n \<in> set [0..<16]" by simp
  moreover have "list_all (\<lambda>n. find (\<lambda>k. hex_digit k = hex_digit n) [0..<16] = Some n) [0..<16]" by code_simp
  ultimately show ?thesis unfolding list_all_iff by blast
qed

lemma escape_round_trip:
  assumes "\<not> plain (CHR ''%'')"
  shows "unescape (escape_with plain s) = Some s"
proof (induction s)
  case (Cons c s)
  have "byte c div 16 < 16" by (rule less_mult_imp_div_less) simp
  moreover have "byte c mod 16 < 16" by simp
  moreover have "char_of (16 * (byte c div 16) + byte c mod 16) = c" by simp
  ultimately show ?case
    using Cons assms by (cases "c = CHR ''%''") (simp_all add: escape_with_def find_hex)
qed (simp add: escape_with_def)

interpretation url_user: codec "escape_with user_plain" unescape "\<lambda>_. True"
  by unfold_locales (intro escape_round_trip, simp add: user_plain_def alnum_def is_digit_def)

interpretation url_host: codec "escape_with host_plain" unescape "\<lambda>_. True"
  by unfold_locales (intro escape_round_trip, simp add: host_plain_def alnum_def is_digit_def)

section \<open>What each option contributes\<close>

text \<open>The translation threads one record through the options; these say what one option adds to it,
  without the record.\<close>

definition chunks :: "(string \<Rightarrow> string option) \<Rightarrow> given \<Rightarrow> reason + string list list" where
  "chunks number g =
     (let ws = fields_str (native (answer (g_opt g) (g_on g))); name = opt_name (g_opt g); val = g_value g in
      if \<not> takes_value (kind (g_opt g)) then
        (if g_on g \<or> off_outcome (g_opt g) \<noteq> None then Inr [ws]
         else if length ws = 1 then Inr [[hd ws @ ''=false'']] else Inl CannotTurnOff)
      else if name = ''timeout'' then
        (case number val of None \<Rightarrow> Inl (NotSeconds val) | Some x \<Rightarrow> Inr [ws @ [x @ ''s'']])
      else if name = ''maxage'' \<or> name = ''minage'' then
        (case number val of None \<Rightarrow> Inl (NotDays val) | Some x \<Rightarrow> Inr [ws @ [x @ ''d'']])
      else if name = ''search'' then Inr (map (\<lambda>w. [w, val]) ws)
      else Inr [ws @ [val]])"

definition base_name :: "given \<Rightarrow> string" where
  "base_name g = base_of_name (opt_name (g_opt g))"

definition good_port :: "string \<Rightarrow> bool" where
  "good_port v = (case atoi v of None \<Rightarrow> False | Some p \<Rightarrow> 1 \<le> p \<and> p \<le> 65535)"

abbreviation disposed :: "given \<Rightarrow> disposition" where
  "disposed g \<equiv> how (answer (g_opt g) (g_on g))"

abbreviation table_reason :: "given \<Rightarrow> reason" where
  "table_reason g \<equiv> Because (why (answer (g_opt g) (g_on g)))"

definition refusals_of :: "(string \<Rightarrow> string option) \<Rightarrow> given \<Rightarrow> note_t list" where
  "refusals_of number g =
     (case disposed g of
        Refuse \<Rightarrow> [\<lparr>n_option = spell g, n_why = table_reason g\<rparr>]
      | Ignore \<Rightarrow> []
      | Endpoint \<Rightarrow>
          (if base_name g = ''port'' \<and> \<not> good_port (g_value g)
           then [\<lparr>n_option = spell g, n_why = NotAPort (g_value g)\<rparr>] else [])
      | Translate \<Rightarrow>
          (case chunks number g of Inl e \<Rightarrow> [\<lparr>n_option = spell g, n_why = e\<rparr>] | Inr _ \<Rightarrow> []))"

definition ignored_of :: "given \<Rightarrow> note_t list" where
  "ignored_of g = (if disposed g = Ignore then [\<lparr>n_option = spell g, n_why = table_reason g\<rparr>] else [])"

definition flags_of :: "(string \<Rightarrow> string option) \<Rightarrow> given \<Rightarrow> string list list" where
  "flags_of number g =
     (case disposed g of
        Translate \<Rightarrow> (case chunks number g of Inl _ \<Rightarrow> [] | Inr cs \<Rightarrow> cs)
      | Endpoint \<Rightarrow> (if base_name g = ''office'' then [[''--exclude'', ''^Files$'']] else [])
      | _ \<Rightarrow> [])"

definition file_side :: "given \<Rightarrow> side \<Rightarrow> side" where
  "file_side g s =
     (let base = base_name g in
      if base = ''host'' then s\<lparr>s_host := g_value g\<rparr>
      else if base = ''user'' then s\<lparr>s_user := g_value g\<rparr>
      else if base = ''password'' then s\<lparr>s_password := g_value g\<rparr>
      else if base = ''passfile'' then s\<lparr>s_passfile := g_value g\<rparr>
      else if base = ''port'' then (if good_port (g_value g) then s\<lparr>s_port := the (atoi (g_value g))\<rparr> else s)
      else if base = ''ssl'' then s\<lparr>s_ssl := Some (g_on g)\<rparr>
      else if base = ''tls'' then s\<lparr>s_tls := Some (g_on g)\<rparr>
      else if base = ''office'' then office s
      else s)"

text \<open>The options of one end: \<open>b\<close> says whether it is the destination.\<close>

definition about_side :: "bool \<Rightarrow> given \<Rightarrow> bool" where
  "about_side b g \<longleftrightarrow> disposed g = Endpoint \<and> has_suffix (opt_name (g_opt g)) ''2'' = b"

definition side_of :: "bool \<Rightarrow> given list \<Rightarrow> side" where
  "side_of b gs = fold file_side (filter (about_side b) gs) (new_side (if b then 2 else 1))"

text \<open>Of several flags that read the same only the first stands.\<close>

fun first_of_each :: "string set \<Rightarrow> string list list \<Rightarrow> string list list" where
  "first_of_each seen [] = []"
| "first_of_each seen (c # cs) =
     (if join_str c '' '' \<in> seen then first_of_each seen cs
      else c # first_of_each (insert (join_str c '' '') seen) cs)"

section \<open>The translation is the sum of its options\<close>

lemma emit_chunks:
  "emit number g (answer (g_opt g) (g_on g)) t =
     (case chunks number g of Inl e \<Rightarrow> Inl e | Inr cs \<Rightarrow> Inr (fold append_flag cs t))"
proof -
  have f: "fold append_flag (map (\<lambda>w. [w, v]) ws) t = fold (\<lambda>w. append_flag [w, v]) ws t" for v ws
    by (simp add: fold_map o_def)
  have s: "(case ws of [w] \<Rightarrow> x w | _ \<Rightarrow> y) = (if length ws = 1 then x (hd ws) else y)"
    for ws :: "string list" and x :: "string \<Rightarrow> reason + translator" and y
    by (cases ws; cases "tl ws") auto
  show ?thesis unfolding emit_def chunks_def s by (simp add: Let_def f split: option.split)
qed

lemma append_flag_frame [simp]:
  "t_src (append_flag ws t) = t_src t" "t_dst (append_flag ws t) = t_dst t"
  "t_plan (append_flag ws t) = t_plan t" "t_refusals (append_flag ws t) = t_refusals t"
  by (simp_all add: append_flag_def Let_def)

lemma append_flags_frame [simp]:
  "t_src (fold append_flag cs t) = t_src t" "t_dst (fold append_flag cs t) = t_dst t"
  "t_plan (fold append_flag cs t) = t_plan t" "t_refusals (fold append_flag cs t) = t_refusals t"
  by (induction cs arbitrary: t) simp_all

lemma on_side_frame [simp]:
  "t_flags (on_side b f t) = t_flags t" "t_seen (on_side b f t) = t_seen t"
  "t_plan (on_side b f t) = t_plan t" "t_refusals (on_side b f t) = t_refusals t"
  "t_src (on_side b f t) = (if b then t_src t else f (t_src t))"
  "t_dst (on_side b f t) = (if b then f (t_dst t) else t_dst t)"
  by (simp_all add: on_side_def)

lemma refuse_frame [simp]:
  "t_flags (refuse_note n t) = t_flags t" "t_seen (refuse_note n t) = t_seen t"
  "t_plan (refuse_note n t) = t_plan t" "t_src (refuse_note n t) = t_src t" "t_dst (refuse_note n t) = t_dst t"
  "t_refusals (refuse_note n t) = t_refusals t @ [n]"
  by (simp_all add: refuse_note_def)

text \<open>The part of the record that \<open>append_flag\<close> touches.\<close>

definition flag_state :: "translator \<Rightarrow> string set \<times> string list" where
  "flag_state t = (t_seen t, t_flags t)"

definition flag_step :: "string list \<Rightarrow> string set \<times> string list \<Rightarrow> string set \<times> string list" where
  "flag_step ws = (\<lambda>(seen, out). if join_str ws '' '' \<in> seen then (seen, out)
     else (insert (join_str ws '' '') seen, out @ ws))"

lemma flag_state_append: "flag_state (append_flag ws t) = flag_step ws (flag_state t)"
  by (simp add: flag_state_def flag_step_def append_flag_def Let_def)

lemma flag_state_appends: "flag_state (fold append_flag cs t) = fold flag_step cs (flag_state t)"
  by (induction cs arbitrary: t) (simp_all add: flag_state_append)

lemma flag_steps: "snd (fold flag_step cs (seen, out)) = out @ concat (first_of_each seen cs)"
  by (induction cs arbitrary: seen out) (simp_all add: flag_step_def)

lemma on_side_id: "on_side b (\<lambda>s. s) t = t"
  by (simp add: on_side_def)

lemma file_endpoint_form:
  "file_endpoint g t =
     (if base_name g = ''port'' \<and> \<not> good_port (g_value g)
      then refuse_note \<lparr>n_option = spell g, n_why = NotAPort (g_value g)\<rparr> t
      else (let t' = on_side (has_suffix (opt_name (g_opt g)) ''2'') (file_side g) t in
            if base_name g = ''office'' then append_flag [''--exclude'', ''^Files$''] t' else t'))"
proof -
  have p: "(case atoi v of None \<Rightarrow> x | Some p \<Rightarrow> if p < 1 \<or> p > 65535 then x else y p) =
      (if good_port v then y (the (atoi v)) else x)" for v and x and y :: "int \<Rightarrow> translator"
    by (auto simp: good_port_def split: option.split)
  show ?thesis
    unfolding file_endpoint_def base_name_def [symmetric] Let_def p
    by (simp add: file_side_def [abs_def] Let_def on_side_id)
qed

lemma file_side_bad_port: "base_name g = ''port'' \<Longrightarrow> \<not> good_port (g_value g) \<Longrightarrow> file_side g s = s"
  by (simp add: file_side_def)

lemma file_endpoint_parts:
  "t_src (file_endpoint g t) = (if has_suffix (opt_name (g_opt g)) ''2'' then t_src t else file_side g (t_src t))"
  "t_dst (file_endpoint g t) = (if has_suffix (opt_name (g_opt g)) ''2'' then file_side g (t_dst t) else t_dst t)"
  "t_plan (file_endpoint g t) = t_plan t"
  "t_refusals (file_endpoint g t) = t_refusals t @
     (if base_name g = ''port'' \<and> \<not> good_port (g_value g)
      then [\<lparr>n_option = spell g, n_why = NotAPort (g_value g)\<rparr>] else [])"
  "flag_state (file_endpoint g t) =
     (if base_name g = ''office'' then flag_step [''--exclude'', ''^Files$''] (flag_state t) else flag_state t)"
  by (simp_all add: file_endpoint_form Let_def flag_state_append file_side_bad_port) (simp_all add: flag_state_def)

lemma translate_one_parts:
  "t_src (translate_one number g t) = (if about_side False g then file_side g (t_src t) else t_src t)"
  "t_dst (translate_one number g t) = (if about_side True g then file_side g (t_dst t) else t_dst t)"
  "t_plan (translate_one number g t) = (t_plan t)\<lparr>p_ignored := p_ignored (t_plan t) @ ignored_of g\<rparr>"
  "t_refusals (translate_one number g t) = t_refusals t @ refusals_of number g"
  "flag_state (translate_one number g t) = fold flag_step (flags_of number g) (flag_state t)"
proof -
  have ig: "flag_state (t\<lparr>t_plan := p\<rparr>) = flag_state t" "flag_state (refuse_note n t) = flag_state t" for p n
    by (simp_all add: flag_state_def)
  show "t_src (translate_one number g t) = (if about_side False g then file_side g (t_src t) else t_src t)"
    "t_dst (translate_one number g t) = (if about_side True g then file_side g (t_dst t) else t_dst t)"
    "t_plan (translate_one number g t) = (t_plan t)\<lparr>p_ignored := p_ignored (t_plan t) @ ignored_of g\<rparr>"
    "t_refusals (translate_one number g t) = t_refusals t @ refusals_of number g"
    "flag_state (translate_one number g t) = fold flag_step (flags_of number g) (flag_state t)"
    by (cases "disposed g"; cases "chunks number g";
        simp add: translate_one_def Let_def about_side_def emit_chunks file_endpoint_parts ignored_of_def
          refusals_of_def flags_of_def ig flag_state_appends)+
qed

lemma translate_run:
  "t_src (fold (translate_one number) gs t) = fold file_side (filter (about_side False) gs) (t_src t)"
  "t_dst (fold (translate_one number) gs t) = fold file_side (filter (about_side True) gs) (t_dst t)"
  "t_plan (fold (translate_one number) gs t) =
     (t_plan t)\<lparr>p_ignored := p_ignored (t_plan t) @ concat (map ignored_of gs)\<rparr>"
  "t_refusals (fold (translate_one number) gs t) = t_refusals t @ concat (map (refusals_of number) gs)"
  "flag_state (fold (translate_one number) gs t) =
     fold flag_step (concat (map (flags_of number) gs)) (flag_state t)"
  by (induction gs arbitrary: t) (simp_all add: translate_one_parts)

text \<open>What one end comes to: its arguments, its password, and whether its encryption was guessed.\<close>

definition end_result :: "side \<Rightarrow> string \<Rightarrow> reason + string list" where
  "end_result s end_of = fst (side_args s end_of new_translator)"

definition guessed :: "side \<Rightarrow> bool" where
  "guessed s \<longleftrightarrow> s_host s \<noteq> '''' \<and> s_user s \<noteq> '''' \<and> s_ssl s = None \<and> s_tls s = None"

definition needs_variable :: "side \<Rightarrow> bool" where
  "needs_variable s \<longleftrightarrow> s_host s \<noteq> '''' \<and> s_user s \<noteq> '''' \<and> s_passfile s = '''' \<and> s_password s \<noteq> ''''"

definition end_plan :: "side \<Rightarrow> tplan \<Rightarrow> tplan" where
  "end_plan s p = p\<lparr>p_assumed := p_assumed p @ (if guessed s then [assumption_text (s_n s)] else []),
     p_env := (if needs_variable s then (p_env p)(password_variable (s_n s) \<mapsto> s_password s) else p_env p)\<rparr>"

definition end_notes :: "side \<Rightarrow> string \<Rightarrow> string \<Rightarrow> note_t list" where
  "end_notes s end_of blame =
     (case end_result s end_of of Inl e \<Rightarrow> [\<lparr>n_option = blame, n_why = e\<rparr>] | Inr _ \<Rightarrow> [])"

lemma side_args_parts:
  "side_args s end_of t = (end_result s end_of, t\<lparr>t_plan := end_plan s (t_plan t)\<rparr>)"
proof -
  have "fst (side_args s end_of t) = end_result s end_of"
    by (simp add: end_result_def side_args_def scheme_def Let_def)
  moreover have "snd (side_args s end_of t) = t\<lparr>t_plan := end_plan s (t_plan t)\<rparr>"
    by (simp add: side_args_def scheme_def end_plan_def guessed_def needs_variable_def Let_def)
  ultimately show ?thesis by (metis prod.collapse)
qed

lemma add_side_parts:
  "add_side s end_of blame t =
     (case end_result s end_of of Inl _ \<Rightarrow> [] | Inr args \<Rightarrow> args,
      t\<lparr>t_plan := end_plan s (t_plan t), t_refusals := t_refusals t @ end_notes s end_of blame\<rparr>)"
  by (simp add: add_side_def side_args_parts end_notes_def refuse_note_def split: sum.split)

lemma side_of_run:
  "t_src (fold (translate_one number) gs new_translator) = side_of False gs"
  "t_dst (fold (translate_one number) gs new_translator) = side_of True gs"
  by (simp_all add: translate_run side_of_def new_translator_def)

definition args_or_none :: "reason + string list \<Rightarrow> string list" where
  "args_or_none r = (case r of Inl _ \<Rightarrow> [] | Inr args \<Rightarrow> args)"

definition all_notes :: "(string \<Rightarrow> string option) \<Rightarrow> given list \<Rightarrow> note_t list" where
  "all_notes number gs = concat (map (refusals_of number) gs) @
     end_notes (side_of False gs) ''source'' ''--host1'' @ end_notes (side_of True gs) ''dest'' ''--host2''"

definition spec_plan :: "(string \<Rightarrow> string option) \<Rightarrow> given list \<Rightarrow> tplan" where
  "spec_plan number gs =
     (end_plan (side_of True gs) (end_plan (side_of False gs)
        \<lparr>p_args = [], p_env = Map.empty, p_ignored = concat (map ignored_of gs), p_assumed = []\<rparr>))
      \<lparr>p_args := [''sync''] @ args_or_none (end_result (side_of False gs) ''source'') @
         args_or_none (end_result (side_of True gs) ''dest'') @
         concat (first_of_each {} (concat (map (flags_of number) gs)))\<rparr>"

lemma translation_sum:
  "translate_givens number gs =
     (if all_notes number gs \<noteq> [] then Inl (all_notes number gs) else Inr (spec_plan number gs))"
proof -
  define t where "t = fold (translate_one number) gs new_translator"
  have tp: "t_plan t = \<lparr>p_args = [], p_env = Map.empty, p_ignored = concat (map ignored_of gs), p_assumed = []\<rparr>"
    and tr: "t_refusals t = concat (map (refusals_of number) gs)"
    unfolding t_def by (simp_all add: translate_run) (simp_all add: new_translator_def)
  have ts: "t_src t = side_of False gs" "t_dst t = side_of True gs"
    unfolding t_def by (simp_all only: side_of_run)
  have "flag_state t = fold flag_step (concat (map (flags_of number) gs)) ({}, [])"
    unfolding t_def by (simp add: translate_run) (simp add: new_translator_def flag_state_def)
  then have tf: "t_flags t = concat (first_of_each {} (concat (map (flags_of number) gs)))"
    using flag_steps [of _ "{}" "[]"] by (simp add: flag_state_def prod_eq_iff)
  show ?thesis
    unfolding translate_givens_def t_def [symmetric]
    by (simp add: add_side_parts Let_def tp tr ts tf all_notes_def spec_plan_def args_or_none_def)
qed

text \<open>The translation is what its options say one by one: it is refused with every reason of every
  option, and of the two ends, in the order given; otherwise the plan holds the two ends, each flag once in
  the order of the options, and every ignored option with its reason.\<close>

theorem translation_is_sum_of_options:
  "translate_givens number gs =
     (if all_notes number gs \<noteq> [] then Inl (all_notes number gs) else Inr (spec_plan number gs))"
  by (rule translation_sum)

section \<open>Nothing is dropped\<close>

text \<open>A flag that cannot be mistaken for another: one word without a space, with at most one value.\<close>

definition tidy :: "string list \<Rightarrow> bool" where
  "tidy c \<longleftrightarrow> (length c = 1 \<or> length c = 2) \<and> CHR '' '' \<notin> set (hd c)"

lemma tidy_join_inject:
  assumes "tidy c" and "tidy d" and "join_str c '' '' = join_str d '' ''"
  shows "c = d"
proof -
  have key: "cut (CHR '' '') (join_str c '' '') = (hd c, if length c = 1 then '''' else c ! 1, length c \<noteq> 1)"
    if c: "tidy c" for c
  proof (cases "length c = 1")
    case True
    with c obtain w where "c = [w]" "CHR '' '' \<notin> set w" by (auto simp: tidy_def length_Suc_conv)
    then show ?thesis by (simp add: cut_missing)
  next
    case False
    with c obtain w v where "c = [w, v]" "CHR '' '' \<notin> set w"
      by (auto simp: tidy_def length_Suc_conv numeral_2_eq_2)
    then show ?thesis by (simp add: cut_append)
  qed
  have shape: "c = (if length c = 1 then [hd c] else [hd c, c ! 1])" if "tidy c" for c
    using that by (auto simp: tidy_def length_Suc_conv numeral_2_eq_2)
  from key [OF assms(1)] key [OF assms(2)] assms(3)
  have "hd c = hd d" "(length c = 1) = (length d = 1)" "length c \<noteq> 1 \<longrightarrow> c ! 1 = d ! 1"
    by (auto split: if_splits)
  with shape [OF assms(1)] shape [OF assms(2)] show ?thesis by metis
qed

lemma first_of_each_subset: "set (first_of_each seen cs) \<subseteq> set cs"
  by (induction cs arbitrary: seen) auto

lemma first_of_each_keeps:
  "c \<in> set cs \<Longrightarrow> join_str c '' '' \<notin> seen \<Longrightarrow> \<exists>d \<in> set (first_of_each seen cs). join_str d '' '' = join_str c '' ''"
proof (induction cs arbitrary: seen)
  case (Cons a cs)
  show ?case
  proof (cases "join_str a '' '' = join_str c '' ''")
    case False
    with Cons show ?thesis by auto
  qed (use Cons.prems in auto)
qed simp

lemma fields_free_at:
  "CHR '' '' \<notin> set acc \<Longrightarrow> w \<in> set (fields_at acc s) \<Longrightarrow> CHR '' '' \<notin> set w"
proof (induction acc s arbitrary: w rule: fields_at.induct)
  case (2 acc c cs)
  then show ?case by (cases "c = CHR '' ''") (auto split: if_splits)
qed (auto split: if_splits)

lemma fields_free: "w \<in> set (fields_str s) \<Longrightarrow> CHR '' '' \<notin> set w"
  using fields_free_at [of "[]"] by (simp add: fields_str_def)

lemma answer_outcome: "List.member (outcomes p) (answer p on)"
  by (simp add: outcomes_def answer_def split: option.split)

lemma sound_given:
  assumes "wf_given table g"
  shows "sound_entry (g_opt g)" and "explained (answer (g_opt g) (g_on g))"
    and "one_flag (g_opt g) (answer (g_opt g) (g_on g))"
proof -
  have "g_opt g \<in> set table" using assms by (simp add: wf_given_def)
  with table_sound show s: "sound_entry (g_opt g)" by (simp add: list_all_iff)
  then have "list_all explained (outcomes (g_opt g))" "list_all (one_flag (g_opt g)) (outcomes (g_opt g))"
    by (simp_all add: sound_entry_def Let_def)
  with answer_outcome [of "g_opt g" "g_on g"]
  show "explained (answer (g_opt g) (g_on g))" and "one_flag (g_opt g) (answer (g_opt g) (g_on g))"
    by (simp_all add: list_all_iff)
qed

lemma flags_tidy:
  assumes "wf_given table g" and "c \<in> set (flags_of number g)"
  shows "tidy c"
proof -
  define ws where "ws = fields_str (native (answer (g_opt g) (g_on g)))"
  have free: "w \<in> set ws \<Longrightarrow> CHR '' '' \<notin> set w" for w by (simp add: ws_def fields_free)
  show ?thesis
  proof (cases "disposed g")
    case Translate
    with assms(2) obtain cs where cs: "chunks number g = Inr cs" "c \<in> set cs"
      by (cases "chunks number g") (simp_all add: flags_of_def)
    have ne: "ws \<noteq> []" using sound_given(2) [OF assms(1)] Translate by (simp add: explained_def ws_def)
    then have h: "CHR '' '' \<notin> set (hd ws)" by (simp add: free)
    have one: "if takes_value (kind (g_opt g)) then opt_name (g_opt g) = ''search'' \<or> length ws = 1 else length ws \<le> 2"
      using sound_given(3) [OF assms(1)] Translate by (simp add: one_flag_def ws_def split: if_splits)
    show ?thesis
    proof (cases "takes_value (kind (g_opt g))")
      case False
      with one have "length ws \<le> 2" by simp
      with ne have "length ws = 1 \<or> length ws = 2" by (cases ws; cases "tl ws"; auto)
      then show ?thesis using cs False h ne unfolding chunks_def ws_def [symmetric]
        by (auto simp: tidy_def Let_def split: if_splits)
    next
      case v: True
      show ?thesis
      proof (cases "opt_name (g_opt g) = ''search''")
        case True
        then show ?thesis using cs v free unfolding chunks_def ws_def [symmetric]
          by (auto simp: tidy_def Let_def)
      next
        case False
        with v one obtain w where w: "ws = [w]" by (auto simp: length_Suc_conv)
        then show ?thesis using cs v False h unfolding chunks_def ws_def [symmetric]
          by (auto simp: tidy_def Let_def split: if_splits option.splits)
      qed
    qed
  next
    case Endpoint
    with assms(2) have "c = [''--exclude'', ''^Files$'']" by (auto simp: flags_of_def split: if_splits)
    then show ?thesis by (simp add: tidy_def)
  qed (use assms(2) in \<open>simp_all add: flags_of_def\<close>)
qed

lemma flags_in_plan:
  assumes "\<forall>g \<in> set gs. wf_given table g" and "translate_givens number gs = Inr p"
    and "g \<in> set gs" and "c \<in> set (flags_of number g)"
  shows "sublist c (p_args p)"
proof -
  let ?all = "concat (map (flags_of number) gs)"
  have t: "d \<in> set ?all \<Longrightarrow> tidy d" for d using assms(1) flags_tidy by auto
  have c: "c \<in> set ?all" using assms(3,4) by auto
  then obtain d where d: "d \<in> set (first_of_each {} ?all)" "join_str d '' '' = join_str c '' ''"
    using first_of_each_keeps [of c ?all "{}"] by blast
  then have "d \<in> set ?all" using first_of_each_subset by blast
  with t c d(2) have "d = c" using tidy_join_inject by blast
  with d(1) obtain xs ys where "first_of_each {} ?all = xs @ c # ys" by (auto dest: split_list)
  moreover have "p = spec_plan number gs"
    using assms(2) by (simp add: translation_sum split: if_splits)
  ultimately have "p_args p =
     ([''sync''] @ args_or_none (end_result (side_of False gs) ''source'') @
      args_or_none (end_result (side_of True gs) ''dest'') @ concat xs) @ c @ concat ys"
    by (simp add: spec_plan_def)
  then show ?thesis unfolding sublist_def by blast
qed

section \<open>A command line of the table\<close>

definition entry :: "option_t option \<Rightarrow> string \<Rightarrow> given" where
  "entry p v = \<lparr>g_opt = the p, g_on = True, g_value = v\<rparr>"

definition example_givens :: "given list" where
  "example_givens =
     [entry (ep ''host1=s'') ''a.example'', entry (ep ''user1=s'') ''me@a'', entry (ep ''password1=s'') ''s3cret'',
      entry (ep ''host2=s'') ''b.example'', entry (ep ''user2=s'') ''me'', entry (ep ''passfile2=s'') ''/tmp/p w'',
      \<lparr>g_opt = the (ep ''tls2!''), g_on = False, g_value = ''''\<rparr>, entry (ep ''port2=i'') ''1143'',
      entry (ig ''exchange1'' ''it does nothing in imapsync either'') '''', entry (tr ''dry!'' ''--dry-run'') '''']"

definition example_argv :: "string list" where
  "example_argv = concat (map retype example_givens)"

lemma group_in_table:
  "p \<in> set endpoint_options \<Longrightarrow> the p \<in> set table"
  "p \<in> set message_options \<Longrightarrow> the p \<in> set table"
  by (simp_all add: table_def table_entries_def)

lemma example_wf: "\<forall>g \<in> set example_givens. wf_given table g"
proof -
  have k: "takes_value (kind (the (ep ''host1=s'')))" "takes_value (kind (the (ep ''user1=s'')))"
    "takes_value (kind (the (ep ''password1=s'')))" "takes_value (kind (the (ep ''host2=s'')))"
    "takes_value (kind (the (ep ''user2=s'')))" "takes_value (kind (the (ep ''passfile2=s'')))"
    "takes_value (kind (the (ep ''port2=i'')))" "kind (the (ep ''tls2!'')) = Boolean"
    by code_simp+
  have m: "the p \<in> set table" if "p \<in> {ep ''host1=s'', ep ''user1=s'', ep ''password1=s'', ep ''host2=s'',
      ep ''user2=s'', ep ''passfile2=s'', ep ''port2=i'', ep ''tls2!'',
      ig ''exchange1'' ''it does nothing in imapsync either''}" for p
    using that by (intro group_in_table(1)) (auto simp: endpoint_options_def)
  have d: "the (tr ''dry!'' ''--dry-run'') \<in> set table"
    by (intro group_in_table(2)) (simp add: message_options_def)
  show ?thesis
    using k m d by (simp add: example_givens_def entry_def wf_given_def)
qed

lemma example_parsed: "parse_args example_argv table = Inr example_givens"
  unfolding example_argv_def using parse_retyped example_wf table_sound by blast

lemma example_typed:
  "example_argv = [''--host1'', ''a.example'', ''--user1'', ''me@a'', ''--password1'', ''s3cret'', ''--host2'',
     ''b.example'', ''--user2'', ''me'', ''--passfile2'', ''/tmp/p w'', ''--notls2'', ''--port2'', ''1143'',
     ''--exchange1'', ''--dry'']"
  by code_simp

lemma example_plan:
  "case translate_givens Some example_givens of
     Inl _ \<Rightarrow> False
   | Inr p \<Rightarrow> p_args p = [''sync'', ''--source-url'', ''imaps://me%40a@a.example:993'', ''--source-password-env'',
        ''IMAPSYNC_COMPAT_PASSWORD1'', ''--dest-url'', ''imap+insecure://me@b.example:1143'',
        ''--dest-password-file'', ''/tmp/p w'', ''--dry-run''] \<and>
      length (p_ignored p) = 1 \<and> length (p_assumed p) = 1 \<and>
      p_env p ''IMAPSYNC_COMPAT_PASSWORD1'' = Some ''s3cret''"
  by code_simp

lemma example_translates: "\<exists>p. translate_argv Some example_argv = Inr p"
  using example_plan by (simp add: translate_argv_def example_parsed split: sum.splits)

text \<open>Every option of a command line that translates has an answer that can be seen: it is filed under an
  end of the copy, each flag it stands for is among the arguments that run, or it is listed as ignored with the
  reason of the table; an option that is refused leaves no plan.\<close>

theorem nothing_is_dropped:
  assumes "translate_argv number argv = Inr p" and "parse_args argv table = Inr gs" and "g \<in> set gs"
  shows "case disposed g of
      Refuse \<Rightarrow> False
    | Ignore \<Rightarrow> List.member (p_ignored p) \<lparr>n_option = spell g, n_why = table_reason g\<rparr>
    | Endpoint \<Rightarrow> List.member endpoint_bases (base_name g)
    | Translate \<Rightarrow> \<exists>cs. chunks number g = Inr cs \<and> cs \<noteq> [] \<and> list_all (\<lambda>c. sublist c (p_args p)) cs"
proof -
  have wf: "\<forall>g \<in> set gs. wf_given table g" using parse_args_given [OF assms(2)] .
  have tg: "translate_givens number gs = Inr p"
    using assms(1,2) by (simp add: translate_argv_def split: sum.splits)
  then have none: "all_notes number gs = []" and p: "p = spec_plan number gs"
    by (simp_all add: translation_sum split: if_splits)
  have r: "refusals_of number g = []" using none assms(3) by (auto simp: all_notes_def)
  have s: "sound_entry (g_opt g)" and e: "explained (answer (g_opt g) (g_on g))"
    using sound_given wf assms(3) by blast+
  show ?thesis
  proof (cases "disposed g")
    case Refuse
    with r show ?thesis by (simp add: refusals_of_def)
  next
    case Translate
    with r obtain cs where cs: "chunks number g = Inr cs" by (auto simp: refusals_of_def split: sum.splits)
    then have "list_all (\<lambda>c. sublist c (p_args p)) cs"
      using flags_in_plan [OF wf tg assms(3)] Translate by (auto simp: list_all_iff flags_of_def)
    moreover have "cs \<noteq> []"
      using cs e Translate by (auto simp: chunks_def explained_def Let_def split: if_splits option.splits)
    ultimately show ?thesis using cs Translate by simp
  next
    case Ignore
    then have "\<lparr>n_option = spell g, n_why = table_reason g\<rparr> \<in> set (concat (map ignored_of gs))"
      using assms(3) by (force simp: ignored_of_def)
    with p Ignore show ?thesis by (simp add: spec_plan_def end_plan_def)
  next
    case Endpoint
    moreover have "how (on_outcome (g_opt g)) = Endpoint"
      using s Endpoint by (auto simp: sound_entry_def answer_def Let_def outcomes_def split: option.splits if_splits)
    ultimately show ?thesis using s by (simp add: sound_entry_def Let_def base_name_def)
  qed
qed

theorem nothing_is_dropped_witness:
  "\<exists>p. translate_argv Some example_argv = Inr p \<and>
     List.member (p_ignored p)
       \<lparr>n_option = ''--exchange1'', n_why = Because ''it does nothing in imapsync either''\<rparr>"
proof -
  let ?g = "entry (ig ''exchange1'' ''it does nothing in imapsync either'') ''''"
  obtain p where p: "translate_argv Some example_argv = Inr p" using example_translates by blast
  have "?g \<in> set example_givens" by (simp add: example_givens_def)
  moreover have "disposed ?g = Ignore" "spell ?g = ''--exchange1''"
    "table_reason ?g = Because ''it does nothing in imapsync either''" by code_simp+
  ultimately show ?thesis using nothing_is_dropped [OF p example_parsed, of ?g] p by auto
qed

section \<open>Passwords stay out of the command line\<close>

definition hide :: "(string \<Rightarrow> string) \<Rightarrow> given \<Rightarrow> given" where
  "hide f g = (if base_name g = ''password'' then g\<lparr>g_value := f (g_value g)\<rparr> else g)"

definition hide_side :: "(string \<Rightarrow> string) \<Rightarrow> side \<Rightarrow> side" where
  "hide_side f s = s\<lparr>s_password := f (s_password s)\<rparr>"

definition hide_plan :: "(string \<Rightarrow> string) \<Rightarrow> tplan \<Rightarrow> tplan" where
  "hide_plan f p = p\<lparr>p_env := (\<lambda>x. map_option f (p_env p x))\<rparr>"

lemma hide_frame [simp]:
  "g_opt (hide f g) = g_opt g" "g_on (hide f g) = g_on g" "base_name (hide f g) = base_name g"
  "spell (hide f g) = spell g" "base_name (g\<lparr>g_value := v\<rparr>) = base_name g"
  by (simp_all add: hide_def base_name_def spell_def)

lemma hide_contributes:
  assumes "base_name g = ''password'' \<Longrightarrow> disposed g = Endpoint"
  shows "refusals_of number (hide f g) = refusals_of number g" and "ignored_of (hide f g) = ignored_of g"
    and "flags_of number (hide f g) = flags_of number g" and "about_side b (hide f g) = about_side b g"
proof -
  show "refusals_of number (hide f g) = refusals_of number g"
    and "flags_of number (hide f g) = flags_of number g"
  proof -
    consider "base_name g = ''password''" "disposed g = Endpoint" | "hide f g = g"
      using assms unfolding hide_def by presburger
    then show "refusals_of number (hide f g) = refusals_of number g"
      and "flags_of number (hide f g) = flags_of number g"
      by (cases; simp add: refusals_of_def flags_of_def)+
  qed
qed (simp_all add: ignored_of_def about_side_def)

lemma hide_file_side: "file_side (hide f g) (hide_side f s) = hide_side f (file_side g s)"
  by (cases "base_name g = ''password''")
    (simp_all add: file_side_def hide_side_def hide_def office_def Let_def)

lemma hide_side_of:
  assumes "\<forall>g \<in> set gs. base_name g = ''password'' \<longrightarrow> disposed g = Endpoint" and "f [] = []"
  shows "side_of b (map (hide f) gs) = hide_side f (side_of b gs)"
proof -
  have "fold file_side (filter (about_side b) (map (hide f) gs)) (hide_side f s) =
      hide_side f (fold file_side (filter (about_side b) gs) s)" for s
    using assms(1)
  proof (induction gs arbitrary: s)
    case (Cons g gs)
    then show ?case using hide_contributes(4) [of g b f] by (simp add: hide_file_side)
  qed simp
  moreover have "hide_side f (new_side n) = new_side n" for n
    using assms(2) by (simp add: hide_side_def new_side_def)
  ultimately show ?thesis unfolding side_of_def by metis
qed

lemma hide_end:
  assumes "\<forall>v. f v = [] \<longleftrightarrow> v = []"
  shows "end_result (hide_side f s) w = end_result s w"
    and "end_plan (hide_side f s) (hide_plan f p) = hide_plan f (end_plan s p)"
  using assms
  by (simp_all add: end_result_def side_args_def scheme_def hide_side_def end_plan_def hide_plan_def guessed_def
      needs_variable_def fun_eq_iff Let_def)

text \<open>C27: Nothing that is printed or runs depends on a password: changing the passwords of a command line
  changes the environment of the plan and nothing else of it - not the arguments, not the notes, not a
  refusal.\<close>

theorem passwords_only_in_environment:
  assumes "\<forall>g \<in> set gs. wf_given table g" and "\<forall>v. f v = [] \<longleftrightarrow> v = []"
  shows "translate_givens number (map (hide f) gs) = map_sum id (hide_plan f) (translate_givens number gs)"
proof -
  have ep: "\<forall>g \<in> set gs. base_name g = ''password'' \<longrightarrow> disposed g = Endpoint"
  proof (intro ballI impI)
    fix g assume g: "g \<in> set gs" "base_name g = ''password''"
    then have "sound_entry (g_opt g)" using sound_given(1) assms(1) by blast
    with g(2) show "disposed g = Endpoint"
      by (auto simp: sound_entry_def Let_def base_name_def answer_def split: if_splits)
  qed
  note sides = hide_side_of [OF ep, of f]
  have nts: "all_notes number (map (hide f) gs) = all_notes number gs"
  proof -
    have "concat (map (refusals_of number) (map (hide f) gs)) = concat (map (refusals_of number) gs)"
      using ep by (intro arg_cong [where f = concat]) (simp add: hide_contributes(1))
    then show ?thesis using assms(2) by (simp add: all_notes_def sides end_notes_def hide_end(1))
  qed
  have m: "map (ignored_of \<circ> hide f) gs = map ignored_of gs" "map (flags_of number \<circ> hide f) gs = map (flags_of number) gs"
    using ep by (simp_all add: hide_contributes)
  moreover have "hide_plan f (p\<lparr>p_args := a\<rparr>) = (hide_plan f p)\<lparr>p_args := a\<rparr>" for p a
    by (simp add: hide_plan_def)
  moreover have "hide_plan f \<lparr>p_args = [], p_env = Map.empty, p_ignored = i, p_assumed = []\<rparr> =
      \<lparr>p_args = [], p_env = Map.empty, p_ignored = i, p_assumed = []\<rparr>" for i
    by (simp add: hide_plan_def)
  ultimately have "spec_plan number (map (hide f) gs) = hide_plan f (spec_plan number gs)"
    using assms(2) by (simp add: spec_plan_def sides hide_end(1) hide_end(2) [symmetric] m)
  with nts show ?thesis by (simp add: translation_sum)
qed

text \<open>Two accounts with other passwords: one plan, but for the environment.\<close>

theorem passwords_only_in_environment_witness:
  "translate_givens Some (map (hide (map (\<lambda>_. CHR ''x''))) example_givens) =
     map_sum id (hide_plan (map (\<lambda>_. CHR ''x''))) (translate_givens Some example_givens) \<and>
   map (hide (map (\<lambda>_. CHR ''x''))) example_givens \<noteq> example_givens"
proof
  show "translate_givens Some (map (hide (map (\<lambda>_. CHR ''x''))) example_givens) =
     map_sum id (hide_plan (map (\<lambda>_. CHR ''x''))) (translate_givens Some example_givens)"
    by (rule passwords_only_in_environment [OF example_wf]) simp
  have "map g_value (map (hide (map (\<lambda>_. CHR ''x''))) example_givens) \<noteq> map g_value example_givens"
    by code_simp
  then show "map (hide (map (\<lambda>_. CHR ''x''))) example_givens \<noteq> example_givens" by metis
qed

section \<open>Encryption is given up only on request\<close>

lemma side_n: "s_n (fold file_side gs s) = s_n s"
proof (induction gs arbitrary: s)
  case (Cons g gs)
  have "s_n (file_side g s) = s_n s" by (simp add: file_side_def office_def Let_def)
  with Cons show ?case by simp
qed simp

text \<open>A negated answer on one end was given by a negation.\<close>

lemma negation_given:
  assumes "s_ssl (side_of b gs) = Some False \<or> s_tls (side_of b gs) = Some False"
  shows "\<exists>g \<in> set gs. about_side b g \<and> List.member [''ssl'', ''tls''] (base_name g) \<and> \<not> g_on g"
proof -
  have "(\<exists>g \<in> set gs. List.member [''ssl'', ''tls''] (base_name g) \<and> \<not> g_on g) \<or>
      s_ssl s = Some False \<or> s_tls s = Some False"
    if "s_ssl (fold file_side gs s) = Some False \<or> s_tls (fold file_side gs s) = Some False" for s gs
    using that
  proof (induction gs arbitrary: s)
    case (Cons g gs)
    have step: "s_ssl (file_side g s) = Some False \<or> s_tls (file_side g s) = Some False \<Longrightarrow>
        s_ssl s = Some False \<or> s_tls s = Some False \<or> (List.member [''ssl'', ''tls''] (base_name g) \<and> \<not> g_on g)"
      by (auto simp: file_side_def office_def Let_def split: if_splits)
    from Cons.IH [of "file_side g s"] Cons.prems step show ?case by auto
  qed simp
  from this [of "filter (about_side b) gs" "new_side (if b then 2 else 1)"] assms show ?thesis
    by (auto simp: side_of_def new_side_def)
qed

lemma port_range: "s_port (side_of b gs) = 0 \<or> 1 \<le> s_port (side_of b gs) \<and> s_port (side_of b gs) \<le> 65535"
proof -
  have "s_port (fold file_side gs s) = 0 \<or> 1 \<le> s_port (fold file_side gs s) \<and> s_port (fold file_side gs s) \<le> 65535"
    if "s_port s = 0 \<or> 1 \<le> s_port s \<and> s_port s \<le> 65535" for gs s
    using that
  proof (induction gs arbitrary: s)
    case (Cons g gs)
    have "s_port (file_side g s) = 0 \<or> 1 \<le> s_port (file_side g s) \<and> s_port (file_side g s) \<le> 65535"
      using Cons.prems by (auto simp: file_side_def office_def good_port_def Let_def split: option.splits)
    then show ?case using Cons.IH [of "file_side g s"] by simp
  qed simp
  then show ?thesis by (simp add: side_of_def new_side_def)
qed

lemma end_ok: "end_notes s w blame = [] \<Longrightarrow> \<exists>args. end_result s w = Inr args"
  by (cases "end_result s w") (simp_all add: end_notes_def)

lemma end_url:
  assumes "end_result s w = Inr args"
  shows "\<exists>sch port rest. args = [''--'' @ w @ ''-url'',
       url_string sch (s_user s) (join_host_port (s_host s) (show_nat (nat port)))] @ rest \<and> length rest = 2 \<and>
     s_host s \<noteq> [] \<and> s_user s \<noteq> [] \<and> port = (if s_port s \<noteq> 0 then s_port s else if sch = ''imaps'' then 993 else 143) \<and>
     sch = (if s_ssl s = Some True then ''imaps'' else if s_tls s = Some True then ''imap''
            else if s_ssl s = Some False \<or> s_tls s = Some False then ''imap+insecure'' else ''imaps'')"
proof -
  have t: "x = None \<or> x = Some True \<or> x = Some False" for x :: "bool option" by (cases x) auto
  from assms t [of "s_ssl s"] t [of "s_tls s"] show ?thesis
    by (auto simp: end_result_def side_args_def scheme_def Let_def split: if_splits)
qed

text \<open>A plan connects each end with a valid port, and without encryption only when the command line
  itself turned the encryption of that end off; an end it said nothing about is given TLS, and the plan says so.\<close>

theorem plaintext_only_on_request:
  assumes "translate_givens number gs = Inr p"
  shows "\<exists>sch user host port.
     p_args p ! (if b then 5 else 1) = (if b then ''--dest-url'' else ''--source-url'') \<and>
     p_args p ! (if b then 6 else 2) = url_string sch user (join_host_port host (show_nat port)) \<and>
     1 \<le> port \<and> port \<le> 65535 \<and> user \<noteq> [] \<and> host \<noteq> [] \<and>
     (if sch = ''imap+insecure'' then
        \<exists>g \<in> set gs. about_side b g \<and> List.member [''ssl'', ''tls''] (base_name g) \<and> \<not> g_on g
      else sch = ''imaps'' \<or> sch = ''imap'') \<and>
     (if \<not> list_ex (\<lambda>g. about_side b g \<and> List.member [''ssl'', ''tls'', ''office''] (base_name g)) gs
      then sch = ''imaps'' \<and> List.member (p_assumed p) (assumption_text (if b then 2 else 1)) else True)"
proof -
  let ?s = "side_of b gs"
  have p: "p = spec_plan number gs" and none: "all_notes number gs = []"
    using assms by (simp_all add: translation_sum split: if_splits)
  from none have "end_notes (side_of False gs) ''source'' ''--host1'' = []"
    and "end_notes (side_of True gs) ''dest'' ''--host2'' = []" by (simp_all add: all_notes_def)
  then obtain sa da where a: "end_result (side_of False gs) ''source'' = Inr sa"
    "end_result (side_of True gs) ''dest'' = Inr da" using end_ok by metis
  have pa: "p_args p = ''sync'' # sa @ da @ concat (first_of_each {} (concat (map (flags_of number) gs)))"
    by (simp add: p spec_plan_def a args_or_none_def)
  have e: "end_result ?s (if b then ''dest'' else ''source'') = Inr (if b then da else sa)" using a by simp
  from end_url [OF a(1)] have la: "length sa = 4" by auto
  from end_url [OF e] obtain sch port rest where u: "(if b then da else sa) = [''--'' @ (if b then ''dest'' else ''source'') @ ''-url'',
       url_string sch (s_user ?s) (join_host_port (s_host ?s) (show_nat (nat port)))] @ rest" "length rest = 2"
    "s_host ?s \<noteq> []" "s_user ?s \<noteq> []"
    "port = (if s_port ?s \<noteq> 0 then s_port ?s else if sch = ''imaps'' then 993 else 143)"
    "sch = (if s_ssl ?s = Some True then ''imaps'' else if s_tls ?s = Some True then ''imap''
            else if s_ssl ?s = Some False \<or> s_tls ?s = Some False then ''imap+insecure'' else ''imaps'')"
    by blast
  have at: "p_args p ! (if b then 5 else 1) = (if b then ''--dest-url'' else ''--source-url'')"
    "p_args p ! (if b then 6 else 2) = url_string sch (s_user ?s) (join_host_port (s_host ?s) (show_nat (nat port)))"
  proof -
    obtain s1 s2 s3 s4 where sa: "sa = [s1, s2, s3, s4]"
      using la by (auto simp: length_Suc_conv numeral_eq_Suc)
    have "p_args p ! 1 = sa ! 0 \<and> p_args p ! 2 = sa ! 1" by (simp add: pa sa)
    moreover have "p_args p ! 5 = (da @ ys) ! 0 \<and> p_args p ! 6 = (da @ ys) ! 1"
      if "ys = concat (first_of_each {} (concat (map (flags_of number) gs)))" for ys
      by (simp add: pa sa that)
    ultimately show "p_args p ! (if b then 5 else 1) = (if b then ''--dest-url'' else ''--source-url'')"
      and "p_args p ! (if b then 6 else 2) = url_string sch (s_user ?s) (join_host_port (s_host ?s) (show_nat (nat port)))"
      using u(1) by (cases b; simp)+
  qed
  have port: "1 \<le> nat port \<and> nat port \<le> 65535" using u(5) port_range [of b gs] by auto
  have sch: "if sch = ''imap+insecure'' then
        \<exists>g \<in> set gs. about_side b g \<and> List.member [''ssl'', ''tls''] (base_name g) \<and> \<not> g_on g
      else sch = ''imaps'' \<or> sch = ''imap''"
    using negation_given [of b gs] by (auto simp: u(6))
  have silent: "sch = ''imaps'' \<and> List.member (p_assumed p) (assumption_text (if b then 2 else 1))"
    if q: "\<not> list_ex (\<lambda>g. about_side b g \<and> List.member [''ssl'', ''tls'', ''office''] (base_name g)) gs"
  proof -
    have "s_ssl (fold file_side hs s) = s_ssl s \<and> s_tls (fold file_side hs s) = s_tls s"
      if "\<forall>h \<in> set hs. \<not> List.member [''ssl'', ''tls'', ''office''] (base_name h)" for hs s
      using that
    proof (induction hs arbitrary: s)
      case (Cons h hs)
      then have "s_ssl (file_side h s) = s_ssl s \<and> s_tls (file_side h s) = s_tls s"
        by (simp add: file_side_def Let_def)
      with Cons show ?case by simp
    qed simp
    from this [of "filter (about_side b) gs" "new_side (if b then 2 else 1)"] q
    have n: "s_ssl ?s = None" "s_tls ?s = None" by (auto simp: side_of_def new_side_def list_ex_iff)
    have "guessed ?s" using n u(3,4) by (simp add: guessed_def)
    moreover have "s_n ?s = (if b then 2 else 1)" by (simp add: side_of_def side_n new_side_def)
    ultimately show ?thesis
      using n by (cases b) (simp_all add: u(6) p spec_plan_def end_plan_def)
  qed
  show ?thesis using at port sch silent u(3,4) by (intro exI conjI) (assumption | simp)+
qed

text \<open>The second end of the example turned STARTTLS off; the first said nothing and was given TLS.\<close>

theorem plaintext_only_on_request_witness:
  "\<exists>p. translate_givens Some example_givens = Inr p \<and> p_args p ! 5 = ''--dest-url'' \<and>
     (\<exists>sch user host port. p_args p ! 6 = url_string sch user (join_host_port host (show_nat port)) \<and>
        1 \<le> port \<and> port \<le> 65535)"
proof -
  obtain p where p: "translate_givens Some example_givens = Inr p"
    using example_plan by (cases "translate_givens Some example_givens") simp_all
  from plaintext_only_on_request [OF p, of True] have "p_args p ! 5 = ''--dest-url''" by auto
  moreover from plaintext_only_on_request [OF p, of True]
  have "\<exists>sch user host port. p_args p ! 6 = url_string sch user (join_host_port host (show_nat port)) \<and>
        1 \<le> port \<and> port \<le> 65535" by (simp only: if_True) blast
  ultimately show ?thesis using p by blast
qed

end
