(* ===== verification/Config.thy ===== *)
theory Config
  imports Complex_Main CompatTranslate
begin

text \<open>
  The configuration file (\<open>src/internal/config/config.go\<close>): endpoints and the URLs that name them, where
  credentials come from, limits and sizes, and the checks a document passes before a run starts. The YAML decoder is
  outside; a document is what it decodes to.

  The operating system's answers are arguments: the home directory, the working directory, the environment, files and
  the keychain. So is \<open>strconv.ParseFloat\<close>, and the conversion of a float out of range to an integer, which
  Go leaves to the implementation.
\<close>

datatype tls_mode = TLSImplicit | TLSStartTLS | TLSNone

datatype config_error =
  UrlMissing | NoScheme | DirectoryUrl | BadScheme string | PathOrQuery | NoUserName | InlinePassword
| HostMissing | Unterminated string | AfterBracket string | BadPort string
| NotLocal string | NoPath | PathQuery | NoHome string | NoWorkingDir string
| PasswordOnDirectory | OAuthOnDirectory | BothCredentials
| ManyTokenSources | NoTokenSource | NegativeTimeout int | TimeoutOnFile | NoSecretSource | ManySecretSources
| NotSetVar string | EmptyVar string | UnreadSecret string | EmptySecret string | NoKeychain | UnreadKeychain string | EmptyKeychain string
| NoPairs | Unnamed nat | DuplicateName string | InEnd string string config_error | BadMapMode string string
| NegativeRate string | NoSuchPair string
| EmptySize | BadSize string | NegativeSize string | BadLimit string | NegativeLimit int

section \<open>Paths\<close>

text \<open>\<open>filepath.Clean\<close> on a system that separates with a slash.\<close>

fun clean_parts :: "bool \<Rightarrow> string list \<Rightarrow> string list \<Rightarrow> string list" where
  "clean_parts rooted st [] = rev st"
| "clean_parts rooted st (c # cs) =
     (if c = [] \<or> c = ''.'' then clean_parts rooted st cs
      else if c = ''..'' then
        (case st of
           [] \<Rightarrow> clean_parts rooted (if rooted then [] else [c]) cs
         | t # ts \<Rightarrow> clean_parts rooted (if t = ''..'' then c # st else ts) cs)
      else clean_parts rooted (c # st) cs)"

definition clean_path :: "string \<Rightarrow> string" where
  "clean_path p =
     (let rooted = has_prefix p ''/''; cs = clean_parts rooted [] (split_str p ''/'')
      in if rooted then CHR ''/'' # join_str cs ''/'' else if cs = [] then ''.'' else join_str cs ''/'')"

definition join_path :: "string list \<Rightarrow> string" where
  "join_path es = (let es = filter (\<lambda>e. e \<noteq> []) es in if es = [] then [] else clean_path (join_str es ''/''))"

definition abs_path :: "string option \<Rightarrow> string \<Rightarrow> string option" where
  "abs_path cwd p = (if has_prefix p ''/'' then Some (clean_path p) else map_option (\<lambda>d. join_path [d, p]) cwd)"

section \<open>Endpoints\<close>

text \<open>\<open>strings.Cut\<close> at the first \<open>://\<close>.\<close>

fun cut_scheme :: "string \<Rightarrow> (string \<times> string) option" where
  "cut_scheme [] = None"
| "cut_scheme (c # cs) =
     (if has_prefix (c # cs) ''://'' then Some ([], drop 3 (c # cs))
      else map_option (\<lambda>(a, b). (c # a, b)) (cut_scheme cs))"

text \<open>At the last at-sign.\<close>

definition cut_last_at :: "string \<Rightarrow> (string \<times> string) option" where
  "cut_last_at s =
     (if CHR ''@'' \<notin> set s then None
      else (let r = rev s in Some (rev (tl (dropWhile (\<lambda>c. c \<noteq> CHR ''@'') r)), rev (takeWhile (\<lambda>c. c \<noteq> CHR ''@'') r))))"

definition hex_value :: "char \<Rightarrow> nat option" where
  "hex_value c =
     (if 48 \<le> byte c \<and> byte c \<le> 57 then Some (byte c - 48)
      else if 97 \<le> byte c \<and> byte c \<le> 102 then Some (byte c - 87)
      else if 65 \<le> byte c \<and> byte c \<le> 70 then Some (byte c - 55)
      else None)"

fun path_unescape :: "string \<Rightarrow> string option" where
  "path_unescape [] = Some []"
| "path_unescape (c # cs) =
     (if c = CHR ''%'' then
        (case cs of
           h # l # r \<Rightarrow>
             (case (hex_value h, hex_value l) of
                (Some a, Some b) \<Rightarrow> map_option (\<lambda>s. char_of (16 * a + b) # s) (path_unescape r)
              | _ \<Rightarrow> None)
         | _ \<Rightarrow> None)
      else map_option (\<lambda>s. c # s) (path_unescape cs))"

definition read_port :: "string \<Rightarrow> config_error + nat" where
  "read_port s =
     (case atoi s of
        Some n \<Rightarrow> if n < 1 \<or> n > 65535 then Inl (BadPort s) else Inr (nat n)
      | None \<Rightarrow> Inl (BadPort s))"

definition with_port :: "string \<Rightarrow> string \<Rightarrow> config_error + string \<times> nat" where
  "with_port host port =
     (if host = [] then Inl HostMissing
      else if port = [] then Inr (host, 0)
      else bind_err (read_port port) (\<lambda>n. Inr (host, n)))"

definition split_host_port :: "string \<Rightarrow> config_error + string \<times> nat" where
  "split_host_port hp =
     (if hp = [] then Inl HostMissing
      else if hd hp = CHR ''['' then
        (if CHR '']'' \<notin> set hp then Inl (Unterminated hp)
         else
           (let (host, rest, _) = cut (CHR '']'') (tl hp) in
            case rest of
              [] \<Rightarrow> with_port host []
            | c # p \<Rightarrow> if c = CHR '':'' then with_port host p else Inl (AfterBracket rest)))
      else (let (host, port, found) = cut (CHR '':'') hp in if found then with_port host port else with_port hp []))"

record address =
  a_host :: string
  a_port :: nat
  a_user :: string
  a_tls :: tls_mode

text \<open>The scheme's security and default port.\<close>

definition scheme_of :: "string \<Rightarrow> config_error + tls_mode \<times> nat" where
  "scheme_of s =
     (let t = go_lower s in
      if t = ''imaps'' then Inr (TLSImplicit, 993)
      else if t = ''imap'' then Inr (TLSStartTLS, 143)
      else if t = ''imap+insecure'' then Inr (TLSNone, 143)
      else if t = ''file'' then Inl DirectoryUrl
      else Inl (BadScheme s))"

definition path_free :: "string \<Rightarrow> config_error + string" where
  "path_free rest =
     (let a = takeWhile (\<lambda>c. c \<notin> set ''/?#'') rest; b = dropWhile (\<lambda>c. c \<notin> set ''/?#'') rest
      in if list_ex (\<lambda>c. c \<noteq> CHR ''/'') b then Inl PathOrQuery else Inr a)"

definition user_name :: "string \<Rightarrow> string" where
  "user_name userinfo =
     (if CHR ''%'' \<in> set userinfo then (case path_unescape userinfo of Some u \<Rightarrow> u | None \<Rightarrow> userinfo) else userinfo)"

definition address_of :: "string \<Rightarrow> config_error + address" where
  "address_of url =
     (let raw = trim_space url in
      if raw = [] then Inl UrlMissing
      else
        (case cut_scheme raw of
           None \<Rightarrow> Inl NoScheme
         | Some (s, rest) \<Rightarrow>
             bind_err (scheme_of s) (\<lambda>(tls, port).
             bind_err (path_free rest) (\<lambda>rest.
               case cut_last_at rest of
                 None \<Rightarrow> Inl NoUserName
               | Some (userinfo, hostport) \<Rightarrow>
                   if userinfo = [] then Inl NoUserName
                   else if CHR '':'' \<in> set userinfo then Inl InlinePassword
                   else bind_err (split_host_port hostport) (\<lambda>(host, n).
                     Inr \<lparr>a_host = host, a_port = (if n \<noteq> 0 then n else port), a_user = user_name userinfo, a_tls = tls\<rparr>)))))"

definition host_port :: "address \<Rightarrow> string" where
  "host_port a = join_host_port (a_host a) (show_nat (a_port a))"

definition is_local :: "string \<Rightarrow> bool" where
  "is_local url = (case cut_scheme (trim_space url) of None \<Rightarrow> False | Some (s, _) \<Rightarrow> equal_fold s ''file'')"

definition local_path :: "string option \<Rightarrow> string option \<Rightarrow> string \<Rightarrow> config_error + string" where
  "local_path home cwd url =
     (let raw = trim_space url in
      case cut_scheme raw of
        None \<Rightarrow> Inl (NotLocal raw)
      | Some (s, rest) \<Rightarrow>
          if \<not> equal_fold s ''file'' then Inl (NotLocal raw)
          else if rest = [] then Inl NoPath
          else if contains_any rest ''?#'' then Inl PathQuery
          else
            bind_err (if rest = ''~'' \<or> has_prefix rest ''~/''
                      then (case home of None \<Rightarrow> Inl (NoHome rest) | Some h \<Rightarrow> Inr (join_path [h, trim_prefix rest ''~'']))
                      else Inr rest)
              (\<lambda>p. case abs_path cwd p of None \<Rightarrow> Inl (NoWorkingDir p) | Some q \<Rightarrow> Inr q))"

text \<open>The name of an endpoint in logs and in the state database.\<close>

definition describe_end :: "string option \<Rightarrow> string option \<Rightarrow> string \<Rightarrow> config_error + string" where
  "describe_end home cwd url =
     (if is_local url then bind_err (local_path home cwd url) (\<lambda>p. Inr (''file:'' @ p))
      else bind_err (address_of url) (\<lambda>a. Inr (a_user a @ ''@'' @ a_host a)))"

section \<open>Credentials\<close>

record secret =
  sec_env :: string
  sec_file :: string
  sec_keychain :: string

definition secret_set :: "secret \<Rightarrow> bool" where
  "secret_set s \<longleftrightarrow> sec_env s \<noteq> [] \<or> sec_file s \<noteq> [] \<or> sec_keychain s \<noteq> []"

definition count_set :: "string list \<Rightarrow> nat" where
  "count_set ss = length (filter (\<lambda>x. x \<noteq> []) ss)"

definition check_secret :: "secret \<Rightarrow> config_error option" where
  "check_secret s =
     (let n = count_set [sec_env s, sec_file s, sec_keychain s]
      in if n = 1 then None else if n = 0 then Some NoSecretSource else Some ManySecretSources)"

record outside =
  ou_env :: "string \<Rightarrow> string option"
  ou_file :: "string \<Rightarrow> string option"
  ou_mac :: bool
  ou_keychain :: "string \<Rightarrow> string option"

definition trim_line_ends :: "string \<Rightarrow> string" where
  "trim_line_ends s = rev (dropWhile (\<lambda>c. c = CHR 0x0D \<or> c = CHR 0x0A) (rev s))"

definition resolve_secret :: "outside \<Rightarrow> secret \<Rightarrow> config_error + string" where
  "resolve_secret out s =
     (if sec_env s \<noteq> [] then
        (case ou_env out (sec_env s) of
           None \<Rightarrow> Inl (NotSetVar (sec_env s))
         | Some v \<Rightarrow> if v = [] then Inl (EmptyVar (sec_env s)) else Inr v)
      else if sec_file s \<noteq> [] then
        (case ou_file out (sec_file s) of
           None \<Rightarrow> Inl (UnreadSecret (sec_file s))
         | Some raw \<Rightarrow> let v = trim_line_ends raw in if v = [] then Inl (EmptySecret (sec_file s)) else Inr v)
      else if sec_keychain s \<noteq> [] then
        (if \<not> ou_mac out then Inl NoKeychain
         else
           (case ou_keychain out (sec_keychain s) of
              None \<Rightarrow> Inl (UnreadKeychain (sec_keychain s))
            | Some raw \<Rightarrow> let v = trim_line_ends raw in if v = [] then Inl (EmptyKeychain (sec_keychain s)) else Inr v))
      else Inl NoSecretSource)"

record oauth =
  oa_command :: string
  oa_file :: string
  oa_refresh :: secret
  oa_timeout :: duration

definition oauth_set :: "oauth \<Rightarrow> bool" where
  "oauth_set a \<longleftrightarrow> oa_command a \<noteq> [] \<or> oa_file a \<noteq> [] \<or> secret_set (oa_refresh a)"

definition token_sources :: "oauth \<Rightarrow> nat" where
  "token_sources a =
     length (filter (\<lambda>b. b) [oa_command a \<noteq> [], oa_file a \<noteq> [], secret_set (oa_refresh a)])"

definition check_oauth :: "oauth \<Rightarrow> config_error option" where
  "check_oauth a =
     (if token_sources a > 1 then Some ManyTokenSources
      else if \<not> oauth_set a then Some NoTokenSource
      else if oa_timeout a < 0 then Some (NegativeTimeout (oa_timeout a))
      else if oa_file a \<noteq> [] \<and> oa_timeout a \<noteq> 0 then Some TimeoutOnFile
      else if secret_set (oa_refresh a) then check_secret (oa_refresh a)
      else None)"

record endpoint =
  ep_url :: string
  ep_password :: secret
  ep_oauth :: oauth

definition check_endpoint :: "string option \<Rightarrow> string option \<Rightarrow> endpoint \<Rightarrow> config_error option" where
  "check_endpoint home cwd e =
     (if is_local (ep_url e) then
        (case local_path home cwd (ep_url e) of
           Inl x \<Rightarrow> Some x
         | Inr _ \<Rightarrow>
             if secret_set (ep_password e) then Some PasswordOnDirectory
             else if oauth_set (ep_oauth e) then Some OAuthOnDirectory
             else None)
      else
        (case address_of (ep_url e) of
           Inl x \<Rightarrow> Some x
         | Inr _ \<Rightarrow>
             if secret_set (ep_password e) \<and> oauth_set (ep_oauth e) then Some BothCredentials
             else if oauth_set (ep_oauth e) then check_oauth (ep_oauth e)
             else check_secret (ep_password e)))"

section \<open>Limits and sizes\<close>

datatype go_float = Finite rat | Infinite bool | NaN    \<comment> \<open>\<open>Infinite\<close>: whether it is negative\<close>

fun negative_float :: "go_float \<Rightarrow> bool" where
  "negative_float (Finite q) = (q < 0)"
| "negative_float (Infinite neg) = neg"
| "negative_float NaN = False"

text \<open>\<open>strconv\<close> and the arithmetic of floats: the text read as a float, a float scaled, and what a float that no
  64-bit integer represents converts to.\<close>

record floats =
  fl_parse :: "string \<Rightarrow> go_float option"
  fl_scale :: "rat \<Rightarrow> int \<Rightarrow> go_float"
  fl_outside :: "go_float \<Rightarrow> int"

definition float_int :: "floats \<Rightarrow> go_float \<Rightarrow> int" where
  "float_int fl x =
     (case x of
        Finite q \<Rightarrow>
          (let n = (if q < 0 then - \<lfloor>- q\<rfloor> else \<lfloor>q\<rfloor>) in if int64 n then n else fl_outside fl x)
      | _ \<Rightarrow> fl_outside fl x)"

definition scaled :: "floats \<Rightarrow> go_float \<Rightarrow> int \<Rightarrow> go_float" where
  "scaled fl x n = (case x of Finite q \<Rightarrow> fl_scale fl q n | _ \<Rightarrow> x)"

definition byte_units :: "(string \<times> int) list" where
  "byte_units =
     [(''KIB'', 1024), (''MIB'', 1048576), (''GIB'', 1073741824), (''KB'', 1000), (''MB'', 1000000), (''GB'', 1000000000),
      (''K'', 1024), (''M'', 1048576), (''G'', 1073741824), (''B'', 1)]"

definition parse_byte_size :: "floats \<Rightarrow> string \<Rightarrow> config_error + int" where
  "parse_byte_size fl s =
     (let t = go_upper (trim_space s) in
      if t = [] then Inl EmptySize
      else
        (case find (\<lambda>(u, _). has_suffix t u) byte_units of
           Some (u, n) \<Rightarrow>
             (case fl_parse fl (trim_space (trim_suffix t u)) of
                None \<Rightarrow> Inl (BadSize s)
              | Some v \<Rightarrow> if negative_float v then Inl (NegativeSize s) else Inr (float_int fl (scaled fl v n)))
         | None \<Rightarrow>
             (case atoi t of
                None \<Rightarrow> Inl (BadSize s)
              | Some v \<Rightarrow> if v < 0 then Inl (NegativeSize s) else Inr v)))"

text \<open>Zero stands for a limit tuned while running.\<close>

definition parse_limit :: "string \<Rightarrow> config_error + int" where
  "parse_limit raw =
     (if equal_fold (trim_space raw) ''auto'' then Inr 0
      else
        (case atoi (trim_space raw) of
           None \<Rightarrow> Inl (BadLimit raw)
         | Some n \<Rightarrow> if n < 0 then Inl (NegativeLimit n) else Inr n))"

section \<open>Documents\<close>

record map_rule =
  rule_from :: string
  rule_to :: string

record cfg_pair =
  cp_name :: string
  cp_source :: endpoint
  cp_dest :: endpoint
  cp_source_limit :: int
  cp_dest_limit :: int
  cp_max_inflight :: int
  cp_bytes_rate :: int
  cp_messages_rate :: go_float
  cp_map :: string
  cp_include :: "string list"
  cp_exclude :: "string list"
  cp_rules :: "map_rule list"
  cp_delete2 :: bool

definition folder_map_modes :: "string list" where
  "folder_map_modes = [''special-use'', ''name'']"

definition quoted_modes :: string where
  "quoted_modes = join_str (map (\<lambda>m. CHR 0x22 # m @ [CHR 0x22]) folder_map_modes) '', ''"

definition default_max_inflight :: int where
  "default_max_inflight = 536870912"

definition apply_defaults :: "cfg_pair \<Rightarrow> cfg_pair" where
  "apply_defaults p =
     p\<lparr>cp_map := (if cp_map p = [] then ''special-use'' else cp_map p),
       cp_max_inflight := (if cp_max_inflight p = 0 then default_max_inflight else cp_max_inflight p)\<rparr>"

definition check_end :: "string option \<Rightarrow> string option \<Rightarrow> string \<Rightarrow> string \<Rightarrow> endpoint \<Rightarrow> config_error option" where
  "check_end home cwd pair end e = map_option (InEnd pair end) (check_endpoint home cwd e)"

definition check_pair :: "string option \<Rightarrow> string option \<Rightarrow> cfg_pair \<Rightarrow> config_error option" where
  "check_pair home cwd p =
     (case check_end home cwd (cp_name p) ''source'' (cp_source p) of
        Some x \<Rightarrow> Some x
      | None \<Rightarrow>
     (case check_end home cwd (cp_name p) ''dest'' (cp_dest p) of
        Some x \<Rightarrow> Some x
      | None \<Rightarrow>
          if \<not> List.member folder_map_modes (cp_map p) then Some (BadMapMode (cp_name p) (cp_map p))
          else if negative_float (cp_messages_rate p) then Some (NegativeRate (cp_name p))
          else None))"

fun check_pairs :: "string option \<Rightarrow> string option \<Rightarrow> nat \<Rightarrow> string list \<Rightarrow> cfg_pair list \<Rightarrow> config_error option" where
  "check_pairs home cwd i seen [] = None"
| "check_pairs home cwd i seen (p # ps) =
     (if cp_name p = [] then Some (Unnamed i)
      else if List.member seen (cp_name p) then Some (DuplicateName (cp_name p))
      else
        (case check_pair home cwd p of
           Some x \<Rightarrow> Some x
         | None \<Rightarrow> check_pairs home cwd (i + 1) (cp_name p # seen) ps))"

definition check_config :: "string option \<Rightarrow> string option \<Rightarrow> cfg_pair list \<Rightarrow> config_error option" where
  "check_config home cwd ps = (if ps = [] then Some NoPairs else check_pairs home cwd 0 [] ps)"

definition load_config :: "string option \<Rightarrow> string option \<Rightarrow> cfg_pair list \<Rightarrow> config_error + cfg_pair list" where
  "load_config home cwd decoded =
     (let ps = map apply_defaults decoded in
      case check_config home cwd ps of Some x \<Rightarrow> Inl x | None \<Rightarrow> Inr ps)"

definition find_pair :: "cfg_pair list \<Rightarrow> string \<Rightarrow> config_error + cfg_pair" where
  "find_pair ps n = (case find (\<lambda>p. cp_name p = n) ps of Some p \<Rightarrow> Inr p | None \<Rightarrow> Inl (NoSuchPair n))"

section \<open>Lemmas: texts\<close>

lemma atoi_show_nat: "int n \<le> max_int64 \<Longrightarrow> atoi (show_nat n) = Some (int n)"
proof -
  assume n: "int n \<le> max_int64"
  have d: "list_all is_digit (show_nat n)" by (rule show_nat_digits)
  then have "is_digit (hd (show_nat n))" by (cases "show_nat n") auto
  then have "hd (show_nat n) \<noteq> CHR ''-''" "hd (show_nat n) \<noteq> CHR ''+''" by (auto simp: is_digit_def)
  with n d show ?thesis by (simp add: atoi_def int64_def min_int64_def)
qed

lemma no_space_at_end:
  assumes "33 \<le> byte c" and "byte c < 127"
  shows "trim_space_right (s @ [c]) = s @ [c]"
proof -
  have one: "space_len [c] \<noteq> 1" using assms by (simp add: Let_def)
  have two: "space_len [b, c] \<noteq> 2" for b using assms by (simp add: Let_def)
  have three: "space_len [a, b, c] \<noteq> 3" for a b using assms by (simp add: Let_def)
  have "space_tail (s @ [c]) = 0"
  proof -
    have "space_len (drop (length (s @ [c]) - k) (s @ [c])) \<noteq> k" if "k \<in> {1, 2, 3}" "k \<le> length (s @ [c])" for k
    proof -
      have "length (drop (length (s @ [c]) - k) (s @ [c])) = k" using that(2) by simp
      moreover have "\<exists>t. drop (length (s @ [c]) - k) (s @ [c]) = t @ [c]"
        using that by (intro exI [of _ "drop (length (s @ [c]) - k) s"]) auto
      ultimately obtain t where t: "drop (length (s @ [c]) - k) (s @ [c]) = t @ [c]" "length t + 1 = k" by force
      have "k = 1 \<or> k = 2 \<or> k = 3" using that(1) by auto
      then show ?thesis
      proof (elim disjE)
        assume "k = 1"
        with t one show ?thesis by simp
      next
        assume "k = 2"
        with t(2) obtain b where "t = [b]" by (cases t) auto
        with t(1) two \<open>k = 2\<close> show ?thesis by simp
      next
        assume "k = 3"
        with t(2) obtain a b where "t = [a, b]" by (cases t; cases "tl t") auto
        with t(1) three \<open>k = 3\<close> show ?thesis by simp
      qed
    qed
    then have "find (\<lambda>k. k \<le> length (s @ [c]) \<and> space_len (drop (length (s @ [c]) - k) (s @ [c])) = k) [1, 2, 3] = None"
      unfolding find_None_iff by (metis list.set(1) list.set(2))
    then show ?thesis unfolding space_tail_def by (simp only: option.case)
  qed
  then show ?thesis by (subst trim_space_right.simps) simp
qed

lemma no_space_at_start: "33 \<le> byte c \<Longrightarrow> byte c < 127 \<Longrightarrow> trim_space_left (c # s) = c # s"
  by (subst trim_space_left.simps) (simp add: Let_def split: list.split)

lemma cut_scheme_append: "CHR '':'' \<notin> set s \<Longrightarrow> cut_scheme (s @ ''://'' @ r) = Some (s, r)"
  by (induction s) (auto simp: has_prefix_def)

lemma cut_last_append: "CHR ''@'' \<notin> set b \<Longrightarrow> cut_last_at (a @ CHR ''@'' # b) = Some (a, b)"
proof -
  assume b: "CHR ''@'' \<notin> set b"
  then have t: "takeWhile (\<lambda>c. c \<noteq> CHR ''@'') (rev b @ CHR ''@'' # rev a) = rev b"
    and d: "dropWhile (\<lambda>c. c \<noteq> CHR ''@'') (rev b @ CHR ''@'' # rev a) = CHR ''@'' # rev a"
    by (auto simp: takeWhile_append dropWhile_append)
  have "rev (a @ CHR ''@'' # b) = rev b @ CHR ''@'' # rev a" by simp
  with t d show ?thesis by (simp add: cut_last_at_def Let_def)
qed

lemma path_free_id: "\<forall>c \<in> set s. c \<notin> set ''/?#'' \<Longrightarrow> path_free s = Inr s"
proof -
  assume s: "\<forall>c \<in> set s. c \<notin> set ''/?#''"
  then have t: "takeWhile (\<lambda>c. c \<notin> set ''/?#'') s = s" and d: "dropWhile (\<lambda>c. c \<notin> set ''/?#'') s = []" by simp_all
  show ?thesis unfolding path_free_def Let_def t d by simp
qed

lemma hex_value_digit: "n < 16 \<Longrightarrow> hex_value (hex_digit n) = Some n"
  by (auto simp: hex_value_def hex_digit_def)

lemma path_unescape_escape:
  assumes "\<not> plain (CHR ''%'')"
  shows "path_unescape (escape_with plain s) = Some s"
proof (induction s)
  case (Cons c s)
  have "byte c div 16 < 16" by (rule less_mult_imp_div_less) simp
  moreover have "byte c mod 16 < 16" by simp
  moreover have "char_of (16 * (byte c div 16) + byte c mod 16) = c" by simp
  ultimately show ?case
    using Cons assms by (cases "c = CHR ''%''") (simp_all add: escape_with_def hex_value_digit)
qed (simp add: escape_with_def)

lemma escape_plain: "\<forall>c \<in> set s. plain c \<Longrightarrow> escape_with plain s = s"
  by (induction s) (simp_all add: escape_with_def)

lemma escaped_chars: "c \<in> set (escape_with plain s) \<Longrightarrow> plain c \<or> c = CHR ''%'' \<or> (\<exists>n < 16. c = hex_digit n)"
proof (induction s)
  case (Cons b s)
  have "byte b div 16 < 16" by (rule less_mult_imp_div_less) simp
  then have "\<exists>n < 16. hex_digit (byte b div 16) = hex_digit n" by blast
  moreover have "\<exists>n < 16. hex_digit (byte b mod 16) = hex_digit n" by (intro exI [of _ "byte b mod 16"]) simp
  ultimately show ?case using Cons by (cases "plain b") (auto simp: escape_with_def)
qed (simp add: escape_with_def)

lemma hex_digit_alnum: "n < 16 \<Longrightarrow> alnum (hex_digit n)"
  by (auto simp: hex_digit_def alnum_def is_digit_def)

section \<open>Addresses\<close>

text \<open>The scheme a mode is written with, and its own port.\<close>

fun scheme_word :: "tls_mode \<Rightarrow> string" where
  "scheme_word TLSImplicit = ''imaps''"
| "scheme_word TLSStartTLS = ''imap''"
| "scheme_word TLSNone = ''imap+insecure''"

lemma scheme_of_word: "scheme_of (scheme_word m) = Inr (m, if m = TLSImplicit then 993 else 143)"
proof -
  have "scheme_of ''imaps'' = Inr (TLSImplicit, 993)" "scheme_of ''imap'' = Inr (TLSStartTLS, 143)"
    "scheme_of ''imap+insecure'' = Inr (TLSNone, 143)" by code_simp+
  then show ?thesis by (cases m) simp_all
qed

lemma scheme_word_chars: "CHR '':'' \<notin> set (scheme_word m)" "hd (scheme_word m) = CHR ''i''" "scheme_word m \<noteq> []"
  by (cases m; simp)+

lemma address_of_url:
  assumes "u \<noteq> []" and "\<forall>c \<in> set u. c \<notin> set '':/?#''" and "\<forall>c \<in> set (hp @ [e]). c \<notin> set ''@/?#''"
    and "33 \<le> byte e" and "byte e < 127" and "split_host_port (hp @ [e]) = Inr (host, n)" and "n \<noteq> 0"
  shows "address_of (scheme_word m @ ''://'' @ u @ ''@'' @ hp @ [e]) = Inr \<lparr>a_host = host, a_port = n, a_user = user_name u, a_tls = m\<rparr>"
proof -
  let ?raw = "scheme_word m @ ''://'' @ u @ ''@'' @ hp @ [e]"
  obtain w where w: "scheme_word m = CHR ''i'' # w" using scheme_word_chars(2,3) [of m] by (cases "scheme_word m") auto
  have "trim_space_left ?raw = ?raw" using no_space_at_start [of "CHR ''i''" "w @ ''://'' @ u @ ''@'' @ hp @ [e]"] by (simp add: w)
  moreover have "trim_space_right ?raw = ?raw" using no_space_at_end [OF assms(4,5), of "scheme_word m @ ''://'' @ u @ ''@'' @ hp"] by simp
  ultimately have raw: "trim_space ?raw = ?raw" by (simp add: trim_space_def)
  have cut: "cut_scheme ?raw = Some (scheme_word m, u @ ''@'' @ hp @ [e])" by (rule cut_scheme_append [OF scheme_word_chars(1)])
  have "\<forall>c \<in> set (u @ ''@'' @ hp @ [e]). c \<notin> set ''/?#''" using assms(2,3) by auto
  note free = path_free_id [OF this]
  have last: "cut_last_at (u @ ''@'' @ hp @ [e]) = Some (u, hp @ [e])"
  proof -
    have "\<forall>c \<in> set (hp @ [e]). c \<noteq> CHR ''@''" using assms(3) by simp
    then have "CHR ''@'' \<notin> set (hp @ [e])" by blast
    from cut_last_append [OF this, of u] show ?thesis by simp
  qed
  note d = scheme_of_word [of m]
  have ne: "?raw \<noteq> []" and colon: "CHR '':'' \<notin> set u" using assms(2) by auto
  show ?thesis
    unfolding address_of_def Let_def raw cut option.case prod.case d free last bind_err_simps assms(6)
    using ne assms(1,7) colon by (simp only: if_True if_False simp_thms)
qed

text \<open>\<open>splitHostPort\<close> undoes \<open>net.JoinHostPort\<close>.\<close>

lemma split_join_host_port:
  assumes "host \<noteq> []" and "CHR '']'' \<notin> set host" and "hd host \<noteq> CHR ''[''" and "1 \<le> n" and "n \<le> 65535"
  shows "split_host_port (join_host_port host (show_nat n)) = Inr (host, n)"
proof -
  have "read_port (show_nat n) = Inr n" using assms(4,5) by (simp add: read_port_def atoi_show_nat max_int64_def)
  then have w: "with_port host (show_nat n) = Inr (host, n)" using assms(1) by (simp add: with_port_def)
  show ?thesis
  proof (cases "CHR '':'' \<in> set host")
    case True
    have c: "cut (CHR '']'') (host @ CHR '']'' # CHR '':'' # show_nat n) = (host, CHR '':'' # show_nat n, True)"
      by (rule cut_append [OF assms(2)])
    from True have "join_host_port host (show_nat n) = CHR ''['' # host @ CHR '']'' # CHR '':'' # show_nat n"
      by (simp add: join_host_port_def contains_char)
    with c w show ?thesis by (simp add: split_host_port_def)
  next
    case False
    have c: "cut (CHR '':'') (host @ CHR '':'' # show_nat n) = (host, show_nat n, True)" by (rule cut_append [OF False])
    from False have "join_host_port host (show_nat n) = host @ CHR '':'' # show_nat n"
      by (simp add: join_host_port_def contains_char)
    with c w assms(1,3) show ?thesis by (simp add: split_host_port_def)
  qed
qed

section \<open>Properties\<close>

text \<open>The URLs the compatibility layer writes: a scheme word, the user escaped, the host and the port.\<close>

lemma escaped_user_chars:
  "c \<in> set (escape_with user_plain u) \<Longrightarrow> c \<notin> set '':/?#@''"
proof -
  assume "c \<in> set (escape_with user_plain u)"
  then have "user_plain c \<or> c = CHR ''%'' \<or> alnum c" using escaped_chars hex_digit_alnum by blast
  then show ?thesis by (auto simp: user_plain_def alnum_def is_digit_def)
qed

lemma escaped_user_name: "user_name (escape_with user_plain u) = u"
proof (cases "CHR ''%'' \<in> set (escape_with user_plain u)")
  case True
  have "\<not> user_plain (CHR ''%'')" by (simp add: user_plain_def alnum_def is_digit_def)
  with True path_unescape_escape [of user_plain u] show ?thesis by (simp add: user_name_def)
next
  case False
  then have "\<forall>c \<in> set u. user_plain c" by (force simp: escape_with_def split: if_splits)
  with False escape_plain [of u user_plain] show ?thesis by (simp add: user_name_def)
qed

text \<open>C12: A URL written for an end of a translated imapsync command - its user escaped, its host joined with a
  port - is read by the configuration as just that end: the mode its scheme stands for, the host, the port and
  the user, byte for byte, whatever characters the user name has and whether the host is a name or an IPv6 address.\<close>

theorem translated_end_reads_back:
  assumes "u \<noteq> []" and "host \<noteq> []" and "\<forall>c \<in> set host. host_plain c \<and> c \<notin> set ''[]''" and "1 \<le> n" and "n \<le> 65535"
  shows "address_of (url_string (scheme_word m) u (join_host_port host (show_nat n)))
    = Inr \<lparr>a_host = host, a_port = n, a_user = u, a_tls = m\<rparr>"
proof -
  obtain ds d where d: "show_nat n = ds @ [d]" by (metis rev_exhaust show_nat_not_Nil)
  then have digit: "is_digit d" "list_all is_digit ds" using show_nat_digits [of n] by simp_all
  define hp where "hp = (if contains host '':'' then ''['' @ host @ '']:'' @ ds else host @ '':'' @ ds)"
  have hp: "join_host_port host (show_nat n) = hp @ [d]" by (simp add: join_host_port_def d hp_def)
  have plain: "\<forall>c \<in> set (join_host_port host (show_nat n)). host_plain c"
  proof -
    have "host_plain (CHR '':'')" "host_plain (CHR ''['')" "host_plain (CHR '']'')" by (simp_all add: host_plain_def)
    moreover have "\<forall>c \<in> set (show_nat n). host_plain c"
      using show_nat_digits [of n] by (auto simp: host_plain_def alnum_def list_all_iff)
    ultimately show ?thesis using assms(3) by (auto simp: join_host_port_def)
  qed
  then have esc: "escape_with host_plain (join_host_port host (show_nat n)) = join_host_port host (show_nat n)" by (rule escape_plain)
  have "\<not> host_plain (CHR ''@'')" "\<not> host_plain (CHR ''/'')" "\<not> host_plain (CHR ''?'')" "\<not> host_plain (CHR ''#'')"
    by (simp_all add: host_plain_def alnum_def is_digit_def)
  with plain hp have chars: "\<forall>c \<in> set (hp @ [d]). c \<notin> set ''@/?#''" by auto
  have brackets: "CHR '']'' \<notin> set host" "hd host \<noteq> CHR ''[''" using assms(2,3) by (auto simp: neq_Nil_conv)
  have split: "split_host_port (hp @ [d]) = Inr (host, n)"
    using split_join_host_port [OF assms(2) brackets assms(4,5)] by (simp add: hp)
  have ne: "escape_with user_plain u \<noteq> []" using assms(1) by (cases u) (auto simp: escape_with_def)
  have uc: "\<forall>c \<in> set (escape_with user_plain u). c \<notin> set '':/?#''" using escaped_user_chars by fastforce
  have "33 \<le> byte d" "byte d < 127" "n \<noteq> 0" using digit assms(4) by (simp_all add: is_digit_def)
  from address_of_url [OF ne uc chars this(1,2) split this(3), of m] show ?thesis
    unfolding url_string_def esc unfolding hp escaped_user_name by simp
qed

theorem translated_end_reads_back_witness:
  "address_of (url_string ''imaps'' ''me@example.org:x'' (join_host_port ''::1'' (show_nat 993)))
     = Inr \<lparr>a_host = ''::1'', a_port = 993, a_user = ''me@example.org:x'', a_tls = TLSImplicit\<rparr>"
  using translated_end_reads_back [of "''me@example.org:x''" "''::1''" 993 TLSImplicit]
  by (simp add: host_plain_def alnum_def is_digit_def)

text \<open>A sound end: a directory, or a server with exactly one credential.\<close>

definition sound_directory :: "string option \<Rightarrow> string option \<Rightarrow> endpoint \<Rightarrow> bool" where
  "sound_directory home cwd e \<longleftrightarrow> is_local (ep_url e) \<and> (\<exists>p. local_path home cwd (ep_url e) = Inr p) \<and>
     \<not> secret_set (ep_password e) \<and> \<not> oauth_set (ep_oauth e)"

definition sound_token :: "oauth \<Rightarrow> bool" where
  "sound_token a \<longleftrightarrow> 0 \<le> oa_timeout a \<and>
     (if oa_command a \<noteq> [] then oa_file a = [] \<and> \<not> secret_set (oa_refresh a)
      else if oa_file a \<noteq> [] then \<not> secret_set (oa_refresh a) \<and> oa_timeout a = 0
      else count_set [sec_env (oa_refresh a), sec_file (oa_refresh a), sec_keychain (oa_refresh a)] = 1)"

definition sound_server :: "endpoint \<Rightarrow> bool" where
  "sound_server e \<longleftrightarrow> \<not> is_local (ep_url e) \<and>
     (\<exists>a. address_of (ep_url e) = Inr a \<and> a_host a \<noteq> [] \<and> 1 \<le> a_port a \<and> a_port a \<le> 65535) \<and>
     (if oauth_set (ep_oauth e) then \<not> secret_set (ep_password e) \<and> sound_token (ep_oauth e)
      else count_set [sec_env (ep_password e), sec_file (ep_password e), sec_keychain (ep_password e)] = 1)"

lemma with_port_range: "with_port h p = Inr (host, n) \<Longrightarrow> host \<noteq> [] \<and> n \<le> 65535"
  by (auto simp: with_port_def read_port_def bind_err_Inr_iff split: if_splits option.splits)

lemma split_range: "split_host_port hp = Inr (host, n) \<Longrightarrow> host \<noteq> [] \<and> n \<le> 65535"
  by (auto simp: split_host_port_def Let_def dest: with_port_range split: if_splits prod.splits list.splits)

lemma scheme_of_port: "scheme_of s = Inr (m, n) \<Longrightarrow> 1 \<le> n \<and> n \<le> 65535"
  by (auto simp: scheme_of_def Let_def split: if_splits)

lemma address_range: "address_of url = Inr a \<Longrightarrow> a_host a \<noteq> [] \<and> 1 \<le> a_port a \<and> a_port a \<le> 65535"
proof -
  assume a: "address_of url = Inr a"
  then obtain s rest where c: "cut_scheme (trim_space url) = Some (s, rest)"
    by (cases "cut_scheme (trim_space url)") (auto simp: address_of_def Let_def split: if_splits)
  from a c obtain tls port r where sc: "scheme_of s = Inr (tls, port)" and r: "path_free rest = Inr r"
    by (auto simp: address_of_def Let_def bind_err_Inr_iff split: if_splits)
  with a c obtain userinfo hostport where l: "cut_last_at r = Some (userinfo, hostport)"
    by (cases "cut_last_at r") (auto simp: address_of_def Let_def split: if_splits)
  note a' = a [unfolded address_of_def Let_def c sc r l bind_err_simps option.case prod.case]
  then have "bind_err (split_host_port hostport) (\<lambda>(host, n).
      Inr \<lparr>a_host = host, a_port = (if n \<noteq> 0 then n else port), a_user = user_name userinfo, a_tls = tls\<rparr>) = Inr a"
    by (simp only: split: if_splits) simp_all
  then obtain host n where "split_host_port hostport = Inr (host, n)"
    "a = \<lparr>a_host = host, a_port = (if n \<noteq> 0 then n else port), a_user = user_name userinfo, a_tls = tls\<rparr>"
    by (auto simp: bind_err_Inr_iff)
  with split_range [of hostport host n] scheme_of_port [OF sc] show ?thesis by simp
qed

lemma check_oauth_sound: "oauth_set a \<Longrightarrow> check_oauth a = None \<Longrightarrow> sound_token a"
  by (auto simp: check_oauth_def oauth_set_def token_sources_def sound_token_def check_secret_def Let_def split: if_splits)

lemma check_endpoint_sound: "check_endpoint home cwd e = None \<Longrightarrow> sound_directory home cwd e \<or> sound_server e"
proof (cases "is_local (ep_url e)")
  case True
  moreover assume "check_endpoint home cwd e = None"
  ultimately show ?thesis
    by (cases "local_path home cwd (ep_url e)") (auto simp: check_endpoint_def sound_directory_def split: if_splits)
next
  case False
  moreover assume "check_endpoint home cwd e = None"
  ultimately obtain a where "address_of (ep_url e) = Inr a"
    and "(if secret_set (ep_password e) \<and> oauth_set (ep_oauth e) then Some BothCredentials
          else if oauth_set (ep_oauth e) then check_oauth (ep_oauth e) else check_secret (ep_password e)) = None"
    by (cases "address_of (ep_url e)") (simp_all add: check_endpoint_def)
  with False address_range check_oauth_sound show ?thesis
    by (auto simp: sound_server_def check_secret_def Let_def split: if_splits)
qed

lemma check_pairs_sound:
  "check_pairs home cwd i seen ps = None \<Longrightarrow> distinct (map cp_name ps) \<and> set (map cp_name ps) \<inter> set seen = {} \<and>
     (\<forall>p \<in> set ps. cp_name p \<noteq> [] \<and> check_pair home cwd p = None)"
proof (induction ps arbitrary: i seen)
  case (Cons p ps)
  from Cons.prems have p: "cp_name p \<noteq> []" "cp_name p \<notin> set seen" "check_pair home cwd p = None"
    "check_pairs home cwd (i + 1) (cp_name p # seen) ps = None"
    by (auto split: if_splits option.splits)
  from Cons.IH [OF p(4)] p(1-3) show ?case by auto
qed simp


definition no_secret :: secret where
  "no_secret = \<lparr>sec_env = [], sec_file = [], sec_keychain = []\<rparr>"

definition sample_end :: "string \<Rightarrow> string \<Rightarrow> endpoint" where
  "sample_end url env =
     \<lparr>ep_url = url, ep_password = no_secret\<lparr>sec_env := env\<rparr>,
      ep_oauth = \<lparr>oa_command = [], oa_file = [], oa_refresh = no_secret, oa_timeout = 0\<rparr>\<rparr>"

definition sample_cfg_pair :: cfg_pair where
  "sample_cfg_pair =
     \<lparr>cp_name = ''backup'', cp_source = sample_end ''imaps://me@example.org@mail.example.org'' ''PW'',
      cp_dest = sample_end ''file://~/Mail'' [], cp_source_limit = 0, cp_dest_limit = 0, cp_max_inflight = 0, cp_bytes_rate = 0,
      cp_messages_rate = Finite 0, cp_map = [], cp_include = [], cp_exclude = [], cp_rules = [], cp_delete2 = False\<rparr>"


section \<open>Paths\<close>

text \<open>Cleaning leaves no empty component and no dot; a double dot only at the front of a path that is not rooted.\<close>

definition tidy_parts :: "bool \<Rightarrow> string list \<Rightarrow> bool" where
  "tidy_parts rooted cs \<longleftrightarrow> [] \<notin> set cs \<and> ''.'' \<notin> set cs \<and>
     (\<exists>a b. cs = a @ b \<and> set a \<subseteq> {''..''} \<and> ''..'' \<notin> set b \<and> (rooted \<longrightarrow> a = []))"

lemma tidy_pop: "tidy_parts rooted (cs @ [c]) \<Longrightarrow> c \<noteq> ''..'' \<Longrightarrow> tidy_parts rooted cs"
proof -
  assume t: "tidy_parts rooted (cs @ [c])" and c: "c \<noteq> ''..''"
  then obtain a b where ab: "cs @ [c] = a @ b" "set a \<subseteq> {''..''}" "''..'' \<notin> set b" "rooted \<longrightarrow> a = []"
    unfolding tidy_parts_def by blast
  have "b \<noteq> []"
  proof
    assume "b = []"
    with ab(1) have "c \<in> set a" by (metis append_Nil2 in_set_conv_decomp)
    with ab(2) c show False by blast
  qed
  with ab(1) have "cs = a @ butlast b" by (metis butlast_append butlast_snoc)
  moreover have "''..'' \<notin> set (butlast b)" using ab(3) by (meson in_set_butlastD)
  ultimately show ?thesis using t ab(2,4) unfolding tidy_parts_def by auto
qed

lemma clean_parts_tidy: "tidy_parts rooted (rev st) \<Longrightarrow> tidy_parts rooted (clean_parts rooted st cs)"
proof (induction rooted st cs rule: clean_parts.induct)
  case (2 rooted st c cs)
  consider "c = [] \<or> c = ''.''" | "c = ''..''" | "c \<noteq> []" "c \<noteq> ''.''" "c \<noteq> ''..''" by blast
  then show ?case
  proof cases
    case 1
    with 2 show ?thesis by auto
  next
    case 2
    note dots = this
    show ?thesis
    proof (cases st)
      case Nil
      have "tidy_parts rooted (if rooted then [] else [''..''])"
        unfolding tidy_parts_def by (cases rooted) (simp_all, intro exI [of _ "[''..'']"] exI [of _ "[]"], simp)
      with 2 "2.IH"(2) [OF _ dots Nil] Nil show ?thesis by (cases rooted) auto
    next
      case (Cons t ts)
      have "tidy_parts rooted (rev (if t = ''..'' then c # st else ts))"
      proof (cases "t = ''..''")
        case True
        from "2.prems" Cons obtain a b where ab: "rev ts @ [t] = a @ b" "set a \<subseteq> {''..''}" "''..'' \<notin> set b" "rooted \<longrightarrow> a = []"
          unfolding tidy_parts_def by auto
        have b: "b = []"
        proof (rule ccontr)
          assume "b \<noteq> []"
          with ab(1) have "last b = t" by (metis last_appendR last_snoc)
          with \<open>b \<noteq> []\<close> ab(3) True show False by (metis last_in_set)
        qed
        with ab have "rev st @ [c] = (a @ [c]) @ []" "set (a @ [c]) \<subseteq> {''..''}" "\<not> rooted" using Cons dots by auto
        moreover have "[] \<notin> set (rev st @ [c])" "''.'' \<notin> set (rev st @ [c])" using "2.prems" dots by (simp_all add: tidy_parts_def)
        ultimately have "tidy_parts rooted (rev st @ [c])"
          unfolding tidy_parts_def by (intro conjI exI [of _ "a @ [c]"] exI [of _ "[]"]) auto
        with True show ?thesis by simp
      next
        case False
        with tidy_pop [of rooted "rev ts" t] "2.prems" Cons show ?thesis by simp
      qed
      with "2.IH"(3) [OF _ dots Cons] dots Cons show ?thesis by (cases "t = ''..''") simp_all
    qed
  next
    case 3
    have "tidy_parts rooted (rev (c # st))" using "2.prems" 3 unfolding tidy_parts_def by fastforce
    with "2.IH"(4) 3 show ?thesis by simp
  qed
qed simp

lemma clean_rooted: "has_prefix p ''/'' \<Longrightarrow> \<exists>cs. clean_path p = CHR ''/'' # join_str cs ''/'' \<and> [] \<notin> set cs \<and> ''.'' \<notin> set cs \<and> ''..'' \<notin> set cs"
  using clean_parts_tidy [of True "[]" "split_str p ''/''"] by (auto simp: clean_path_def Let_def tidy_parts_def)

text \<open>The directory of an endpoint on disk is named by an absolute path with no empty, dot or double-dot
  component, however it was written down - absolute, relative or under the home directory - when the home and working
  directories are absolute.\<close>

theorem local_path_is_absolute:
  assumes "local_path home cwd url = Inr p" and "\<And>h. home = Some h \<Longrightarrow> has_prefix h ''/''" and "\<And>w. cwd = Some w \<Longrightarrow> has_prefix w ''/''"
  shows "\<exists>cs. p = CHR ''/'' # join_str cs ''/'' \<and> [] \<notin> set cs \<and> ''.'' \<notin> set cs \<and> ''..'' \<notin> set cs"
proof -
  have abs: "\<exists>cs. q = CHR ''/'' # join_str cs ''/'' \<and> [] \<notin> set cs \<and> ''.'' \<notin> set cs \<and> ''..'' \<notin> set cs"
    if q: "abs_path cwd r = Some q" and r: "r \<noteq> []" for q r
  proof (cases "has_prefix r ''/''")
    case True
    with q clean_rooted [OF True] show ?thesis by (simp add: abs_path_def)
  next
    case False
    with q obtain w where w: "cwd = Some w" "q = join_path [w, r]" by (auto simp: abs_path_def)
    from assms(3) [OF w(1)] have "has_prefix (w @ ''/'' @ r) ''/''" and "w \<noteq> []" by (auto simp: has_prefix_iff)
    with clean_rooted [OF this(1)] w(2) r show ?thesis by (simp add: join_path_def)
  qed
  from assms(1) obtain s rest where c: "cut_scheme (trim_space url) = Some (s, rest)"
    by (cases "cut_scheme (trim_space url)") (auto simp: local_path_def Let_def)
  with assms(1) have ne: "rest \<noteq> []" by (auto simp: local_path_def Let_def split: if_splits)
  show ?thesis
  proof (cases "rest = ''~'' \<or> has_prefix rest ''~/''")
    case True
    with assms(1) c ne obtain h where h: "home = Some h" "abs_path cwd (join_path [h, trim_prefix rest ''~'']) = Some p"
      by (cases home) (auto simp: local_path_def Let_def split: if_splits option.splits)
    have "join_path [h, trim_prefix rest ''~''] \<noteq> []"
      using assms(2) [OF h(1)] by (auto simp: join_path_def clean_path_def Let_def has_prefix_iff split: if_splits)
    with abs [OF h(2)] show ?thesis by blast
  next
    case False
    with assms(1) c ne have "abs_path cwd rest = Some p"
      by (auto simp: local_path_def Let_def split: if_splits option.splits)
    with abs ne show ?thesis by blast
  qed
qed

theorem local_path_is_absolute_witness:
  "\<exists>cs. ''/home/me/Mail'' = CHR ''/'' # join_str cs ''/'' \<and> [] \<notin> set cs \<and> ''.'' \<notin> set cs \<and> ''..'' \<notin> set cs"
proof -
  have "local_path (Some ''/home/me'') None ''file://~/x/.././/Mail'' = Inr ''/home/me/Mail''" by code_simp
  then show ?thesis by (rule local_path_is_absolute) (auto simp: has_prefix_def)
qed

section \<open>Sizes\<close>

text \<open>A size read without a unit is never negative; with a unit it is not either, as long as the number of bytes fits
  an integer. \<open>infKB\<close> does not, nor does a number of bytes beyond 64 bits: the conversion gives what it
  gives, and nothing asks whether that is a size.\<close>

lemma byte_size_bounds:
  assumes "parse_byte_size fl s = Inr n" and "\<And>q k. 0 \<le> q \<Longrightarrow> 0 < k \<Longrightarrow> \<not> negative_float (fl_scale fl q k)"
  shows "0 \<le> n \<or> (\<exists>x. n = fl_outside fl x)"
proof -
  have "0 \<le> float_int fl x \<or> float_int fl x = fl_outside fl x" if "\<not> negative_float x" for x
    using that by (cases x) (auto simp: float_int_def Let_def)
  moreover have "0 < k" if "(u, k) \<in> set byte_units" for u k using that by (auto simp: byte_units_def)
  moreover have "\<not> negative_float (scaled fl x k)" if "\<not> negative_float x" "0 < k" for x k
    using that assms(2) by (cases x) (auto simp: scaled_def)
  ultimately show ?thesis using assms(1)
    by (auto simp: parse_byte_size_def Let_def find_Some_iff in_set_conv_nth split: if_splits option.splits) (metis nth_mem)+
qed

lemma infinite_size_is_accepted:
  "parse_byte_size \<lparr>fl_parse = (\<lambda>t. if t = ''INF'' then Some (Infinite False) else None), fl_scale = (\<lambda>q k. Finite (q * of_int k)),
     fl_outside = (\<lambda>x. min_int64)\<rparr> ''infKB'' = Inr min_int64"
  by code_simp

end
