(* ===== verification/Command.thy ===== *)
theory Command
  imports SyncRun Config Budget
begin

text \<open>
  The sync command's settings (\<open>src/cmd/imapsync-go/sync.go\<close>): the flags and the configuration are merged into
  one pair, the options of the run and its limits; then what the command ends with. Compiling a pattern, parsing a
  duration and the floats of the standard library are arguments, as are the file system's answers.
\<close>

datatype cmd_error =
  Configured config_error | ManyPairs nat | NoEndpoints | BadEnd string config_error
| BadMapping string | BadPattern string string | NotASize string | NotAnAge string | NotPositive string
| BadFlag string cmd_error | BadAgeBasis string | EmptyWindow "int \<times> int" | BadSearch string key_error
| RateNotPositive | BadBudget string | BadPool string string | NoPairName config_error

section \<open>Flags\<close>

record side_flags =
  sf_url :: string
  sf_password :: secret
  sf_oauth_cmd :: string
  sf_oauth_file :: string
  sf_oauth_refresh :: secret

record sync_flags =
  cf_config :: string
  cf_pair :: string
  cf_src :: side_flags
  cf_dst :: side_flags
  cf_dry_run :: bool
  cf_only :: "string list"
  cf_include :: "string list"
  cf_exclude :: "string list"
  cf_mappings :: "string list"
  cf_subfolder :: string
  cf_automap :: bool
  cf_include_virtual :: bool
  cf_max_size :: string
  cf_min_size :: string
  cf_max_age :: string
  cf_min_age :: string
  cf_age_basis :: string
  cf_source_search :: string
  cf_dest_search :: string
  cf_src_conns :: int
  cf_dst_conns :: int
  cf_memory_limit :: string
  cf_bytes_rate :: string
  cf_messages_rate :: go_float
  cf_src_conns_set :: bool
  cf_dst_conns_set :: bool
  cf_memory_limit_set :: bool
  cf_delete2_set :: bool
  cf_bytes_rate_set :: bool
  cf_messages_rate_set :: bool
  cf_full :: bool
  cf_resync_flags :: bool
  cf_no_resync_flags :: bool
  cf_verify_dest :: bool
  cf_sync_duplicates :: bool
  cf_delete2_duplicates :: bool
  cf_delete2_duplicates_set :: bool
  cf_subscribe :: bool
  cf_delete2 :: bool
  cf_delete_ceiling :: rat
  cf_force :: bool

definition side_oauth :: "side_flags \<Rightarrow> oauth" where
  "side_oauth s = \<lparr>oa_command = sf_oauth_cmd s, oa_file = sf_oauth_file s, oa_refresh = sf_oauth_refresh s, oa_timeout = 0\<rparr>"

definition side_endpoint :: "side_flags \<Rightarrow> endpoint" where
  "side_endpoint s = \<lparr>ep_url = sf_url s, ep_password = sf_password s, ep_oauth = side_oauth s\<rparr>"

definition oauth_from :: "oauth \<Rightarrow> oauth \<Rightarrow> oauth" where
  "oauth_from configured given_here = (if \<not> oauth_set given_here then configured else given_here)"

text \<open>The ends are checked in whatever order the map yields them.\<close>

definition validate_sides :: "string option \<Rightarrow> string option \<Rightarrow> bool \<Rightarrow> cfg_pair \<Rightarrow> cmd_error option" where
  "validate_sides home cwd source_first p =
     (let s = map_option (BadEnd ''source'') (check_endpoint home cwd (cp_source p));
          t = map_option (BadEnd ''dest'') (check_endpoint home cwd (cp_dest p))
      in if source_first then (if s \<noteq> None then s else t) else (if t \<noteq> None then t else s))"

definition flag_pair :: "sync_flags \<Rightarrow> cfg_pair" where
  "flag_pair f =
     \<lparr>cp_name = [], cp_source = side_endpoint (cf_src f), cp_dest = side_endpoint (cf_dst f), cp_source_limit = 0,
      cp_dest_limit = 0, cp_max_inflight = 0, cp_bytes_rate = 0, cp_messages_rate = Finite 0, cp_map = [],
      cp_include = [], cp_exclude = [], cp_rules = [], cp_delete2 = False\<rparr>"

definition merge_flags :: "sync_flags \<Rightarrow> cfg_pair \<Rightarrow> cfg_pair" where
  "merge_flags f p =
     p\<lparr>cp_source := (cp_source p)\<lparr>ep_oauth := oauth_from (ep_oauth (cp_source p)) (side_oauth (cf_src f))\<rparr>,
       cp_dest := (cp_dest p)\<lparr>ep_oauth := oauth_from (ep_oauth (cp_dest p)) (side_oauth (cf_dst f))\<rparr>\<rparr>"

definition sync_pair ::
  "(string \<Rightarrow> config_error + cfg_pair list) \<Rightarrow> string option \<Rightarrow> string option \<Rightarrow> bool \<Rightarrow> sync_flags \<Rightarrow> cmd_error + cfg_pair" where
  "sync_pair load home cwd source_first f =
     (let checked = (\<lambda>p. case validate_sides home cwd source_first p of Some e \<Rightarrow> Inl e | None \<Rightarrow> Inr p) in
      if cf_config f \<noteq> [] then
        (case load (cf_config f) of
           Inl e \<Rightarrow> Inl (Configured e)
         | Inr ps \<Rightarrow>
             if cf_pair f \<noteq> [] then
               (case find_pair ps (cf_pair f) of Inl e \<Rightarrow> Inl (Configured e) | Inr p \<Rightarrow> checked (merge_flags f p))
             else if length ps > 1 then Inl (ManyPairs (length ps))
             else checked (merge_flags f (hd ps)))
      else if sf_url (cf_src f) = [] \<or> sf_url (cf_dst f) = [] then Inl NoEndpoints
      else checked (flag_pair f))"

section \<open>Sizes and ages\<close>

definition size_units :: "(string \<times> int) list" where
  "size_units =
     [(''GiB'', 2 ^ 30), (''MiB'', 2 ^ 20), (''KiB'', 2 ^ 10), (''GB'', 10 ^ 9), (''MB'', 10 ^ 6), (''KB'', 10 ^ 3),
      (''G'', 2 ^ 30), (''M'', 2 ^ 20), (''K'', 2 ^ 10), (''B'', 1)]"

definition parse_bytes :: "string \<Rightarrow> cmd_error + int" where
  "parse_bytes s =
     (let t = trim_space s;
          (t, mult) = (case find (\<lambda>(u, _). has_suffix t u) size_units of
                         Some (u, n) \<Rightarrow> (trim_space (trim_suffix t u), n)
                       | None \<Rightarrow> (t, 1))
      in case atoi t of
           None \<Rightarrow> Inl (NotASize s)
         | Some n \<Rightarrow> if n \<le> 0 then Inl (NotPositive s) else Inr (wrap64 (n * mult)))"

definition day_length :: int where
  "day_length = 24 * 3600 * 10 ^ 9"

fun not_above_zero :: "go_float \<Rightarrow> bool" where
  "not_above_zero (Finite q) = (q \<le> 0)"
| "not_above_zero (Infinite neg) = neg"
| "not_above_zero NaN = False"

definition parse_age :: "floats \<Rightarrow> (string \<Rightarrow> duration option) \<Rightarrow> string \<Rightarrow> cmd_error + duration" where
  "parse_age fl parse_duration s =
     (let t = trim_space s;
          by_days = (if has_suffix t ''d'' then fl_parse fl (trim_space (trim_suffix t ''d'')) else None)
      in case by_days of
           Some n \<Rightarrow> if not_above_zero n then Inl (NotPositive s) else Inr (float_int fl (scaled fl n day_length))
         | None \<Rightarrow>
             (case parse_duration t of
                None \<Rightarrow> Inl (NotAnAge s)
              | Some d \<Rightarrow> if d \<le> 0 then Inl (NotPositive s) else Inr d))"

text \<open>A limit as the report writes it, for the next command line.\<close>

definition flag_bytes :: "int \<Rightarrow> string" where
  "flag_bytes n =
     (case find (\<lambda>(u, k). n \<ge> k \<and> n mod k = 0) (take 3 size_units) of
        Some (u, k) \<Rightarrow> show_nat (nat (n div k)) @ u
      | None \<Rightarrow> show_nat (nat n) @ ''B'')"

section \<open>What to copy\<close>

definition optional :: "(string \<Rightarrow> cmd_error + int) \<Rightarrow> string \<Rightarrow> string \<Rightarrow> cmd_error + int" where
  "optional read flag v =
     (if v = [] then Inr 0 else (case read v of Inl e \<Rightarrow> Inl (BadFlag flag e) | Inr n \<Rightarrow> Inr n))"

definition message_filter :: "floats \<Rightarrow> (string \<Rightarrow> duration option) \<Rightarrow> sync_flags \<Rightarrow> cmd_error + filter_opts" where
  "message_filter fl dur f =
     bind_err (optional parse_bytes ''max-size'' (cf_max_size f)) (\<lambda>mx.
     bind_err (optional parse_bytes ''min-size'' (cf_min_size f)) (\<lambda>mn.
     bind_err (optional (parse_age fl dur) ''max-age'' (cf_max_age f)) (\<lambda>ma.
     bind_err (optional (parse_age fl dur) ''min-age'' (cf_min_age f)) (\<lambda>na.
     bind_err (if cf_age_basis f = [] \<or> cf_age_basis f = ''sent'' then Inr BasisSent
               else if cf_age_basis f = ''internal'' then Inr BasisInternal
               else Inl (BadAgeBasis (cf_age_basis f))) (\<lambda>b.
       let sel = \<lparr>max_size = mx, min_size = mn, max_age = ma, min_age = na, age_basis = b\<rparr>
       in case validate sel of Some w \<Rightarrow> Inl (EmptyWindow w) | None \<Rightarrow> Inr sel)))))"

definition no_search :: search where
  "no_search = \<lparr>criteria_of = None, search_text = []\<rparr>"

definition search_flag :: "string \<Rightarrow> string \<Rightarrow> cmd_error + search" where
  "search_flag flag v =
     (if v = [] then Inr no_search
      else (case SearchKey.parse v of Inl e \<Rightarrow> Inl (BadSearch flag e) | Inr k \<Rightarrow> Inr k))"

text \<open>The two keys, and whether the run is told that the second has no effect.\<close>

definition search_flags :: "sync_flags \<Rightarrow> cmd_error + search \<times> search \<times> bool" where
  "search_flags f =
     bind_err (search_flag ''source-search'' (cf_source_search f)) (\<lambda>s.
     bind_err (search_flag ''dest-search'' (cf_dest_search f)) (\<lambda>d.
       Inr (s, d, \<not> is_zero d \<and> \<not> cf_delete2 f)))"

section \<open>Folders\<close>

definition compile_patterns :: "(string \<Rightarrow> pattern option) \<Rightarrow> string list \<Rightarrow> string \<Rightarrow> cmd_error + pattern list" where
  "compile_patterns regex ps label =
     (case find (\<lambda>p. regex p = None) ps of
        Some p \<Rightarrow> Inl (BadPattern label p)
      | None \<Rightarrow> Inr (map (\<lambda>p. the (regex p)) ps))"

fun add_mappings :: "string list \<Rightarrow> (string \<rightharpoonup> string) \<Rightarrow> cmd_error + (string \<rightharpoonup> string)" where
  "add_mappings [] m = Inr m"
| "add_mappings (x # xs) m =
     (let (a, b, found) = cut (CHR ''='') x
      in if \<not> found \<or> a = [] then Inl (BadMapping x) else add_mappings xs (m(a \<mapsto> b)))"

definition folder_options :: "(string \<Rightarrow> pattern option) \<Rightarrow> sync_flags \<Rightarrow> cfg_pair \<Rightarrow> cmd_error + options" where
  "folder_options regex f p =
     bind_err (add_mappings (cf_mappings f) (fold (\<lambda>r m. m(rule_from r \<mapsto> rule_to r)) (cp_rules p) Map.empty)) (\<lambda>m.
     bind_err (compile_patterns regex (cp_include p @ cf_include f) ''include'') (\<lambda>inc.
     bind_err (compile_patterns regex (cp_exclude p @ cf_exclude f) ''exclude'') (\<lambda>exc.
       Inr \<lparr>source_delim = [], dest_delim = [], source_prefix = [], dest_prefix = [],
            automap = (cf_automap f \<or> cp_map p = ''special-use''), include_virtual = cf_include_virtual f,
            only_folders = cf_only f, include_pats = inc, exclude_pats = exc, mappings = m,
            dest_subfolder = cf_subfolder f\<rparr>)))"

section \<open>How hard to push\<close>

definition auto_connections :: int where
  "auto_connections = 16"

definition pick_width :: "bool \<Rightarrow> int \<Rightarrow> int \<Rightarrow> int" where
  "pick_width given value limit = (if given then value else if limit \<noteq> 0 then limit else auto_connections)"

record concurrency =
  cc_src :: int
  cc_dst :: int
  cc_inflight :: int
  cc_bytes_rate :: int
  cc_messages_rate :: go_float

definition resolve_concurrency :: "sync_flags \<Rightarrow> cfg_pair \<Rightarrow> cmd_error + concurrency" where
  "resolve_concurrency f p =
     bind_err (if cf_memory_limit_set f \<or> cp_max_inflight p = 0
               then (case parse_bytes (cf_memory_limit f) of Inl e \<Rightarrow> Inl (BadFlag ''memory-limit'' e) | Inr n \<Rightarrow> Inr n)
               else Inr (cp_max_inflight p)) (\<lambda>inflight.
     bind_err (if cf_bytes_rate_set f
               then (case parse_bytes (cf_bytes_rate f) of Inl e \<Rightarrow> Inl (BadFlag ''max-bytes-per-second'' e) | Inr n \<Rightarrow> Inr n)
               else Inr (cp_bytes_rate p)) (\<lambda>bytes.
     bind_err (if cf_messages_rate_set f
               then (if not_above_zero (cf_messages_rate f) then Inl RateNotPositive else Inr (cf_messages_rate f))
               else Inr (cp_messages_rate p)) (\<lambda>messages.
       Inr \<lparr>cc_src = pick_width (cf_src_conns_set f) (cf_src_conns f) (cp_source_limit p),
            cc_dst = pick_width (cf_dst_conns_set f) (cf_dst_conns f) (cp_dest_limit p),
            cc_inflight = inflight, cc_bytes_rate = bytes, cc_messages_rate = messages\<rparr>)))"

section \<open>What may be destroyed\<close>

definition resolve_delete2 :: "sync_flags \<Rightarrow> cfg_pair \<Rightarrow> bool" where
  "resolve_delete2 f p = (if cf_delete2_set f then cf_delete2 f else cp_delete2 p)"

definition duplicate_removal :: "sync_flags \<Rightarrow> bool \<times> bool" where
  "duplicate_removal f =
     (if \<not> cf_delete2_duplicates_set f then (False, False) else (cf_delete2_duplicates f, \<not> cf_delete2_duplicates f))"

definition derive_pair_id :: "string option \<Rightarrow> string option \<Rightarrow> endpoint \<Rightarrow> endpoint \<Rightarrow> config_error + string" where
  "derive_pair_id home cwd s t =
     bind_err (describe_end home cwd (ep_url s)) (\<lambda>a. bind_err (describe_end home cwd (ep_url t)) (\<lambda>b. Inr (a @ ''>'' @ b)))"

definition run_options :: "sync_flags \<Rightarrow> cfg_pair \<Rightarrow> string \<Rightarrow> filter_opts \<Rightarrow> search \<Rightarrow> search \<Rightarrow> sync_opts" where
  "run_options f p pid sel s d =
     settle_opts \<lparr>pair_name = pid, dry_run = cf_dry_run f,
       retry_policy = \<lparr>attempts = 0, base = 0, slow = 0, max_wait = 0\<rparr>, give_up_after = 0, full = cf_full f, o_filter = sel,
       source_search = s, dest_search = d, no_resync_flags = (cf_no_resync_flags f \<or> \<not> cf_resync_flags f),
       no_verify_dest = (\<not> cf_verify_dest f), delete2_duplicates = fst (duplicate_removal f),
       no_delete2_duplicates = snd (duplicate_removal f), sync_duplicates = cf_sync_duplicates f,
       no_subscribe = (\<not> cf_subscribe f), delete2 = resolve_delete2 f p, delete_ceiling = cf_delete_ceiling f,
       force = cf_force f\<rparr>"

section \<open>The command\<close>

record settings =
  st_pair :: cfg_pair
  st_folders :: options
  st_conc :: concurrency
  st_opts :: sync_opts

definition check_pool :: "string \<Rightarrow> int \<Rightarrow> cmd_error + unit" where
  "check_pool side n = (if n < 1 then Inl (BadPool side ''pool cap must be at least 1'') else Inr ())"

text \<open>Up to the run. The state database is opened and the ends are reached along the way; those may fail too.\<close>

definition settle_run ::
  "(string \<Rightarrow> config_error + cfg_pair list) \<Rightarrow> (string \<Rightarrow> pattern option) \<Rightarrow> floats \<Rightarrow> (string \<Rightarrow> duration option) \<Rightarrow>
     string option \<Rightarrow> string option \<Rightarrow> bool \<Rightarrow> sync_flags \<Rightarrow> cmd_error + settings" where
  "settle_run load regex fl dur home cwd source_first f =
     bind_err (sync_pair load home cwd source_first f) (\<lambda>p.
     bind_err (folder_options regex f p) (\<lambda>fo.
     bind_err (message_filter fl dur f) (\<lambda>sel.
     bind_err (search_flags f) (\<lambda>(s, d, warned).
     bind_err (resolve_concurrency f p) (\<lambda>cc.
     bind_err (case new_budget (cc_inflight cc) of Inl e \<Rightarrow> Inl (BadBudget e) | Inr b \<Rightarrow> Inr b) (\<lambda>b.
     bind_err (check_pool ''destination'' (cc_dst cc)) (\<lambda>_.
     bind_err (check_pool ''source'' (cc_src cc)) (\<lambda>_.
     bind_err (if cp_name p \<noteq> [] then Inr (cp_name p)
               else (case derive_pair_id home cwd (cp_source p) (cp_dest p) of Inl e \<Rightarrow> Inl (NoPairName e) | Inr n \<Rightarrow> Inr n)) (\<lambda>pid.
       Inr \<lparr>st_pair = p, st_folders = fo, st_conc = cc, st_opts = run_options f p pid sel s d\<rparr>)))))))))"

text \<open>What the command ends with once the report is written: the run's error, then messages that failed, then the
  first folder that did, then deletions refused, then the report itself.\<close>

datatype ending = Clean | RunFailed go_error | MessagesFailed int | FolderFailed string go_error | RefusedToDelete int | NotWritten go_error

definition command_ending :: "go_error option \<Rightarrow> folder_report list \<Rightarrow> go_error option \<Rightarrow> ending" where
  "command_ending run fs written =
     (case run of
        Some e \<Rightarrow> RunFailed e
      | None \<Rightarrow>
          (let (copied, adopted, failed) = totals fs in
           if failed > 0 then MessagesFailed failed
           else
             (case find (\<lambda>fr. r_err fr \<noteq> None) fs of
                Some fr \<Rightarrow> FolderFailed (r_source fr) (the (r_err fr))
              | None \<Rightarrow>
                  if total_refused fs > 0 then RefusedToDelete (total_refused fs)
                  else (case written of Some e \<Rightarrow> NotWritten e | None \<Rightarrow> Clean))))"

section \<open>Lemmas\<close>

lemma sync_pair_sound:
  assumes "sync_pair load home cwd source_first f = Inr p"
  shows "check_endpoint home cwd (cp_source p) = None \<and> check_endpoint home cwd (cp_dest p) = None"
  using assms
  by (auto simp: sync_pair_def validate_sides_def Let_def split: if_splits sum.splits option.splits)

lemma message_filter_valid: "message_filter fl dur f = Inr sel \<Longrightarrow> validate sel = None"
proof -
  have v: "(case validate x of None \<Rightarrow> Inr x | Some w \<Rightarrow> Inl (EmptyWindow w)) = Inr y \<longleftrightarrow> x = y \<and> validate y = None" for x y
    by (cases "validate x") auto
  show "message_filter fl dur f = Inr sel \<Longrightarrow> validate sel = None"
    unfolding message_filter_def bind_err_Inr_iff Let_def v by (elim exE conjE)
qed

lemma check_pool_Inr: "check_pool side n = Inr x \<longleftrightarrow> 1 \<le> n"
  by (auto simp: check_pool_def)

lemma settled:
  assumes "settle_run load regex fl dur home cwd source_first f = Inr st"
  shows "\<exists>s d pid. check_endpoint home cwd (cp_source (st_pair st)) = None \<and> check_endpoint home cwd (cp_dest (st_pair st)) = None \<and>
    validate (o_filter (st_opts st)) = None \<and> 1 \<le> cc_inflight (st_conc st) \<and> 1 \<le> cc_dst (st_conc st) \<and> 1 \<le> cc_src (st_conc st) \<and>
    pid \<noteq> [] \<and> st_opts st = run_options f (st_pair st) pid (o_filter (st_opts st)) s d"
proof -
  from assms obtain p fo sel s d w cc b pid where p: "sync_pair load home cwd source_first f = Inr p"
    and sel: "message_filter fl dur f = Inr sel"
    and b: "(case new_budget (cc_inflight cc) of Inl e \<Rightarrow> Inl (BadBudget e) | Inr b \<Rightarrow> Inr b) = Inr b"
    and cc: "1 \<le> cc_dst cc" "1 \<le> cc_src cc"
    and pid: "(if cp_name p \<noteq> [] then Inr (cp_name p)
      else (case derive_pair_id home cwd (cp_source p) (cp_dest p) of Inl e \<Rightarrow> Inl (NoPairName e) | Inr n \<Rightarrow> Inr n)) = Inr pid"
    and st: "st = \<lparr>st_pair = p, st_folders = fo, st_conc = cc, st_opts = run_options f p pid sel s d\<rparr>"
    unfolding settle_run_def bind_err_Inr_iff check_pool_Inr by (auto simp only: split_paired_Ex prod.case bind_err_Inr_iff check_pool_Inr sum.inject)
  have "1 \<le> cc_inflight cc" using b by (simp add: new_budget_def split: if_splits)
  moreover have "pid \<noteq> []" using pid by (auto simp: derive_pair_id_def bind_err_Inr_iff split: if_splits sum.splits)
  moreover have "o_filter (run_options f p pid sel s d) = sel" by (simp add: run_options_def settle_opts_def)
  ultimately show ?thesis using cc sync_pair_sound [OF p] message_filter_valid [OF sel] unfolding st by auto
qed

text \<open>What a run starts with, whatever the flags and the configuration say: two sound ends; room for a connection on
  each side and for a byte in flight; a size window with something in it; a name for its progress; and leave to
  destroy only what was asked for - to delete by the flag where it was given and by the configuration where it
  was not, to remove duplicates by their flag where it was given and along with deletion where it was not.\<close>

theorem settings_are_sound:
  assumes "settle_run load regex fl dur home cwd source_first f = Inr st"
  shows "(\<forall>e \<in> {cp_source (st_pair st), cp_dest (st_pair st)}. sound_directory home cwd e \<or> sound_server e) \<and>
    1 \<le> cc_src (st_conc st) \<and> 1 \<le> cc_dst (st_conc st) \<and> 1 \<le> cc_inflight (st_conc st) \<and>
    validate (o_filter (st_opts st)) = None \<and> pair_name (st_opts st) \<noteq> [] \<and> attempts (retry_policy (st_opts st)) = 4 \<and>
    delete2 (st_opts st) = (if cf_delete2_set f then cf_delete2 f else cp_delete2 (st_pair st)) \<and>
    dedupe_dest_wanted (st_opts st) = (if cf_delete2_duplicates_set f then cf_delete2_duplicates f else delete2 (st_opts st))"
proof -
  obtain s d pid where x: "check_endpoint home cwd (cp_source (st_pair st)) = None" "check_endpoint home cwd (cp_dest (st_pair st)) = None"
    "validate (o_filter (st_opts st)) = None" "1 \<le> cc_inflight (st_conc st)" "1 \<le> cc_dst (st_conc st)" "1 \<le> cc_src (st_conc st)"
    and pid: "pid \<noteq> []" and o: "st_opts st = run_options f (st_pair st) pid (o_filter (st_opts st)) s d"
    using settled [OF assms] by blast
  have "pair_name (st_opts st) = pid \<and> attempts (retry_policy (st_opts st)) = 4 \<and>
    delete2 (st_opts st) = (if cf_delete2_set f then cf_delete2 f else cp_delete2 (st_pair st)) \<and>
    dedupe_dest_wanted (st_opts st) = (if cf_delete2_duplicates_set f then cf_delete2_duplicates f else delete2 (st_opts st))"
    using pid by (subst (1 2 3 4 5) o)
      (simp add: run_options_def settle_opts_def default_policy_def resolve_delete2_def dedupe_dest_wanted_def duplicate_removal_def, blast)
  with x pid check_endpoint_sound show ?thesis by auto
qed

definition no_flags :: "string \<Rightarrow> side_flags" where
  "no_flags url = \<lparr>sf_url = url, sf_password = no_secret, sf_oauth_cmd = [], sf_oauth_file = [], sf_oauth_refresh = no_secret\<rparr>"

definition sample_flags :: sync_flags where
  "sample_flags =
     \<lparr>cf_config = [], cf_pair = [], cf_src = (no_flags ''imaps://me@mail.example.org'')\<lparr>sf_password := no_secret\<lparr>sec_env := ''PW''\<rparr>\<rparr>,
      cf_dst = no_flags ''file:///var/Mail'', cf_dry_run = False, cf_only = [], cf_include = [], cf_exclude = [],
      cf_mappings = [''Sent Items=Sent''], cf_subfolder = [], cf_automap = True, cf_include_virtual = False, cf_max_size = ''20M'',
      cf_min_size = ''1KB'', cf_max_age = [], cf_min_age = [], cf_age_basis = [], cf_source_search = [], cf_dest_search = ''SEEN'',
      cf_src_conns = 4, cf_dst_conns = 0, cf_memory_limit = ''256MiB'', cf_bytes_rate = [], cf_messages_rate = Finite 0,
      cf_src_conns_set = True, cf_dst_conns_set = False, cf_memory_limit_set = False, cf_delete2_set = True, cf_bytes_rate_set = False,
      cf_messages_rate_set = False, cf_full = False, cf_resync_flags = True, cf_no_resync_flags = False, cf_verify_dest = True,
      cf_sync_duplicates = False, cf_delete2_duplicates = False, cf_delete2_duplicates_set = True, cf_subscribe = True,
      cf_delete2 = True, cf_delete_ceiling = 1 / 2, cf_force = False\<rparr>"

definition no_floats :: floats where
  "no_floats = \<lparr>fl_parse = (\<lambda>_. None), fl_scale = (\<lambda>q k. Finite (q * of_int k)), fl_outside = (\<lambda>_. 0)\<rparr>"

definition sample_settle :: "sync_flags \<Rightarrow> cmd_error + settings" where
  "sample_settle = settle_run (\<lambda>p. Inr []) (\<lambda>_. None) no_floats (\<lambda>_. None) (Some ''/home/me'') None True"

theorem settings_are_sound_witness:
  "case sample_settle sample_flags of
     Inl _ \<Rightarrow> False
   | Inr st \<Rightarrow> delete2 (st_opts st) \<and> \<not> dedupe_dest_wanted (st_opts st) \<and> 1 \<le> cc_dst (st_conc st) \<and>
       pair_name (st_opts st) = ''me@mail.example.org>file:/var/Mail'' \<and> max_size (o_filter (st_opts st)) = 20971520"
proof -
  have r: "case sample_settle sample_flags of Inl _ \<Rightarrow> False | Inr st \<Rightarrow>
      pair_name (st_opts st) = ''me@mail.example.org>file:/var/Mail'' \<and> max_size (o_filter (st_opts st)) = 20971520" by code_simp
  then obtain st where st: "sample_settle sample_flags = Inr st" by (auto split: sum.splits)
  with r settings_are_sound [OF st [unfolded sample_settle_def]] show ?thesis by (simp add: sample_flags_def)
qed

section \<open>Limits\<close>

lemma suffix_append: "length x = length u \<Longrightarrow> has_suffix (s @ u) x \<longleftrightarrow> u = x"
  by (simp add: has_suffix_def)

lemma suffix_last: "x \<noteq> [] \<Longrightarrow> s \<noteq> [] \<Longrightarrow> last s \<noteq> last x \<Longrightarrow> \<not> has_suffix s x"
  by (metis has_suffix_iff last_appendR)

lemma suffix_before_last:
  "has_suffix (s @ [c]) (x @ [d]) \<longleftrightarrow> c = d \<and> has_suffix s x"
  by (auto simp: has_suffix_iff simp flip: append_assoc)

lemma digits_ends: "is_digit (hd (show_nat n))" "is_digit (last (show_nat n))"
  using show_nat_digits [of n] by (auto simp: list_all_iff)

lemma trim_show_nat: "u \<noteq> [] \<Longrightarrow> 33 \<le> byte (last u) \<Longrightarrow> byte (last u) < 127 \<Longrightarrow> trim_space (show_nat n @ u) = show_nat n @ u"
  "trim_space (show_nat n) = show_nat n"
proof -
  have d: "33 \<le> byte c \<and> byte c < 127" if "is_digit c" for c using that by (auto simp: is_digit_def)
  obtain c s where h: "show_nat n = c # s" using show_nat_not_Nil [of n] by (cases "show_nat n") auto
  have c: "is_digit c" using digits_ends(1) [of n] h by simp
  have left: "trim_space_left (show_nat n @ v) = show_nat n @ v" for v unfolding h using no_space_at_start d [OF c] by simp
  have right: "trim_space_right w = w" if "w \<noteq> []" "33 \<le> byte (last w)" "byte (last w) < 127" for w
    using no_space_at_end [OF that(2,3), of "butlast w"] that(1) by simp
  show "trim_space (show_nat n) = show_nat n"
    using left [of "[]"] right [of "show_nat n"] d [OF digits_ends(2) [of n]] by (simp add: trim_space_def)
  assume "u \<noteq> []" "33 \<le> byte (last u)" "byte (last u) < 127"
  then show "trim_space (show_nat n @ u) = show_nat n @ u" using left right [of "show_nat n @ u"] by (simp add: trim_space_def)
qed

lemma unit_found:
  "find (\<lambda>(x, _). has_suffix (show_nat k @ ''GiB'') x) size_units = Some (''GiB'', 2 ^ 30)"
  "find (\<lambda>(x, _). has_suffix (show_nat k @ ''MiB'') x) size_units = Some (''MiB'', 2 ^ 20)"
  "find (\<lambda>(x, _). has_suffix (show_nat k @ ''KiB'') x) size_units = Some (''KiB'', 2 ^ 10)"
  by (simp_all add: size_units_def suffix_append)

lemma byte_found: "find (\<lambda>(x, _). has_suffix (show_nat k @ ''B'') x) size_units = Some (''B'', 1)"
proof -
  let ?s = "show_nat k"
  have no: "\<not> has_suffix ?s x" if "x \<noteq> []" "\<not> is_digit (last x)" for x
    using suffix_last [OF that(1) show_nat_not_Nil] digits_ends(2) [of k] that(2) by metis
  have "\<not> has_suffix (?s @ ''B'') (x @ ''B'')" if "x \<noteq> []" "\<not> is_digit (last x)" for x
    using no [OF that] by (simp only: suffix_before_last simp_thms)
  note this [of "''Gi''"] this [of "''Mi''"] this [of "''Ki''"] this [of "''G''"] this [of "''M''"] this [of "''K''"]
  then show ?thesis by (simp add: size_units_def suffix_append is_digit_def)
qed

lemma read_unit:
  assumes "find (\<lambda>(x, _). has_suffix (show_nat k @ u) x) size_units = Some (u, m)" and "u \<noteq> []" and "last u = CHR ''B''"
    and "1 \<le> int k * m" and "int k * m \<le> max_int64" and "1 \<le> m"
  shows "parse_bytes (show_nat k @ u) = Inr (int k * m)"
proof -
  have k: "1 \<le> int k" using assms(4) by (cases k) auto
  have "int k * 1 \<le> int k * m" using assms(6) by (intro mult_left_mono) auto
  then have "atoi (show_nat k) = Some (int k)" using assms(5) by (intro atoi_show_nat) simp
  moreover have "wrap64 (int k * m) = int k * m" using assms(4,5) by (intro wrap64_id) (simp add: int64_def min_int64_def)
  ultimately show ?thesis using k assms(2,3)
    by (simp add: parse_bytes_def trim_show_nat assms(1) Let_def)
qed

text \<open>A limit as the report writes it is the limit the next command line reads: any number of bytes from one to
  the largest, in the largest unit that divides it.\<close>

theorem reported_limit_reads_back:
  assumes "1 \<le> n" and "n \<le> max_int64"
  shows "parse_bytes (flag_bytes n) = Inr n"
proof -
  have whole: "parse_bytes (show_nat (nat (n div m)) @ u) = Inr n"
    if "n mod m = 0" "1 \<le> m" "u \<noteq> []" "last u = CHR ''B''"
      "\<And>k. find (\<lambda>(x, _). has_suffix (show_nat k @ u) x) size_units = Some (u, m)" for m u
  proof -
    have "n = n div m * m" using that(1) by (metis add.right_neutral mult_div_mod_eq mult.commute)
    moreover have "0 \<le> n div m" using assms(1) that(2) by (simp add: pos_imp_zdiv_nonneg_iff)
    ultimately have e: "int (nat (n div m)) * m = n" by simp
    show ?thesis using read_unit [of "nat (n div m)" u m] that e assms by simp
  qed
  show ?thesis
    using whole [of "2 ^ 30" "''GiB''"] whole [of "2 ^ 20" "''MiB''"] whole [of "2 ^ 10" "''KiB''"] whole [of 1 "''B''"]
      unit_found byte_found
    by (simp add: flag_bytes_def size_units_def)
qed

theorem reported_limit_reads_back_witness:
  "flag_bytes 268435456 = ''256MiB'' \<and> parse_bytes (flag_bytes 268435456) = Inr 268435456 \<and>
   flag_bytes 1500 = ''1500B'' \<and> parse_bytes (flag_bytes 1500) = Inr 1500"
proof -
  have "flag_bytes 268435456 = ''256MiB''" "flag_bytes 1500 = ''1500B''" by code_simp+
  with reported_limit_reads_back [of 268435456] reported_limit_reads_back [of 1500] show ?thesis by (simp add: max_int64_def)
qed

text \<open>The unit is multiplied in without a look at the width: a size far beyond it wraps, here to none at all.\<close>

lemma large_size_wraps: "parse_bytes ''17179869184GiB'' = Inr 0"
  by code_simp

section \<open>Progress and its name\<close>

text \<open>The name of a server holds its user and host, not the port or the scheme: two servers of one host share the
  progress recorded for either.\<close>

lemma pair_id_ignores_the_port:
  "derive_pair_id home cwd (sample_end ''imaps://me@localhost:1993'' []) t = derive_pair_id home cwd (sample_end ''imap://me@localhost:2143'' []) t"
proof -
  have "describe_end home cwd ''imaps://me@localhost:1993'' = describe_end home cwd ''imap://me@localhost:2143''"
  proof -
    have "\<not> is_local ''imaps://me@localhost:1993''" "\<not> is_local ''imap://me@localhost:2143''" by code_simp+
    moreover have "map_sum id (\<lambda>a. (a_user a, a_host a)) (address_of ''imaps://me@localhost:1993'') = Inr (''me'', ''localhost'')"
      "map_sum id (\<lambda>a. (a_user a, a_host a)) (address_of ''imap://me@localhost:2143'') = Inr (''me'', ''localhost'')" by code_simp+
    ultimately show ?thesis
      by (cases "address_of ''imaps://me@localhost:1993''"; cases "address_of ''imap://me@localhost:2143''")
        (simp_all add: describe_end_def)
  qed
  then show ?thesis by (simp add: derive_pair_id_def sample_end_def)
qed

text \<open>With a configuration file every flag that names an end is passed over, whatever it says.\<close>

lemma config_silences_the_ends:
  assumes "cf_config f \<noteq> []" and "side_oauth s = side_oauth (cf_src f)" and "side_oauth t = side_oauth (cf_dst f)"
  shows "sync_pair load home cwd source_first (f\<lparr>cf_src := s, cf_dst := t\<rparr>) = sync_pair load home cwd source_first f"
proof -
  let ?g = "f\<lparr>cf_src := s, cf_dst := t\<rparr>"
  have "merge_flags ?g = merge_flags f" using assms(2,3) by (simp add: merge_flags_def fun_eq_iff)
  moreover have "cf_config ?g = cf_config f" "cf_pair ?g = cf_pair f" by simp_all
  ultimately show ?thesis using assms(1) unfolding sync_pair_def Let_def by (simp only: if_True simp_thms)
qed

text \<open>The warning asks the flag, not the setting it resolves to: a run that deletes because its configuration says so is
  told that its destination search has no effect.\<close>

lemma search_warning_asks_the_flag:
  assumes "\<not> cf_delete2 f" and "\<not> cf_delete2_set f" and "search_flags f = Inr (s, d, w)" and "\<not> is_zero d" and "cp_delete2 p"
  shows "w \<and> resolve_delete2 f p"
  using assms by (auto simp: search_flags_def resolve_delete2_def bind_err_Inr_iff)

section \<open>The end\<close>

text \<open>The command ends cleanly exactly when the run did, its report was written, no message failed, no folder
  failed and no deletion was refused.\<close>

theorem clean_ending:
  "command_ending run fs written = Clean \<longleftrightarrow>
   run = None \<and> written = None \<and> snd (snd (totals fs)) \<le> 0 \<and> list_all (\<lambda>fr. r_err fr = None) fs \<and> total_refused fs \<le> 0"
proof -
  have "find (\<lambda>fr. r_err fr \<noteq> None) fs = None \<longleftrightarrow> list_all (\<lambda>fr. r_err fr = None) fs"
    by (auto simp: find_None_iff list_all_iff)
  moreover obtain a b c where "totals fs = (a, b, c)" by (cases "totals fs")
  ultimately show ?thesis
    by (auto simp: command_ending_def split: option.splits)
qed

end
