(* ===== verification/CompatRun.thy ===== *)
theory CompatRun
  imports Command
begin

text \<open>
  From the command line of imapsync to the flags of the sync command
  (\<open>src/cmd/imapsync-go/compat.go\<close>, \<open>main.go\<close>, and the flags \<open>newSyncCmd\<close> registers in
  \<open>sync.go\<close>): what a binary linked as imapsync is asked for, what the compat command answers with, and that
  whatever \<open>Translate\<close> hands over is made of flags the sync command knows, each with a value where it takes one.
  Parsing flags is the work of a library; its setting the environment is the argument \<open>set_env\<close>.
\<close>

section \<open>The flags of the sync command\<close>

datatype flag_kind = FText | FList | FArray | FBool | FInt | FFloat | FDuration

definition sync_flag_table :: "(string \<times> flag_kind) list" where
  "sync_flag_table =
     [(''config'', FText), (''pair'', FText), (''source-url'', FText), (''source-password-env'', FText),
      (''source-password-file'', FText), (''source-password-keychain'', FText), (''source-oauth-cmd'', FText),
      (''source-oauth-file'', FText), (''source-oauth-refresh-env'', FText), (''source-oauth-refresh-file'', FText),
      (''source-oauth-refresh-keychain'', FText), (''dest-url'', FText), (''dest-password-env'', FText),
      (''dest-password-file'', FText), (''dest-password-keychain'', FText), (''dest-oauth-cmd'', FText),
      (''dest-oauth-file'', FText), (''dest-oauth-refresh-env'', FText), (''dest-oauth-refresh-file'', FText),
      (''dest-oauth-refresh-keychain'', FText), (''state'', FText), (''dry-run'', FBool), (''folder'', FList),
      (''include'', FList), (''exclude'', FList), (''map'', FArray), (''subfolder2'', FText), (''automap'', FBool),
      (''include-virtual'', FBool), (''max-size'', FText), (''min-size'', FText), (''max-age'', FText),
      (''min-age'', FText), (''age-basis'', FText), (''source-search'', FText), (''dest-search'', FText),
      (''source-connections'', FInt), (''dest-connections'', FInt), (''memory-limit'', FText),
      (''max-bytes-per-second'', FText), (''max-messages-per-second'', FFloat), (''full'', FBool),
      (''resyncflags'', FBool), (''noresyncflags'', FBool), (''verify-dest'', FBool), (''sync-duplicates'', FBool),
      (''delete2duplicates'', FBool), (''subscribe'', FBool), (''delete2'', FBool), (''delete2-ceiling'', FFloat),
      (''force'', FBool), (''progress-interval'', FDuration), (''dial-timeout'', FDuration),
      (''source-insecure'', FBool), (''dest-insecure'', FBool), (''trace'', FBool)]"

definition exclusive_flags :: "string list list" where
  "exclusive_flags =
     [[''config'', ''source-url''],
      [''source-password-env'', ''source-password-file'', ''source-password-keychain''],
      [''dest-password-env'', ''dest-password-file'', ''dest-password-keychain''],
      [''source-oauth-cmd'', ''source-oauth-file'', ''source-oauth-refresh-env'', ''source-oauth-refresh-file'',
       ''source-oauth-refresh-keychain''],
      [''dest-oauth-cmd'', ''dest-oauth-file'', ''dest-oauth-refresh-env'', ''dest-oauth-refresh-file'',
       ''dest-oauth-refresh-keychain'']]"

definition root_flag_table :: "(string \<times> flag_kind) list" where
  "root_flag_table = [(''log-level'', FText), (''log-json'', FBool)]"

definition known_flags :: "(string \<times> flag_kind) list" where
  "known_flags = sync_flag_table @ root_flag_table"

section \<open>The compat command\<close>

text \<open>\<open>filepath.Base\<close> where the separator is a slash.\<close>

definition path_base :: "string \<Rightarrow> string" where
  "path_base p =
     (if p = [] then ''.''
      else (let r = dropWhile (\<lambda>c. c = CHR ''/'') (rev p)
            in if r = [] then ''/'' else rev (takeWhile (\<lambda>c. c \<noteq> CHR ''/'') r)))"

definition args_for :: "string list \<Rightarrow> string list" where
  "args_for argv = (if path_base (hd argv) = ''imapsync'' then ''compat'' # tl argv else tl argv)"

datatype compat_answer = ShowHelp | ShowVersion | NotTranslated translate_error | NoEnvironment string | RunWith "string list"

definition run_compat :: "(string \<Rightarrow> string option) \<Rightarrow> (string \<Rightarrow> string \<Rightarrow> bool) \<Rightarrow> string list \<Rightarrow> compat_answer" where
  "run_compat number set_env args =
     (if args = [] \<or> List.member args ''-h'' \<or> List.member args ''--help'' then ShowHelp
      else if List.member args ''--version'' then ShowVersion
      else
        (case translate_argv number args of
           Inl e \<Rightarrow> NotTranslated e
         | Inr p \<Rightarrow>
             (case find (\<lambda>n. case p_env p n of None \<Rightarrow> False | Some v \<Rightarrow> \<not> set_env n v) [password_variable 1, password_variable 2] of
                Some n \<Rightarrow> NoEnvironment n
              | None \<Rightarrow> RunWith (p_args p))))"

section \<open>Words that fit the flags\<close>

text \<open>Flags one after the other, each registered, each with the value it takes: the next word, unless the flag is
  boolean or carries its value after an equals sign.\<close>

fun fits :: "(string \<times> flag_kind) list \<Rightarrow> string list \<Rightarrow> bool" where
  "fits t [] = True"
| "fits t (w # ws) =
     (let (n, _, given_here) = cut (CHR ''='') (drop 2 w) in
      if \<not> has_prefix w ''--'' then False
      else
        (case map_of t n of
           None \<Rightarrow> False
         | Some k \<Rightarrow>
             if given_here \<or> k = FBool then fits t ws
             else (case ws of [] \<Rightarrow> False | _ # r \<Rightarrow> fits t r)))"

definition flag_named :: "(string \<times> flag_kind) list \<Rightarrow> string \<Rightarrow> flag_kind option" where
  "flag_named t w =
     (if has_prefix w ''--'' \<and> \<not> List.member (drop 2 w) (CHR ''='') then map_of t (drop 2 w) else None)"

definition fits_outcome :: "option_t \<Rightarrow> outcome \<Rightarrow> bool" where
  "fits_outcome p out \<longleftrightarrow>
     (if how out \<noteq> Translate then True
      else
        (let ws = fields_str (native out); kinds = map (flag_named known_flags) ws in
         if takes_value (kind p) then
           list_all (\<lambda>k. k \<noteq> None \<and> k \<noteq> Some FBool) kinds \<and> (if opt_name p = ''search'' then True else length ws = 1)
         else fits known_flags ws \<and> (if length ws = 1 then hd kinds = Some FBool else True)))"

lemma fits_append: "fits t a \<Longrightarrow> fits t (a @ b) = fits t b"
proof (induction a rule: length_induct)
  case (1 a)
  show ?case
  proof (cases a)
    case (Cons w ws)
    obtain n v e where c: "cut (CHR ''='') (drop 2 w) = (n, v, e)" by (cases "cut (CHR ''='') (drop 2 w)")
    from 1(2) obtain k where p: "has_prefix w ''--''" and k: "map_of t n = Some k"
      by (simp add: Cons c split: if_splits option.splits)
    show ?thesis
    proof (cases "e \<or> k = FBool")
      case True
      with 1 have "fits t (ws @ b) = fits t b" by (simp add: Cons c p k)
      then show ?thesis using True by (simp add: Cons c p k)
    next
      case False
      with 1(2) obtain x r where r: "ws = x # r" "fits t r" by (auto simp: Cons c p k split: list.splits)
      with 1(1) have "fits t (r @ b) = fits t b" by (simp add: Cons)
      then show ?thesis using False r by (simp add: Cons c p k)
    qed
  qed simp
qed

lemma fits_concat: "\<forall>c \<in> set cs. fits t c \<Longrightarrow> fits t (concat cs)"
  by (induction cs) (simp_all add: fits_append)

lemma fits_valued: "flag_named t w = Some k \<Longrightarrow> k \<noteq> FBool \<Longrightarrow> fits t [w, v]"
  by (auto simp: flag_named_def cut_missing split: if_splits)

lemma fits_boolean: "flag_named t w = Some FBool \<Longrightarrow> fits t [w @ CHR ''='' # v]"
  by (auto simp: flag_named_def cut_append has_prefix_iff split: if_splits)

lemma table_fits: "list_all (\<lambda>p. list_all (fits_outcome p) (outcomes p)) table"
proof -
  have "list_all id (map (\<lambda>p. list_all (fits_outcome p) (outcomes p)) (map the table_entries))" by code_simp
  then show ?thesis unfolding list_all_id_map table_def .
qed

lemma flags_fit:
  assumes "wf_given table g" and "c \<in> set (flags_of number g)"
  shows "fits known_flags c"
proof -
  define ws where "ws = fields_str (native (answer (g_opt g) (g_on g)))"
  have "g_opt g \<in> set table" using assms(1) by (simp add: wf_given_def)
  with table_fits answer_outcome [of "g_opt g" "g_on g"] have f: "fits_outcome (g_opt g) (answer (g_opt g) (g_on g))"
    by (simp add: list_all_iff)
  have valued: "fits known_flags [w, v]" if "flag_named known_flags w \<noteq> None" "flag_named known_flags w \<noteq> Some FBool" for w v
    using that fits_valued by fastforce
  show ?thesis
  proof (cases "disposed g")
    case Translate
    with assms(2) obtain cs where cs: "chunks number g = Inr cs" "c \<in> set cs"
      by (cases "chunks number g") (simp_all add: flags_of_def)
    show ?thesis
    proof (cases "takes_value (kind (g_opt g))")
      case False
      with f Translate have ok: "fits known_flags ws" "length ws = 1 \<Longrightarrow> flag_named known_flags (hd ws) = Some FBool"
        by (auto simp: fits_outcome_def ws_def [symmetric] Let_def length_Suc_conv)
      from cs False show ?thesis unfolding chunks_def ws_def [symmetric]
        using ok fits_boolean [of known_flags "hd ws" "''false''"] by (auto simp: Let_def simp del: fits.simps split: if_splits)
    next
      case True
      with f Translate have all: "\<forall>w \<in> set ws. flag_named known_flags w \<noteq> None \<and> flag_named known_flags w \<noteq> Some FBool"
        and one: "opt_name (g_opt g) \<noteq> ''search'' \<Longrightarrow> length ws = 1"
        by (auto simp: fits_outcome_def ws_def [symmetric] Let_def list_all_iff)
      show ?thesis
      proof (cases "opt_name (g_opt g) = ''search''")
        case s: True
        with cs True all valued show ?thesis unfolding chunks_def ws_def [symmetric] by (auto simp: Let_def)
      next
        case s: False
        with one obtain w where w: "ws = [w]" by (auto simp: length_Suc_conv)
        with cs True s all valued show ?thesis unfolding chunks_def ws_def [symmetric]
          by (auto simp: Let_def split: if_splits option.splits)
      qed
    qed
  next
    case Endpoint
    with assms(2) have "c = [''--exclude'', ''^Files$'']" by (auto simp: flags_of_def split: if_splits)
    moreover have "fits known_flags [''--exclude'', ''^Files$'']" by code_simp
    ultimately show ?thesis by simp
  qed (use assms(2) in \<open>simp_all add: flags_of_def\<close>)
qed

lemma translated_end_has_a_password:
  assumes "end_result s e = Inr args"
  shows "\<exists>u w v. args = [''--'' @ e @ ''-url'', u, ''--'' @ e @ w, v] \<and> w \<in> {''-password-file'', ''-password-env''} \<and> v \<noteq> []"
  using assms by (auto simp: end_result_def side_args_def password_variable_def Let_def split: if_splits prod.splits)

text \<open>C25: Whatever an imapsync command line translates to, the sync command knows: past its name, every word is a flag
  it registers, or the value of one, and no flag is short of its value.\<close>

theorem translation_fits_the_command:
  assumes "translate_argv number argv = Inr p"
  shows "hd (p_args p) = ''sync'' \<and> fits known_flags (tl (p_args p))"
proof -
  obtain gs where gs: "parse_args argv table = Inr gs" and tg: "translate_givens number gs = Inr p"
    using assms by (auto simp: translate_argv_def split: sum.splits)
  have wf: "\<forall>g \<in> set gs. wf_given table g" using parse_args_given [OF gs] .
  have p: "p = spec_plan number gs" and none: "all_notes number gs = []"
    using tg by (simp_all add: translation_sum split: if_splits)
  have ends: "fits known_flags (args_or_none (end_result s e))" if "e = ''source'' \<or> e = ''dest''" for s e
  proof -
    have f: "fits known_flags [''--'' @ e @ ''-url'', u, ''--'' @ e @ ''-password-file'', v]"
      "fits known_flags [''--'' @ e @ ''-url'', u, ''--'' @ e @ ''-password-env'', v]" for u v
      using that by (elim disjE; simp add: known_flags_def sync_flag_table_def has_prefix_def)+
    show ?thesis
    proof (cases "end_result s e")
      case (Inr args)
      with translated_end_has_a_password [OF Inr] f show ?thesis by (auto simp: args_or_none_def simp del: fits.simps)
    qed (simp add: args_or_none_def)
  qed
  have "fits known_flags (concat (first_of_each {} (concat (map (flags_of number) gs))))"
    using first_of_each_subset flags_fit wf by (intro fits_concat) fastforce
  then show ?thesis using ends by (simp add: p spec_plan_def fits_append)
qed

theorem translation_fits_the_command_witness:
  "case translate_argv Some example_argv of Inl _ \<Rightarrow> False | Inr p \<Rightarrow> fits known_flags (tl (p_args p))"
proof -
  obtain p where "translate_argv Some example_argv = Inr p" using example_translates by blast
  with translation_fits_the_command [OF this] show ?thesis by simp
qed

text \<open>Yet a token never comes through. A translated end always has a password, and an end with a password and a
  token is refused, so no command line with \<open>--oauthaccesstoken1\<close> or \<open>--oauthrefreshcmd1\<close>, which the table
  translates, is ever run.\<close>

lemma password_and_token_refused:
  "secret_set (sf_password s) \<Longrightarrow> oauth_set (side_oauth s) \<Longrightarrow> check_endpoint home cwd (side_endpoint s) \<noteq> None"
  by (simp add: check_endpoint_def side_endpoint_def split: sum.split)

end
