(* ===== verification/Trace.thy ===== *)
theory Trace
  imports Ident
begin

text \<open>
  The protocol trace (\<open>src/internal/imapx/trace.go\<close>): both directions of a connection are written into one
  writer in pieces of any size; whole lines go on, with what a credential could be in taken out of them. The
  record \<open>trace\<close> is what the mutex guards; what goes to the underlying writer is returned, its errors being
  swallowed.
\<close>

section \<open>The writer\<close>

definition max_trace_line :: nat where
  "max_trace_line = 8192"

record trace =
  tr_buf :: string
  tr_auth :: bool
  tr_pending :: bool

definition new_trace :: trace where
  "new_trace = \<lparr>tr_buf = [], tr_auth = False, tr_pending = False\<rparr>"

definition is_continuation :: "string \<Rightarrow> bool" where
  "is_continuation line \<longleftrightarrow> line = ''+'' \<or> has_prefix line ''+ ''"

definition split_eol :: "string \<Rightarrow> string \<times> string" where
  "split_eol s =
     (if has_suffix s [CR, LF] then (take (length s - 2) s, [CR, LF])
      else if has_suffix s [LF] then (take (length s - 1) s, [LF])
      else (s, []))"

text \<open>The words of a line in order, and whether an AUTHENTICATE was among them.\<close>

fun redact_words :: "string list \<Rightarrow> string list \<Rightarrow> string \<Rightarrow> bool \<Rightarrow> string \<times> bool" where
  "redact_words seen [] line auth = (line, auth)"
| "redact_words seen (f # fs) line auth =
     (if equal_fold f ''LOGIN'' then
        (if length fs \<le> 1 then redact_words (seen @ [f]) fs line auth
         else (join_str (seen @ [f, hd fs]) '' '' @ '' <redacted>'', auth))
      else if equal_fold f ''AUTHENTICATE'' then
        (if fs = [] then redact_words (seen @ [f]) fs line True
         else (join_str (seen @ [f, hd fs]) '' '' @ (if length fs > 1 then '' <redacted>'' else []), True))
      else redact_words (seen @ [f]) fs line auth)"

definition redact :: "trace \<Rightarrow> string \<Rightarrow> string \<times> trace" where
  "redact t line =
     (let something = (trim_space line \<noteq> []) in
      if something \<and> tr_pending t then (''<redacted SASL payload>'', t\<lparr>tr_pending := False, tr_auth := False\<rparr>)
      else
        (let t = (if \<not> something \<or> \<not> tr_auth t then t
                  else if is_continuation line then t\<lparr>tr_pending := True\<rparr>
                  else t\<lparr>tr_auth := False\<rparr>);
             (out, auth) = redact_words [] (fields_str line) line (tr_auth t)
         in (out, t\<lparr>tr_auth := auth\<rparr>)))"

definition emit_line :: "trace \<Rightarrow> string \<Rightarrow> string \<times> trace" where
  "emit_line t line =
     (let (body, eol) = split_eol line;
          (redacted, t) = redact t body
      in (if redacted = body then line else redacted @ eol, t))"

function emit_lines :: "trace \<Rightarrow> string \<Rightarrow> string \<times> trace" where
  "emit_lines t buf =
     (if LF \<notin> set buf then ([], t\<lparr>tr_buf := buf\<rparr>)
      else
        (let (a, b, _) = cut LF buf;
             (out, t) = emit_line t (a @ [LF]);
             (outs, t) = emit_lines t b
         in (out @ outs, t)))"
  by auto
termination
proof (relation "measure (\<lambda>(t, buf). length buf)")
  fix t buf x a y b u z out t'
  assume "\<not> LF \<notin> set buf" "x = cut LF buf" "(a, y) = x" "(b, u) = y"
  then show "((t', b), (t, buf)) \<in> measure (\<lambda>(t, buf). length buf)" using cut_found [of LF buf a b u] by auto
qed simp

declare emit_lines.simps [simp del]

text \<open>One write: what has become whole lines goes on, and so does what has grown too long to wait.\<close>

definition write_trace :: "trace \<Rightarrow> string \<Rightarrow> string \<times> trace" where
  "write_trace t p =
     (let (outs, t) = emit_lines t (tr_buf t @ p) in
      if length (tr_buf t) \<ge> max_trace_line then
        (let (out, t) = emit_line t (tr_buf t) in (outs @ out, t\<lparr>tr_buf := []\<rparr>))
      else (outs, t))"

fun write_all :: "trace \<Rightarrow> string list \<Rightarrow> string \<times> trace" where
  "write_all t [] = ([], t)"
| "write_all t (p # ps) =
     (let (a, t) = write_trace t p; (b, t) = write_all t ps in (a @ b, t))"

section \<open>However the bytes arrive\<close>

lemma split_eol_joins: "split_eol s = (b, e) \<Longrightarrow> s = b @ e"
  by (auto simp: split_eol_def has_suffix_iff split: if_splits)

lemma emit_line_form: "emit_line t line = (let (b, e) = split_eol line; (r, t') = redact t b in (r @ e, t'))"
  by (auto simp: emit_line_def Let_def split: prod.splits dest: split_eol_joins)

lemma redact_buf: "redact (t\<lparr>tr_buf := b\<rparr>) line = (fst (redact t line), (snd (redact t line))\<lparr>tr_buf := b\<rparr>)"
  by (simp add: redact_def Let_def split: prod.split)

lemma emit_line_buf: "emit_line (t\<lparr>tr_buf := b\<rparr>) line = (fst (emit_line t line), (snd (emit_line t line))\<lparr>tr_buf := b\<rparr>)"
  by (simp add: emit_line_def redact_buf Let_def split: prod.split)

lemma emit_lines_buf: "emit_lines (t\<lparr>tr_buf := b\<rparr>) s = emit_lines t s"
proof (induction t s rule: emit_lines.induct)
  case (1 t s)
  show ?case
  proof (cases "LF \<in> set s")
    case True
    obtain x y f where c: "cut LF s = (x, y, f)" by (cases "cut LF s")
    obtain o1 t1 where e: "emit_line t (x @ [LF]) = (o1, t1)" by fastforce
    from 1 [of "(x, y, f)" x "(y, f)" y f "(o1, t1)" o1 t1] True c e show ?thesis
      by (subst (1 2) emit_lines.simps) (simp add: emit_line_buf)
  qed (subst (1 2) emit_lines.simps, simp)
qed

lemma emit_lines_append:
  "emit_lines t (x @ y) = (let (a, t1) = emit_lines t x; (b, t2) = emit_lines t1 (tr_buf t1 @ y) in (a @ b, t2))"
proof (induction t x rule: emit_lines.induct)
  case (1 t x)
  show ?case
  proof (cases "LF \<in> set x")
    case True
    obtain a b f where c: "cut LF x = (a, b, f)" by (cases "cut LF x")
    with cut_found [OF True c] have x: "x = a @ LF # b" "LF \<notin> set a" and f by auto
    have cy: "cut LF (x @ y) = (a, b @ y, True)" using x by (simp add: cut_append)
    obtain o1 t1 where e: "emit_line t (a @ [LF]) = (o1, t1)" by fastforce
    note ih = 1 [of "(a, b, f)" a "(b, f)" b f "(o1, t1)" o1 t1]
    have "emit_lines t (x @ y) = (let (p, q) = emit_lines t1 (b @ y) in (o1 @ p, q))"
      using True by (subst emit_lines.simps) (simp add: cy e)
    moreover have "emit_lines t x = (let (p, q) = emit_lines t1 b in (o1 @ p, q))"
      using True by (subst emit_lines.simps) (simp add: c e)
    ultimately show ?thesis using ih True c e by (simp add: Let_def split: prod.splits)
  next
    case False
    then have "emit_lines t x = ([], t\<lparr>tr_buf := x\<rparr>)" by (subst emit_lines.simps) simp
    then show ?thesis by (simp add: emit_lines_buf)
  qed
qed

text \<open>What is left waiting is what follows the last line.\<close>

fun stretch :: "nat \<Rightarrow> string \<Rightarrow> bool" where
  "stretch n [] = (n < max_trace_line)"
| "stretch n (c # cs) = (n < max_trace_line \<and> stretch (if c = LF then 0 else n + 1) cs)"

lemma stretch_start: "stretch n s \<Longrightarrow> n < max_trace_line"
  by (cases s) auto

lemma stretch_append: "LF \<notin> set a \<Longrightarrow> stretch n (a @ b) \<Longrightarrow> stretch (n + length a) b"
proof (induction a arbitrary: n)
  case (Cons c a)
  then show ?case using Cons.IH [of "n + 1"] by auto
qed simp

lemma stretch_line: "LF \<notin> set a \<Longrightarrow> stretch n (a @ LF # b) \<Longrightarrow> stretch 0 b"
  using stretch_append [of a n "LF # b"] by simp

lemma stretch_prefix: "stretch n (a @ b) \<Longrightarrow> stretch n a"
  by (induction a arbitrary: n) (auto dest: stretch_start)

lemma waiting:
  assumes "emit_lines t s = (out, t')"
  shows "LF \<notin> set (tr_buf t') \<and> (stretch 0 (s @ y) \<longrightarrow> stretch 0 (tr_buf t' @ y))"
  using assms
proof (induction t s arbitrary: out rule: emit_lines.induct)
  case (1 t s)
  show ?case
  proof (cases "LF \<in> set s")
    case True
    obtain a b f where c: "cut LF s = (a, b, f)" by (cases "cut LF s")
    with cut_found [OF True c] have s: "s = a @ LF # b" "LF \<notin> set a" by auto
    obtain o1 t1 where e: "emit_line t (a @ [LF]) = (o1, t1)" by fastforce
    obtain o2 t2 where r: "emit_lines t1 b = (o2, t2)" by fastforce
    have "t' = t2" using 1(2) True by (subst (asm) emit_lines.simps) (simp add: c e r)
    with 1(1) [of "(a, b, f)" a "(b, f)" b f "(o1, t1)" o1 t1] True c e r s stretch_line [of a 0 "b @ y"] show ?thesis by simp
  next
    case False
    with 1(2) show ?thesis by (subst (asm) emit_lines.simps) auto
  qed
qed

text \<open>However the bytes are cut into writes, what goes on is what whole lines make of them, as long as no line is as
  long as the limit.\<close>

lemma writes_are_lines:
  "LF \<notin> set (tr_buf t) \<Longrightarrow> stretch 0 (tr_buf t @ concat ps) \<Longrightarrow> write_all t ps = emit_lines t (tr_buf t @ concat ps)"
proof (induction ps arbitrary: t)
  case Nil
  then show ?case by (subst emit_lines.simps) simp
next
  case (Cons p ps)
  obtain o1 t1 where e: "emit_lines t (tr_buf t @ p) = (o1, t1)" by fastforce
  note w = waiting [OF e]
  have st: "stretch 0 (tr_buf t1 @ concat ps)" using w [of "concat ps"] Cons.prems(2) by simp
  then have "length (tr_buf t1) < max_trace_line"
    using stretch_append [of "tr_buf t1" 0 "concat ps"] w stretch_start by fastforce
  then have "write_trace t p = (o1, t1)" by (simp add: write_trace_def e)
  moreover have "write_all t1 ps = emit_lines t1 (tr_buf t1 @ concat ps)" using Cons.IH w st by blast
  ultimately show ?case using emit_lines_append [of t "tr_buf t @ p" "concat ps"] by (simp add: e)
qed

text \<open>What waits for its line to end is never as long as the limit.\<close>

lemma buffer_bounded: "length (tr_buf (snd (write_trace t p))) < max_trace_line"
  by (auto simp: write_trace_def max_trace_line_def split: prod.splits)

section \<open>Conversations\<close>

text \<open>What goes over the wire: anything at all, or one of the three ways a credential does - with LOGIN, inline
  with AUTHENTICATE, or in answer to the server's prompt.\<close>

datatype utterance =
  Said string
| Login string string string
| Inline string string string
| Prompted string string string string

fun wire :: "utterance \<Rightarrow> string" where
  "wire (Said s) = s"
| "wire (Login tag user pw) = tag @ '' LOGIN '' @ user @ '' '' @ pw @ [CR, LF]"
| "wire (Inline tag mech resp) = tag @ '' AUTHENTICATE '' @ mech @ '' '' @ resp @ [CR, LF]"
| "wire (Prompted tag mech prompt payload) =
     tag @ '' AUTHENTICATE '' @ mech @ [CR, LF] @ ''+ '' @ prompt @ [CR, LF] @ payload @ [CR, LF]"

fun public :: "utterance \<Rightarrow> utterance" where
  "public (Said s) = Said s"
| "public (Login tag user pw) = Login tag user []"
| "public (Inline tag mech resp) = Inline tag mech []"
| "public (Prompted tag mech prompt payload) = Prompted tag mech prompt []"

definition word :: "string \<Rightarrow> bool" where
  "word s \<longleftrightarrow> s \<noteq> [] \<and> list_all (\<lambda>c. 33 \<le> byte c \<and> byte c < 127) s"

definition tag_word :: "string \<Rightarrow> bool" where
  "tag_word s \<longleftrightarrow> word s \<and> s \<noteq> ''+'' \<and> \<not> equal_fold s ''LOGIN'' \<and> \<not> equal_fold s ''AUTHENTICATE''"

definition secret_text :: "string \<Rightarrow> bool" where
  "secret_text s \<longleftrightarrow> LF \<notin> set s \<and> trim_space s \<noteq> []"

fun proper :: "trace \<Rightarrow> utterance \<Rightarrow> bool" where
  "proper t (Said s) \<longleftrightarrow> s = [] \<or> last s = LF"
| "proper t (Login tag user pw) \<longleftrightarrow> tag_word tag \<and> word user \<and> secret_text pw"
| "proper t (Inline tag mech resp) \<longleftrightarrow> tag_word tag \<and> word mech \<and> secret_text resp"
| "proper t (Prompted tag mech prompt payload) \<longleftrightarrow>
     tag_word tag \<and> word mech \<and> LF \<notin> set prompt \<and> secret_text payload \<and> \<not> tr_pending t"

text \<open>Every utterance is proper where it stands: an exchange begins only when the writer is not waiting for the payload
  of another.\<close>

fun calm :: "trace \<Rightarrow> utterance list \<Rightarrow> bool" where
  "calm t [] = True"
| "calm t (u # us) = (proper t u \<and> calm (snd (emit_lines t (wire u))) us)"

section \<open>Lines\<close>

lemma graphic_len: "33 \<le> byte c \<Longrightarrow> byte c < 127 \<Longrightarrow> space_len (c # r) = 0"
  by (simp add: space_len.simps(2) Let_def split: list.split)

lemma fields_word_at: "list_all (\<lambda>c. 33 \<le> byte c \<and> byte c < 127) s \<Longrightarrow> fields_at acc s = fields_at (rev s @ acc) []"
proof (induction s arbitrary: acc)
  case (Cons c s)
  then show ?case by (simp add: fields_at.simps(2) graphic_len)
qed simp

lemma fields_word: "word s \<Longrightarrow> fields_at [] s = [s]"
  using fields_word_at [of s "[]"] by (simp add: word_def)

lemma fields_acc: "acc \<noteq> [] \<Longrightarrow> fields_at acc s \<noteq> []"
proof (induction acc s rule: fields_at.induct)
  case (2 acc c cs)
  then show ?case by (simp add: fields_at.simps(2))
qed simp

lemma blank_trims: "fields_at [] s = [] \<Longrightarrow> trim_space_left s = []"
proof (induction s rule: trim_space_left.induct)
  case (1 s)
  show ?case
  proof (cases s)
    case Nil
    then show ?thesis by (simp add: trim_space_left.simps)
  next
    case (Cons c cs)
    show ?thesis
    proof (cases "space_len s = 0")
      case True
      with 1(2) Cons fields_acc [of "[c]" cs] show ?thesis by (simp add: fields_at.simps(2))
    next
      case False
      with 1(2) Cons have "fields_at [] (drop (space_len s) s) = []" by (simp add: fields_at.simps(2))
      with 1(1) False show ?thesis by (subst trim_space_left.simps) simp
    qed
  qed
qed

lemma secret_fields: "secret_text s \<Longrightarrow> \<exists>f fs. fields_at [] s = f # fs"
  using blank_trims [of s] by (cases "fields_at [] s") (auto simp: secret_text_def trim_space_def trim_space_right.simps space_tail_def)

lemma fields_command:
  "word a \<Longrightarrow> word b \<Longrightarrow> word c \<Longrightarrow> fields_str (a @ '' '' @ b @ '' '' @ c @ '' '' @ s) = a # b # c # fields_at [] s"
  "word a \<Longrightarrow> word b \<Longrightarrow> word c \<Longrightarrow> fields_str (a @ '' '' @ b @ '' '' @ c) = [a, b, c]"
proof -
  have sp: "fields_at [] (w @ '' '' @ r) = w # fields_at [] r" if "word w" for w r
    using fields_at_space [of "CHR '' ''" "[]" w r] fields_word [OF that] by (simp add: ascii_space_def)
  assume w: "word a" "word b" "word c"
  show "fields_str (a @ '' '' @ b @ '' '' @ c @ '' '' @ s) = a # b # c # fields_at [] s"
    unfolding fields_str_def by (simp only: sp w)
  show "fields_str (a @ '' '' @ b @ '' '' @ c) = [a, b, c]"
    unfolding fields_str_def by (simp only: sp w fields_word)
qed

lemma trim_starts:
  assumes "33 \<le> byte c" and "byte c < 127"
  shows "trim_space (c # s) \<noteq> []"
proof -
  note z = graphic_len [OF assms]
  have "trim_space_right (c # s) \<noteq> []"
  proof (induction "length s" arbitrary: s rule: less_induct)
    case less
    have small: "space_tail (c # s) \<le> length s"
    proof (rule ccontr)
      assume "\<not> ?thesis"
      then obtain k where k: "find (\<lambda>k. k \<le> length (c # s) \<and> space_len (drop (length (c # s) - k) (c # s)) = k) [1, 2, 3] = Some k"
        "length s < k" by (cases "find (\<lambda>k. k \<le> length (c # s) \<and> space_len (drop (length (c # s) - k) (c # s)) = k) [1, 2, 3]")
          (simp_all add: space_tail_def)
      then have "k \<le> length (c # s) \<and> space_len (drop (length (c # s) - k) (c # s)) = k" unfolding find_Some_iff by metis
      with k(2) have "k = length (c # s)" "space_len (c # s) = k" by auto
      with z show False by simp
    qed
    show ?case
    proof (cases "space_tail (c # s) = 0")
      case True
      then show ?thesis by (subst trim_space_right.simps) simp
    next
      case False
      define r where "r = take (length s - space_tail (c # s)) s"
      have "take (length (c # s) - space_tail (c # s)) (c # s) = c # r" using small by (simp add: r_def Suc_diff_le)
      moreover have "length r < length s" using small False by (simp add: r_def)
      ultimately show ?thesis using less False by (subst trim_space_right.simps) simp
    qed
  qed
  then show ?thesis by (simp add: trim_space_def trim_space_left.simps z)
qed

lemma tag_continues: "word tag \<Longrightarrow> is_continuation (tag @ '' '' @ r) \<longleftrightarrow> tag = ''+''"
proof -
  assume w: "word tag"
  have "has_prefix (tag @ '' '' @ r) ''+ '' \<longleftrightarrow> tag = ''+''"
  proof
    assume "has_prefix (tag @ '' '' @ r) ''+ ''"
    moreover obtain x xs where t: "tag = x # xs" using w by (cases tag) (auto simp: word_def)
    ultimately show "tag = ''+''" using w by (cases xs) (auto simp: has_prefix_def word_def)
  qed (simp add: has_prefix_def)
  moreover have "tag @ '' '' @ r \<noteq> ''+''" by (auto dest: arg_cong [of _ _ set])
  ultimately show ?thesis by (simp add: is_continuation_def)
qed

lemma line_not_blank: "word tag \<Longrightarrow> trim_space (tag @ r) \<noteq> []"
  using trim_starts by (cases tag) (auto simp: word_def)

definition payload_gone :: "trace \<Rightarrow> string \<times> trace" where
  "payload_gone t = (''<redacted SASL payload>'', t\<lparr>tr_pending := False, tr_auth := False\<rparr>)"

text \<open>A line of words that is no prompt ends an exchange before its words are looked at.\<close>

lemma redact_words_line:
  assumes "tag_word tag"
  shows "redact t (tag @ '' '' @ r) =
    (if tr_pending t then payload_gone t
     else (let (out, a) = redact_words [] (fields_str (tag @ '' '' @ r)) (tag @ '' '' @ r) False in (out, t\<lparr>tr_auth := a\<rparr>)))"
proof -
  have w: "word tag" "tag \<noteq> ''+''" using assms by (simp_all add: tag_word_def)
  note blank = line_not_blank [OF w(1), of "'' '' @ r"] and cont = tag_continues [OF w(1), of r]
  have "(if \<not> (trim_space (tag @ '' '' @ r) \<noteq> []) \<or> \<not> tr_auth t then t
     else if is_continuation (tag @ '' '' @ r) then t\<lparr>tr_pending := True\<rparr> else t\<lparr>tr_auth := False\<rparr>) = t\<lparr>tr_auth := False\<rparr>"
    using blank cont w(2) by auto
  with blank show ?thesis unfolding redact_def payload_gone_def Let_def
    by (simp only: simp_thms if_True if_False split: if_split) (simp split: prod.split)
qed

lemma redact_login:
  assumes "tag_word tag" and "word user" and "secret_text pw"
  shows "redact t (tag @ '' LOGIN '' @ user @ '' '' @ pw) =
    (if tr_pending t then payload_gone t else (tag @ '' LOGIN '' @ user @ '' <redacted>'', t\<lparr>tr_auth := False\<rparr>))"
proof -
  obtain f fs where f: "fields_at [] pw = f # fs" using secret_fields [OF assms(3)] by blast
  have "fields_str (tag @ '' '' @ ''LOGIN'' @ '' '' @ user @ '' '' @ pw) = tag # ''LOGIN'' # user # f # fs"
    using assms f by (subst fields_command(1)) (simp_all add: tag_word_def word_def)
  moreover have "equal_fold ''LOGIN'' ''LOGIN''" by (simp add: equal_fold_def)
  ultimately have "redact_words [] (fields_str (tag @ '' '' @ ''LOGIN'' @ '' '' @ user @ '' '' @ pw)) l a =
      (tag @ '' '' @ ''LOGIN'' @ '' '' @ user @ '' <redacted>'', a)" for l a
    using assms(1) by (simp add: tag_word_def)
  then show ?thesis using redact_words_line [OF assms(1), of t "''LOGIN'' @ '' '' @ user @ '' '' @ pw"] by simp
qed

lemma redact_inline:
  assumes "tag_word tag" and "word mech" and "secret_text resp"
  shows "redact t (tag @ '' AUTHENTICATE '' @ mech @ '' '' @ resp) =
    (if tr_pending t then payload_gone t
     else (tag @ '' AUTHENTICATE '' @ mech @ '' <redacted>'', t\<lparr>tr_auth := True\<rparr>))"
proof -
  obtain f fs where f: "fields_at [] resp = f # fs" using secret_fields [OF assms(3)] by blast
  have "fields_str (tag @ '' '' @ ''AUTHENTICATE'' @ '' '' @ mech @ '' '' @ resp) = tag # ''AUTHENTICATE'' # mech # f # fs"
    using assms f by (subst fields_command(1)) (simp_all add: tag_word_def word_def)
  moreover have "equal_fold ''AUTHENTICATE'' ''AUTHENTICATE''" "\<not> equal_fold ''AUTHENTICATE'' ''LOGIN''" by (simp_all add: equal_fold_def)
  ultimately have "redact_words [] (fields_str (tag @ '' '' @ ''AUTHENTICATE'' @ '' '' @ mech @ '' '' @ resp)) l a =
      (tag @ '' '' @ ''AUTHENTICATE'' @ '' '' @ mech @ '' <redacted>'', True)" for l a
    using assms(1) by (simp add: tag_word_def)
  then show ?thesis using redact_words_line [OF assms(1), of t "''AUTHENTICATE'' @ '' '' @ mech @ '' '' @ resp"] by simp
qed

lemma redact_begin:
  assumes "tag_word tag" and "word mech" and "\<not> tr_pending t"
  shows "redact t (tag @ '' AUTHENTICATE '' @ mech) = (tag @ '' AUTHENTICATE '' @ mech, t\<lparr>tr_auth := True\<rparr>)"
proof -
  have "fields_str (tag @ '' '' @ ''AUTHENTICATE'' @ '' '' @ mech) = [tag, ''AUTHENTICATE'', mech]"
    using assms by (subst fields_command(2)) (simp_all add: tag_word_def word_def)
  moreover have "equal_fold ''AUTHENTICATE'' ''AUTHENTICATE''" "\<not> equal_fold ''AUTHENTICATE'' ''LOGIN''" by (simp_all add: equal_fold_def)
  ultimately have "redact_words [] (fields_str (tag @ '' '' @ ''AUTHENTICATE'' @ '' '' @ mech)) l a =
      (tag @ '' '' @ ''AUTHENTICATE'' @ '' '' @ mech, True)" for l a
    using assms(1) by (simp add: tag_word_def)
  then show ?thesis using redact_words_line [OF assms(1), of t "''AUTHENTICATE'' @ '' '' @ mech"] assms(3) by simp
qed

lemma redact_payload: "tr_pending t \<Longrightarrow> secret_text p \<Longrightarrow> redact t p = payload_gone t"
  by (simp add: redact_def secret_text_def payload_gone_def)

text \<open>The server's prompt arms the writer whatever it says.\<close>

lemma redact_prompt:
  assumes "tr_auth t" and "\<not> tr_pending t"
  shows "tr_pending (snd (redact t (''+ '' @ r)))"
  using assms trim_starts [of "CHR ''+''" "'' '' @ r"] by (simp add: redact_def is_continuation_def has_prefix_def Let_def split: prod.split)

section \<open>What the trace gives away\<close>

lemma emit_one:
  assumes "LF \<notin> set l"
  shows "emit_lines t (l @ CR # LF # r) = (let (a, t1) = redact t l; (b, t2) = emit_lines t1 r in (a @ [CR, LF] @ b, t2))"
proof -
  have "cut LF (l @ CR # LF # r) = (l @ [CR], r, True)" using assms cut_append [of LF "l @ [CR]" r] by (simp add: CR_def LF_def)
  moreover have "split_eol (l @ [CR, LF]) = (l, [CR, LF])" by (simp add: split_eol_def has_suffix_def)
  ultimately show ?thesis by (subst emit_lines.simps) (simp add: emit_line_form Let_def split: prod.split)
qed

lemma emit_nothing [simp]: "emit_lines t [] = ([], t\<lparr>tr_buf := []\<rparr>)"
  by (subst emit_lines.simps) simp

lemma lines_leave_nothing:
  assumes "s = [] \<or> last s = LF"
  shows "tr_buf (snd (emit_lines t s)) = []"
proof (cases "s = []")
  case True
  then show ?thesis by simp
next
  case False
  with assms obtain a where s: "s = a @ [LF]" by (metis append_butlast_last_id)
  obtain o1 t1 where e: "emit_lines t a = (o1, t1)" by fastforce
  have "LF \<notin> set (tr_buf t1)" using waiting [OF e] by blast
  then have "cut LF (tr_buf t1 @ [LF]) = (tr_buf t1, [], True)" by (rule cut_append)
  then have "tr_buf (snd (emit_lines t1 (tr_buf t1 @ [LF]))) = []"
    by (subst emit_lines.simps) (simp split: prod.split)
  then show ?thesis using emit_lines_append [of t a "[LF]"] by (simp add: s e split_beta)
qed

lemma words_no_line: "word s \<Longrightarrow> LF \<notin> set s"
  by (auto simp: word_def list_all_iff LF_def)

lemma letters_no_line: "byte c \<noteq> 10 \<Longrightarrow> LF \<noteq> c"
  by (auto simp: LF_def)

lemma secrets_unseen:
  assumes "public u = public v" and "proper t u" and "proper t v"
  shows "emit_lines t (wire u) = emit_lines t (wire v)"
proof (cases u)
  case (Said s)
  with assms show ?thesis by (cases v) auto
next
  case (Login tag user p)
  with assms(1) obtain q where v: "v = Login tag user q" by (cases v) auto
  have "emit_lines t (wire (Login tag user r)) =
      (let (a, t1) = (if tr_pending t then payload_gone t else (tag @ '' LOGIN '' @ user @ '' <redacted>'', t\<lparr>tr_auth := False\<rparr>));
           (b, t2) = emit_lines t1 [] in (a @ [CR, LF] @ b, t2))" if "proper t (Login tag user r)" for r
  proof -
    have "LF \<notin> set (tag @ '' LOGIN '' @ user @ '' '' @ r)" using that by (auto simp: letters_no_line words_no_line tag_word_def secret_text_def)
    from emit_one [OF this, of t "[]"] show ?thesis using that redact_login [of tag user r t] by simp
  qed
  with assms Login v show ?thesis by simp
next
  case (Inline tag mech p)
  with assms(1) obtain q where v: "v = Inline tag mech q" by (cases v) auto
  have "emit_lines t (wire (Inline tag mech r)) =
      (let (a, t1) = (if tr_pending t then payload_gone t else (tag @ '' AUTHENTICATE '' @ mech @ '' <redacted>'', t\<lparr>tr_auth := True\<rparr>));
           (b, t2) = emit_lines t1 [] in (a @ [CR, LF] @ b, t2))" if "proper t (Inline tag mech r)" for r
  proof -
    have "LF \<notin> set (tag @ '' AUTHENTICATE '' @ mech @ '' '' @ r)"
      using that by (auto simp: letters_no_line words_no_line tag_word_def secret_text_def)
    from emit_one [OF this, of t "[]"] show ?thesis using that redact_inline [of tag mech r t] by simp
  qed
  with assms Inline v show ?thesis by simp
next
  case (Prompted tag mech prompt p)
  with assms(1) obtain q where v: "v = Prompted tag mech prompt q" by (cases v) auto
  define t1 where "t1 = t\<lparr>tr_auth := True\<rparr>"
  obtain b t2 where b: "redact t1 (''+ '' @ prompt) = (b, t2)" by fastforce
  have "emit_lines t (wire (Prompted tag mech prompt r)) =
      (let (c, t3) = payload_gone t2; (d, t4) = emit_lines t3 []
       in ((tag @ '' AUTHENTICATE '' @ mech) @ [CR, LF] @ b @ [CR, LF] @ c @ [CR, LF] @ d, t4))"
    if "proper t (Prompted tag mech prompt r)" for r
  proof -
    have "tr_pending t2" using redact_prompt [of t1 prompt] that b by (simp add: t1_def)
    then have c: "redact t2 r = payload_gone t2" using that by (simp add: redact_payload)
    have "redact t (tag @ '' AUTHENTICATE '' @ mech) = (tag @ '' AUTHENTICATE '' @ mech, t1)"
      using that redact_begin [of tag mech t] by (simp add: t1_def)
    moreover have "LF \<notin> set (tag @ '' AUTHENTICATE '' @ mech)" "LF \<notin> set (''+ '' @ prompt)" "LF \<notin> set r"
      using that by (auto simp: letters_no_line words_no_line tag_word_def secret_text_def)
    ultimately show ?thesis
      using emit_one [of "tag @ '' AUTHENTICATE '' @ mech" t "''+ '' @ prompt @ [CR, LF] @ r @ [CR, LF]"]
        emit_one [of "''+ '' @ prompt" t1 "r @ [CR, LF]"] emit_one [of r t2 "[]"] b c
      by (simp split: prod.splits)
  qed
  with assms Prompted v show ?thesis by simp
qed

lemma proper_ends: "proper t u \<Longrightarrow> wire u = [] \<or> last (wire u) = LF"
  by (cases u) auto

lemma conversations_alike:
  assumes "map public us = map public vs" and "calm t us" and "calm t vs"
  shows "emit_lines t (concat (map wire us)) = emit_lines t (concat (map wire vs))"
  using map_eq_imp_length_eq [OF assms(1)] assms
proof (induction us vs arbitrary: t rule: list_induct2)
  case (Cons u us v vs)
  then have e: "emit_lines t (wire u) = emit_lines t (wire v)" by (intro secrets_unseen) simp_all
  obtain a t1 where a: "emit_lines t (wire u) = (a, t1)" by fastforce
  with e have b: "emit_lines t (wire v) = (a, t1)" by simp
  have "tr_buf t1 = []" using lines_leave_nothing [of "wire u" t] proper_ends [of t u] Cons.prems(2) a by simp
  moreover have "emit_lines t1 (concat (map wire us)) = emit_lines t1 (concat (map wire vs))" using Cons a b by simp
  ultimately show ?case
    using emit_lines_append [of t "wire u" "concat (map wire us)"] emit_lines_append [of t "wire v" "concat (map wire vs)"] a b by simp
qed simp


lemma short_stretch: "n + length s < max_trace_line \<Longrightarrow> stretch n s"
  by (induction s arbitrary: n) auto

definition sample_talk :: "string \<Rightarrow> string \<Rightarrow> utterance list" where
  "sample_talk token pw =
     [Prompted ''T1'' ''XOAUTH2'' [] token, Said (''T1 NO refused'' @ [CR, LF]), Login ''T2'' ''me@example.org'' pw]"

lemma sample_calm: "secret_text token \<Longrightarrow> secret_text pw \<Longrightarrow> calm t (sample_talk token pw) = (\<not> tr_pending t)"
proof -
  have "tag_word ''T1''" "tag_word ''T2''" "word ''XOAUTH2''" "word ''me@example.org''"
    by (simp_all add: tag_word_def word_def equal_fold_def lower_byte_def)
  then show "secret_text token \<Longrightarrow> secret_text pw \<Longrightarrow> calm t (sample_talk token pw) = (\<not> tr_pending t)"
    by (simp add: sample_talk_def del: wire.simps)
qed


text \<open>What it does not hide: a password sent as a literal, which is how one with a byte beyond ASCII is sent; a payload
  whose prompt comes after a line of the server's; and the end of a line longer than the limit.\<close>

lemma literal_password_shown:
  "fst (write_all new_trace [''1 LOGIN b {2}'' @ [LF], ''+'' @ [LF], CHR 0xF8 # ''x'' @ [LF]]) =
   ''1 LOGIN b <redacted>'' @ [LF] @ ''+'' @ [LF] @ CHR 0xF8 # ''x'' @ [LF]"
  by code_simp

lemma payload_shown_after_untagged:
  "fst (write_all new_trace [''1 AUTHENTICATE X'' @ [LF], ''* OK'' @ [LF], ''+'' @ [LF], ''Yw'' @ [LF]]) =
   ''1 AUTHENTICATE X'' @ [LF] @ ''* OK'' @ [LF] @ ''+'' @ [LF] @ ''Yw'' @ [LF]"
  by code_simp

lemma long_line_shown:
  assumes "tag_word tag" and "word mech" and "secret_text resp" and "tag_word q"
    and "max_trace_line \<le> length (tag @ '' AUTHENTICATE '' @ mech @ '' '' @ resp)"
  shows "fst (write_all new_trace [tag @ '' AUTHENTICATE '' @ mech @ '' '' @ resp, q @ [CR, LF]]) =
    tag @ '' AUTHENTICATE '' @ mech @ '' <redacted>'' @ q @ [CR, LF]"
proof -
  define p where "p = tag @ '' AUTHENTICATE '' @ mech @ '' '' @ resp"
  have lf: "LF \<notin> set p" using assms(1-3) by (auto simp: p_def letters_no_line words_no_line tag_word_def secret_text_def)
  then have "split_eol p = (p, [])" by (auto simp: split_eol_def has_suffix_iff)
  moreover have "redact (new_trace\<lparr>tr_buf := p\<rparr>) p = (tag @ '' AUTHENTICATE '' @ mech @ '' <redacted>'', new_trace\<lparr>tr_buf := p, tr_auth := True\<rparr>)"
    using redact_inline [OF assms(1-3), of "new_trace\<lparr>tr_buf := p\<rparr>"] by (simp add: p_def new_trace_def)
  moreover have "emit_lines new_trace p = ([], new_trace\<lparr>tr_buf := p\<rparr>)" using lf by (subst emit_lines.simps) simp
  moreover have "max_trace_line \<le> length p" using assms(5) by (simp add: p_def)
  ultimately have one: "write_trace new_trace p = (tag @ '' AUTHENTICATE '' @ mech @ '' <redacted>'', new_trace\<lparr>tr_auth := True\<rparr>)"
    by (simp add: write_trace_def emit_line_form new_trace_def)
  have q: "word q" "LF \<notin> set q" using assms(4) words_no_line by (auto simp: tag_word_def)
  have "CHR '' '' \<notin> set q" using q(1) by (auto simp: word_def list_all_iff dest: bspec)
  then have "\<not> has_prefix q ''+ ''" by (auto simp: has_prefix_iff)
  then have "\<not> is_continuation q" using assms(4) q(1) by (auto simp: is_continuation_def tag_word_def word_def list_all_iff)
  then have "fst (redact (new_trace\<lparr>tr_auth := True\<rparr>) q) = q"
    using assms(4) fields_word [OF q(1)] by (auto simp: redact_def new_trace_def fields_str_def tag_word_def Let_def split: prod.split)
  then have "fst (emit_lines (new_trace\<lparr>tr_auth := True\<rparr>) (q @ [CR, LF])) = q @ [CR, LF]"
    using emit_one [OF q(2), of "new_trace\<lparr>tr_auth := True\<rparr>" "[]"] by (simp add: split_beta)
  moreover have "tr_buf (snd (emit_lines (new_trace\<lparr>tr_auth := True\<rparr>) (q @ [CR, LF]))) = []" by (rule lines_leave_nothing) simp
  ultimately have "fst (write_trace (new_trace\<lparr>tr_auth := True\<rparr>) (q @ [CR, LF])) = q @ [CR, LF]"
    by (simp add: write_trace_def split_beta max_trace_line_def new_trace_def)
  then show ?thesis using one unfolding p_def [symmetric] by (simp add: split_beta)
qed

end
