(* ===== verification/OAuth.thy ===== *)
theory OAuth
  imports Config
begin

text \<open>
  The OAuth exchanges (\<open>src/internal/oauthx/oauthx.go\<close>, \<open>login.go\<close>) and the command that performs the
  first of them (\<open>src/cmd/imapsync-go/oauth.go\<close>): a consent in a browser yields a refresh token, and a refresh
  token is traded for access tokens. The network and the browser are arguments - what a request is answered with,
  which redirects arrive -, and so are SHA-256, the random bytes, the decoder of JSON and the parser of URLs.
\<close>

section \<open>Forms and queries\<close>

type_synonym form = "(string \<times> string list) list"

definition query_plain :: "char \<Rightarrow> bool" where
  "query_plain c \<longleftrightarrow> alnum c \<or> List.member ''-_.~'' c"

definition query_escape :: "string \<Rightarrow> string" where
  "query_escape s =
     concat (map (\<lambda>c. if c = CHR '' '' then ''+'' else escape_with query_plain [c]) s)"

definition query_unescape :: "string \<Rightarrow> string option" where
  "query_unescape s = path_unescape (map (\<lambda>c. if c = CHR ''+'' then CHR '' '' else c) s)"

definition form_pairs :: "form \<Rightarrow> (string \<times> string) list" where
  "form_pairs f = concat (map (\<lambda>(k, vs). map (Pair k) vs) (sort_key fst f))"

definition encode_form :: "form \<Rightarrow> string" where
  "encode_form f = join_str (map (\<lambda>(k, v). query_escape k @ CHR ''='' # query_escape v) (form_pairs f)) ''&''"

text \<open>A pair that cannot be read is passed over.\<close>

definition read_pair :: "string \<Rightarrow> (string \<times> string) list" where
  "read_pair s =
     (if s = [] \<or> List.member s (CHR '';'') then []
      else
        (let (k, v, _) = cut (CHR ''='') s in
         case (query_unescape k, query_unescape v) of (Some a, Some b) \<Rightarrow> [(a, b)] | _ \<Rightarrow> []))"

definition parse_query :: "string \<Rightarrow> (string \<times> string) list" where
  "parse_query s = concat (map read_pair (split_str s ''&''))"

definition query_get :: "(string \<times> string) list \<Rightarrow> string \<Rightarrow> string" where
  "query_get q k = (case map_of q k of Some v \<Rightarrow> v | None \<Rightarrow> [])"

definition set_value :: "string \<Rightarrow> string \<Rightarrow> form \<Rightarrow> form" where
  "set_value k v f = filter (\<lambda>p. fst p \<noteq> k) f @ [(k, [v])]"

section \<open>Credentials\<close>

record credentials =
  cr_client_id :: string
  cr_client_secret :: string
  cr_refresh :: string
  cr_token_uri :: string
  cr_account :: string

datatype oauth_error =
  Missing string | NotJson | NoScopes | NotUrl string
| NoReply string | Unread | Provider string string int | NoAccessToken | NoRefreshToken
| NoListener | NoRandomness | NoConsent | WrongState | NoCode | NoSection
| NoClientFile | NowhereToStore | NotWrittenTo string | NoKeychainHere | KeychainFailed string

definition check_credentials :: "credentials \<Rightarrow> oauth_error option" where
  "check_credentials c =
     (if cr_client_id c = [] then Some (Missing ''client_id'')
      else if cr_refresh c = [] then Some (Missing ''refresh_token'')
      else if cr_token_uri c = [] then Some (Missing ''token_uri'')
      else None)"

definition parse_credentials :: "(string \<Rightarrow> credentials option) \<Rightarrow> string \<Rightarrow> oauth_error + credentials" where
  "parse_credentials json blob =
     (case json blob of
        None \<Rightarrow> Inl NotJson
      | Some c \<Rightarrow> (case check_credentials c of Some e \<Rightarrow> Inl e | None \<Rightarrow> Inr c))"

section \<open>The token request\<close>

record issued_token =
  tk_access :: string
  tk_refresh :: string
  tk_expires :: int

record token_reply =
  re_access :: string
  re_refresh :: string
  re_expires :: int
  re_error :: string
  re_description :: string

text \<open>No answer, or a status and a body, which may break off.\<close>

datatype http_reply = NoAnswer string | Answered int "string option"

text \<open>\<open>json\<close> is what the decoder leaves in the reply, which starts out empty and is read whether decoding failed or not.\<close>

definition exchange :: "(string \<Rightarrow> token_reply) \<Rightarrow> http_reply \<Rightarrow> oauth_error + issued_token" where
  "exchange json reply =
     (case reply of
        NoAnswer w \<Rightarrow> Inl (NoReply w)
      | Answered status None \<Rightarrow> Inl Unread
      | Answered status (Some body) \<Rightarrow>
          (let r = json (take (2 ^ 20) body) in
           if status \<noteq> 200 \<or> re_error r \<noteq> [] then Inl (Provider (re_error r) (re_description r) status)
           else if re_access r = [] then Inl NoAccessToken
           else Inr \<lparr>tk_access = re_access r, tk_refresh = re_refresh r, tk_expires = re_expires r\<rparr>))"

fun dead :: "oauth_error \<Rightarrow> bool" where
  "dead (Provider code _ _) = (code = ''invalid_grant'')"
| "dead _ = False"

fun provider_text :: "oauth_error \<Rightarrow> string" where
  "provider_text (Provider code description status) =
     (if code \<noteq> [] \<and> description \<noteq> [] then code @ '': '' @ description
      else if code \<noteq> [] then code
      else if description \<noteq> [] then description
      else ''the provider refused with HTTP '' @ show_nat (nat status))"
| "provider_text _ = []"

definition secret_values :: "string \<Rightarrow> string list" where
  "secret_values s = (if s = [] then [] else [s])"

definition refresh_form :: "credentials \<Rightarrow> form" where
  "refresh_form c =
     [(''grant_type'', [''refresh_token'']), (''refresh_token'', [cr_refresh c]), (''client_id'', [cr_client_id c])] @
     (if cr_client_secret c \<noteq> [] then [(''client_secret'', [cr_client_secret c])] else [])"

text \<open>A request is the address it goes to and the form it carries.\<close>

definition refresh_access ::
  "(string \<Rightarrow> token_reply) \<Rightarrow> (string \<Rightarrow> string \<Rightarrow> http_reply) \<Rightarrow> credentials \<Rightarrow> oauth_error + issued_token" where
  "refresh_access json post c = exchange json (post (cr_token_uri c) (encode_form (refresh_form c)))"

section \<open>Proof keys\<close>

definition base64_alphabet :: string where
  "base64_alphabet = ''ABCDEFGHIJKLMNOPQRSTUVWXYZabcdefghijklmnopqrstuvwxyz0123456789-_''"

fun base64url :: "string \<Rightarrow> string" where
  "base64url [] = []"
| "base64url [a] = [base64_alphabet ! (byte a div 4), base64_alphabet ! (byte a mod 4 * 16)]"
| "base64url [a, b] =
     [base64_alphabet ! (byte a div 4), base64_alphabet ! (byte a mod 4 * 16 + byte b div 16),
      base64_alphabet ! (byte b mod 16 * 4)]"
| "base64url (a # b # c # r) =
     base64_alphabet ! (byte a div 4) # base64_alphabet ! (byte a mod 4 * 16 + byte b div 16)
     # base64_alphabet ! (byte b mod 16 * 4 + byte c div 64) # base64_alphabet ! (byte c mod 64) # base64url r"

definition new_pkce :: "(string \<Rightarrow> string) \<Rightarrow> string \<Rightarrow> string \<times> string" where
  "new_pkce sha random = (let v = base64url random in (v, base64url (sha v)))"

section \<open>The consent\<close>

record client =
  cl_id :: string
  cl_secret :: string
  cl_auth_url :: string
  cl_token_url :: string
  cl_scopes :: "string list"

definition check_client :: "client \<Rightarrow> oauth_error option" where
  "check_client c =
     (if cl_id c = [] then Some (Missing ''client id'')
      else if cl_auth_url c = [] then Some (Missing ''authorization endpoint'')
      else if cl_token_url c = [] then Some (Missing ''token endpoint'')
      else if cl_scopes c = [] then Some NoScopes
      else None)"

text \<open>A URL is what stands before its query, the query, and what follows.\<close>

definition auth_code_url ::
  "(string \<Rightarrow> (string \<times> form \<times> string) option) \<Rightarrow> client \<Rightarrow> string \<Rightarrow> string \<Rightarrow> string \<Rightarrow> string \<Rightarrow> oauth_error + string" where
  "auth_code_url url c redirect st challenge hint =
     (case url (cl_auth_url c) of
        None \<Rightarrow> Inl (NotUrl (cl_auth_url c))
      | Some (front, q, tail) \<Rightarrow>
          (let q = fold (\<lambda>(k, v). set_value k v)
                     [(''client_id'', cl_id c), (''redirect_uri'', redirect), (''response_type'', ''code''),
                      (''scope'', join_str (cl_scopes c) '' ''), (''state'', st), (''code_challenge'', challenge),
                      (''code_challenge_method'', ''S256''), (''access_type'', ''offline''), (''prompt'', ''consent'')] q;
               q = (if hint \<noteq> [] then set_value ''login_hint'' hint q else q)
           in Inr (front @ ''?'' @ encode_form q @ tail)))"

text \<open>What one redirect comes to, and its answer's status.\<close>

definition answer_redirect :: "string \<Rightarrow> (string \<times> string) list \<Rightarrow> (oauth_error + string) \<times> int" where
  "answer_redirect st q =
     (if query_get q ''state'' \<noteq> st then (Inl WrongState, 400)
      else if query_get q ''error'' \<noteq> [] then (Inl (Provider (query_get q ''error'') (query_get q ''error_description'') 0), 400)
      else if query_get q ''code'' = [] then (Inl NoCode, 400)
      else (Inr (query_get q ''code''), 200))"

text \<open>The first redirect to arrive decides; none arriving in time is the end of the wait.\<close>

definition wait_for_code :: "string \<Rightarrow> string list \<Rightarrow> oauth_error + string" where
  "wait_for_code st arrived =
     (case arrived of [] \<Rightarrow> Inl NoConsent | q # _ \<Rightarrow> fst (answer_redirect st (parse_query q)))"

record login_says =
  lg_port :: "nat option"
  lg_verifier :: "string option"
  lg_state :: "string option"
  lg_redirects :: "string \<Rightarrow> string list"    \<comment> \<open>given the URL the user was sent to\<close>
  lg_post :: "string \<Rightarrow> string \<Rightarrow> http_reply"

definition redirect_uri :: "nat \<Rightarrow> string" where
  "redirect_uri port = ''http://127.0.0.1:'' @ show_nat port @ ''/''"

definition code_form :: "client \<Rightarrow> string \<Rightarrow> string \<Rightarrow> string \<Rightarrow> form" where
  "code_form c code redirect verifier =
     [(''grant_type'', [''authorization_code'']), (''code'', [code]), (''redirect_uri'', [redirect]),
      (''client_id'', [cl_id c]), (''client_secret'', secret_values (cl_secret c)), (''code_verifier'', [verifier])]"

definition from_option :: "oauth_error \<Rightarrow> 'a option \<Rightarrow> oauth_error + 'a" where
  "from_option e x = (case x of None \<Rightarrow> Inl e | Some y \<Rightarrow> Inr y)"

definition login ::
  "(string \<Rightarrow> string) \<Rightarrow> (string \<Rightarrow> token_reply) \<Rightarrow> (string \<Rightarrow> (string \<times> form \<times> string) option) \<Rightarrow> login_says \<Rightarrow> client \<Rightarrow> string \<Rightarrow>
     oauth_error + credentials" where
  "login sha json url says c hint =
     (case check_client c of
        Some e \<Rightarrow> Inl e
      | None \<Rightarrow>
          bind_err (from_option NoListener (lg_port says)) (\<lambda>port.
          bind_err (from_option NoRandomness (lg_verifier says)) (\<lambda>rv.
          bind_err (from_option NoRandomness (lg_state says)) (\<lambda>rs.
            let (verifier, challenge) = new_pkce sha rv; st = base64url rs; redirect = redirect_uri port in
          bind_err (auth_code_url url c redirect st challenge hint) (\<lambda>visit.
          bind_err (wait_for_code st (lg_redirects says visit)) (\<lambda>code.
          bind_err (exchange json (lg_post says (cl_token_url c) (encode_form (code_form c code redirect verifier)))) (\<lambda>t.
            if tk_refresh t = [] then Inl NoRefreshToken
            else Inr \<lparr>cr_client_id = cl_id c, cr_client_secret = cl_secret c, cr_refresh = tk_refresh t,
                      cr_token_uri = cl_token_url c, cr_account = []\<rparr>)))))))"

section \<open>The login command\<close>

record client_body =
  cb_id :: string
  cb_secret :: string
  cb_auth :: string
  cb_token :: string

definition parse_client_file :: "(string \<Rightarrow> (client_body option \<times> client_body option) option) \<Rightarrow> string \<Rightarrow> oauth_error + client" where
  "parse_client_file json blob =
     (case json blob of
        None \<Rightarrow> Inl NotJson
      | Some (installed, web) \<Rightarrow>
          (case (if installed \<noteq> None then installed else web) of
             None \<Rightarrow> Inl NoSection
           | Some b \<Rightarrow> Inr \<lparr>cl_id = cb_id b, cl_secret = cb_secret b, cl_auth_url = cb_auth b, cl_token_url = cb_token b, cl_scopes = []\<rparr>))"

record login_flags =
  lf_client_file :: string
  lf_client_id :: string
  lf_client_secret :: string
  lf_auth_url :: string
  lf_token_url :: string
  lf_scope :: "string list"
  lf_out :: string
  lf_keychain :: string
  lf_stdout :: bool
  lf_account :: string

definition login_client ::
  "(string \<Rightarrow> (client_body option \<times> client_body option) option) \<Rightarrow> (string \<Rightarrow> string option) \<Rightarrow> login_flags \<Rightarrow> oauth_error + client" where
  "login_client json read f =
     (if lf_client_file f \<noteq> [] then
        (case read (lf_client_file f) of
           None \<Rightarrow> Inl NoClientFile
         | Some raw \<Rightarrow>
             bind_err (parse_client_file json raw) (\<lambda>c.
               let c = (if lf_auth_url f \<noteq> [] then c\<lparr>cl_auth_url := lf_auth_url f\<rparr> else c)
               in Inr (if lf_token_url f \<noteq> [] then c\<lparr>cl_token_url := lf_token_url f\<rparr> else c)))
      else Inr \<lparr>cl_id = lf_client_id f, cl_secret = lf_client_secret f, cl_auth_url = lf_auth_url f,
                cl_token_url = lf_token_url f, cl_scopes = []\<rparr>)"

definition hex_encode :: "string \<Rightarrow> string" where
  "hex_encode s = concat (map (\<lambda>c. map lower_byte [hex_digit (byte c div 16), hex_digit (byte c mod 16)]) s)"

text \<open>The line written to the keychain tool's standard input.\<close>

definition keychain_line :: "string \<Rightarrow> string \<Rightarrow> string \<Rightarrow> string" where
  "keychain_line user service blob =
     ''add-generic-password -U -a '' @ user @ '' -s '' @ service @ '' -X '' @ hex_encode blob @ [CHR 0x0A]"

datatype stored = Printed string | WrittenTo string string | InKeychain string

definition store_credential ::
  "bool \<Rightarrow> (string \<Rightarrow> bool) \<Rightarrow> (string \<Rightarrow> bool \<times> string) \<Rightarrow> string \<Rightarrow> login_flags \<Rightarrow> string \<Rightarrow> string \<Rightarrow> oauth_error + stored" where
  "store_credential mac writes keychain user f blob one_line =
     (if lf_stdout f then Inr (Printed blob)
      else if lf_out f \<noteq> [] then (if writes (lf_out f) then Inr (WrittenTo (lf_out f) blob) else Inl (NotWrittenTo (lf_out f)))
      else if \<not> mac then Inl NoKeychainHere
      else
        (let line = keychain_line user (lf_keychain f) one_line; (ok, printed) = keychain line in
         if \<not> ok \<or> contains printed ''returned'' \<or> contains printed ''Usage:'' then Inl (KeychainFailed printed)
         else Inr (InKeychain line)))"

definition login_command ::
  "(string \<Rightarrow> (client_body option \<times> client_body option) option) \<Rightarrow> (string \<Rightarrow> string option) \<Rightarrow>
     (client \<Rightarrow> string \<Rightarrow> oauth_error + credentials) \<Rightarrow> (credentials \<Rightarrow> oauth_error + stored) \<Rightarrow> login_flags \<Rightarrow> oauth_error + stored" where
  "login_command json read consent place f =
     bind_err (login_client json read f) (\<lambda>c.
       if lf_scope f = [] then Inl NoScopes
       else if lf_out f = [] \<and> lf_keychain f = [] \<and> \<not> lf_stdout f then Inl NowhereToStore
       else
         (let c = c\<lparr>cl_scopes := lf_scope f\<rparr> in
          case check_client c of
            Some e \<Rightarrow> Inl e
          | None \<Rightarrow> bind_err (consent c (lf_account f)) place))"

section \<open>What is sent is what is read\<close>

lemma query_escape_plus: "map (\<lambda>c. if c = CHR ''+'' then CHR '' '' else c) (query_escape s) = escape_with (\<lambda>c. query_plain c \<or> c = CHR '' '') s"
proof (induction s)
  case (Cons c s)
  have hex: "hex_digit n \<noteq> CHR ''+''" if "n < 16" for n using hex_digit_alnum [OF that] by (auto simp: alnum_def is_digit_def)
  have "map (\<lambda>c. if c = CHR ''+'' then CHR '' '' else c) (escape_with query_plain [c]) = escape_with (\<lambda>c. query_plain c \<or> c = CHR '' '') [c]"
    if "c \<noteq> CHR '' ''"
  proof (cases "query_plain c")
    case True
    then have "c \<noteq> CHR ''+''" by (auto simp: query_plain_def alnum_def is_digit_def)
    with True show ?thesis by (simp add: escape_with_def)
  next
    case False
    have "byte c div 16 < 16" by (rule less_mult_imp_div_less) simp
    with False that hex [of "byte c div 16"] hex [of "byte c mod 16"] show ?thesis by (simp add: escape_with_def)
  qed
  then have "map (\<lambda>c. if c = CHR ''+'' then CHR '' '' else c) (if c = CHR '' '' then ''+'' else escape_with query_plain [c]) =
      escape_with (\<lambda>c. query_plain c \<or> c = CHR '' '') [c]"
    by (cases "c = CHR '' ''") (simp_all add: escape_with_def)
  moreover have "query_escape (c # s) = (if c = CHR '' '' then ''+'' else escape_with query_plain [c]) @ query_escape s"
    "escape_with (\<lambda>c. query_plain c \<or> c = CHR '' '') (c # s) =
      escape_with (\<lambda>c. query_plain c \<or> c = CHR '' '') [c] @ escape_with (\<lambda>c. query_plain c \<or> c = CHR '' '') s"
    by (simp_all add: query_escape_def escape_with_def)
  ultimately show ?case using Cons by (simp only: map_append)
qed (simp add: query_escape_def escape_with_def)

lemma query_round_trip: "query_unescape (query_escape s) = Some s"
  unfolding query_unescape_def query_escape_plus
  by (rule path_unescape_escape) (simp add: query_plain_def alnum_def is_digit_def)

interpretation query_text: codec query_escape query_unescape "\<lambda>_. True"
  by unfold_locales (rule query_round_trip)

lemma query_escape_chars: "c \<in> set (query_escape s) \<Longrightarrow> query_plain c \<or> c = CHR ''+'' \<or> c = CHR ''%''"
proof -
  have "query_plain c \<or> c = CHR ''+'' \<or> c = CHR ''%''" if x: "c \<in> set (if x = CHR '' '' then ''+'' else escape_with query_plain [x])" for x
    using x escaped_chars [of c query_plain "[x]"] hex_digit_alnum by (auto simp: query_plain_def split: if_splits)
  moreover assume "c \<in> set (query_escape s)"
  then obtain x where "c \<in> set (if x = CHR '' '' then ''+'' else escape_with query_plain [x])"
    unfolding query_escape_def set_concat set_map by blast
  ultimately show ?thesis .
qed

lemma query_escape_free: "CHR ''&'' \<notin> set (query_escape s)" "CHR ''='' \<notin> set (query_escape s)" "CHR '';'' \<notin> set (query_escape s)"
  using query_escape_chars [of "CHR ''&''" s] query_escape_chars [of "CHR ''=''" s] query_escape_chars [of "CHR '';''" s]
  by (auto simp: query_plain_def alnum_def is_digit_def)

lemma read_written_pair: "read_pair (query_escape k @ CHR ''='' # query_escape v) = [(k, v)]"
  using query_escape_free [of k] query_escape_free [of v]
  by (simp add: read_pair_def cut_append query_text.dec_enc)

text \<open>A form reads back as the pairs it was written from, keys in order, whatever the keys and the values hold: no
  secret, code or address can add a field to a request or end one early.\<close>

theorem form_reads_back: "parse_query (encode_form f) = form_pairs f"
proof (cases "form_pairs f = []")
  case True
  then show ?thesis by (simp add: parse_query_def encode_form_def split_str_def read_pair_def)
next
  case False
  let ?ws = "map (\<lambda>(k, v). query_escape k @ CHR ''='' # query_escape v) (form_pairs f)"
  have "split_str (join_str ?ws ''&'') ''&'' = ?ws" using False query_escape_free by (intro split_join) (auto simp: split_beta)
  then show ?thesis
    unfolding parse_query_def encode_form_def by (simp add: o_def split_beta read_written_pair concat_map_singleton)
qed

section \<open>Keys of a proof\<close>

lemma alphabet_unreserved: "n < 64 \<Longrightarrow> query_plain (base64_alphabet ! n)"
proof -
  assume "n < 64"
  moreover have "list_all query_plain base64_alphabet" by code_simp
  moreover have "length base64_alphabet = 64" by (simp add: base64_alphabet_def)
  ultimately show ?thesis by (simp add: list_all_length)
qed

lemma sextets: "byte a div 4 < 64" "byte a mod 4 * 16 < 64" "byte a mod 4 * 16 + byte b div 16 < 64"
  "byte b mod 16 * 4 < 64" "byte b mod 16 * 4 + byte c div 64 < 64" "byte c mod 64 < 64"
proof -
  have "byte a < 256" "byte b < 256" "byte c < 256" by simp_all
  then have "byte b div 16 < 16" "byte c div 64 < 4" "byte a div 4 < 64" by (simp_all add: less_mult_imp_div_less)
  moreover have "byte a mod 4 < 4" "byte b mod 16 < 16" by simp_all
  ultimately show "byte a div 4 < 64" "byte a mod 4 * 16 < 64" "byte a mod 4 * 16 + byte b div 16 < 64"
    "byte b mod 16 * 4 < 64" "byte b mod 16 * 4 + byte c div 64 < 64" "byte c mod 64 < 64" by linarith+
qed

lemma base64url_unreserved: "list_all query_plain (base64url s)"
  by (induction s rule: base64url.induct) (simp_all add: alphabet_unreserved sextets)

lemma base64url_length: "length (base64url s) = (4 * length s + 2) div 3"
  by (induction s rule: base64url.induct) simp_all

text \<open>A verifier of 64 random bytes has a length the protocol allows, 43 to 128, and unreserved characters only.\<close>

lemma verifier_is_allowed:
  "length r = 64 \<Longrightarrow> new_pkce sha r = (v, ch) \<Longrightarrow> 43 \<le> length v \<and> length v \<le> 128 \<and> list_all query_plain v \<and> list_all query_plain ch"
  by (auto simp: new_pkce_def Let_def base64url_length base64url_unreserved)

section \<open>A consent that counts\<close>

lemma from_option_Inr: "from_option e x = Inr y \<longleftrightarrow> x = Some y"
  by (cases x) (auto simp: from_option_def)


definition sample_client :: client where
  "sample_client = \<lparr>cl_id = ''app'', cl_secret = [], cl_auth_url = ''https://a/'', cl_token_url = ''https://t/'', cl_scopes = [''mail'']\<rparr>"

definition sample_login :: login_says where
  "sample_login =
     \<lparr>lg_port = Some 4, lg_verifier = Some ''abc'', lg_state = Some ''xyz'',
      lg_redirects = (\<lambda>visit. [''code=c1&state='' @ base64url ''xyz'']),
      lg_post = (\<lambda>uri f. Answered 200 (Some f))\<rparr>"


section \<open>Where the credential goes\<close>

text \<open>The login command never stores or prints what the flags did not ask for.\<close>

lemma stored_where_asked:
  assumes "login_command json read consent (\<lambda>cr. store_credential mac writes keychain user f (blob cr) (one_line cr)) f = Inr s"
  shows "case s of Printed _ \<Rightarrow> lf_stdout f | WrittenTo p _ \<Rightarrow> p = lf_out f \<and> p \<noteq> [] | InKeychain _ \<Rightarrow> lf_keychain f \<noteq> []"
  using assms by (auto simp: login_command_def store_credential_def bind_err_Inr_iff Let_def split: if_splits option.splits prod.splits)

text \<open>The secret reaches the keychain tool in hexadecimal, so its own quoting does not matter; the service does not,
  and one with a line end in it is a second command.\<close>

lemma hex_encode_chars: "c \<in> set (hex_encode s) \<Longrightarrow> is_digit c \<or> (97 \<le> byte c \<and> byte c \<le> 102)"
proof -
  have "is_digit (lower_byte (hex_digit n)) \<or> (97 \<le> byte (lower_byte (hex_digit n)) \<and> byte (lower_byte (hex_digit n)) \<le> 102)" if "n < 16" for n
    using that by (auto simp: hex_digit_def lower_byte_def is_digit_def)
  moreover have "byte d div 16 < 16" "byte d mod 16 < 16" for d :: char by (rule less_mult_imp_div_less, simp) simp
  moreover assume "c \<in> set (hex_encode s)"
  then obtain d n where "c = lower_byte (hex_digit n)" "n = byte d div 16 \<or> n = byte d mod 16" by (auto simp: hex_encode_def)
  ultimately show ?thesis by metis
qed

lemma service_adds_a_command:
  "split_str (keychain_line ''u'' ([CHR ''a'', CHR 0x0A] @ ''list-keychains'') []) [CHR 0x0A] =
   [''add-generic-password -U -a u -s a'', ''list-keychains -X '', []]"
  by code_simp

text \<open>The first redirect ends the wait, whoever sent it: one without this login's state, as any page can make a browser
  send, ends the login.\<close>

lemma stray_redirect_ends_login: "query_get (parse_query q) ''state'' \<noteq> st \<Longrightarrow> wait_for_code st (q # qs) = Inl WrongState"
  by (simp add: wait_for_code_def answer_redirect_def)

text \<open>A secret given along with a client file is passed over.\<close>

lemma client_file_silences_the_secret:
  "lf_client_file f \<noteq> [] \<Longrightarrow> login_client json read (f\<lparr>lf_client_secret := s\<rparr>) = login_client json read f"
  by (cases "read (lf_client_file f)"; cases "lf_auth_url f = []"; cases "lf_token_url f = []") (simp_all add: login_client_def)

end
