(* ===== verification/Credential.thy ===== *)
theory Credential
  imports OAuth
begin

text \<open>
  What a connection authenticates with and how it is established (\<open>src/internal/imapx/credential.go\<close>,
  \<open>token.go\<close>, \<open>xoauth2.go\<close> and the dialling half of \<open>client.go\<close>). A password is a constant, a token
  is held until a server refuses it and then minted anew, once for all connections that share it. The network,
  the minting command and the clock are arguments.
\<close>

section \<open>Credentials\<close>

datatype mechanism = LoginMechanism | XOAuth2

text \<open>A token holder: the token held, under a mutex, and how often its source has been asked.\<close>

record holder =
  ho_held :: string
  ho_asked :: nat

definition new_holder :: holder where
  "new_holder = \<lparr>ho_held = [], ho_asked = 0\<rparr>"

type_synonym 'e source = "nat \<Rightarrow> 'e + string"

definition hold_secret :: "'e source \<Rightarrow> holder \<Rightarrow> ('e + string) \<times> holder" where
  "hold_secret source h =
     (if ho_held h \<noteq> [] then (Inr (ho_held h), h)
      else
        (case source (ho_asked h) of
           Inl e \<Rightarrow> (Inl e, h\<lparr>ho_asked := ho_asked h + 1\<rparr>)
         | Inr t \<Rightarrow> (Inr t, \<lparr>ho_held = t, ho_asked = ho_asked h + 1\<rparr>)))"

text \<open>\<open>Inr None\<close>: there is nothing better to be had.\<close>

definition hold_refresh :: "'e source \<Rightarrow> string \<Rightarrow> holder \<Rightarrow> ('e + string option) \<times> holder" where
  "hold_refresh source stale h =
     (if ho_held h \<noteq> [] \<and> ho_held h \<noteq> stale then (Inr (Some (ho_held h)), h)
      else
        (case source (ho_asked h) of
           Inl e \<Rightarrow> (Inl e, h\<lparr>ho_asked := ho_asked h + 1\<rparr>)
         | Inr fresh \<Rightarrow>
             if fresh = stale then (Inr None, h\<lparr>ho_asked := ho_asked h + 1\<rparr>)
             else (Inr (Some fresh), \<lparr>ho_held = fresh, ho_asked = ho_asked h + 1\<rparr>)))"

datatype 'e credential = Password string | Holding "'e source"

definition mechanism_of :: "'e credential \<Rightarrow> mechanism" where
  "mechanism_of c = (case c of Password _ \<Rightarrow> LoginMechanism | Holding _ \<Rightarrow> XOAuth2)"

definition secret_of :: "'e credential \<Rightarrow> holder \<Rightarrow> ('e + string) \<times> holder" where
  "secret_of c h = (case c of Password p \<Rightarrow> (Inr p, h) | Holding s \<Rightarrow> hold_secret s h)"

definition refresh_of :: "'e credential \<Rightarrow> string \<Rightarrow> holder \<Rightarrow> ('e + string option) \<times> holder" where
  "refresh_of c stale h = (case c of Password p \<Rightarrow> (Inr None, h) | Holding s \<Rightarrow> hold_refresh s stale h)"

section \<open>Where tokens come from\<close>

datatype source_error =
  CommandFailed string string | PrintedNothing | FileUnread string | FileEmpty string
| CredentialDead oauth_error | RefreshFailed oauth_error | Misconfigured config_error | BadCredential oauth_error

definition default_token_timeout :: duration where
  "default_token_timeout = 30 * 10 ^ 9"

definition bounded_timeout :: "duration \<Rightarrow> duration" where
  "bounded_timeout t = (if t \<le> 0 then default_token_timeout else t)"

text \<open>A command answers with its failure, if it failed, and what it wrote to its two outputs.\<close>

definition command_token :: "(duration \<Rightarrow> string \<Rightarrow> string option \<times> string \<times> string) \<Rightarrow> string \<Rightarrow> duration \<Rightarrow> source_error + string" where
  "command_token run command timeout =
     (let (failed, out, err) = run (bounded_timeout timeout) command in
      case failed of
        Some e \<Rightarrow> Inl (CommandFailed e (trim_space err))
      | None \<Rightarrow> (let t = trim_space out in if t = [] then Inl PrintedNothing else Inr t))"

definition file_token :: "(string \<Rightarrow> string option) \<Rightarrow> string \<Rightarrow> source_error + string" where
  "file_token read path =
     (case read path of
        None \<Rightarrow> Inl (FileUnread path)
      | Some raw \<Rightarrow> (let t = trim_space raw in if t = [] then Inl (FileEmpty path) else Inr t))"

text \<open>The refresh token is kept up to date in memory: the one the provider rotated in is the one presented next.\<close>

definition refresh_token ::
  "(string \<Rightarrow> token_reply) \<Rightarrow> (string \<Rightarrow> string \<Rightarrow> http_reply) \<Rightarrow> credentials \<Rightarrow> (source_error + string) \<times> credentials" where
  "refresh_token json post c =
     (case refresh_access json post c of
        Inl e \<Rightarrow> (Inl (if dead e then CredentialDead e else RefreshFailed e), c)
      | Inr t \<Rightarrow>
          (Inr (tk_access t),
           if tk_refresh t \<noteq> [] \<and> tk_refresh t \<noteq> cr_refresh c then c\<lparr>cr_refresh := tk_refresh t\<rparr> else c))"

text \<open>The \<open>n\<close>-th answer of a refresh token, whose exchanges \<open>post n\<close> follow one another.\<close>

fun rotated :: "(string \<Rightarrow> token_reply) \<Rightarrow> (nat \<Rightarrow> string \<Rightarrow> string \<Rightarrow> http_reply) \<Rightarrow> credentials \<Rightarrow> nat \<Rightarrow> credentials" where
  "rotated json post c 0 = c"
| "rotated json post c (Suc n) = snd (refresh_token json (post n) (rotated json post c n))"

definition refresh_source :: "(string \<Rightarrow> token_reply) \<Rightarrow> (nat \<Rightarrow> string \<Rightarrow> string \<Rightarrow> http_reply) \<Rightarrow> credentials \<Rightarrow> source_error source" where
  "refresh_source json post c n = fst (refresh_token json (post n) (rotated json post c n))"

record world =
  wo_outside :: outside
  wo_credentials :: "string \<Rightarrow> credentials option"
  wo_reply :: "string \<Rightarrow> token_reply"
  wo_post :: "nat \<Rightarrow> string \<Rightarrow> string \<Rightarrow> http_reply"
  wo_run :: "nat \<Rightarrow> duration \<Rightarrow> string \<Rightarrow> string option \<times> string \<times> string"
  wo_token_file :: "nat \<Rightarrow> string \<Rightarrow> string option"

definition credential_for :: "world \<Rightarrow> endpoint \<Rightarrow> source_error + source_error credential" where
  "credential_for w e =
     (let a = ep_oauth e in
      if oauth_set a then
        (if secret_set (oa_refresh a) then
           (case resolve_secret (wo_outside w) (oa_refresh a) of
              Inl x \<Rightarrow> Inl (Misconfigured x)
            | Inr blob \<Rightarrow>
                (case parse_credentials (wo_credentials w) blob of
                   Inl x \<Rightarrow> Inl (BadCredential x)
                 | Inr c \<Rightarrow> Inr (Holding (refresh_source (wo_reply w) (wo_post w) c))))
         else if oa_file a \<noteq> [] then Inr (Holding (\<lambda>n. file_token (wo_token_file w n) (oa_file a)))
         else Inr (Holding (\<lambda>n. command_token (wo_run w n) (oa_command a) (oa_timeout a))))
      else
        (case resolve_secret (wo_outside w) (ep_password e) of Inl x \<Rightarrow> Inl (Misconfigured x) | Inr p \<Rightarrow> Inr (Password p)))"

section \<open>The XOAUTH2 exchange\<close>

definition initial_response :: "string \<Rightarrow> string \<Rightarrow> string" where
  "initial_response user t = ''user='' @ user @ [CHR 0x01] @ ''auth=Bearer '' @ t @ [CHR 0x01, CHR 0x01]"

text \<open>The provider's reasons, of which the status and the scope are read: \<open>None\<close> where the challenge is no JSON.\<close>

definition refusal_reason :: "(string \<Rightarrow> (string \<times> string) option) \<Rightarrow> string \<Rightarrow> string" where
  "refusal_reason json challenge =
     (if challenge = [] then []
      else
        (case json challenge of
           None \<Rightarrow> trim_space challenge
         | Some (status, scope) \<Rightarrow>
             (let parts = (if status \<noteq> [] then [''status '' @ status] else []) @ (if scope \<noteq> [] then [''scope '' @ scope] else [])
              in if parts = [] then trim_space challenge else join_str parts '', '')))"

section \<open>Establishing a session\<close>

datatype session_error =
  NoSecret string source_error | CannotDial string | StartTlsFailed string | CredentialRefused string string
| SessionTimedOut | RenewalFailed source_error session_error | StillRefused session_error

text \<open>What the network does to one attempt: whether the transport comes up, whether it is upgraded, what the server
  answers the credential with, and whether the context ends before any of this is done.\<close>

record attempt =
  at_dial :: "string option"
  at_starttls :: "string option"
  at_offer :: "mechanism \<Rightarrow> string \<Rightarrow> string \<Rightarrow> string option"
  at_over :: bool

datatype event = Connected bool | Upgraded | Offered mechanism string

definition dial_raw :: "attempt \<Rightarrow> tls_mode \<Rightarrow> (session_error + unit) \<times> event list" where
  "dial_raw a mode =
     (case at_dial a of
        Some e \<Rightarrow> (Inl (CannotDial e), [])
      | None \<Rightarrow> (Inr (), [Connected (mode = TLSImplicit)]))"

definition authenticate :: "attempt \<Rightarrow> address \<Rightarrow> mechanism \<Rightarrow> string \<Rightarrow> (session_error + unit) \<times> event list" where
  "authenticate a addr mech s =
     (let (up, evs) = (if a_tls addr = TLSStartTLS
                       then (case at_starttls a of Some e \<Rightarrow> (Inl (StartTlsFailed e), []) | None \<Rightarrow> (Inr (), [Upgraded]))
                       else (Inr (), []))
      in case up of
           Inl e \<Rightarrow> (Inl e, evs)
         | Inr _ \<Rightarrow>
             (case at_offer a mech (a_user addr) s of
                Some e \<Rightarrow> (Inl (CredentialRefused (a_user addr) e), evs @ [Offered mech s])
              | None \<Rightarrow> (Inr (), evs @ [Offered mech s])))"

text \<open>Past the transport, the attempt is raced against the context; what was offered by then was offered.\<close>

definition establish :: "attempt \<Rightarrow> address \<Rightarrow> mechanism \<Rightarrow> string \<Rightarrow> (session_error + unit) \<times> event list" where
  "establish a addr mech s =
     (case dial_raw a (a_tls addr) of
        (Inl e, evs) \<Rightarrow> (Inl e, evs)
      | (Inr _, evs) \<Rightarrow>
          (let (r, rest) = authenticate a addr mech s
           in (if at_over a then Inl SessionTimedOut else r, evs @ rest)))"

fun refused_credential :: "session_error \<Rightarrow> bool" where
  "refused_credential (CredentialRefused _ _) = True"
| "refused_credential _ = False"

definition dial :: "source_error credential \<Rightarrow> address \<Rightarrow> attempt \<Rightarrow> attempt \<Rightarrow> holder \<Rightarrow> (session_error + unit) \<times> event list \<times> holder" where
  "dial cred addr a b h =
     (case secret_of cred h of
        (Inl e, h) \<Rightarrow> (Inl (NoSecret (a_user addr) e), [], h)
      | (Inr s, h) \<Rightarrow>
          (case establish a addr (mechanism_of cred) s of
             (Inr _, evs) \<Rightarrow> (Inr (), evs, h)
           | (Inl err, evs) \<Rightarrow>
               if \<not> refused_credential err then (Inl err, evs, h)
               else
                 (case refresh_of cred s h of
                    (Inl e, h) \<Rightarrow> (Inl (RenewalFailed e err), evs, h)
                  | (Inr None, h) \<Rightarrow> (Inl err, evs, h)
                  | (Inr (Some better), h) \<Rightarrow>
                      (case establish b addr (mechanism_of cred) better of
                         (Inl e, rest) \<Rightarrow> (Inl (StillRefused e), evs @ rest, h)
                       | (Inr _, rest) \<Rightarrow> (Inr (), evs @ rest, h)))))"

section \<open>One token for all\<close>

text \<open>The connections of a pool, in the order they get the mutex: \<open>None\<close> asks for the secret, \<open>Some t\<close> reports that
  \<open>t\<close> was refused.\<close>

fun hold_run :: "'e source \<Rightarrow> string option list \<Rightarrow> holder \<Rightarrow> holder" where
  "hold_run source [] h = h"
| "hold_run source (x # xs) h =
     hold_run source xs (case x of None \<Rightarrow> snd (hold_secret source h) | Some t \<Rightarrow> snd (hold_refresh source t h))"

definition earned :: "(nat \<Rightarrow> string) \<Rightarrow> string set \<Rightarrow> holder \<Rightarrow> bool" where
  "earned tok R h \<longleftrightarrow>
     (ho_held h = [] \<and> (\<forall>i < ho_asked h. tok i \<in> R)) \<or>
     (\<exists>k. ho_asked h = Suc k \<and> ho_held h = tok k \<and> (\<forall>i < k. tok i \<in> R))"

lemma earned_run:
  assumes "\<forall>n. source n = Inr (tok n) \<and> tok n \<noteq> []" and "inj tok" and "earned tok R h"
  shows "earned tok (R \<union> {t. Some t \<in> set xs}) (hold_run source xs h)"
  using assms(3)
proof (induction xs arbitrary: R h)
  case (Cons x xs)
  have same: "tok i = tok j \<longleftrightarrow> i = j" for i j using assms(2) by (simp add: inj_eq)
  have some: "([] = tok i) = False" for i using assms(1) by metis
  have "earned tok (R \<union> {t. x = Some t}) (case x of None \<Rightarrow> snd (hold_secret source h) | Some t \<Rightarrow> snd (hold_refresh source t h))"
    using Cons.prems assms(1) unfolding earned_def
    by (cases x) (auto simp: hold_secret_def hold_refresh_def less_Suc_eq same some split: if_splits)
  from Cons.IH [OF this] show ?case by (simp add: Un_assoc) (auto elim!: back_subst [of "\<lambda>S. earned tok S _"])
qed simp

text \<open>A pool that shares a token mints it once, and once more for each token a server refused, however many
  connections there are, however often they report the same refusal and in whatever order - as long as the source
  answers, never twice with the same token. What is given for a refused token is always another one.\<close>

theorem one_mint_per_refusal:
  assumes "\<forall>n. source n = Inr (tok n) \<and> tok n \<noteq> []" and "inj tok"
  shows "ho_asked (hold_run source xs new_holder) \<le> 1 + card {t. Some t \<in> set xs} \<and>
    (fst (hold_refresh source t h) = Inr (Some better) \<longrightarrow> better \<noteq> t)"
proof -
  let ?R = "{t. Some t \<in> set xs}" and ?h = "hold_run source xs new_holder"
  have fin: "finite ?R" by (rule finite_subset [of _ "set (map the xs)"]) (auto intro: image_eqI [of _ the "Some _"])
  have few: "n \<le> card ?R" if "\<forall>i < n. tok i \<in> ?R" for n
  proof -
    have "card (tok ` {..<n}) \<le> card ?R" using that by (intro card_mono fin) auto
    moreover have "card (tok ` {..<n}) = n" using assms(2) by (subst card_image) (auto intro: inj_on_subset)
    ultimately show ?thesis by simp
  qed
  have "earned tok ({} \<union> ?R) ?h" using assms by (intro earned_run) (simp_all add: earned_def new_holder_def)
  then obtain k where "ho_asked ?h \<le> Suc k" "\<forall>i < k. tok i \<in> ?R"
    unfolding earned_def by (metis Un_empty_left eq_iff le_SucI)
  then have "ho_asked ?h \<le> 1 + card ?R" using few [of k] by simp
  then show ?thesis by (auto simp: hold_refresh_def split: if_splits sum.splits)
qed

theorem one_mint_per_refusal_witness:
  "ho_asked (hold_run (\<lambda>n. Inr (CHR ''t'' # show_nat n) :: string + string) [None, None, Some ''t0'', Some ''t0'', None, Some ''t0''] new_holder) \<le> 2"
proof -
  let ?tok = "\<lambda>n. CHR ''t'' # show_nat n"
  have "inj ?tok" by (rule injI) (metis dec_value_show_nat list.inject)
  then have "ho_asked (hold_run (\<lambda>n. Inr (?tok n) :: string + string) [None, None, Some ''t0'', Some ''t0'', None, Some ''t0''] new_holder)
      \<le> 1 + card {t. Some t \<in> set [None, None, Some ''t0'', Some ''t0'', None, Some ''t0'']}"
    using one_mint_per_refusal [of "\<lambda>n. Inr (?tok n)" ?tok] by blast
  moreover have "{t. Some t \<in> set [None, None, Some ''t0'', Some ''t0'', None, Some ''t0'']} = {''t0''}" by auto
  ultimately show ?thesis by simp
qed

section \<open>What is offered, and over what\<close>

fun covered :: "bool \<Rightarrow> event list \<Rightarrow> bool" where
  "covered safe [] = True"
| "covered safe (Connected tls # es) = covered tls es"
| "covered safe (Upgraded # es) = covered True es"
| "covered safe (Offered m s # es) = (safe \<and> covered safe es)"

fun offers :: "event list \<Rightarrow> string list" where
  "offers [] = []"
| "offers (Offered m s # es) = s # offers es"
| "offers (e # es) = offers es"

lemma offers_append [simp]: "offers (a @ b) = offers a @ offers b"
  by (induction a rule: offers.induct) simp_all

definition leads :: "attempt \<Rightarrow> address \<Rightarrow> mechanism \<Rightarrow> string \<Rightarrow> event list \<Rightarrow> bool" where
  "leads a addr m s evs \<longleftrightarrow>
     evs = [] \<or> evs = [Connected (a_tls addr = TLSImplicit)] \<or>
     (a_tls addr = TLSStartTLS \<and> (evs = [Connected False, Upgraded] \<or> evs = [Connected False, Upgraded, Offered m s])) \<or>
     (a_tls addr \<noteq> TLSStartTLS \<and> evs = [Connected (a_tls addr = TLSImplicit), Offered m s])"

lemma establish_leads: "establish a addr m s = (r, evs) \<Longrightarrow> leads a addr m s evs"
  by (auto simp: establish_def dial_raw_def authenticate_def leads_def Let_def
      split: option.splits if_splits prod.splits sum.splits)

lemma establish_refused:
  assumes "establish a addr m s = (Inl err, evs)" and "refused_credential err"
  shows "offers evs = [s] \<and> at_offer a m (a_user addr) s \<noteq> None"
  using assms by (auto simp: establish_def dial_raw_def authenticate_def Let_def
      split: option.splits if_splits prod.splits sum.splits)

lemma leads_covered: "leads a addr m s evs \<Longrightarrow> a_tls addr \<noteq> TLSNone \<Longrightarrow> covered b evs"
  by (cases "a_tls addr") (auto simp: leads_def)

lemma covered_append: "covered b es \<Longrightarrow> (\<And>c. covered c ds) \<Longrightarrow> covered b (es @ ds)"
  by (induction b es rule: covered.induct) auto

lemma leads_offers: "leads a addr m s evs \<Longrightarrow> offers evs = [] \<or> offers evs = [s]"
  by (auto simp: leads_def)

lemma refresh_is_another: "refresh_of c stale h = (Inr (Some better), h') \<Longrightarrow> better \<noteq> stale \<and> mechanism_of c = XOAuth2"
  by (auto simp: refresh_of_def hold_refresh_def mechanism_of_def split: credential.splits sum.splits if_splits)

text \<open>C15: Over TLS, from the start or by an upgrade, nothing is offered before the transport is safe; a session is
  tried at most twice, never twice with the same secret, and the second time only with a token, after the server
  refused the first. A password is offered at most once.\<close>

theorem offers_are_covered_and_few:
  assumes "dial cred addr a b h = (r, evs, h')"
  shows "(a_tls addr \<noteq> TLSNone \<longrightarrow> covered False evs) \<and> distinct (offers evs) \<and> length (offers evs) \<le> 2 \<and>
    (mechanism_of cred = LoginMechanism \<longrightarrow> length (offers evs) \<le> 1) \<and>
    (length (offers evs) = 2 \<longrightarrow> at_offer a (mechanism_of cred) (a_user addr) (hd (offers evs)) \<noteq> None)"
proof -
  let ?m = "mechanism_of cred"
  obtain x g where x: "secret_of cred h = (x, g)" by fastforce
  show ?thesis
  proof (cases x)
    case (Inl e)
    with assms x show ?thesis by (auto simp: dial_def)
  next
    case (Inr s)
    obtain u es where u: "establish a addr ?m s = (u, es)" by fastforce
    note first = establish_leads [OF u]
    show ?thesis
    proof (cases "\<exists>err k better. u = Inl err \<and> refused_credential err \<and> refresh_of cred s g = (Inr (Some better), k)")
      case False
      with assms x Inr u have "evs = es" by (auto simp: dial_def split: sum.splits option.splits if_splits prod.splits)
      with first leads_covered [OF first] leads_offers [OF first] show ?thesis by auto
    next
      case True
      then obtain err k better where t: "u = Inl err" "refused_credential err" "refresh_of cred s g = (Inr (Some better), k)" by blast
      obtain v ds where v: "establish b addr ?m better = (v, ds)" by fastforce
      note second = establish_leads [OF v]
      from assms x Inr u t v have e: "evs = es @ ds" by (auto simp: dial_def split: sum.splits)
      have two: "offers es = [s]" "at_offer a ?m (a_user addr) s \<noteq> None"
        using establish_refused [OF u [unfolded t(1)] t(2)] by auto
      have "covered False evs" if "a_tls addr \<noteq> TLSNone"
        unfolding e by (rule covered_append) (rule leads_covered [OF first that], rule leads_covered [OF second that])
      with e two leads_offers [OF second] refresh_is_another [OF t(3)] show ?thesis by auto
    qed
  qed
qed

definition sample_attempt :: attempt where
  "sample_attempt = \<lparr>at_dial = None, at_starttls = None,
     at_offer = (\<lambda>m u s. if s = ''t1'' then None else Some ''expired''), at_over = False\<rparr>"

theorem offers_are_covered_and_few_witness:
  "(case dial (Holding (\<lambda>n. Inr [CHR ''t'', CHR ''1''])) \<lparr>a_host = ''h'', a_port = 143, a_user = ''u'', a_tls = TLSStartTLS\<rparr>
      sample_attempt sample_attempt \<lparr>ho_held = ''t0'', ho_asked = 1\<rparr> of
      (r, evs, h') \<Rightarrow> offers evs = [''t0'', ''t1''] \<and> covered False evs \<and> r = Inr () \<and> ho_held h' = ''t1'')"
proof -
  let ?d = "dial (Holding (\<lambda>n. Inr [CHR ''t'', CHR ''1''])) \<lparr>a_host = ''h'', a_port = 143, a_user = ''u'', a_tls = TLSStartTLS\<rparr>
      sample_attempt sample_attempt \<lparr>ho_held = ''t0'', ho_asked = 1\<rparr>"
  have d: "?d = (Inr (), [Connected False, Upgraded, Offered XOAuth2 ''t0'', Connected False, Upgraded, Offered XOAuth2 ''t1''],
      \<lparr>ho_held = ''t1'', ho_asked = 2\<rparr>)"
    by (simp add: dial_def secret_of_def refresh_of_def hold_secret_def hold_refresh_def mechanism_of_def establish_def
        dial_raw_def authenticate_def sample_attempt_def)
  from offers_are_covered_and_few [OF d] d show ?thesis by simp
qed

end
