(* ===== verification/StoreConn.thy ===== *)
theory StoreConn
  imports SyncDelete LocalSearch LocalStore
begin

text \<open>
  A directory of mail presented as an account (\<open>src/internal/localstore/store.go\<close>, \<open>conn.go\<close> and the
  opening of a folder in \<open>folder.go\<close>). The state is the tree on disk - each directory with its database, its
  message files and its shards -, the folders the process has open, and the counter behind UIDVALIDITY. The file
  system does what it is asked, save where an operation takes an argument saying which of its steps fails; \<open>now\<close>
  is the clock in seconds.
\<close>

section \<open>The tree\<close>

type_synonym path = string

record store_row =
  fo_name :: string
  fo_validity :: u32
  fo_next :: u32
  fo_subscribed :: bool

record folder_db =
  fd_row :: "store_row option"
  fd_messages :: "u32 \<rightharpoonup> row"

text \<open>A database that does not open, or fails its own check, is broken; one without a schema has nothing in it.\<close>

datatype db_file = NoDb | BrokenDb | Db folder_db

record node =
  nd_db :: db_file
  nd_files :: directory
  nd_shards :: "string list"

definition empty_db :: folder_db where
  "empty_db = \<lparr>fd_row = None, fd_messages = Map.empty\<rparr>"

definition empty_node :: node where
  "empty_node = \<lparr>nd_db = NoDb, nd_files = [], nd_shards = []\<rparr>"

text \<open>A folder the process has open; \<open>ha_cached\<close> where its database is (\<open>db\<close> is not nil).\<close>

record handle =
  ha_name :: string
  ha_validity :: u32
  ha_next :: u32
  ha_subscribed :: bool
  ha_cached :: bool

text \<open>\<open>so_folds\<close>: the file system does not distinguish upper and lower case.\<close>

record store =
  so_tree :: "(path \<times> node) list"
  so_open :: "path \<rightharpoonup> handle"
  so_read_only :: bool
  so_closed :: bool
  so_seen :: u32
  so_folds :: bool

datatype store_error =
  NoMailbox | StoreIsReadOnly | MailboxIsReadOnly | StoreClosed | NoSuchFolder string
| CaseCollision string string | NotADirectory | Unopened path | CannotRead nat | NotAppended string
| NotDeleted nat | NotStored nat | SearchFailed string

definition same_path :: "store \<Rightarrow> path \<Rightarrow> path \<Rightarrow> bool" where
  "same_path s p q = (if so_folds s then equal_fold p q else p = q)"

fun look_up :: "(path \<Rightarrow> bool) \<Rightarrow> (path \<times> node) list \<Rightarrow> node option" where
  "look_up same [] = None"
| "look_up same ((p, n) # t) = (if same p then Some n else look_up same t)"

fun put_node :: "(path \<Rightarrow> bool) \<Rightarrow> path \<Rightarrow> node \<Rightarrow> (path \<times> node) list \<Rightarrow> (path \<times> node) list" where
  "put_node same p n [] = [(p, n)]"
| "put_node same p n ((q, m) # t) = (if same q then (q, n) # t else (q, m) # put_node same p n t)"

definition node_at :: "store \<Rightarrow> path \<Rightarrow> node option" where
  "node_at s p = look_up (\<lambda>q. same_path s q p) (so_tree s)"

definition set_node :: "path \<Rightarrow> node \<Rightarrow> store \<Rightarrow> store" where
  "set_node p n s = s\<lparr>so_tree := put_node (\<lambda>q. same_path s q p) p n (so_tree s)\<rparr>"

definition segments :: "path \<Rightarrow> string list" where
  "segments p = filter (\<lambda>x. x \<noteq> []) (split_str p ''/'')"

text \<open>\<open>filepath.Base\<close> and \<open>filepath.Dir\<close> of a path below the root, and the directories in one of them.\<close>

definition leaf_of :: "path \<Rightarrow> string" where
  "leaf_of p = (if segments p = [] then [] else last (segments p))"

definition parent_of :: "path \<Rightarrow> path" where
  "parent_of p = join_str (butlast (segments p)) ''/''"

fun below :: "(string \<Rightarrow> string \<Rightarrow> bool) \<Rightarrow> string list \<Rightarrow> string list \<Rightarrow> string option" where
  "below same [] [] = None"
| "below same [] (x # xs) = Some x"
| "below same (a # as) [] = None"
| "below same (a # as) (x # xs) = (if same a x then below same as xs else None)"

definition children :: "store \<Rightarrow> path \<Rightarrow> string list" where
  "children s p = List.map_filter (\<lambda>(q, _). below (same_path s) (segments p) (segments q)) (so_tree s)"

text \<open>\<open>isFolderDir\<close>: a database, a shard or a message file.\<close>

definition is_folder_dir :: "node option \<Rightarrow> bool" where
  "is_folder_dir n =
     (case n of
        None \<Rightarrow> False
      | Some n \<Rightarrow>
          nd_db n \<noteq> NoDb \<or> list_ex is_shard_dir (nd_shards n) \<or>
          list_ex (\<lambda>(p, _). let (top, _, nested) = cut (CHR ''/'') p
                            in if nested then is_shard_dir top else is_message_name top) (nd_files n))"

section \<open>Opening a folder\<close>

text \<open>\<open>createFolder\<close>: the directory is made if need be, and the row is written unless there is one. The
  counter moves either way.\<close>

definition create_folder :: "int \<Rightarrow> path \<Rightarrow> string \<Rightarrow> store \<Rightarrow> store_error option \<times> store" where
  "create_folder now p name s =
     (let n = (case node_at s p of Some n \<Rightarrow> n | None \<Rightarrow> empty_node) in
      case nd_db n of
        BrokenDb \<Rightarrow> (Some (Unopened p), set_node p n s)
      | db \<Rightarrow>
          (let d = (case db of Db d \<Rightarrow> d | _ \<Rightarrow> empty_db);
               (v, seen) = new_uid_validity now (so_seen s);
               row = (case fd_row d of
                        Some r \<Rightarrow> r
                      | None \<Rightarrow> \<lparr>fo_name = name, fo_validity = v, fo_next = 1, fo_subscribed = False\<rparr>)
           in (None, (set_node p (n\<lparr>nd_db := Db (d\<lparr>fd_row := Some row\<rparr>)\<rparr>) s)\<lparr>so_seen := seen\<rparr>)))"

definition folder_base :: "path \<Rightarrow> string" where
  "folder_base p = folder_name (leaf_of p)"

text \<open>\<open>rebuild\<close>, then \<open>load\<close>: what the handle starts with, and what the database holds afterwards.\<close>

definition usable_db :: "int \<Rightarrow> path \<Rightarrow> node \<Rightarrow> store \<Rightarrow> store_error + folder_db \<times> store" where
  "usable_db now p n s =
     (case nd_db n of
        NoDb \<Rightarrow> Inr (empty_db, s)
      | Db d \<Rightarrow> Inr (d, s)
      | BrokenDb \<Rightarrow>
          (case create_folder now p (folder_base p) (set_node p (n\<lparr>nd_db := NoDb\<rparr>) s) of
             (Some e, _) \<Rightarrow> Inl e
           | (None, s) \<Rightarrow>
               (case node_at s p of
                  Some m \<Rightarrow> (case nd_db m of Db d \<Rightarrow> Inr (d, s) | _ \<Rightarrow> Inl (Unopened p))
                | None \<Rightarrow> Inl (Unopened p))))"

definition load :: "int \<Rightarrow> path \<Rightarrow> folder_db \<Rightarrow> u32 \<Rightarrow> store_row \<times> u32" where
  "load now p d seen =
     (case fd_row d of
        Some r \<Rightarrow> (r, note_uid_validity (fo_validity r) seen)
      | None \<Rightarrow>
          (let (v, seen) = new_uid_validity now seen
           in (\<lparr>fo_name = folder_base p, fo_validity = v, fo_next = 1, fo_subscribed = False\<rparr>, seen)))"

text \<open>A folder as its handle, its database and its directory make it up, and what is left of it in them.\<close>

definition folder_view :: "handle \<Rightarrow> folder_db \<Rightarrow> directory \<Rightarrow> folder_state" where
  "folder_view h d files =
     \<lparr>uid_next = ha_next h, db_uid_next = (case fd_row d of Some r \<Rightarrow> fo_next r | None \<Rightarrow> 0),
      rows = fd_messages d, dir = files\<rparr>"

definition folder_store :: "path \<Rightarrow> handle \<Rightarrow> folder_db \<Rightarrow> node \<Rightarrow> folder_state \<Rightarrow> store \<Rightarrow> store" where
  "folder_store p h d n f s =
     (set_node p (n\<lparr>nd_db := Db \<lparr>fd_row = map_option (\<lambda>r. r\<lparr>fo_next := db_uid_next f\<rparr>) (fd_row d), fd_messages = rows f\<rparr>,
                    nd_files := dir f\<rparr>) s)\<lparr>so_open := (so_open s)(p \<mapsto> h\<lparr>ha_next := uid_next f\<rparr>)\<rparr>"

definition row_handle :: "store_row \<Rightarrow> bool \<Rightarrow> handle" where
  "row_handle r cached =
     \<lparr>ha_name = fo_name r, ha_validity = fo_validity r, ha_next = fo_next r, ha_subscribed = fo_subscribed r, ha_cached = cached\<rparr>"

definition open_folder :: "int \<Rightarrow> path \<Rightarrow> node \<Rightarrow> store \<Rightarrow> store_error option \<times> store" where
  "open_folder now p n s =
     (case usable_db now p n s of
        Inl e \<Rightarrow> (Some e, s)
      | Inr (d, s) \<Rightarrow>
          (let (r, seen) = load now p d (so_seen s);
               d = d\<lparr>fd_row := Some r\<rparr>; h = row_handle r True;
               f = reconcile (folder_view h d (nd_files n))
           in (None, folder_store p h d n f (s\<lparr>so_seen := seen\<rparr>))))"

text \<open>For a dry run nothing is written, and a database that cannot be read is done without.\<close>

definition open_folder_read_only :: "path \<Rightarrow> node \<Rightarrow> store \<Rightarrow> store" where
  "open_folder_read_only p n s =
     (case nd_db n of
        Db d \<Rightarrow>
          (case fd_row d of
             Some r \<Rightarrow> s\<lparr>so_open := (so_open s)(p \<mapsto> row_handle r True), so_seen := note_uid_validity (fo_validity r) (so_seen s)\<rparr>
           | None \<Rightarrow> s\<lparr>so_open := (so_open s)(p \<mapsto> \<lparr>ha_name = folder_base p, ha_validity = 0,
                        ha_next = max_uid (scan (nd_files n)) + 1, ha_subscribed = False, ha_cached = False\<rparr>)\<rparr>)
      | _ \<Rightarrow> s\<lparr>so_open := (so_open s)(p \<mapsto> \<lparr>ha_name = folder_base p, ha_validity = 0,
                 ha_next = max_uid (scan (nd_files n)) + 1, ha_subscribed = False, ha_cached = False\<rparr>)\<rparr>)"

section \<open>The store\<close>

definition store_open :: "int \<Rightarrow> string \<Rightarrow> store \<Rightarrow> (store_error + path) \<times> store" where
  "store_open now name s =
     (let p = folder_rel name in
      if so_closed s then (Inl StoreClosed, s)
      else if so_open s p \<noteq> None then (Inr p, s)
      else if \<not> is_folder_dir (node_at s p) then (Inl (NoSuchFolder name), s)
      else
        (let n = the (node_at s p) in
         if so_read_only s then (Inr p, open_folder_read_only p n s)
         else
           (case open_folder now p n s of
              (Some e, s) \<Rightarrow> (Inl e, s)
            | (None, s) \<Rightarrow> (Inr p, s))))"

definition tmp_name :: string where
  "tmp_name = ''.tmp''"

text \<open>\<open>checkCaseCollision\<close>: the name in the way, if there is one.\<close>

definition case_collision :: "path \<Rightarrow> store \<Rightarrow> string option" where
  "case_collision p s =
     find (\<lambda>c. \<not> is_shard_dir c \<and> c \<noteq> tmp_name \<and> c \<noteq> leaf_of p \<and> equal_fold c (leaf_of p)) (children s (parent_of p))"

definition store_create :: "int \<Rightarrow> string \<Rightarrow> store \<Rightarrow> store_error option \<times> store" where
  "store_create now name s =
     (let p = folder_rel name in
      if so_read_only s then (Some StoreIsReadOnly, s)
      else
        (case case_collision p s of
           Some c \<Rightarrow> (Some (CaseCollision name (folder_name c)), s)
         | None \<Rightarrow>
             if (case node_at s p of Some n \<Rightarrow> nd_db n \<noteq> NoDb | None \<Rightarrow> False) then (None, s)
             else create_folder now p name s))"

definition open_store :: "int \<Rightarrow> bool \<Rightarrow> u32 \<Rightarrow> (path \<times> node) list \<Rightarrow> store_error + store" where
  "open_store now folds seen tree =
     (case store_create now ''INBOX''
             \<lparr>so_tree = tree, so_open = Map.empty, so_read_only = False, so_closed = False, so_seen = seen, so_folds = folds\<rparr> of
        (Some e, _) \<Rightarrow> Inl e
      | (None, s) \<Rightarrow> Inr s)"

text \<open>\<open>found\<close>: what is at the path, \<open>Some True\<close> for a directory.\<close>

definition open_read_only :: "bool option \<Rightarrow> bool \<Rightarrow> u32 \<Rightarrow> (path \<times> node) list \<Rightarrow> store_error + store" where
  "open_read_only found folds seen tree =
     (case found of
        None \<Rightarrow> Inl (Unopened [])
      | Some is_dir \<Rightarrow>
          if \<not> is_dir then Inl NotADirectory
          else Inr \<lparr>so_tree = tree, so_open = Map.empty, so_read_only = True, so_closed = False, so_seen = seen, so_folds = folds\<rparr>)"

definition store_close :: "store \<Rightarrow> store" where
  "store_close s = (if so_closed s then s else s\<lparr>so_closed := True, so_open := Map.empty\<rparr>)"

text \<open>The folder's own record of its name, of the handle if it is open and of the database otherwise.\<close>

definition true_name :: "path \<Rightarrow> node \<Rightarrow> store \<Rightarrow> string" where
  "true_name p n s =
     (case so_open s p of
        Some h \<Rightarrow> ha_name h
      | None \<Rightarrow>
          (case nd_db n of
             Db d \<Rightarrow> (case fd_row d of Some r \<Rightarrow> fo_name r | None \<Rightarrow> [])
           | _ \<Rightarrow> []))"

definition listed_name :: "path \<Rightarrow> node \<Rightarrow> store \<Rightarrow> string" where
  "listed_name p n s = (if true_name p n s \<noteq> [] then true_name p n s else folder_name p)"

text \<open>\<open>list\<close> walks the tree; staging areas, shards and what is below them are passed by.\<close>

definition walked :: "path \<Rightarrow> bool" where
  "walked p \<longleftrightarrow> segments p \<noteq> [] \<and> list_all (\<lambda>x. x \<noteq> tmp_name \<and> \<not> is_shard_dir x) (segments p)"

definition store_list :: "store \<Rightarrow> string list" where
  "store_list s = sort (map (\<lambda>(p, n). listed_name p n s) (filter (\<lambda>(p, n). walked p \<and> is_folder_dir (Some n)) (so_tree s)))"

section \<open>A connection\<close>

record local_conn =
  cn_sel :: "path option"
  cn_read_only :: bool

definition connect :: "store \<Rightarrow> store_error + local_conn" where
  "connect s = (if so_closed s then Inl StoreClosed else Inr \<lparr>cn_sel = None, cn_read_only = False\<rparr>)"

definition files_at :: "store \<Rightarrow> path \<Rightarrow> directory" where
  "files_at s p = (case node_at s p of Some n \<Rightarrow> nd_files n | None \<Rightarrow> [])"

definition db_at :: "store \<Rightarrow> path \<Rightarrow> folder_db" where
  "db_at s p = (case node_at s p of Some n \<Rightarrow> (case nd_db n of Db d \<Rightarrow> d | _ \<Rightarrow> empty_db) | None \<Rightarrow> empty_db)"

definition folder_at :: "store \<Rightarrow> path \<Rightarrow> folder_state" where
  "folder_at s p = folder_view (the (so_open s p)) (db_at s p) (files_at s p)"

definition uid_list :: "directory \<Rightarrow> nat list" where
  "uid_list d = map unat (ordered (uids_of d))"

definition conn_select :: "int \<Rightarrow> string \<Rightarrow> bool \<Rightarrow> local_conn \<Rightarrow> store \<Rightarrow> (store_error + mailbox) \<times> local_conn \<times> store" where
  "conn_select now name ro c s =
     (case store_open now name s of
        (Inl e, s) \<Rightarrow> (Inl e, c, s)
      | (Inr p, s) \<Rightarrow>
          (let h = the (so_open s p)
           in (Inr \<lparr>box_name = ha_name h, box_validity = unat (ha_validity h),
                    box_messages = length (uid_list (files_at s p)) mod 2 ^ 32, box_modseq = 0, box_read_only = ro\<rparr>,
               c\<lparr>cn_sel := Some p, cn_read_only := ro\<rparr>, s)))"

definition conn_subscribe :: "int \<Rightarrow> string \<Rightarrow> store \<Rightarrow> store_error option \<times> store" where
  "conn_subscribe now name s =
     (if so_read_only s then (Some StoreIsReadOnly, s)
      else
        (case store_open now name s of
           (Inl e, s) \<Rightarrow> (Some e, s)
         | (Inr p, s) \<Rightarrow>
             (case node_at s p of
                None \<Rightarrow> (Some (Unopened p), s)
              | Some n \<Rightarrow>
                  (None, (set_node p (n\<lparr>nd_db := Db ((db_at s p)\<lparr>fd_row := map_option (\<lambda>r. r\<lparr>fo_subscribed := True\<rparr>) (fd_row (db_at s p))\<rparr>)\<rparr>) s)
                           \<lparr>so_open := (so_open s)(p := map_option (\<lambda>h. h\<lparr>ha_subscribed := True\<rparr>) (so_open s p))\<rparr>))))"

definition conn_uids :: "local_conn \<Rightarrow> store \<Rightarrow> store_error + nat list" where
  "conn_uids c s = (case cn_sel c of None \<Rightarrow> Inl NoMailbox | Some p \<Rightarrow> Inr (uid_list (files_at s p)))"

text \<open>\<open>records\<close>, from the database or, where it is done without, from the files.\<close>

definition conn_records :: "path \<Rightarrow> nat list option \<Rightarrow> store \<Rightarrow> entry_record list" where
  "conn_records p wanted s =
     (let ws = map_option (map word_of_nat) wanted in
      if (case so_open s p of Some h \<Rightarrow> ha_cached h | None \<Rightarrow> False) then records (folder_at s p) ws
      else disk_records (files_at s p) ws)"

definition file_at :: "store \<Rightarrow> path \<Rightarrow> nat \<Rightarrow> file_info option" where
  "file_at s p u = map_of (files_at s p) (message_rel u)"

definition header_chunk :: nat where "header_chunk = 8192"
definition max_header :: nat where "max_header = 2 ^ 20"

text \<open>\<open>readHeader\<close>: 8 KiB more are read until what is there has a header that ends, or the file or the bound does.\<close>

definition header_on_disk :: "string \<Rightarrow> string" where
  "header_on_disk raw =
     (case find (\<lambda>k. end_of_header (take (k * header_chunk) raw) \<noteq> None) [1..<max_header div header_chunk + 1] of
        Some k \<Rightarrow> take (the (end_of_header (take (k * header_chunk) raw))) raw
      | None \<Rightarrow> take max_header raw)"

definition unix_time :: "int \<Rightarrow> go_time" where
  "unix_time t = (t + 62135596800) * 10 ^ 9"

fun metas_of :: "store \<Rightarrow> path \<Rightarrow> string list \<Rightarrow> entry_record list \<Rightarrow> store_error + msg_meta list" where
  "metas_of s p wanted [] = Inr []"
| "metas_of s p wanted (r # rs) =
     bind_err (if wanted = [] then Inr []
               else (case file_at s p (unat (e_uid r)) of
                       None \<Rightarrow> Inl (CannotRead (unat (e_uid r)))
                     | Some i \<Rightarrow> Inr (select_fields (header_on_disk (file_data i)) wanted))) (\<lambda>h.
     bind_err (metas_of s p wanted rs) (\<lambda>ms.
       Inr (\<lparr>meta_uid = unat (e_uid r), meta_header = h, meta_size = e_size r, meta_flags = e_flags r,
             meta_date = unix_time (e_date r)\<rparr> # ms)))"

definition conn_meta :: "local_conn \<Rightarrow> nat list \<Rightarrow> string list \<Rightarrow> store \<Rightarrow> store_error + msg_meta list" where
  "conn_meta c us wanted s =
     (case cn_sel c of
        None \<Rightarrow> Inl NoMailbox
      | Some p \<Rightarrow> if us = [] then Inr [] else metas_of s p wanted (conn_records p (Some us) s))"

definition conn_body :: "local_conn \<Rightarrow> nat \<Rightarrow> store \<Rightarrow> store_error + string" where
  "conn_body c u s =
     (case cn_sel c of
        None \<Rightarrow> Inl NoMailbox
      | Some p \<Rightarrow> (case file_at s p u of None \<Rightarrow> Inl (CannotRead u) | Some i \<Rightarrow> Inr (file_data i)))"

definition conn_search_header :: "local_conn \<Rightarrow> string \<Rightarrow> string \<Rightarrow> store \<Rightarrow> store_error + nat list" where
  "conn_search_header c field v s =
     (case cn_sel c of
        None \<Rightarrow> Inl NoMailbox
      | Some p \<Rightarrow>
          Inr (filter (\<lambda>u. case file_at s p u of
                 None \<Rightarrow> False
               | Some i \<Rightarrow> header_contains (header_on_disk (file_data i)) field v) (uid_list (files_at s p))))"

text \<open>\<open>zone\<close> is the offset of the local zone at an instant.\<close>

definition search_record :: "(int \<Rightarrow> int) \<Rightarrow> entry_record \<Rightarrow> msg_record" where
  "search_record zone r = \<lparr>uid = unat (e_uid r), marks = e_flags r, arrived = (unix_time (e_date r), zone (e_date r)), bytes = e_size r\<rparr>"

definition conn_search ::
  "(num_set \<Rightarrow> nat \<Rightarrow> bool) \<Rightarrow> (string \<Rightarrow> zoned option) \<Rightarrow> (int \<Rightarrow> int) \<Rightarrow> local_conn \<Rightarrow> search \<Rightarrow> store \<Rightarrow> store_error + nat list" where
  "conn_search has mail_date zone c k s =
     (case cn_sel c of
        None \<Rightarrow> Inl NoMailbox
      | Some p \<Rightarrow>
          if is_zero k then Inr (uid_list (files_at s p))
          else
            (case evaluate has mail_date
                    (\<lambda>u. case file_at s p u of None \<Rightarrow> Inl ''no such file'' | Some i \<Rightarrow> Inr (file_data i))
                    (criteria_of k) (map (search_record zone) (conn_records p None s)) of
               Inl e \<Rightarrow> Inl (SearchFailed e)
             | Inr us \<Rightarrow> Inr us))"

definition conn_flags :: "local_conn \<Rightarrow> store \<Rightarrow> store_error + (nat \<times> string list) list" where
  "conn_flags c s =
     (case cn_sel c of
        None \<Rightarrow> Inl NoMailbox
      | Some p \<Rightarrow> Inr (map (\<lambda>r. (unat (e_uid r), e_flags r)) (conn_records p None s)))"

text \<open>The rows of a folder, written in place.\<close>

definition with_rows :: "path \<Rightarrow> ((u32 \<rightharpoonup> row) \<Rightarrow> (u32 \<rightharpoonup> row)) \<Rightarrow> store \<Rightarrow> store" where
  "with_rows p g s =
     (case node_at s p of
        None \<Rightarrow> s
      | Some n \<Rightarrow> set_node p (n\<lparr>nd_db := Db ((db_at s p)\<lparr>fd_messages := g (fd_messages (db_at s p))\<rparr>)\<rparr>) s)"

definition conn_store_flags :: "bool \<Rightarrow> local_conn \<Rightarrow> nat \<Rightarrow> string list \<Rightarrow> store \<Rightarrow> store_error option \<times> store" where
  "conn_store_flags db_ok c u fs s =
     (case cn_sel c of
        None \<Rightarrow> (Some NoMailbox, s)
      | Some p \<Rightarrow>
          if so_read_only s then (Some StoreIsReadOnly, s)
          else if cn_read_only c then (Some MailboxIsReadOnly, s)
          else if \<not> db_ok then (Some (NotStored u), s)
          else (None, with_rows p (\<lambda>m. case m (word_of_nat u) of
                       None \<Rightarrow> m | Some r \<Rightarrow> m(word_of_nat u \<mapsto> r\<lparr>row_flags := join_flags fs\<rparr>)) s))"

section \<open>Appending\<close>

text \<open>Which steps succeed, how much of the body reaches the staging area, and the name it is staged under.\<close>

record append_says =
  as_part :: string
  as_staged :: bool
  as_times :: bool
  as_claimed :: bool
  as_made :: bool
  as_moved :: bool
  as_recorded :: bool
  as_tag :: string

record letter =
  le_flags :: "string list"
  le_date :: int
  le_body :: string

definition staged_path :: "string \<Rightarrow> path" where
  "staged_path tag = tmp_name @ ''/append-'' @ tag"

definition stage_file :: "path \<Rightarrow> int \<Rightarrow> string \<Rightarrow> directory \<Rightarrow> directory" where
  "stage_file p t b d = filter (\<lambda>x. fst x \<noteq> p) d @ [(p, \<lparr>mod_time = t, file_size = int (length b), file_data = b\<rparr>)]"

definition remove_file :: "path \<Rightarrow> directory \<Rightarrow> directory" where
  "remove_file p d = filter (\<lambda>x. fst x \<noteq> p) d"

definition letter_row :: "letter \<Rightarrow> row" where
  "letter_row m = \<lparr>row_flags = join_flags (le_flags m), internal_date = le_date m, row_size = int (length (le_body m))\<rparr>"

text \<open>The folder after each step, up to the one that fails, and the UID if all succeed. What is staged is removed
  in the end, if it is still there.\<close>

definition append_run :: "append_says \<Rightarrow> int \<Rightarrow> letter \<Rightarrow> folder_state \<Rightarrow> u32 option \<times> folder_state list" where
  "append_run says now m f =
     (let p = staged_path (as_tag says);
          f1 = f\<lparr>dir := stage_file p now (as_part says) (dir f)\<rparr>;
          f2 = f\<lparr>dir := stage_file p now (le_body m) (dir f)\<rparr>;
          f3 = f\<lparr>dir := stage_file p (le_date m) (le_body m) (dir f)\<rparr>
      in if \<not> as_staged says then (None, [f, f1])
         else if \<not> as_times says then (None, [f, f1, f2])
         else
           (case claim (as_claimed says) 0 f3 of
              (None, f4) \<Rightarrow> (None, [f, f1, f2, f3, f4])
            | (Some u, f4) \<Rightarrow>
                if \<not> as_made says \<or> \<not> as_moved says then (None, [f, f1, f2, f3, f4])
                else
                  (let f5 = f4\<lparr>dir := rename_file p (message_rel (unat u)) (dir f4)\<rparr>
                   in if \<not> as_recorded says then (None, [f, f1, f2, f3, f4, f5])
                      else (Some u, [f, f1, f2, f3, f4, f5, f5\<lparr>rows := (rows f5)(u \<mapsto> letter_row m)\<rparr>]))))"

definition append_letter :: "append_says \<Rightarrow> int \<Rightarrow> letter \<Rightarrow> folder_state \<Rightarrow> u32 option \<times> folder_state" where
  "append_letter says now m f =
     (let (r, fs) = append_run says now m f; g = last fs
      in (r, g\<lparr>dir := remove_file (staged_path (as_tag says)) (dir g)\<rparr>))"

definition shard_made :: "u32 \<Rightarrow> string list \<Rightarrow> string list" where
  "shard_made u shards = (if unat u < shard_size then shards else List.insert (shard_name (unat u)) shards)"

definition store_folder :: "path \<Rightarrow> (string list \<Rightarrow> string list) \<Rightarrow> folder_state \<Rightarrow> store \<Rightarrow> store" where
  "store_folder p g f s =
     (case (node_at s p, so_open s p) of
        (Some n, Some h) \<Rightarrow> folder_store p h (db_at s p) (n\<lparr>nd_shards := g (nd_shards n)\<rparr>) f s
      | _ \<Rightarrow> s)"

definition shards_after :: "append_says \<Rightarrow> folder_state \<Rightarrow> string list \<Rightarrow> string list" where
  "shards_after says f shards =
     (if as_staged says \<and> as_times says \<and> as_claimed says \<and> as_made says
      then (case fst (claim True 0 f) of Some u \<Rightarrow> shard_made u shards | None \<Rightarrow> shards) else shards)"

text \<open>A date that is not set is replaced by the clock.\<close>

definition conn_append ::
  "append_says \<Rightarrow> int \<Rightarrow> string \<Rightarrow> string list \<Rightarrow> int option \<Rightarrow> string \<Rightarrow> local_conn \<Rightarrow> store
     \<Rightarrow> (store_error + nat \<times> nat) \<times> store" where
  "conn_append says now name fs date body c s =
     (if so_read_only s then (Inl StoreIsReadOnly, s)
      else
        (case store_open now name s of
           (Inl e, s) \<Rightarrow> (Inl e, s)
         | (Inr p, s) \<Rightarrow>
             if cn_read_only c \<and> cn_sel c = Some p then (Inl MailboxIsReadOnly, s)
             else
               (let g = shards_after says (folder_at s p); m = \<lparr>le_flags = fs, le_date = (case date of None \<Rightarrow> now | Some t \<Rightarrow> t), le_body = body\<rparr>
                in case append_letter says now m (folder_at s p) of
                     (None, f) \<Rightarrow> (Inl (NotAppended name), store_folder p g f s)
                   | (Some u, f) \<Rightarrow> (Inr (unat u, unat (ha_validity (the (so_open s p)))), store_folder p g f s))))"

section \<open>Deleting\<close>

text \<open>One message after the other: whether its file can be removed and whether its row can. A file that is not
  there counts as removed.\<close>

fun delete_letters :: "(u32 \<Rightarrow> bool) \<Rightarrow> (u32 \<Rightarrow> bool) \<Rightarrow> u32 list \<Rightarrow> folder_state \<Rightarrow> u32 option \<times> folder_state" where
  "delete_letters rm_ok db_ok [] f = (None, f)"
| "delete_letters rm_ok db_ok (u # us) f =
     (if \<not> rm_ok u \<and> map_of (dir f) (message_rel (unat u)) \<noteq> None then (Some u, f)
      else
        (let f = f\<lparr>dir := remove_file (message_rel (unat u)) (dir f)\<rparr>
         in if \<not> db_ok u then (Some u, f)
            else delete_letters rm_ok db_ok us (f\<lparr>rows := (rows f)(u := None)\<rparr>)))"

definition conn_delete ::
  "(u32 \<Rightarrow> bool) \<Rightarrow> (u32 \<Rightarrow> bool) \<Rightarrow> nat list \<Rightarrow> local_conn \<Rightarrow> store \<Rightarrow> store_error option \<times> store" where
  "conn_delete rm_ok db_ok us c s =
     (case cn_sel c of
        None \<Rightarrow> (Some NoMailbox, s)
      | Some p \<Rightarrow>
          if so_read_only s then (Some StoreIsReadOnly, s)
          else if cn_read_only c then (Some MailboxIsReadOnly, s)
          else
            (case delete_letters rm_ok db_ok (map word_of_nat us) (folder_at s p) of
               (Some u, f) \<Rightarrow> (Some (NotDeleted (unat u)), store_folder p id f s)
             | (None, f) \<Rightarrow> (None, store_folder p id f s)))"

definition conn_close :: "local_conn \<Rightarrow> local_conn" where
  "conn_close c = c\<lparr>cn_sel := None\<rparr>"

section \<open>What is in a directory\<close>

definition visible :: "directory \<Rightarrow> u32 \<Rightarrow> (int \<times> string) option" where
  "visible d u =
     (case disk_uids (scan d) u of
        None \<Rightarrow> None
      | Some p \<Rightarrow> map_option (\<lambda>i. (mod_time i, file_data i)) (map_of d p))"

text \<open>Every message file is where its UID says.\<close>

definition tidy_dir :: "directory \<Rightarrow> bool" where
  "tidy_dir d \<longleftrightarrow> distinct (map fst d) \<and> (\<forall>p u. p \<in> set (map fst d) \<longrightarrow> path_uid p = Some u \<longrightarrow> p = message_rel (unat u))"

lemma unat_pos: "(u :: u32) \<noteq> 0 \<Longrightarrow> 0 < unat u"
  by (simp add: unat_gt_0)

lemma path_uid_rel: "u \<noteq> 0 \<Longrightarrow> path_uid (message_rel (unat u)) = Some u"
  using path_uid_message_rel [OF unat_pos unat_less] by simp

lemma path_uid_pos: "path_uid p \<noteq> Some 0"
proof
  assume "path_uid p = Some 0"
  then obtain n k where k: "parse_message_name n = Some k" "(word_of_nat k :: u32) = 0"
    by (auto simp: path_uid_def split: option.splits if_splits)
  then have "0 < k" "k < 2 ^ 32" using parse_uint_bound
    by (fastforce simp: parse_message_name_def Let_def split: if_splits option.splits)+
  with k(2) word_of_nat_u32_eq [of k 0] show False by simp
qed

lemma uid_pairs_iff: "(u, p) \<in> set (uid_pairs ps) \<longleftrightarrow> p \<in> set ps \<and> path_uid p = Some u"
  by (induction ps) (auto split: option.splits)

lemma disk_uids_Some: "disk_uids (scan d) u = Some p \<Longrightarrow> p \<in> set (map fst d) \<and> path_uid p = Some u"
  unfolding scan_facts using map_of_SomeD uid_pairs_iff by fastforce

lemma disk_uids_None: "disk_uids (scan d) u = None \<longleftrightarrow> (\<forall>p \<in> set (map fst d). path_uid p \<noteq> Some u)"
proof -
  have "disk_uids (scan d) u = None \<longleftrightarrow> u \<notin> fst ` set (uid_pairs (map fst d))"
    unfolding scan_facts by (simp add: map_of_eq_None_iff)
  also have "\<dots> \<longleftrightarrow> (\<forall>p. (u, p) \<notin> set (uid_pairs (map fst d)))" by force
  finally show ?thesis unfolding uid_pairs_iff by blast
qed

lemma visible_tidy:
  assumes "tidy_dir d"
  shows "visible d u = (if u = 0 then None else map_option (\<lambda>i. (mod_time i, file_data i)) (map_of d (message_rel (unat u))))"
proof (cases "disk_uids (scan d) u")
  case None
  then have "\<forall>p \<in> set (map fst d). path_uid p \<noteq> Some u" by (simp only: disk_uids_None)
  then have "map_of d (message_rel (unat u)) = None" if "u \<noteq> 0" using path_uid_rel [OF that] by (metis map_of_eq_None_iff set_map)
  with None show ?thesis by (simp add: visible_def)
next
  case (Some p)
  note p = disk_uids_Some [OF Some]
  then have "u \<noteq> 0" "p = message_rel (unat u)" using path_uid_pos assms unfolding tidy_dir_def by auto
  with Some show ?thesis by (simp add: visible_def)
qed

lemma uids_visible: "distinct (map fst d) \<Longrightarrow> u \<in> uids_of d \<longleftrightarrow> visible d u \<noteq> None"
  using disk_uids_Some [of d u] by (fastforce simp: uids_of_def visible_def map_of_eq_None_iff split: option.splits)

lemma staged_no_uid: "path_uid (staged_path t) = None"
proof -
  have "cut (CHR ''/'') (staged_path t) = (tmp_name, ''append-'' @ t, True)"
    using cut_append [of "CHR ''/''" tmp_name "''append-'' @ t"] by (simp add: staged_path_def tmp_name_def)
  moreover have "\<not> is_shard_dir tmp_name" by code_simp
  ultimately show ?thesis by (simp add: path_uid_def entry_name_def)
qed

lemma staged_no_foreign: "\<not> path_foreign (staged_path t)"
proof -
  have "cut (CHR ''/'') (staged_path t) = (tmp_name, ''append-'' @ t, True)"
    using cut_append [of "CHR ''/''" tmp_name "''append-'' @ t"] by (simp add: staged_path_def tmp_name_def)
  moreover have "\<not> is_shard_dir tmp_name" by code_simp
  ultimately show ?thesis by (simp add: path_foreign_def entry_name_def)
qed

lemma map_of_filter_keys: "map_of (filter (\<lambda>x. P (fst x)) d) = (\<lambda>k. if P k then map_of d k else None)"
  by (induction d) (auto simp: fun_eq_iff)

lemma map_of_remove: "map_of (remove_file p d) = (map_of d)(p := None)"
  using map_of_filter_keys [of "\<lambda>k. k \<noteq> p" d] by (auto simp: remove_file_def fun_eq_iff)

lemma map_of_stage: "map_of (stage_file p t b d) = (map_of d)(p \<mapsto> \<lparr>mod_time = t, file_size = int (length b), file_data = b\<rparr>)"
  using map_of_remove [of p d] by (auto simp: stage_file_def remove_file_def fun_eq_iff map_add_def split: option.splits)

lemma remove_tidy: "tidy_dir d \<Longrightarrow> tidy_dir (remove_file p d)"
  by (auto simp: tidy_dir_def remove_file_def distinct_map inj_on_def)

lemma stage_tidy: "tidy_dir d \<Longrightarrow> path_uid p = None \<Longrightarrow> tidy_dir (stage_file p t b d)"
  by (fastforce simp: tidy_dir_def stage_file_def distinct_map inj_on_def)

lemma staged_not_rel: "(u :: u32) \<noteq> 0 \<Longrightarrow> message_rel (unat u) \<noteq> staged_path t"
  using path_uid_rel staged_no_uid by (metis option.distinct(1))

lemma rename_parts:
  "map fst (rename_file p q d) = map (\<lambda>x. if x = p then q else x) (filter (\<lambda>x. x = p \<or> x \<noteq> q) (map fst d))"
  by (simp add: rename_file_def filter_map o_def case_prod_unfold)

lemma map_of_rename:
  "p \<noteq> q \<Longrightarrow> map_of (rename_file p q d) k = (if k = q then map_of d p else if k = p then None else map_of d k)"
proof (induction d)
  case (Cons x d)
  obtain y i where "x = (y, i)" by fastforce
  with Cons show ?case by (cases "y = p"; cases "y = q") (auto simp: rename_file_def split: if_splits)
qed (simp add: rename_file_def)

lemma rename_tidy:
  assumes "tidy_dir d" and "q = message_rel (unat u)" and "(u :: u32) \<noteq> 0"
  shows "tidy_dir (rename_file p q d)"
proof -
  have "distinct (filter (\<lambda>x. x = p \<or> x \<noteq> q) (map fst d))" using assms(1) by (simp add: tidy_dir_def)
  moreover have "inj_on (\<lambda>x. if x = p then q else x) (set (filter (\<lambda>x. x = p \<or> x \<noteq> q) (map fst d)))"
    by (auto simp: inj_on_def)
  ultimately have "distinct (map fst (rename_file p q d))" unfolding rename_parts by (simp add: distinct_map)
  moreover have "x = message_rel (unat v)" if x: "x \<in> set (map fst (rename_file p q d))" and v: "path_uid x = Some v" for x v
  proof (cases "x = q")
    case True
    then show ?thesis using v path_uid_rel [OF assms(3)] assms(2) by simp
  next
    case False
    then have "x \<in> set (map fst d)" using x unfolding rename_parts by (auto split: if_splits)
    then show ?thesis using v assms(1) by (simp add: tidy_dir_def)
  qed
  ultimately show ?thesis by (simp add: tidy_dir_def)
qed

section \<open>A folder keeps its mail\<close>

text \<open>The contract of a folder: what is put is there, under an identifier that was free, until it is named in a
  deletion; a failure has put all of it or nothing. \<open>room n\<close>: there is room for \<open>n\<close> more.\<close>

locale mail_folder =
  fixes seen :: "'s \<Rightarrow> 'u \<Rightarrow> 'm option" and put :: "'a \<Rightarrow> 'm \<Rightarrow> 's \<Rightarrow> 'u option \<times> 's"
    and drop_all :: "'d \<Rightarrow> 'u list \<Rightarrow> 's \<Rightarrow> bool \<times> 's" and room :: "nat \<Rightarrow> 's \<Rightarrow> bool"
  assumes put_new: "room (Suc n) s \<Longrightarrow> put a m s = (Some u, s') \<Longrightarrow> room n s' \<and> seen s u = None \<and> seen s' = (seen s)(u \<mapsto> m)"
    and put_failed: "room (Suc n) s \<Longrightarrow> put a m s = (None, s') \<Longrightarrow>
      room n s' \<and> (seen s' = seen s \<or> (\<exists>u. seen s u = None \<and> seen s' = (seen s)(u \<mapsto> m)))"
    and dropped: "room n s \<Longrightarrow> drop_all d us s = (k, s') \<Longrightarrow>
      room n s' \<and> (\<forall>u. u \<notin> set us \<longrightarrow> seen s' u = seen s u) \<and> (\<forall>u. seen s' u \<in> {None, seen s u}) \<and> (k \<longrightarrow> (\<forall>u \<in> set us. seen s' u = None))"

datatype ('a, 'm, 'd, 'u) mail_event = Put 'a 'm | Drop 'd "'u list"

fun mail_run ::
  "('a \<Rightarrow> 'm \<Rightarrow> 's \<Rightarrow> 'u option \<times> 's) \<Rightarrow> ('d \<Rightarrow> 'u list \<Rightarrow> 's \<Rightarrow> bool \<times> 's)
    \<Rightarrow> ('a, 'm, 'd, 'u) mail_event list \<Rightarrow> 's \<Rightarrow> ('u \<times> 'm) list \<times> 's" where
  "mail_run put drop_all [] s = ([], s)"
| "mail_run put drop_all (Put a m # es) s =
     (let (r, s) = put a m s; (given, s) = mail_run put drop_all es s
      in ((case r of Some u \<Rightarrow> [(u, m)] | None \<Rightarrow> []) @ given, s))"
| "mail_run put drop_all (Drop d us # es) s = mail_run put drop_all es (snd (drop_all d us s))"

fun puts :: "('a, 'm, 'd, 'u) mail_event list \<Rightarrow> 'm list" where
  "puts [] = []"
| "puts (Put a m # es) = m # puts es"
| "puts (Drop d us # es) = puts es"

fun named :: "('a, 'm, 'd, 'u) mail_event list \<Rightarrow> 'u set" where
  "named [] = {}"
| "named (Put a m # es) = named es"
| "named (Drop d us # es) = set us \<union> named es"

context mail_folder begin

lemma run_keeps:
  assumes "mail_run put drop_all es s = (given, s')" and "room (length (puts es)) s"
  shows "room 0 s' \<and> (\<forall>u. u \<notin> named es \<longrightarrow> (\<forall>m. seen s u = Some m \<longrightarrow> seen s' u = Some m)) \<and>
    (\<forall>(u, m) \<in> set given. u \<notin> named es \<longrightarrow> seen s' u = Some m) \<and>
    (\<forall>u m. seen s' u = Some m \<longrightarrow> seen s u = Some m \<or> m \<in> set (puts es))"
  using assms
proof (induction es arbitrary: s given)
  case (Cons e es)
  show ?case
  proof (cases e)
    case (Put a m)
    obtain r t where p: "put a m s = (r, t)" by fastforce
    obtain g where g: "mail_run put drop_all es t = (g, s')" and given: "given = (case r of Some u \<Rightarrow> [(u, m)] | None \<Rightarrow> []) @ g"
      using Cons.prems(1) Put p by (auto split: prod.splits)
    have room: "room (Suc (length (puts es))) s" using Cons.prems(2) Put by simp
    have step: "room (length (puts es)) t \<and> (\<exists>v. seen t = seen s \<and> r = None \<or> seen s v = None \<and> seen t = (seen s)(v \<mapsto> m) \<and> r \<in> {None, Some v})"
    proof (cases r)
      case None
      with put_failed [OF room p [unfolded None]] show ?thesis by auto
    next
      case (Some v)
      with put_new [OF room p [unfolded Some]] show ?thesis by auto
    qed
    then obtain v where v: "seen t = seen s \<and> r = None \<or> seen s v = None \<and> seen t = (seen s)(v \<mapsto> m) \<and> r \<in> {None, Some v}"
      and room': "room (length (puts es)) t" by blast
    have old: "seen t u = Some n" if "seen s u = Some n" for u n using v that by auto
    have new: "seen t u = Some m" if "r = Some u" for u using v that by auto
    have no: "seen s u = Some n \<or> n = m" if "seen t u = Some n" for u n using v that by (auto split: if_splits)
    have ih: "room 0 s'" "\<And>u n. u \<notin> named es \<Longrightarrow> seen t u = Some n \<Longrightarrow> seen s' u = Some n"
      "\<And>u n. (u, n) \<in> set g \<Longrightarrow> u \<notin> named es \<Longrightarrow> seen s' u = Some n"
      "\<And>u n. seen s' u = Some n \<Longrightarrow> seen t u = Some n \<or> n \<in> set (puts es)"
      using Cons.IH [OF g room'] by auto
    have "seen s' u = Some n" if "(u, n) \<in> set given" "u \<notin> named es" for u n
      using that given ih(2,3) new by (cases r) auto
    moreover have "seen s' u = Some n" if "u \<notin> named es" "seen s u = Some n" for u n using ih(2) old that by simp
    moreover have "seen s u = Some n \<or> n \<in> set (puts (e # es))" if "seen s' u = Some n" for u n
      using ih(4) [OF that] no [of u n] Put by auto
    moreover have "named (e # es) = named es" using Put by simp
    ultimately show ?thesis using ih(1) by (simp only: split_paired_Ball_Sigma split: prod.split) blast
  next
    case (Drop d us)
    obtain k t where k: "drop_all d us s = (k, t)" by fastforce
    have run: "mail_run put drop_all es t = (given, s')" and room: "room (length (puts es)) s" using Cons.prems Drop k by auto
    have room': "room (length (puts es)) t"
      and kept: "\<And>u. u \<notin> set us \<Longrightarrow> seen t u = seen s u" and part: "\<And>u. seen t u \<in> {None, seen s u}"
      using dropped [OF room k] by blast+
    have less: "seen s u = Some n" if "seen t u = Some n" for u n using part [of u] that by auto
    have ih: "room 0 s'" "\<And>u n. u \<notin> named es \<Longrightarrow> seen t u = Some n \<Longrightarrow> seen s' u = Some n"
      "\<And>u n. (u, n) \<in> set given \<Longrightarrow> u \<notin> named es \<Longrightarrow> seen s' u = Some n"
      "\<And>u n. seen s' u = Some n \<Longrightarrow> seen t u = Some n \<or> n \<in> set (puts es)"
      using Cons.IH [OF run room'] by auto
    have "seen s' u = Some n" if "u \<notin> set us \<union> named es" "seen s u = Some n" for u n using ih(2) kept that by simp
    moreover have "seen s u = Some n \<or> n \<in> set (puts es)" if "seen s' u = Some n" for u n using ih(4) [OF that] less by blast
    moreover have "named (e # es) = set us \<union> named es" "puts (e # es) = puts es" using Drop by simp_all
    ultimately show ?thesis using ih(1,3) by (simp only: split: prod.split) blast
  qed
qed simp

end

section \<open>The folder as the contract has it\<close>

definition folder_room :: "nat \<Rightarrow> folder_state \<Rightarrow> bool" where
  "folder_room n f \<longleftrightarrow> tidy_dir (dir f) \<and> (\<forall>u. visible (dir f) u \<noteq> None \<longrightarrow> u < uid_next f) \<and>
     max 1 (unat (uid_next f)) + n + 1 < 2 ^ 32"

definition drop_letters :: "(u32 \<Rightarrow> bool) \<times> (u32 \<Rightarrow> bool) \<Rightarrow> u32 list \<Rightarrow> folder_state \<Rightarrow> bool \<times> folder_state" where
  "drop_letters d us f = (let (e, f) = delete_letters (fst d) (snd d) us f in (e = None, f))"

lemma visible_cong: "tidy_dir d \<Longrightarrow> tidy_dir d' \<Longrightarrow> (\<And>u. (u :: u32) \<noteq> 0 \<Longrightarrow> map_of d' (message_rel (unat u)) = map_of d (message_rel (unat u)))
    \<Longrightarrow> visible d' = visible d"
  by (rule ext) (simp add: visible_tidy)

lemma visible_stage: "tidy_dir d \<Longrightarrow> visible (stage_file (staged_path t) w b d) = visible d"
  by (rule visible_cong) (simp_all add: stage_tidy staged_no_uid map_of_stage staged_not_rel)

lemma visible_unstage: "tidy_dir d \<Longrightarrow> visible (remove_file (staged_path t) d) = visible d"
  by (rule visible_cong) (simp_all add: remove_tidy map_of_remove staged_not_rel)

lemma rel_inject: "(u :: u32) \<noteq> 0 \<Longrightarrow> v \<noteq> 0 \<Longrightarrow> message_rel (unat u) = message_rel (unat v) \<longleftrightarrow> u = v"
  using path_uid_rel by (metis option.inject)

lemma visible_remove:
  assumes "tidy_dir d" and "u \<noteq> 0"
  shows "visible (remove_file (message_rel (unat u)) d) = (visible d)(u := None)"
  by (rule ext) (use assms in \<open>simp add: visible_tidy remove_tidy map_of_remove rel_inject\<close>)

lemma visible_rename:
  assumes "tidy_dir d" and "u \<noteq> 0" and "map_of d (staged_path t) = Some i"
  shows "visible (rename_file (staged_path t) (message_rel (unat u)) d) = (visible d)(u \<mapsto> (mod_time i, file_data i))"
proof (rule ext)
  fix v
  have n: "staged_path t \<noteq> message_rel (unat u)" using staged_not_rel [OF assms(2)] by metis
  show "visible (rename_file (staged_path t) (message_rel (unat u)) d) v = ((visible d)(u \<mapsto> (mod_time i, file_data i))) v"
    using assms rename_tidy [OF assms(1) refl assms(2), of "staged_path t"]
    by (simp add: visible_tidy map_of_rename [OF n] rel_inject staged_not_rel)
qed

lemma stage_foreign: "filter path_foreign (map fst (stage_file (staged_path t) w b d)) = filter path_foreign (map fst d)"
proof -
  have "x \<noteq> staged_path t \<and> path_foreign x \<longleftrightarrow> path_foreign x" for x using staged_no_foreign by auto
  then show ?thesis by (simp add: stage_file_def filter_map o_def staged_no_foreign)
qed

lemma rename_foreign: "(u :: u32) \<noteq> 0 \<Longrightarrow>
    filter path_foreign (map fst (rename_file (staged_path t) (message_rel (unat u)) d)) = filter path_foreign (map fst d)"
proof -
  assume u: "u \<noteq> 0"
  have q: "\<not> path_foreign (message_rel (unat u))" using not_foreign [OF path_uid_rel [OF u]] .
  have "path_foreign (if x = staged_path t then message_rel (unat u) else x) \<and> (x = staged_path t \<or> x \<noteq> message_rel (unat u)) \<longleftrightarrow> path_foreign x"
    for x using q staged_no_foreign by auto
  then have "filter path_foreign (map (\<lambda>x. if x = staged_path t then message_rel (unat u) else x)
      (filter (\<lambda>x. x = staged_path t \<or> x \<noteq> message_rel (unat u)) xs)) = filter path_foreign xs" for xs
    using q staged_no_foreign by (induction xs) auto
  then show ?thesis unfolding rename_parts .
qed

text \<open>After every step of an append the folder holds what it held, or all of the new message with its date.\<close>

definition unchanged_or_whole :: "letter \<Rightarrow> folder_state \<Rightarrow> folder_state \<Rightarrow> bool" where
  "unchanged_or_whole m f g \<longleftrightarrow> tidy_dir (dir g) \<and> filter path_foreign (map fst (dir g)) = filter path_foreign (map fst (dir f)) \<and> uid_next f \<le> uid_next g \<and> uid_next g \<le> max 1 (uid_next f) + 1 \<and>
     (visible (dir g) = visible (dir f) \<or>
      (let u = max 1 (uid_next f) in visible (dir f) u = None \<and> u < uid_next g \<and> u < db_uid_next g \<and>
         visible (dir g) = (visible (dir f))(u \<mapsto> (le_date m, le_body m))))"

lemma claim_next:
  assumes "unat (uid_next f) + 2 < 2 ^ 32"
  defines "u \<equiv> max 1 (uid_next f)"
  shows "claim k 0 f = (if k then Some u else None, f\<lparr>uid_next := u + 1, db_uid_next := (if k then u + 1 else db_uid_next f)\<rparr>)"
    and "u \<noteq> 0" and "u < u + 1" and "uid_next f \<le> u"
proof -
  have "(0 :: u32) \<ge> uid_next f \<longleftrightarrow> uid_next f = 0" by (simp add: word_le_nat_alt unat_eq_0)
  then have "(if 0 \<ge> uid_next f then 0 + 1 else uid_next f) = u" unfolding u_def
    using unat_gt_0 [of "uid_next f"] by (auto simp: max_def word_le_nat_alt unat_eq_0)
  then show "claim k 0 f = (if k then Some u else None, f\<lparr>uid_next := u + 1, db_uid_next := (if k then u + 1 else db_uid_next f)\<rparr>)"
    by (simp add: claim_def Let_def)
  have "unat u + 1 < 2 ^ 32" using assms(1) unfolding u_def by (simp add: max_def)
  then have "unat (u + 1) = unat u + 1" by (rule unat_succ)
  then show "u < u + 1" by (simp add: word_less_nat_alt)
  show "u \<noteq> 0" unfolding u_def by (auto simp: max_def)
  show "uid_next f \<le> u" unfolding u_def by simp
qed

lemma stages:
  assumes "tidy_dir d"
  shows "tidy_dir (stage_file (staged_path t) w b d)" "visible (stage_file (staged_path t) w b d) = visible d"
  using assms by (simp_all add: stage_tidy staged_no_uid visible_stage)

lemma append_run_whole:
  assumes "folder_room (Suc 0) f" and run: "append_run says now m f = (r, fs)"
  defines "u \<equiv> max 1 (uid_next f)"
  shows "fs \<noteq> [] \<and> (\<forall>g \<in> set fs. unchanged_or_whole m f g) \<and>
    (r = None \<or> (r = Some u \<and> visible (dir (last fs)) = (visible (dir f))(u \<mapsto> (le_date m, le_body m)) \<and>
       visible (dir f) u = None \<and> rows (last fs) = (rows f)(u \<mapsto> letter_row m)))"
proof -
  let ?p = "staged_path (as_tag says)"
  have tidy: "tidy_dir (dir f)" and below: "\<And>v. visible (dir f) v \<noteq> None \<Longrightarrow> v < uid_next f"
    using assms(1) by (simp_all add: folder_room_def)
  have big: "unat (uid_next f) + 2 < 2 ^ 32" using assms(1) unfolding folder_room_def by linarith
  have free: "visible (dir f) u = None"
    using below [of u] claim_next(4) [OF big] unfolding u_def by (meson leD)
  note nxt = claim_next [OF big, folded u_def]
  let ?f3 = "f\<lparr>dir := stage_file ?p (le_date m) (le_body m) (dir f)\<rparr>"
  have claimed: "claim (as_claimed says) 0 ?f3 =
      (if as_claimed says then Some u else None, ?f3\<lparr>uid_next := u + 1, db_uid_next := (if as_claimed says then u + 1 else db_uid_next f)\<rparr>)"
    using claim_next(1) [of ?f3] big unfolding u_def by simp
  let ?d5 = "rename_file ?p (message_rel (unat u)) (stage_file ?p (le_date m) (le_body m) (dir f))"
  have moved: "tidy_dir ?d5" "visible ?d5 = (visible (dir f))(u \<mapsto> (le_date m, le_body m))"
    using rename_tidy [OF stages(1) [OF tidy] refl nxt(2)] visible_rename [OF stages(1) [OF tidy] nxt(2), of "as_tag says"]
    by (simp_all add: map_of_stage stages(2) [OF tidy])
  have le: "uid_next f \<le> u + 1" using nxt(3,4) by (meson le_less_trans less_imp_le)
  have same: "unchanged_or_whole m f g" if "dir g = dir f \<or> (\<exists>w b. dir g = stage_file ?p w b (dir f))" "uid_next g \<in> {uid_next f, u + 1}" for g
    using that tidy stages [OF tidy] le nxt(3) stage_foreign unfolding unchanged_or_whole_def u_def
    by (auto intro: order_trans [OF nxt(4) [unfolded u_def] less_imp_le])
  have whole: "unchanged_or_whole m f g" if "dir g = ?d5" "uid_next g = u + 1" "db_uid_next g = u + 1" for g
    using that moved free le nxt(3) rename_foreign [OF nxt(2)] stage_foreign unfolding unchanged_or_whole_def Let_def u_def by simp
  let ?stage = "\<lambda>w b. f\<lparr>dir := stage_file ?p w b (dir f)\<rparr>"
  let ?f4 = "?f3\<lparr>uid_next := u + 1, db_uid_next := (if as_claimed says then u + 1 else db_uid_next f)\<rparr>"
  let ?f5 = "?f4\<lparr>dir := ?d5\<rparr>"
  have early: "unchanged_or_whole m f f" "\<And>w b. unchanged_or_whole m f (?stage w b)" "unchanged_or_whole m f ?f4"
    by (rule same; fastforce)+
  have late: "as_claimed says \<Longrightarrow> unchanged_or_whole m f ?f5"
    "as_claimed says \<Longrightarrow> unchanged_or_whole m f (?f5\<lparr>rows := (rows ?f5)(u \<mapsto> letter_row m)\<rparr>)"
    by (rule whole; simp)+
  note run' = run [unfolded append_run_def Let_def claimed]
  consider "\<not> as_staged says" | "as_staged says" "\<not> as_times says" | "as_staged says" "as_times says" "\<not> as_claimed says"
    | "as_staged says" "as_times says" "as_claimed says" "\<not> (as_made says \<and> as_moved says)"
    | "as_staged says" "as_times says" "as_claimed says" "as_made says" "as_moved says" "\<not> as_recorded says"
    | "as_staged says" "as_times says" "as_claimed says" "as_made says" "as_moved says" "as_recorded says" by blast
  then show ?thesis
  proof cases
    case 6
    then have "r = Some u" "fs = [f, ?stage now (as_part says), ?stage now (le_body m), ?f3, ?f4, ?f5, ?f5\<lparr>rows := (rows ?f5)(u \<mapsto> letter_row m)\<rparr>]"
      using run' by simp_all
    then show ?thesis using early late 6 moved free by simp
  qed (use run' early late in \<open>auto simp del: fun_upd_apply\<close>)
qed

lemma next_free:
  assumes "folder_room n f"
  shows "visible (dir f) (max 1 (uid_next f)) = None" and "visible (dir f) v \<noteq> None \<Longrightarrow> v < max 1 (uid_next f)"
proof -
  show below: "v < max 1 (uid_next f)" if "visible (dir f) v \<noteq> None" for v
    using assms that unfolding folder_room_def by (simp add: less_max_iff_disj)
  show "visible (dir f) (max 1 (uid_next f)) = None" using below by blast
qed

lemma append_letter_effect:
  assumes "folder_room (Suc n) f" and "append_letter says now m f = (r, g)"
  defines "u \<equiv> max 1 (uid_next f)"
  shows "folder_room n g \<and> visible (dir f) u = None \<and>
    (case r of
       None \<Rightarrow> visible (dir g) = visible (dir f) \<or> visible (dir g) = (visible (dir f))(u \<mapsto> (le_date m, le_body m))
     | Some v \<Rightarrow> v = u \<and> visible (dir g) = (visible (dir f))(u \<mapsto> (le_date m, le_body m)) \<and> rows g = (rows f)(u \<mapsto> letter_row m))"
proof -
  obtain fs where run: "append_run says now m f = (r, fs)" and g: "g = (last fs)\<lparr>dir := remove_file (staged_path (as_tag says)) (dir (last fs))\<rparr>"
    using assms(2) by (auto simp: append_letter_def Let_def split: prod.splits)
  have "max 1 (unat (uid_next f)) + Suc 0 + 1 < 2 ^ 32" using assms(1) unfolding folder_room_def by linarith
  with assms(1) have one: "folder_room (Suc 0) f" unfolding folder_room_def by blast
  note whole = append_run_whole [OF one run, folded u_def]
  then have last: "unchanged_or_whole m f (last fs)" by simp
  note l = last [unfolded unchanged_or_whole_def Let_def, folded u_def]
  have tidy: "tidy_dir (dir g)" and seen: "visible (dir g) = visible (dir (last fs))"
    using l by (simp_all add: g remove_tidy visible_unstage)
  have u: "unat u = max 1 (unat (uid_next f))" unfolding u_def by (simp add: max_def word_le_nat_alt)
  then have "unat (u + 1) = unat u + 1" using assms(1) unfolding folder_room_def by (intro unat_succ) linarith
  then have "unat (uid_next g) \<le> unat u + 1" using l by (simp add: g word_le_nat_alt)
  then have big: "max 1 (unat (uid_next g)) + n + 1 < 2 ^ 32" using assms(1) u unfolding folder_room_def by linarith
  have below: "v < uid_next (last fs)" if "visible (dir f) v \<noteq> None" for v
    using assms(1) l that by (auto simp: folder_room_def intro: less_le_trans)
  have "visible (dir g) v = visible (dir f) v \<or> v = u \<and> u < uid_next g" for v using l unfolding seen by (auto simp: g split: if_splits)
  moreover have "uid_next g = uid_next (last fs)" by (simp add: g)
  ultimately have "v < uid_next g" if "visible (dir g) v \<noteq> None" for v using that below by metis
  with tidy big have room: "folder_room n g" by (simp add: folder_room_def)
  with next_free(1) [OF assms(1), folded u_def] room whole l seen show ?thesis by (cases r) (auto simp: g)
qed

lemma delete_letters_effect:
  assumes "folder_room n f" and "delete_letters rm_ok db_ok us f = (e, g)"
  shows "folder_room n g \<and> (\<forall>u. u \<notin> set us \<longrightarrow> visible (dir g) u = visible (dir f) u) \<and> (\<forall>u. visible (dir g) u \<in> {None, visible (dir f) u}) \<and>
    (e = None \<longrightarrow> (\<forall>u \<in> set us. visible (dir g) u = None)) \<and> (\<forall>u. u \<notin> set us \<longrightarrow> rows g u = rows f u)"
  using assms
proof (induction us arbitrary: f)
  case (Cons u us)
  show ?case
  proof (cases "\<not> rm_ok u \<and> map_of (dir f) (message_rel (unat u)) \<noteq> None")
    case True
    with Cons.prems have "e = Some u" "g = f" "folder_room n g" by auto
    then show ?thesis by simp
  next
    case False
    let ?d = "remove_file (message_rel (unat u)) (dir f)"
    have tidy: "tidy_dir (dir f)" using Cons.prems(1) by (simp add: folder_room_def)
    have gone: "visible ?d = (visible (dir f))(u := None)"
    proof (cases "u = 0")
      case True
      have "visible ?d = visible (dir f)"
      proof (rule visible_cong [OF tidy remove_tidy [OF tidy]])
        fix v :: u32 assume "v \<noteq> 0"
        then have "path_uid (message_rel (unat v)) = Some v" by (rule path_uid_rel)
        moreover have "path_uid (message_rel 0) = None" by code_simp
        ultimately have "message_rel (unat v) \<noteq> message_rel (unat u)" using True by auto
        then show "map_of ?d (message_rel (unat v)) = map_of (dir f) (message_rel (unat v))" by (simp add: map_of_remove)
      qed
      then show ?thesis using True visible_tidy [OF tidy, of 0] by (simp add: fun_eq_iff)
    qed (rule visible_remove [OF tidy])
    have room: "folder_room n (f\<lparr>dir := ?d\<rparr>)" "folder_room n (f\<lparr>dir := ?d, rows := (rows f)(u := None)\<rparr>)"
      using Cons.prems(1) gone by (auto simp: folder_room_def remove_tidy)
    show ?thesis
    proof (cases "db_ok u")
      case True
      with False Cons.prems(2) have "delete_letters rm_ok db_ok us (f\<lparr>dir := ?d, rows := (rows f)(u := None)\<rparr>) = (e, g)"
        by (auto simp: Let_def)
      have e: "dir (f\<lparr>dir := ?d, rows := (rows f)(u := None)\<rparr>) = ?d" "rows (f\<lparr>dir := ?d, rows := (rows f)(u := None)\<rparr>) = (rows f)(u := None)" by simp_all
      note ih = Cons.IH [OF room(2) \<open>delete_letters rm_ok db_ok us (f\<lparr>dir := ?d, rows := (rows f)(u := None)\<rparr>) = (e, g)\<close>, unfolded e gone]
      have "visible (dir g) v = visible (dir f) v" if "v \<notin> set (u # us)" for v using ih that by auto
      moreover have "visible (dir g) v \<in> {None, visible (dir f) v}" for v
      proof -
        have "visible (dir g) v \<in> {None, ((visible (dir f))(u := None)) v}" using ih by blast
        then show ?thesis by (auto split: if_splits)
      qed
      moreover have "visible (dir g) u \<in> {None, ((visible (dir f))(u := None)) u}" using ih by blast
      then have "visible (dir g) u = None" by simp
      ultimately show ?thesis using ih by simp
    next
      case db: False
      with False Cons.prems(2) have "e = Some u" "g = f\<lparr>dir := ?d\<rparr>" by (auto simp: Let_def)
      with room gone show ?thesis by simp
    qed
  qed
qed simp

definition folder_seen :: "folder_state \<Rightarrow> u32 \<Rightarrow> (int \<times> string) option" where
  "folder_seen f = visible (dir f)"

definition put_plain :: "append_says \<times> int \<times> string list \<Rightarrow> int \<times> string \<Rightarrow> folder_state \<Rightarrow> u32 option \<times> folder_state" where
  "put_plain a m f = append_letter (fst a) (fst (snd a)) \<lparr>le_flags = snd (snd a), le_date = fst m, le_body = snd m\<rparr> f"

interpretation local_folder: mail_folder folder_seen put_plain drop_letters folder_room
proof (unfold_locales, goal_cases)
  case (1 n s a m u s')
  with append_letter_effect [of n s "fst a" "fst (snd a)" "\<lparr>le_flags = snd (snd a), le_date = fst m, le_body = snd m\<rparr>" "Some u" s']
  show ?case by (simp add: put_plain_def folder_seen_def)
next
  case (2 n s a m s')
  with append_letter_effect [of n s "fst a" "fst (snd a)" "\<lparr>le_flags = snd (snd a), le_date = fst m, le_body = snd m\<rparr>" None s']
  show ?case by (auto simp: put_plain_def folder_seen_def)
next
  case (3 n s d us k s')
  then obtain e where "delete_letters (fst d) (snd d) us s = (e, s')" "k = (e = None)"
    by (auto simp: drop_letters_def Let_def split: prod.splits)
  with delete_letters_effect [OF 3(1) this(1)] show ?case unfolding folder_seen_def by blast
qed

text \<open>C35: A folder keeps its mail. Over any sequence of appends, each of which may fail at any of its steps, and
  deletions, which may stop half way, every message that no deletion names is still there, under its UID, with its
  date and every byte; what an append answers with a UID is there; and nothing is there that was neither there
  before nor appended (while UIDs are left in the 32-bit range).\<close>

theorem folder_keeps_its_mail:
  assumes "mail_run put_plain drop_letters es f = (given, g)" and "folder_room (length (puts es)) f"
  shows "(\<forall>u m. visible (dir f) u = Some m \<longrightarrow> u \<notin> named es \<longrightarrow> visible (dir g) u = Some m) \<and>
    (\<forall>(u, m) \<in> set given. u \<notin> named es \<longrightarrow> visible (dir g) u = Some m) \<and>
    (\<forall>u m. visible (dir g) u = Some m \<longrightarrow> visible (dir f) u = Some m \<or> m \<in> set (puts es))"
  using local_folder.run_keeps [OF assms] unfolding folder_seen_def by blast

definition all_well :: append_says where
  "all_well = \<lparr>as_part = [], as_staged = True, as_times = True, as_claimed = True, as_made = True, as_moved = True,
     as_recorded = True, as_tag = ''1''\<rparr>"

definition one_letter_folder :: folder_state where
  "one_letter_folder = \<lparr>uid_next = 6, db_uid_next = 6, rows = Map.empty,
     dir = [(''0000000005.eml'', \<lparr>mod_time = 3, file_size = 1, file_data = ''a''\<rparr>)]\<rparr>"

lemma one_letter_room: "n < 100 \<Longrightarrow> folder_room n one_letter_folder"
proof -
  have p: "uid_pairs (map fst (dir one_letter_folder)) = [(5, ''0000000005.eml'')]" by code_simp
  have r: "message_rel 5 = ''0000000005.eml''" by code_simp
  have t: "tidy_dir (dir one_letter_folder)"
  proof (unfold tidy_dir_def, intro conjI allI impI)
    fix q u assume "q \<in> set (map fst (dir one_letter_folder))" "path_uid q = Some u"
    then have "(u, q) \<in> set (uid_pairs (map fst (dir one_letter_folder)))" unfolding uid_pairs_iff by simp
    then show "q = message_rel (unat u)" unfolding p using r by simp
  qed (simp add: one_letter_folder_def)
  have five: "u = 5" if "visible (dir one_letter_folder) u \<noteq> None" for u
    using that disk_uids_None [of "dir one_letter_folder" u] uid_pairs_iff [of u _ "map fst (dir one_letter_folder)"]
    unfolding p visible_def by (auto split: option.splits)
  have "u < uid_next one_letter_folder" if "visible (dir one_letter_folder) u \<noteq> None" for u
    using five [OF that] by (simp add: one_letter_folder_def)
  with t show "n < 100 \<Longrightarrow> folder_room n one_letter_folder" by (simp add: folder_room_def one_letter_folder_def)
qed

theorem folder_keeps_its_mail_witness:
  "fst (mail_run put_plain drop_letters
      [Put (all_well, 8, []) (7, ''bc''), Put (all_well\<lparr>as_recorded := False\<rparr>, 8, []) (7, ''d''), Drop ((\<lambda>_. True), (\<lambda>_. True)) [5]]
      one_letter_folder) = [(6, 7, ''bc'')] \<and>
   visible (dir (snd (mail_run put_plain drop_letters
      [Put (all_well, 8, []) (7, ''bc''), Put (all_well\<lparr>as_recorded := False\<rparr>, 8, []) (7, ''d''), Drop ((\<lambda>_. True), (\<lambda>_. True)) [5]]
      one_letter_folder))) 6 = Some (7, ''bc'')"
proof -
  let ?es = "[Put (all_well, 8, []) (7, ''bc''), Put (all_well\<lparr>as_recorded := False\<rparr>, 8, []) (7, ''d''), Drop ((\<lambda>_. True), (\<lambda>_. True)) [5]]"
  obtain given g where r: "mail_run put_plain drop_letters ?es one_letter_folder = (given, g)" by fastforce
  have "fst (mail_run put_plain drop_letters ?es one_letter_folder) = [(6, 7, ''bc'')]" by code_simp
  moreover have "folder_room (length (puts ?es)) one_letter_folder" by (rule one_letter_room) simp
  ultimately show ?thesis using folder_keeps_its_mail [OF r] r by simp
qed

text \<open>C36: An append is all or nothing, whenever it is cut off: at each point of it the folder holds what it held, or
  that and the whole message with its own date; and opening it again loses nothing, gives every message a row, and
  never gives the new message's UID to another.\<close>

theorem append_survives_a_crash:
  assumes "folder_room (Suc 0) f" and "LocalStore.foreign (scan (dir f)) = []" and "g \<in> set (snd (append_run says now m f))"
  defines "u \<equiv> max 1 (uid_next f)" and "h \<equiv> reconcile (g\<lparr>uid_next := db_uid_next g\<rparr>)"
  shows "(visible (dir g) = visible (dir f) \<or> visible (dir f) u = None \<and> visible (dir g) = (visible (dir f))(u \<mapsto> (le_date m, le_body m))) \<and>
    visible (dir h) = visible (dir g) \<and> (\<forall>v. rows h v \<noteq> None \<longleftrightarrow> visible (dir g) v \<noteq> None) \<and>
    (visible (dir g) u \<noteq> None \<longrightarrow> u < uid_next h)"
proof -
  obtain r fs where run: "append_run says now m f = (r, fs)" by fastforce
  with assms(3) have "unchanged_or_whole m f g" using append_run_whole [OF assms(1) run] by simp
  note w = this [unfolded unchanged_or_whole_def Let_def, folded u_def]
  let ?g = "g\<lparr>uid_next := db_uid_next g\<rparr>" and ?found = "scan (dir g)"
  have none: "LocalStore.foreign ?found = []" using w assms(2) by (simp add: scan_facts)
  then have h: "h = raise_uid_next (max_uid ?found) (?g\<lparr>rows := reconcile_rows ?found (dir g) (rows g)\<rparr>)"
    unfolding h_def by (simp add: reconcile_def Let_def)
  have d: "dir h = dir g" "rows h = reconcile_rows ?found (dir g) (rows g)" unfolding h by (simp_all add: raise_uid_next_def)
  have "rows h v \<noteq> None \<longleftrightarrow> visible (dir g) v \<noteq> None" for v
  proof (cases "disk_uids ?found v")
    case (Some p)
    then have "map_of (dir g) p \<noteq> None" using disk_uids_Some by (metis map_of_eq_None_iff set_map)
    with Some show ?thesis by (auto simp: d visible_def reconcile_rows_def split: option.splits)
  qed (simp add: d visible_def reconcile_rows_def)
  moreover have "u < uid_next h" if "visible (dir g) u \<noteq> None"
  proof -
    have free: "visible (dir f) u = None" and below: "\<And>v. visible (dir f) v \<noteq> None \<Longrightarrow> v < u"
      using next_free [OF assms(1), folded u_def] by blast+
    with w that have u: "u < db_uid_next g" "visible (dir g) = (visible (dir f))(u \<mapsto> (le_date m, le_body m))" by auto
    have "max_uid ?found \<le> u"
    proof -
      have "max_uid ?found \<in> insert 0 (set (map fst (uid_pairs (map fst (dir g)))))"
        using Max_in [of "set (0 # map fst (uid_pairs (map fst (dir g))))"] unfolding scan_facts Max.set_eq_fold [symmetric] by simp
      moreover have "v \<le> u" if "v \<in> set (map fst (uid_pairs (map fst (dir g))))" for v
      proof -
        from that obtain p where "(v, p) \<in> set (uid_pairs (map fst (dir g)))" by auto
        then have "p \<in> set (map fst (dir g))" "path_uid p = Some v" unfolding uid_pairs_iff by blast+
        then have "disk_uids ?found v \<noteq> None" unfolding disk_uids_None by blast
        then have "v \<in> uids_of (dir g)" unfolding uids_of_def by (simp add: dom_def)
        then have "visible (dir g) v \<noteq> None" using w by (simp add: uids_visible tidy_dir_def)
        then show "v \<le> u" using below [of v] unfolding u(2) by (auto split: if_splits)
      qed
      ultimately show ?thesis by auto
    qed
    with u(1) have "max_uid ?found < db_uid_next g" by (rule le_less_trans [rotated])
    with u(1) show ?thesis unfolding h raise_uid_next_def by simp
  qed
  moreover have "visible (dir g) = visible (dir f) \<or> visible (dir f) u = None \<and> visible (dir g) = (visible (dir f))(u \<mapsto> (le_date m, le_body m))"
    using w by blast
  ultimately show ?thesis unfolding d(1) by blast
qed

theorem append_survives_a_crash_witness:
  "(case snd (append_run all_well 8 \<lparr>le_flags = [], le_date = 7, le_body = ''bc''\<rparr> one_letter_folder) ! 5 of
      g \<Rightarrow> visible (dir (reconcile (g\<lparr>uid_next := db_uid_next g\<rparr>))) 6 = Some (7, ''bc'') \<and>
           rows (reconcile (g\<lparr>uid_next := db_uid_next g\<rparr>)) 6 \<noteq> None)"
proof -
  let ?m = "\<lparr>le_flags = [], le_date = 7, le_body = ''bc''\<rparr>"
  let ?fs = "snd (append_run all_well 8 ?m one_letter_folder)"
  have "length ?fs = 7" "LocalStore.foreign (scan (dir one_letter_folder)) = []" by code_simp+
  then have "?fs ! 5 \<in> set ?fs" by simp
  from append_survives_a_crash [OF one_letter_room _ this]
  have t: "visible (dir (reconcile ((?fs ! 5)\<lparr>uid_next := db_uid_next (?fs ! 5)\<rparr>))) = visible (dir (?fs ! 5))"
    "rows (reconcile ((?fs ! 5)\<lparr>uid_next := db_uid_next (?fs ! 5)\<rparr>)) 6 \<noteq> None \<longleftrightarrow> visible (dir (?fs ! 5)) 6 \<noteq> None"
    using \<open>LocalStore.foreign (scan (dir one_letter_folder)) = []\<close> by simp_all
  have "visible (dir (?fs ! 5)) 6 = Some (7, ''bc'')" by code_simp
  with t show ?thesis by simp
qed

section \<open>A dry run leaves the store as it is\<close>

datatype store_op =
  Select string bool | Subscribe string | Create string | Append append_says string "string list" "int option" string
| StoreFlags bool nat "string list" | Delete "u32 \<Rightarrow> bool" "u32 \<Rightarrow> bool" "nat list" | Disconnect

definition perform :: "int \<Rightarrow> store_op \<Rightarrow> local_conn \<times> store \<Rightarrow> local_conn \<times> store" where
  "perform now x cs =
     (let (c, s) = cs in
      case x of
        Select name ro \<Rightarrow> (let (_, c, s) = conn_select now name ro c s in (c, s))
      | Subscribe name \<Rightarrow> (c, snd (conn_subscribe now name s))
      | Create name \<Rightarrow> (c, snd (store_create now name s))
      | Append says name fs date body \<Rightarrow> (c, snd (conn_append says now name fs date body c s))
      | StoreFlags k u fs \<Rightarrow> (c, snd (conn_store_flags k c u fs s))
      | Delete rm db us \<Rightarrow> (c, snd (conn_delete rm db us c s))
      | Disconnect \<Rightarrow> (conn_close c, s))"

lemma open_keeps_tree:
  "store_open now name s = (r, s') \<Longrightarrow> so_read_only s \<Longrightarrow> so_tree s' = so_tree s \<and> so_read_only s'"
  by (auto simp: store_open_def open_folder_read_only_def Let_def split: db_file.splits option.splits if_splits)

lemma perform_keeps_tree:
  assumes "so_read_only s" and "perform now x (c, s) = (c', s')"
  shows "so_tree s' = so_tree s \<and> so_read_only s'"
proof (cases x)
  case (Select name ro)
  obtain r t where "store_open now name s = (r, t)" by fastforce
  with assms Select open_keeps_tree [OF this assms(1)] show ?thesis
    by (cases r) (auto simp: perform_def conn_select_def Let_def)
qed (use assms in \<open>auto simp: perform_def conn_subscribe_def store_create_def conn_append_def conn_store_flags_def conn_delete_def
  split: option.splits\<close>)

lemma run_keeps_tree:
  "so_read_only s \<Longrightarrow> so_tree (snd (fold (\<lambda>(now, x) cs. perform now x cs) ops (c, s))) = so_tree s"
proof (induction ops arbitrary: c s)
  case (Cons y ops)
  obtain now x where y: "y = (now, x)" by fastforce
  obtain c' s' where p: "perform now x (c, s) = (c', s')" by fastforce
  from perform_keeps_tree [OF Cons.prems p] Cons.IH [of s' c'] show ?case by (simp add: y p)
qed simp

lemma open_read_only_Inr:
  "open_read_only found folds seen tree = Inr s \<Longrightarrow> so_read_only s \<and> so_tree s = tree \<and> found = Some True"
  by (auto simp: open_read_only_def split: option.splits if_splits)

text \<open>A store opened for a dry run is left as it is: whatever is done through its connections, in whatever order
  - selecting folders, creating, appending, storing flags, deleting -, no directory, message file or database in it
  changes. (Opening it otherwise creates an INBOX and selecting a folder renames and adopts.)\<close>

theorem dry_run_store_is_untouched:
  assumes "open_read_only found folds seen tree = Inr s"
  shows "so_tree (snd (fold (\<lambda>(now, x) cs. perform now x cs) ops (c, s))) = tree"
  using open_read_only_Inr [OF assms] run_keeps_tree by simp

definition stray_tree :: "(path \<times> node) list" where
  "stray_tree = [(''INBOX'', \<lparr>nd_db = BrokenDb, nd_files = [(''note.eml'', \<lparr>mod_time = 3, file_size = 1, file_data = ''a''\<rparr>)], nd_shards = []\<rparr>)]"

theorem dry_run_store_is_untouched_witness:
  "(case open_read_only (Some True) False 9 stray_tree of
      Inl e \<Rightarrow> False
    | Inr s \<Rightarrow> so_tree (snd (fold (\<lambda>(now, x) cs. perform now x cs) [(5, Select ''INBOX'' False), (6, Create ''new'')]
        (\<lparr>cn_sel = None, cn_read_only = False\<rparr>, s))) = stray_tree)"
proof -
  obtain s where s: "open_read_only (Some True) False 9 stray_tree = Inr s" by (simp add: open_read_only_def)
  from dry_run_store_is_untouched [OF s, of "[(5, Select ''INBOX'' False), (6, Create ''new'')]" "\<lparr>cn_sel = None, cn_read_only = False\<rparr>"]
  show ?thesis unfolding s sum.case .
qed

section \<open>Through a connection\<close>

lemma same_refl [simp]: "same_path s p p"
  by (simp add: same_path_def equal_fold_def)

lemma look_put: "same p \<Longrightarrow> look_up same (put_node same p n t) = Some n"
  by (induction t) auto

lemma node_at_set [simp]: "node_at (set_node p n s) p = Some n"
  using look_put [of "\<lambda>q. same_path s q p" p n "so_tree s"] by (simp add: node_at_def set_node_def same_path_def)

lemma stored_folder:
  assumes "node_at s p = Some n" and "so_open s p = Some h"
  shows "files_at (store_folder p k f s) p = dir f" "so_open (store_folder p k f s) p = Some (h\<lparr>ha_next := uid_next f\<rparr>)"
    "fd_messages (db_at (store_folder p k f s) p) = rows f"
proof -
  let ?s = "store_folder p k f s"
  obtain m where "?s = (set_node p m s)\<lparr>so_open := (so_open s)(p \<mapsto> h\<lparr>ha_next := uid_next f\<rparr>)\<rparr>" "nd_files m = dir f"
    "\<exists>d. nd_db m = Db d \<and> fd_messages d = rows f"
    using assms by (auto simp: store_folder_def folder_store_def)
  moreover have "node_at (t\<lparr>so_open := g\<rparr>) p = node_at t p" for t g by (simp add: node_at_def same_path_def)
  ultimately show "files_at ?s p = dir f" "so_open ?s p = Some (h\<lparr>ha_next := uid_next f\<rparr>)" "fd_messages (db_at ?s p) = rows f"
    by (auto simp: files_at_def db_at_def)
qed

text \<open>C37: What a connection appends it reads back: the UID and the UIDVALIDITY in the answer are the folder's, a
  fetch of that UID gives every byte, its flags and size are those of the message, and the UID was free before.\<close>

theorem appended_message_reads_back:
  assumes "so_open s (folder_rel name) = Some h" and "ha_cached h" and "node_at s (folder_rel name) = Some n"
    and "folder_room (Suc 0) (folder_at s (folder_rel name))"
    and "conn_append says now name fs date body c s = (Inr (u, v), s')"
  shows "v = unat (ha_validity h) \<and> u \<notin> set (uid_list (files_at s (folder_rel name))) \<and>
    set (uid_list (files_at s' (folder_rel name))) = insert u (set (uid_list (files_at s (folder_rel name)))) \<and>
    conn_body \<lparr>cn_sel = Some (folder_rel name), cn_read_only = ro\<rparr> u s' = Inr body \<and>
    fd_messages (db_at s' (folder_rel name)) (word_of_nat u) =
      Some \<lparr>row_flags = join_flags fs, internal_date = (case date of None \<Rightarrow> now | Some t \<Rightarrow> t), row_size = int (length body)\<rparr>"
proof -
  let ?p = "folder_rel name" and ?f = "folder_at s (folder_rel name)"
  let ?m = "\<lparr>le_flags = fs, le_date = (case date of None \<Rightarrow> now | Some t \<Rightarrow> t), le_body = body\<rparr>"
  have "\<not> so_closed s \<and> store_open now name s = (Inr ?p, s)"
    using assms(1,5) by (auto simp: store_open_def conn_append_def Let_def split: if_splits)
  then obtain w g where a: "append_letter says now ?m ?f = (Some w, g)" and s': "s' = store_folder ?p (shards_after says ?f) g s"
    and u: "u = unat w" "v = unat (ha_validity h)"
    using assms(1,5) by (auto simp: conn_append_def Let_def split: if_splits prod.splits option.splits)
  note e = append_letter_effect [OF assms(4) a]
  have w: "w \<noteq> 0" using e by (auto simp: max_def)
  have f: "dir ?f = files_at s ?p" by (simp add: folder_at_def folder_view_def)
  note st = stored_folder [OF assms(3,1), of "shards_after says ?f" g, folded s']
  have tidy: "tidy_dir (dir g)" "tidy_dir (dir ?f)" using e assms(4) by (auto simp: folder_room_def)
  then have dist: "distinct (map fst (dir g))" "distinct (map fst (dir ?f))" by (simp_all add: tidy_dir_def)
  have seen: "visible (dir g) = (visible (dir ?f))(w \<mapsto> (le_date ?m, body))" using e by simp
  have uids: "uids_of (dir g) = insert w (uids_of (dir ?f))" "w \<notin> uids_of (dir ?f)"
    using uids_visible [OF dist(1)] uids_visible [OF dist(2)] seen e by (auto split: if_splits)
  have lists: "set (uid_list d) = unat ` uids_of d" for d by (simp add: uid_list_def ordered_def)
  have "visible (dir g) w = Some (le_date ?m, body)" using seen by simp
  then obtain i where "map_of (dir g) (message_rel (unat w)) = Some i" "file_data i = body"
    using visible_tidy [OF tidy(1), of w] w by (auto split: option.splits)
  then have body: "conn_body \<lparr>cn_sel = Some ?p, cn_read_only = ro\<rparr> u s' = Inr body"
    by (simp add: conn_body_def file_at_def st u(1))
  have "rows g w = Some (letter_row ?m)" using e by simp
  then have row: "fd_messages (db_at s' ?p) (word_of_nat u) = Some (letter_row ?m)" by (simp add: st u(1))
  have "u \<notin> unat ` uids_of (dir ?f)" using uids(2) u(1) by (auto dest: word_unat_eq_iff [THEN iffD2])
  then show ?thesis using body row u uids(1) unfolding lists st f letter_row_def by (simp add: u(1))
qed

definition sample_handle :: handle where
  "sample_handle = \<lparr>ha_name = ''Post'', ha_validity = 9, ha_next = 6, ha_subscribed = False, ha_cached = True\<rparr>"

definition sample_store :: store where
  "sample_store =
     \<lparr>so_tree = [(''Post'', \<lparr>nd_db = Db \<lparr>fd_row = Some \<lparr>fo_name = ''Post'', fo_validity = 9, fo_next = 6, fo_subscribed = False\<rparr>,
                    fd_messages = Map.empty\<rparr>, nd_files = dir one_letter_folder, nd_shards = []\<rparr>)],
      so_open = Map.empty(''Post'' \<mapsto> sample_handle), so_read_only = False, so_closed = False, so_seen = 9, so_folds = False\<rparr>"

theorem appended_message_reads_back_witness:
  "(case conn_append all_well 8 ''Post'' [] (Some 7) ''bc'' \<lparr>cn_sel = None, cn_read_only = False\<rparr> sample_store of
      (r, s') \<Rightarrow> r = Inr (6, 9) \<and> conn_body \<lparr>cn_sel = Some ''Post'', cn_read_only = True\<rparr> 6 s' = Inr ''bc'')"
proof -
  let ?c = "\<lparr>cn_sel = None, cn_read_only = False\<rparr>"
  obtain r s' where a: "conn_append all_well 8 ''Post'' [] (Some 7) ''bc'' ?c sample_store = (r, s')" by fastforce
  have "fst (conn_append all_well 8 ''Post'' [] (Some 7) ''bc'' ?c sample_store) = Inr (6, 9)" by code_simp
  with a have r: "r = Inr (6, 9)" by simp
  have p: "folder_rel ''Post'' = ''Post''" by code_simp
  have o1: "so_open sample_store ''Post'' = Some sample_handle" "ha_cached sample_handle"
    by (simp_all add: sample_store_def sample_handle_def)
  have n: "\<exists>n. node_at sample_store ''Post'' = Some n"
    by (simp add: node_at_def sample_store_def same_path_def)
  have "folder_at sample_store ''Post'' = one_letter_folder"
    by (simp add: folder_at_def folder_view_def db_at_def files_at_def node_at_def sample_store_def sample_handle_def
        same_path_def one_letter_folder_def)
  with one_letter_room have "folder_room (Suc 0) (folder_at sample_store ''Post'')" by simp
  with appended_message_reads_back [of sample_store "''Post''", unfolded p, OF o1(1) o1(2) _ _ a [unfolded r]] n r a
  show ?thesis by auto
qed

section \<open>Where the promises end\<close>

text \<open>A message file outside the directory of its shard, as a copy by hand makes it, is listed under its UID and
  stays so; but it is looked for where its UID says: it cannot be read, and deleting it reports success and leaves
  it there.\<close>

definition misplaced :: folder_state where
  "misplaced = \<lparr>uid_next = 12346, db_uid_next = 12346, rows = Map.empty,
     dir = [(''0000012345.eml'', \<lparr>mod_time = 3, file_size = 1, file_data = ''a''\<rparr>)]\<rparr>"

lemma misplaced_message_survives_deletion:
  "disk_uids (scan (dir misplaced)) 12345 = Some ''0000012345.eml''"
  "LocalStore.foreign (scan (dir misplaced)) = []"
  "map_of (dir misplaced) (message_rel 12345) = None"
  "fst (delete_letters (\<lambda>_. True) (\<lambda>_. True) [12345] misplaced) = None"
  "dir (snd (delete_letters (\<lambda>_. True) (\<lambda>_. True) [12345] misplaced)) = dir misplaced"
  by code_simp+

text \<open>A folder below another that is opened without its database - deleting which is the documented repair - is
  given its last segment for a name, and from then on it is listed under a name that does not lead to it.\<close>

definition repaired :: store where
  "repaired =
     \<lparr>so_tree = [(''Sendt/2024'', \<lparr>nd_db = NoDb, nd_files = [(''0000000005.eml'', \<lparr>mod_time = 3, file_size = 1, file_data = ''a''\<rparr>)], nd_shards = []\<rparr>)],
      so_open = Map.empty, so_read_only = False, so_closed = False, so_seen = 0, so_folds = False\<rparr>"

lemma repaired_folder_loses_its_name:
  "store_list repaired = [''Sendt/2024'']"
  "store_list (snd (store_open 7 ''Sendt/2024'' repaired)) = [''2024'']"
  "fst (store_open 8 ''2024'' (snd (store_open 7 ''Sendt/2024'' repaired))) = Inl (NoSuchFolder ''2024'')"
  by code_simp+

text \<open>The check for names that differ in case looks at the last segment alone: below two parents that differ in
  case, which a file system that folds case takes for one, it sees no collision, and the two folders are one
  directory under two handles, which give out the same UID: the second message takes the place of the first.\<close>

definition folding :: store where
  "folding = \<lparr>so_tree = [], so_open = Map.empty, so_read_only = False, so_closed = False, so_seen = 0, so_folds = True\<rparr>"

definition two_handles :: store where
  "two_handles =
     snd (store_open 7 ''a/x'' (snd (store_open 6 ''A/x'' (snd (store_create 5 ''a/x'' (snd (store_create 4 ''A/x'' folding)))))))"

definition first_append :: folder_state where
  "first_append = snd (append_letter all_well 8 \<lparr>le_flags = [], le_date = 7, le_body = ''1''\<rparr>
     \<lparr>uid_next = 1, db_uid_next = 1, rows = Map.empty, dir = []\<rparr>)"

definition second_append :: "u32 option \<times> folder_state" where
  "second_append = append_letter all_well 8 \<lparr>le_flags = [], le_date = 7, le_body = ''2''\<rparr> (first_append\<lparr>uid_next := 1\<rparr>)"

lemma parents_in_two_cases_merge:
  "fst (store_create 5 ''a/x'' (snd (store_create 4 ''A/x'' folding))) = None"
  "fst (store_create 5 ''A/X'' (snd (store_create 4 ''A/x'' folding))) = Some (CaseCollision ''A/X'' ''x'')"
  "map fst (so_tree (snd (store_create 5 ''a/x'' (snd (store_create 4 ''A/x'' folding))))) = [''A/x'']"
  "map_option ha_next (so_open two_handles ''A/x'') = Some 1"
  "map_option ha_next (so_open two_handles ''a/x'') = Some 1"
  "map (\<lambda>(q, i). (q, file_data i)) (dir first_append) = [(''0000000001.eml'', ''1'')]"
  "fst second_append = Some 1"
  "map (\<lambda>(q, i). (q, file_data i)) (dir (snd second_append)) = [(''0000000001.eml'', ''2'')]"
  by code_simp+

text \<open>The end of a header is looked for as two CRLF before it is looked for as two LF: in a message of plain line
  feeds the header goes on into the body, up to a CRLF CRLF in it, and a field quoted there is read as one of the
  message's own.\<close>

lemma header_swallows_the_body:
  "select_fields (header_on_disk ([CHR ''S'', CHR '':'', CHR ''x'', CHR 0x0A, CHR 0x0A, CHR ''M'', CHR '':'', CHR ''y'', CHR 0x0A]
     @ [CHR 0x0D, CHR 0x0A, CHR 0x0D, CHR 0x0A])) [''M''] = [CHR ''M'', CHR '':'', CHR ''y'', CHR 0x0A, CHR 0x0D, CHR 0x0A]"
proof -
  let ?raw = "[CHR ''S'', CHR '':'', CHR ''x'', CHR 0x0A, CHR 0x0A, CHR ''M'', CHR '':'', CHR ''y'', CHR 0x0A] @ [CHR 0x0D, CHR 0x0A, CHR 0x0D, CHR 0x0A]"
  have e: "end_of_header ?raw = Some 11" by code_simp
  have "[1..<max_header div header_chunk + 1] = 1 # [2..<129]" by (simp add: max_header_def header_chunk_def upt_conv_Cons)
  then have "header_on_disk ?raw = take 11 ?raw" using e by (simp add: header_on_disk_def header_chunk_def)
  moreover have "select_fields (take 11 ?raw) [''M''] = [CHR ''M'', CHR '':'', CHR ''y'', CHR 0x0A, CHR 0x0D, CHR 0x0A]" by code_simp
  ultimately show ?thesis by simp
qed

end
