(* ===== verification/Endpoints.thy ===== *)
theory Endpoints
  imports Command Credential StoreConn
begin

text \<open>
  Both ends of a run (\<open>pools\<close>, \<open>destPool\<close>, \<open>endpoint\<close>, \<open>dialer\<close> and the closing of them in
  \<open>src/cmd/imapsync-go/sync.go\<close>): which store is opened, how, and on which condition; the pools over them; and
  what is closed again, in which order, when the run ends or never begins. Opening and closing are recorded as they
  happen. What the file system holds at the end's path is an argument.
\<close>

datatype run_side = SourceSide | DestSide

datatype access = Writable | ReadOnly | Scratch

text \<open>What is opened and closed along the way.\<close>

datatype thing = ScratchDir | StoreOf run_side access | PoolOf run_side

datatype happening = Opened thing | Closed thing

datatype end_error =
  BadPath config_error | Missing string | Unreadable string go_error | NotOpened store_error
| NoScratch go_error | NoPool string | OnSide run_side end_error

section \<open>One end\<close>

text \<open>\<open>os.Stat\<close> of the path, with the tree below it if it is a directory.\<close>

datatype found = Absent | StatFailed go_error | Found bool "(path \<times> node) list"

record end_says =
  es_home :: "string option"
  es_cwd :: "string option"
  es_found :: found
  es_mkdir :: "store_error option"
  es_temp :: "go_error option"
  es_folds :: bool
  es_seen :: u32
  es_now :: int

definition tree_found :: "found \<Rightarrow> (path \<times> node) list" where
  "tree_found f = (case f of Found _ t \<Rightarrow> t | _ \<Rightarrow> [])"

datatype side_end = Server | Local access store

text \<open>\<open>localstore.Open\<close>: the directory is made if it is not there, then its INBOX.\<close>

definition open_dir :: "end_says \<Rightarrow> (path \<times> node) list \<Rightarrow> store_error + store" where
  "open_dir w tree =
     (case es_mkdir w of Some e \<Rightarrow> Inl e | None \<Rightarrow> open_store (es_now w) (es_folds w) (es_seen w) tree)"

definition must_exist :: "string \<Rightarrow> found \<Rightarrow> end_error option" where
  "must_exist p f = (case f of Absent \<Rightarrow> Some (Missing p) | StatFailed e \<Rightarrow> Some (Unreadable p (WrapErr [e])) | Found _ _ \<Rightarrow> None)"

definition scratch_store :: "end_says \<Rightarrow> (end_error + side_end) \<times> happening list" where
  "scratch_store w =
     (case es_temp w of
        Some e \<Rightarrow> (Inl (NoScratch (WrapErr [e])), [])
      | None \<Rightarrow>
          (case open_dir w [] of
             Inl e \<Rightarrow> (Inl (NotOpened e), [Opened ScratchDir, Closed ScratchDir])
           | Inr s \<Rightarrow> (Inr (Local Scratch s), [Opened ScratchDir, Opened (StoreOf DestSide Scratch)])))"

definition store_of :: "run_side \<Rightarrow> access \<Rightarrow> store_error + store \<Rightarrow> (end_error + side_end) \<times> happening list" where
  "store_of sd a r =
     (case r of Inl e \<Rightarrow> (Inl (NotOpened e), []) | Inr s \<Rightarrow> (Inr (Local a s), [Opened (StoreOf sd a)]))"

definition end_of :: "end_says \<Rightarrow> bool \<Rightarrow> run_side \<Rightarrow> endpoint \<Rightarrow> (end_error + side_end) \<times> happening list" where
  "end_of w dry sd pt =
     (if \<not> is_local (ep_url pt) then (Inr Server, [])
      else
        (case local_path (es_home w) (es_cwd w) (ep_url pt) of
           Inl e \<Rightarrow> (Inl (BadPath e), [])
         | Inr p \<Rightarrow>
             (case (if sd = SourceSide then must_exist p (es_found w) else None) of
                Some e \<Rightarrow> (Inl e, [])
              | None \<Rightarrow>
                  if sd = DestSide \<and> dry then
                    (if es_found w = Absent then scratch_store w
                     else store_of sd ReadOnly
                       (open_read_only (case es_found w of Found is_dir _ \<Rightarrow> Some is_dir | _ \<Rightarrow> None)
                          (es_folds w) (es_seen w) (tree_found (es_found w))))
                  else store_of sd Writable (open_dir w (tree_found (es_found w))))))"

text \<open>Closing a store; the scratch directory goes with its store. That a store could not be settled is only said.\<close>

definition close_store :: "run_side \<Rightarrow> side_end \<Rightarrow> happening list" where
  "close_store sd e =
     (case e of
        Server \<Rightarrow> []
      | Local a _ \<Rightarrow> Closed (StoreOf sd a) # (if a = Scratch then [Closed ScratchDir] else []))"

section \<open>Both pools\<close>

definition dest_pool :: "end_says \<Rightarrow> bool \<Rightarrow> endpoint \<Rightarrow> int \<Rightarrow> (end_error + side_end \<times> happening list) \<times> happening list" where
  "dest_pool w dry pt n =
     (case end_of w dry DestSide pt of
        (Inl e, h) \<Rightarrow> (Inl (OnSide DestSide e), h)
      | (Inr t, h) \<Rightarrow>
          if n < 1 then (Inl (OnSide DestSide (NoPool ''pool cap must be at least 1'')), h @ close_store DestSide t)
          else (Inr (t, Closed (PoolOf DestSide) # close_store DestSide t), h @ [Opened (PoolOf DestSide)]))"

text \<open>The closers run from the last to the first, when the call fails and when the run is over.\<close>

definition unwind :: "happening list list \<Rightarrow> happening list" where
  "unwind closers = concat (rev closers)"

definition both_pools ::
  "end_says \<Rightarrow> end_says \<Rightarrow> bool \<Rightarrow> cfg_pair \<Rightarrow> int \<Rightarrow> int \<Rightarrow> (end_error + side_end \<times> side_end \<times> happening list) \<times> happening list" where
  "both_pools ws wt dry p ns nt =
     (case end_of ws dry SourceSide (cp_source p) of
        (Inl e, h) \<Rightarrow> (Inl (OnSide SourceSide e), h)
      | (Inr s, h) \<Rightarrow>
          (let closers = [close_store SourceSide s] in
           case dest_pool wt dry (cp_dest p) nt of
             (Inl e, k) \<Rightarrow> (Inl e, h @ k @ unwind closers)
           | (Inr (t, give_back), k) \<Rightarrow>
               (let closers = closers @ [give_back] in
                if ns < 1 then (Inl (OnSide SourceSide (NoPool ''pool cap must be at least 1'')), h @ k @ unwind closers)
                else (Inr (s, t, unwind (closers @ [[Closed (PoolOf SourceSide)]])), h @ k @ [Opened (PoolOf SourceSide)]))))"

text \<open>Everything that is opened and closed in a run, or in the attempt at one.\<close>

definition whole_life :: "(end_error + side_end \<times> side_end \<times> happening list) \<times> happening list \<Rightarrow> happening list" where
  "whole_life r = snd r @ (case fst r of Inl _ \<Rightarrow> [] | Inr (_, _, give_back) \<Rightarrow> give_back)"

section \<open>Properties\<close>

text \<open>What is open after each happening; a thing can only be closed while it is the last one opened.\<close>

fun settled :: "happening list \<Rightarrow> thing list \<Rightarrow> thing list option" where
  "settled [] open_now = Some open_now"
| "settled (Opened x # h) open_now = settled h (x # open_now)"
| "settled (Closed x # h) [] = None"
| "settled (Closed x # h) (y # open_now) = (if x = y then settled h open_now else None)"

lemma settled_append: "settled (h @ k) xs = (case settled h xs of None \<Rightarrow> None | Some ys \<Rightarrow> settled k ys)"
  by (induction h xs rule: settled.induct) auto

text \<open>What an end leaves open is what closing it closes.\<close>

definition left_open :: "run_side \<Rightarrow> side_end \<Rightarrow> thing list" where
  "left_open sd e = (case e of Server \<Rightarrow> [] | Local a _ \<Rightarrow> StoreOf sd a # (if a = Scratch then [ScratchDir] else []))"

lemma close_settles: "settled (close_store sd e) (left_open sd e @ xs) = Some xs"
  by (simp add: close_store_def left_open_def split: side_end.split)

lemma end_settles:
  assumes "end_of w dry sd pt = (r, h)"
  shows "settled h xs = Some ((case r of Inl _ \<Rightarrow> [] | Inr e \<Rightarrow> left_open sd e) @ xs)"
  using assms
  by (auto simp: end_of_def scratch_store_def store_of_def left_open_def split: if_splits sum.splits option.splits)

text \<open>C21: Whatever fails on the way - a path, a store, a width -, everything that was opened for a run is closed again,
  once, the last first: a pool before the store it reads, and the scratch directory of a dry run after its store.\<close>

theorem everything_opened_is_closed:
  "settled (whole_life (both_pools ws wt dry p ns nt)) [] = Some []"
proof -
  obtain r h where s: "end_of ws dry SourceSide (cp_source p) = (r, h)" by fastforce
  obtain q k where t: "end_of wt dry DestSide (cp_dest p) = (q, k)" by fastforce
  note opened = end_settles [OF s] end_settles [OF t] settled_append close_settles close_settles [of _ _ "[]", simplified]
  show ?thesis
    by (cases r; cases q) (simp_all add: both_pools_def dest_pool_def s t unwind_def whole_life_def opened Let_def)
qed

lemma both_pools_Inr:
  assumes "both_pools ws wt dry p ns nt = (Inr (s, t, give_back), h)"
  shows "\<exists>h1 h2. end_of ws dry SourceSide (cp_source p) = (Inr s, h1) \<and> end_of wt dry DestSide (cp_dest p) = (Inr t, h2) \<and>
    h = h1 @ h2 @ [Opened (PoolOf DestSide), Opened (PoolOf SourceSide)] \<and>
    give_back = [Closed (PoolOf SourceSide), Closed (PoolOf DestSide)] @ close_store DestSide t @ close_store SourceSide s"
  using assms unfolding both_pools_def dest_pool_def Let_def
  by (auto simp: unwind_def split: sum.splits prod.splits if_splits)


definition dir_says :: "found \<Rightarrow> end_says" where
  "dir_says f = \<lparr>es_home = None, es_cwd = None, es_found = f, es_mkdir = None, es_temp = None, es_folds = False, es_seen = 9, es_now = 5\<rparr>"

text \<open>A source opened for reading is opened like any other store: one without an INBOX is given one, and selecting a
  folder in it adopts and renames, in a dry run too.\<close>

lemma source_is_opened_for_writing:
  "(case end_of (dir_says (Found True [])) True SourceSide (sample_end ''file:///mail'' []) of
      (Inr (Local a s), h) \<Rightarrow> a = Writable \<and> map fst (so_tree s) = [''INBOX'']
    | _ \<Rightarrow> False)"
  by code_simp


section \<open>Reaching a server\<close>

text \<open>What the first connection of a pool resolves, all of them use: the address and the credential, or the failure to
  have one.\<close>

datatype dial_error = BadAddress config_error | NoCredential source_error

definition resolve_end :: "world \<Rightarrow> endpoint \<Rightarrow> dial_error + address \<times> source_error credential" where
  "resolve_end w pt =
     (case address_of (ep_url pt) of
        Inl e \<Rightarrow> Inl (BadAddress e)
      | Inr a \<Rightarrow> (case credential_for w pt of Inl e \<Rightarrow> Inl (NoCredential e) | Inr c \<Rightarrow> Inr (a, c)))"

type_synonym once = "(dial_error + address \<times> source_error credential) option"

definition dialer :: "world \<Rightarrow> endpoint \<Rightarrow> once \<Rightarrow> (dial_error + address \<times> source_error credential) \<times> once" where
  "dialer w pt st = (let r = (case st of Some r \<Rightarrow> r | None \<Rightarrow> resolve_end w pt) in (r, Some r))"

fun dials :: "world list \<Rightarrow> endpoint \<Rightarrow> once \<Rightarrow> (dial_error + address \<times> source_error credential) list" where
  "dials [] pt st = []"
| "dials (w # ws) pt st = (let (r, st) = dialer w pt st in r # dials ws pt st)"

text \<open>However many connections a pool dials, and whatever becomes of the keychain meanwhile, all have what the first
  resolved: one credential, so one token - and a failure is final too.\<close>

lemma resolved_once: "dials (w # ws) pt None = replicate (Suc (length ws)) (resolve_end w pt)"
proof -
  have "dials us pt (Some r) = replicate (length us) r" for us r by (induction us) (simp_all add: dialer_def)
  then show ?thesis by (simp add: dialer_def Let_def)
qed

end
