(* ===== verification/DedupCommand.thy ===== *)
theory DedupCommand
  imports Endpoints
begin

text \<open>
  The dedup command (\<open>src/cmd/imapsync-go/dedup.go\<close>): which pair it works for and which destination folders, the
  options of the run, and what the command ends with. It works on one end alone; the source is named so that the
  records of the right pair are read.
\<close>

section \<open>Settings\<close>

text \<open>The source is taken as it is named, and only the destination is checked.\<close>

definition named_end :: "string \<Rightarrow> endpoint" where
  "named_end u =
     \<lparr>ep_url = u, ep_password = no_secret,
      ep_oauth = \<lparr>oa_command = [], oa_file = [], oa_refresh = no_secret, oa_timeout = 0\<rparr>\<rparr>"

definition checked_dest :: "string option \<Rightarrow> string option \<Rightarrow> string \<Rightarrow> cfg_pair \<Rightarrow> cmd_error + cfg_pair" where
  "checked_dest home cwd label p =
     (case check_endpoint home cwd (cp_dest p) of Some e \<Rightarrow> Inl (BadEnd label e) | None \<Rightarrow> Inr p)"

definition dedup_pair :: "(string \<Rightarrow> config_error + cfg_pair list) \<Rightarrow> string option \<Rightarrow> string option \<Rightarrow> sync_flags \<Rightarrow> cmd_error + cfg_pair" where
  "dedup_pair conf home cwd f =
     (let merged = (\<lambda>p. p\<lparr>cp_dest := (cp_dest p)\<lparr>ep_oauth := oauth_from (ep_oauth (cp_dest p)) (side_oauth (cf_dst f))\<rparr>\<rparr>);
          checked = (\<lambda>p. checked_dest home cwd ''destination endpoint'' (merged p)) in
      if cf_config f \<noteq> [] then
        (case conf (cf_config f) of
           Inl e \<Rightarrow> Inl (Configured e)
         | Inr ps \<Rightarrow>
             if cf_pair f \<noteq> [] then (case find_pair ps (cf_pair f) of Inl e \<Rightarrow> Inl (Configured e) | Inr p \<Rightarrow> checked p)
             else if length ps > 1 then Inl (ManyPairs (length ps))
             else checked (hd ps))
      else if sf_url (cf_src f) = [] \<or> sf_url (cf_dst f) = [] then Inl NoEndpoints
      else checked_dest home cwd ''--dest-url'' ((flag_pair f)\<lparr>cp_source := named_end (sf_url (cf_src f))\<rparr>))"

definition selection_of :: "(string \<Rightarrow> pattern option) \<Rightarrow> sync_flags \<Rightarrow> cmd_error + dedup_selection" where
  "selection_of regex f =
     bind_err (compile_patterns regex (cf_include f) ''include'') (\<lambda>inc.
     bind_err (compile_patterns regex (cf_exclude f) ''exclude'') (\<lambda>exc.
       Inr \<lparr>ds_only = cf_only f, ds_include = inc, ds_exclude = exc\<rparr>))"

text \<open>Options that are not set are those of a run that copies nothing, so none of them is looked at.\<close>

definition dedup_options :: "sync_flags \<Rightarrow> string \<Rightarrow> sync_opts" where
  "dedup_options f pid =
     settle_opts \<lparr>pair_name = pid, dry_run = cf_dry_run f, retry_policy = \<lparr>attempts = 0, base = 0, slow = 0, max_wait = 0\<rparr>,
       give_up_after = 0, full = False,
       o_filter = \<lparr>max_size = 0, min_size = 0, max_age = 0, min_age = 0, age_basis = BasisSent\<rparr>,
       source_search = no_search, dest_search = no_search, no_resync_flags = False, no_verify_dest = False,
       delete2_duplicates = False, no_delete2_duplicates = False, sync_duplicates = False, no_subscribe = False,
       delete2 = False, delete_ceiling = cf_delete_ceiling f, force = cf_force f\<rparr>"

text \<open>The state is opened, and the destination reached, along the way; those may fail too.\<close>

definition settle_dedup ::
  "(string \<Rightarrow> config_error + cfg_pair list) \<Rightarrow> (string \<Rightarrow> pattern option) \<Rightarrow> string option \<Rightarrow> string option \<Rightarrow> sync_flags
     \<Rightarrow> cmd_error + cfg_pair \<times> dedup_selection \<times> int \<times> sync_opts" where
  "settle_dedup conf regex home cwd f =
     bind_err (dedup_pair conf home cwd f) (\<lambda>p.
     bind_err (selection_of regex f) (\<lambda>sel.
     let n = pick_width (cf_dst_conns_set f) (cf_dst_conns f) (cp_dest_limit p) in
     bind_err (check_pool ''destination'' n) (\<lambda>_.
     bind_err (if cp_name p \<noteq> [] then Inr (cp_name p)
               else (case derive_pair_id home cwd (cp_source p) (cp_dest p) of Inl e \<Rightarrow> Inl (NoPairName e) | Inr n \<Rightarrow> Inr n)) (\<lambda>pid.
       Inr (p, sel, n, dedup_options f pid)))))"

section \<open>The command\<close>

definition dedup_ending :: "go_error option \<Rightarrow> dedup_report list \<Rightarrow> go_error option \<Rightarrow> ending" where
  "dedup_ending run rs written =
     (case run of
        Some e \<Rightarrow> RunFailed e
      | None \<Rightarrow>
          (case find (\<lambda>fr. dp_err fr \<noteq> None) rs of
             Some fr \<Rightarrow> FolderFailed (dp_dest fr) (the (dp_err fr))
           | None \<Rightarrow>
               (case dedup_totals rs of
                  (_, _, refused, _) \<Rightarrow>
                    if refused > 0 then RefusedToDelete (int refused)
                    else (case written of Some e \<Rightarrow> NotWritten e | None \<Rightarrow> Clean))))"

text \<open>The destination's pool is made after the settings and before the name; whatever happens then, it is given back.\<close>

definition dedup_life :: "end_says \<Rightarrow> sync_flags \<Rightarrow> cfg_pair \<Rightarrow> int \<Rightarrow> happening list" where
  "dedup_life w f p n =
     (case dest_pool w (cf_dry_run f) (cp_dest p) n of
        (Inl _, h) \<Rightarrow> h
      | (Inr (_, give_back), h) \<Rightarrow> h @ give_back)"

section \<open>Properties\<close>

lemma merged_names:
  "cp_name (merge_flags f p) = cp_name p" "ep_url (cp_source (merge_flags f p)) = ep_url (cp_source p)"
  "ep_url (cp_dest (merge_flags f p)) = ep_url (cp_dest p)"
  by (simp_all add: merge_flags_def)

lemma same_urls_same_id:
  "ep_url s = ep_url s' \<Longrightarrow> ep_url t = ep_url t' \<Longrightarrow> derive_pair_id home cwd s t = derive_pair_id home cwd s' t'"
  by (simp add: derive_pair_id_def)

text \<open>Both commands settle on the same pair, as far as it is named.\<close>

lemma same_pair:
  assumes "sync_pair conf home cwd sf f = Inr p" and "dedup_pair conf home cwd f = Inr q"
  shows "cp_name q = cp_name p \<and> ep_url (cp_source q) = ep_url (cp_source p) \<and> ep_url (cp_dest q) = ep_url (cp_dest p)"
proof (cases "cf_config f = []")
  case True
  with assms show ?thesis
    by (auto simp: sync_pair_def dedup_pair_def checked_dest_def Let_def flag_pair_def named_end_def side_endpoint_def
        split: if_splits option.splits)
next
  case False
  with assms obtain r where "p = merge_flags f r"
      "q = r\<lparr>cp_dest := (cp_dest r)\<lparr>ep_oauth := oauth_from (ep_oauth (cp_dest r)) (side_oauth (cf_dst f))\<rparr>\<rparr>"
    by (auto simp: sync_pair_def dedup_pair_def checked_dest_def Let_def split: if_splits sum.splits option.splits)
  then show ?thesis by (simp add: merged_names)
qed

text \<open>C23: For the same command line, dedup reads the records that sync wrote: both settle on one name for the pair,
  whether it comes from the configuration or is made from the two ends. Otherwise no copy would count as recorded,
  and the one a row names might be the one removed.\<close>

theorem dedup_reads_what_sync_wrote:
  assumes "settle_run conf regex fl dur home cwd sf f = Inr st" and "settle_dedup conf regex home cwd f = Inr (q, sel, n, opts)"
  shows "pair_name opts = pair_name (st_opts st) \<and> ep_url (cp_dest q) = ep_url (cp_dest (st_pair st)) \<and>
    delete_ceiling opts = delete_ceiling (st_opts st) \<and> force opts = force (st_opts st) \<and> dry_run opts = dry_run (st_opts st)"
proof -
  from assms(1) obtain p fo cc pid sel' s d where p: "sync_pair conf home cwd sf f = Inr p"
    and st: "st = \<lparr>st_pair = p, st_folders = fo, st_conc = cc, st_opts = run_options f p pid sel' s d\<rparr>"
    and pid: "(if cp_name p \<noteq> [] then Inr (cp_name p)
               else (case derive_pair_id home cwd (cp_source p) (cp_dest p) of Inl e \<Rightarrow> Inl (NoPairName e) | Inr n \<Rightarrow> Inr n)) = Inr pid"
    unfolding settle_run_def bind_err_Inr_iff by (auto simp: bind_err_Inr_iff split: prod.splits)
  from assms(2) obtain pid' where q: "dedup_pair conf home cwd f = Inr q" and o: "opts = dedup_options f pid'"
    and pid': "(if cp_name q \<noteq> [] then Inr (cp_name q)
               else (case derive_pair_id home cwd (cp_source q) (cp_dest q) of Inl e \<Rightarrow> Inl (NoPairName e) | Inr n \<Rightarrow> Inr n)) = Inr pid'"
    by (auto simp: settle_dedup_def bind_err_Inr_iff Let_def)
  note same = same_pair [OF p q]
  then have "derive_pair_id home cwd (cp_source q) (cp_dest q) = derive_pair_id home cwd (cp_source p) (cp_dest p)"
    by (intro same_urls_same_id) simp_all
  with pid pid' same have "pid' = pid" by (simp split: if_splits)
  with o st same show ?thesis by (simp add: dedup_options_def run_options_def settle_opts_def)
qed

theorem dedup_reads_what_sync_wrote_witness:
  "(case (sample_settle sample_flags, settle_dedup (\<lambda>p. Inr []) (\<lambda>_. None) (Some ''/home/me'') None sample_flags) of
      (Inr st, Inr (q, sel, n, opts)) \<Rightarrow> pair_name opts = pair_name (st_opts st) \<and> pair_name opts \<noteq> []
    | _ \<Rightarrow> False)"
proof -
  let ?d = "settle_dedup (\<lambda>p. Inr []) (\<lambda>_. None) (Some ''/home/me'') None sample_flags"
  have "\<not> isl (sample_settle sample_flags)" by code_simp
  then obtain st where s: "sample_settle sample_flags = Inr st" by (metis sum.collapse(2))
  have k: "case ?d of Inl _ \<Rightarrow> False | Inr (q, sel, n, opts) \<Rightarrow> pair_name opts \<noteq> []" by code_simp
  then obtain q sel n opts where d: "?d = Inr (q, sel, n, opts)" by (auto split: sum.splits)
  from dedup_reads_what_sync_wrote [OF s [unfolded sample_settle_def] d] k show ?thesis by (simp add: s d)
qed

text \<open>No secret of the source is asked for or looked at.\<close>

lemma source_secrets_unseen:
  assumes "sf_url s = sf_url (cf_src f)"
  shows "dedup_pair conf home cwd (f\<lparr>cf_src := s\<rparr>) = dedup_pair conf home cwd f"
proof -
  have "(flag_pair (f\<lparr>cf_src := s\<rparr>))\<lparr>cp_source := x\<rparr> = (flag_pair f)\<lparr>cp_source := x\<rparr>" for x
    by (simp add: flag_pair_def)
  moreover have "cf_config (f\<lparr>cf_src := s\<rparr>) = cf_config f" "cf_pair (f\<lparr>cf_src := s\<rparr>) = cf_pair f"
    "cf_dst (f\<lparr>cf_src := s\<rparr>) = cf_dst f" "cf_src (f\<lparr>cf_src := s\<rparr>) = s" by simp_all
  ultimately show ?thesis using assms unfolding dedup_pair_def Let_def by (simp only:)
qed

lemma dedup_gives_back: "settled (dedup_life w f p n) [] = Some []"
proof -
  obtain q k where t: "end_of w (cf_dry_run f) DestSide (cp_dest p) = (q, k)" by fastforce
  show ?thesis
    by (cases q) (simp_all add: dedup_life_def dest_pool_def t end_settles [OF t] settled_append
      close_settles close_settles [of _ _ "[]", simplified])
qed

text \<open>The command ends cleanly exactly when every folder was examined without an error, nothing was refused and the
  report was written.\<close>

lemma dedup_clean:
  "dedup_ending run rs written = Clean \<longleftrightarrow>
     run = None \<and> written = None \<and> list_all (\<lambda>fr. dp_err fr = None \<and> d_refused (dp_result fr) = 0) rs"
proof -
  have "find (\<lambda>fr. dp_err fr \<noteq> None) rs = None \<longleftrightarrow> list_all (\<lambda>fr. dp_err fr = None) rs"
    by (auto simp: find_None_iff list_all_iff)
  moreover have "0 < sum_list (map (d_refused \<circ> dp_result) rs) \<longleftrightarrow> \<not> list_all (\<lambda>fr. d_refused (dp_result fr) = 0) rs"
    by (induction rs) auto
  ultimately show ?thesis by (auto simp: dedup_ending_def dedup_totals_def list_all_iff split: option.splits)
qed

text \<open>Rows of another pair that copies into the same mailbox are not looked at: the copy they name is removed all the
  same, and they go on naming it. Two source folders of one pair are refused for exactly this.\<close>

lemma other_pairs_are_not_seen:
  "(let d = (sample_db [sample_row 3 11])\<lparr>folders := [\<lparr>f_id = 1, pair_id = ''p'', source = ''INBOX'', dest = ''INBOX'', src_validity = 5,
              dst_validity = 7, src_modseq = 0, src_deleted = 0, last_sync = 0\<rparr>]\<rparr>;
        says = \<lparr>dd_lease = None, dd_box = Inr (sample_box 7 2), dd_view = twin_view, dd_remove = (\<lambda>_. None)\<rparr>;
        run = (\<lambda>pid. dedup_one id (sample_opts\<lparr>pair_name := pid\<rparr>) says ''INBOX'' d)
    in fst (snd (run ''p'')) = [10] \<and> fst (snd (run ''q'')) = [11] \<and> map m_dst_uid (mirror_rows 1 5 7 (snd (snd (run ''q'')))) = [11])"
  by code_simp

end
