(* ===== verification/ImapOps.thy ===== *)
theory ImapOps
  imports SyncCore SearchKey
begin

text \<open>
  The operations of a server connection (\<open>src/internal/imapx/ops.go\<close> and the second half of \<open>client.go\<close>),
  as far as they are the repository's own: which commands are sent, in which order, on which condition, and what is
  made of the answers. What go-imap and the server answer is an argument, and so is the error of the context where
  it is looked at; the result carries the commands that were sent, each with whether it was completed.
\<close>

section \<open>Commands\<close>

datatype command =
  CmdSelect string bool bool | CmdCreate string | CmdSubscribe string | CmdSearch criteria | CmdWalk
| CmdFetchMeta "nat list" bool "string list" | CmdFetchFlags int | CmdFetchBody nat | CmdStoreFlags nat "string list"
| CmdMarkDeleted "nat list" | CmdExpunge "nat list" | CmdAppend string int "string list" go_time
| CmdList "(bool \<times> bool option) option" | CmdStatus string | CmdNamespace

type_synonym 'a sent = "(go_error + 'a) \<times> (command \<times> bool) list"

text \<open>An operation looks at the context, sends one command, and reads its answer.\<close>

definition one_command :: "go_error option \<Rightarrow> command \<Rightarrow> go_error + 'a \<Rightarrow> ('a \<Rightarrow> go_error + 'b) \<Rightarrow> 'b sent" where
  "one_command over cmd answer read =
     (case over of
        Some e \<Rightarrow> (Inl (WrapErr [e]), [])
      | None \<Rightarrow>
          (case answer of
             Inl e \<Rightarrow> (Inl (WrapErr [e]), [(cmd, False)])
           | Inr x \<Rightarrow> (read x, [(cmd, True)])))"

section \<open>Capabilities\<close>

record caps =
  ca_rev2 :: bool
  ca_condstore :: bool
  ca_qresync :: bool
  ca_uidplus :: bool
  ca_multiappend :: bool
  ca_special_use :: bool
  ca_move :: bool
  ca_esearch :: bool
  ca_idle :: bool
  ca_unselect :: bool
  ca_namespace :: bool
  ca_list_extended :: bool
  ca_list_status :: bool
  ca_literal_plus :: bool
  ca_objectid :: bool
  ca_auth :: "string list"
  ca_append_limit :: "nat option"
  ca_raw :: "string list"

text \<open>\<open>has\<close> is go-imap's answer, which resolves what IMAP4rev2 subsumes but for SPECIAL-USE.\<close>

definition caps_of :: "(string \<Rightarrow> bool) \<Rightarrow> string list \<Rightarrow> nat option \<Rightarrow> string list \<Rightarrow> caps" where
  "caps_of has mechanisms limit names =
     \<lparr>ca_rev2 = has ''IMAP4rev2'', ca_condstore = has ''CONDSTORE'', ca_qresync = has ''QRESYNC'', ca_uidplus = has ''UIDPLUS'',
      ca_multiappend = has ''MULTIAPPEND'', ca_special_use = (has ''IMAP4rev2'' \<or> has ''SPECIAL-USE''), ca_move = has ''MOVE'',
      ca_esearch = has ''ESEARCH'', ca_idle = has ''IDLE'', ca_unselect = has ''UNSELECT'', ca_namespace = has ''NAMESPACE'',
      ca_list_extended = has ''LIST-EXTENDED'', ca_list_status = has ''LIST-STATUS'', ca_literal_plus = has ''LITERAL+'',
      ca_objectid = has ''OBJECTID'', ca_auth = mechanisms, ca_append_limit = limit, ca_raw = sort names\<rparr>"

text \<open>A local store offers three of them.\<close>

definition local_caps :: caps where
  "local_caps =
     (caps_of (\<lambda>n. n \<in> {''UIDPLUS'', ''NAMESPACE''}) [] None [])\<lparr>ca_raw := [''IMAP4rev1'', ''UIDPLUS'', ''NAMESPACE'']\<rparr>"

record namespaces =
  na_prefix :: string
  na_delim :: string
  na_supported :: bool

definition no_namespace :: "bool \<Rightarrow> namespaces" where
  "no_namespace supported = \<lparr>na_prefix = [], na_delim = [], na_supported = supported\<rparr>"

text \<open>The personal namespaces of the answer, if there is one.\<close>

definition imap_namespaces :: "caps \<Rightarrow> go_error + (string \<times> char option) list option \<Rightarrow> namespaces sent" where
  "imap_namespaces c answer =
     (if \<not> ca_namespace c then (Inr (no_namespace False), [])
      else one_command None CmdNamespace answer (\<lambda>d.
        case d of
          Some ((prefix, delim) # _) \<Rightarrow>
            Inr \<lparr>na_prefix = prefix, na_delim = (case delim of Some x \<Rightarrow> [x] | None \<Rightarrow> []), na_supported = True\<rparr>
        | _ \<Rightarrow> Inr (no_namespace True)))"

section \<open>Folders\<close>

record status_data =
  sx_messages :: "nat option"
  sx_size :: "int option"
  sx_validity :: nat
  sx_uid_next :: nat
  sx_modseq :: int

record list_data =
  ld_mailbox :: string
  ld_delim :: "char option"
  ld_attrs :: "string list"
  ld_status :: "status_data option"

record folder_info =
  fi_name :: string
  fi_delim :: string
  fi_attrs :: "string list"
  fi_use :: string
  fi_selectable :: bool
  fi_status :: "status_data option"

text \<open>What may be asked of LIST: nothing without LIST-EXTENDED; otherwise whether the special uses are to be
  returned, and the size with the status, if the status may be asked for.\<close>

definition list_options :: "caps \<Rightarrow> bool \<Rightarrow> (bool \<times> bool option) option" where
  "list_options c with_status =
     (if \<not> ca_list_extended c then None
      else Some (ca_special_use c, if with_status \<and> ca_list_status c then Some (ca_rev2 c) else None))"

definition is_protocol_rejection :: "go_error \<Rightarrow> bool" where
  "is_protocol_rejection e =
     (case as_status e of None \<Rightarrow> False | Some s \<Rightarrow> st_type s = StatusBad \<or> st_type s = StatusNo)"

definition special_uses :: "string list" where
  "special_uses = map (Cons (CHR 0x5C)) [''All'', ''Archive'', ''Drafts'', ''Flagged'', ''Junk'', ''Sent'', ''Trash'', ''Important'']"

definition unselectable :: "string list" where
  "unselectable = map (Cons (CHR 0x5C)) [''Noselect'', ''NonExistent'']"

definition new_folder :: "list_data \<Rightarrow> folder_info" where
  "new_folder e =
     \<lparr>fi_name = ld_mailbox e, fi_delim = (case ld_delim e of Some x \<Rightarrow> [x] | None \<Rightarrow> []), fi_attrs = ld_attrs e,
      fi_use = (case filter (\<lambda>a. List.member special_uses a) (ld_attrs e) of [] \<Rightarrow> [] | us \<Rightarrow> last us),
      fi_selectable = \<not> list_ex (\<lambda>a. List.member unselectable a) (ld_attrs e), fi_status = ld_status e\<rparr>"

fun with_statuses ::
  "bool \<Rightarrow> (string \<Rightarrow> go_error + status_data option) \<Rightarrow> list_data list \<Rightarrow> (go_error + folder_info list) \<times> (command \<times> bool) list" where
  "with_statuses ask status [] = (Inr [], [])"
| "with_statuses ask status (e # es) =
     (let f = new_folder e in
      if \<not> ask \<or> \<not> fi_selectable f then
        (let (r, cs) = with_statuses ask status es in (bind_err r (\<lambda>fs. Inr (f # fs)), cs))
      else
        (case status (ld_mailbox e) of
           Inl x \<Rightarrow> (Inl (WrapErr [x]), [(CmdStatus (ld_mailbox e), False)])
         | Inr None \<Rightarrow> (Inl (PlainErr ''server returned no STATUS data''), [(CmdStatus (ld_mailbox e), True)])
         | Inr (Some st) \<Rightarrow>
             (let (r, cs) = with_statuses ask status es
              in (bind_err r (\<lambda>fs. Inr (f\<lparr>fi_status := Some st\<rparr> # fs)), (CmdStatus (ld_mailbox e), True) # cs))))"

text \<open>\<open>list\<close> answers LIST with the options it carries; a server that refuses them is asked again without.\<close>

definition list_folders ::
  "caps \<Rightarrow> bool \<Rightarrow> ((bool \<times> bool option) option \<Rightarrow> go_error + list_data list) \<Rightarrow> (string \<Rightarrow> go_error + status_data option) \<Rightarrow> folder_info list sent" where
  "list_folders c with_status list status =
     (let opts = list_options c with_status; first = list opts;
          again = (case first of Inl e \<Rightarrow> opts \<noteq> None \<and> is_protocol_rejection e | Inr _ \<Rightarrow> False);
          answer = (if again then list None else first); used = (if again then None else opts);
          tried = (if again then [(CmdList opts, False)] else [])
      in case answer of
           Inl e \<Rightarrow> (Inl (WrapErr [e]), tried @ [(CmdList used, False)])
         | Inr es \<Rightarrow>
             (let inline = (case used of Some (_, Some _) \<Rightarrow> True | _ \<Rightarrow> False);
                  (r, cs) = with_statuses (with_status \<and> \<not> inline) status es
              in (bind_err r (\<lambda>fs. Inr (sort_key fi_name fs)), tried @ [(CmdList used, True)] @ cs)))"

section \<open>The selected mailbox\<close>

record select_data =
  sd_messages :: nat
  sd_uid_next :: nat
  sd_validity :: nat
  sd_modseq :: int

definition imap_select :: "caps \<Rightarrow> go_error option \<Rightarrow> string \<Rightarrow> bool \<Rightarrow> go_error + select_data option \<Rightarrow> mailbox sent" where
  "imap_select c over name ro answer =
     one_command over (CmdSelect name ro (ca_condstore c)) answer (\<lambda>d.
       case d of
         None \<Rightarrow> Inl (PlainErr ''server returned no mailbox data'')
       | Some d \<Rightarrow>
           if sd_validity d = 0 then Inl (PlainErr ''server reported no UIDVALIDITY'')
           else Inr \<lparr>box_name = name, box_validity = sd_validity d, box_messages = sd_messages d, box_modseq = sd_modseq d, box_read_only = ro\<rparr>)"

definition create_mailbox :: "go_error option \<Rightarrow> string \<Rightarrow> go_error option \<Rightarrow> unit sent" where
  "create_mailbox over name answer =
     (case over of
        Some e \<Rightarrow> (Inl (WrapErr [e]), [])
      | None \<Rightarrow>
          (case answer of
             None \<Rightarrow> (Inr (), [(CmdCreate name, True)])
           | Some e \<Rightarrow>
               ((case as_status e of
                   Some s \<Rightarrow> if st_code s = AlreadyExists then Inr () else Inl (WrapErr [e])
                 | None \<Rightarrow> Inl (WrapErr [e])), [(CmdCreate name, False)])))"

definition answered :: "go_error option \<Rightarrow> go_error + unit" where
  "answered x = (case x of None \<Rightarrow> Inr () | Some e \<Rightarrow> Inl e)"

definition subscribe_mailbox :: "go_error option \<Rightarrow> string \<Rightarrow> go_error option \<Rightarrow> unit sent" where
  "subscribe_mailbox over name answer = one_command over (CmdSubscribe name) (answered answer) Inr"

text \<open>What a SEARCH answers: \<open>None\<close> where the server sent no data.\<close>

definition search_answer :: "nat list option \<Rightarrow> go_error + nat list" where
  "search_answer d = (case d of None \<Rightarrow> Inl (PlainErr ''server returned no search data'') | Some us \<Rightarrow> Inr us)"

text \<open>The walk: per message the items that came with it, and how the command ended.\<close>

definition enumerate_uids :: "go_error option \<Rightarrow> nat option list list \<Rightarrow> go_error option \<Rightarrow> nat list sent" where
  "enumerate_uids over items ending =
     one_command over CmdWalk (answered ending) (\<lambda>_. Inr (sort (List.map_filter (\<lambda>x. x) (concat items))))"

definition all_uids ::
  "go_error option \<Rightarrow> go_error + nat list option \<Rightarrow> nat option \<Rightarrow> go_error option \<Rightarrow> nat option list list \<Rightarrow> go_error option \<Rightarrow> nat list sent" where
  "all_uids over found exists_count over' items ending =
     (case one_command over (CmdSearch no_criteria) found search_answer of
        (Inl e, cs) \<Rightarrow> (Inl e, cs)
      | (Inr us, cs) \<Rightarrow>
          if exists_count = None \<or> exists_count = Some (length us) then (Inr us, cs)
          else (let (r, ds) = enumerate_uids over' items ending in (r, cs @ ds)))"

record buffer =
  bu_uid :: nat
  bu_flags :: "string list"
  bu_date :: go_time
  bu_size :: int
  bu_sections :: "string list"

definition meta_of :: "buffer \<Rightarrow> msg_meta" where
  "meta_of b =
     \<lparr>meta_uid = bu_uid b, meta_header = (case bu_sections b of [] \<Rightarrow> [] | x # _ \<Rightarrow> x), meta_size = bu_size b,
      meta_flags = bu_flags b, meta_date = bu_date b\<rparr>"

text \<open>Headers are asked for only where fields are named, and modification sequences only of a server that has them.\<close>

definition fetch_metas :: "caps \<Rightarrow> go_error option \<Rightarrow> nat list \<Rightarrow> string list \<Rightarrow> go_error + buffer list \<Rightarrow> msg_meta list sent" where
  "fetch_metas c over us wanted answer =
     (if us = [] then (Inr [], [])
      else one_command over (CmdFetchMeta us (ca_condstore c) wanted) answer (\<lambda>bs. Inr (map meta_of bs)))"

definition fetch_flags :: "caps \<Rightarrow> go_error option \<Rightarrow> int \<Rightarrow> go_error + (nat \<times> string list) list \<Rightarrow> (nat \<times> string list) list sent" where
  "fetch_flags c over since answer =
     one_command over (CmdFetchFlags (if since \<noteq> 0 \<and> ca_condstore c then since else 0)) answer Inr"

definition put_flags :: "go_error option \<Rightarrow> nat \<Rightarrow> string list \<Rightarrow> go_error option \<Rightarrow> unit sent" where
  "put_flags over u fs answer = one_command over (CmdStoreFlags u fs) (answered answer) Inr"

definition search_header :: "go_error option \<Rightarrow> string \<Rightarrow> string \<Rightarrow> go_error + nat list option \<Rightarrow> nat list sent" where
  "search_header over field v answer =
     one_command over (CmdSearch (Criteria (no_flat\<lparr>headers := [(field, v)]\<rparr>) [] [])) answer search_answer"

definition search_mailbox :: "go_error option \<Rightarrow> search \<Rightarrow> go_error + nat list option \<Rightarrow> nat list sent" where
  "search_mailbox over k answer =
     (case over of
        Some e \<Rightarrow> (Inl (WrapErr [e]), [])
      | None \<Rightarrow>
          (case criteria_of k of
             None \<Rightarrow> (Inl (PlainErr ''no search key was given''), [])
           | Some c \<Rightarrow> one_command None (CmdSearch c) answer search_answer))"

section \<open>A message's bytes\<close>

text \<open>What arrives for a FETCH: sections with the bytes that could be written on and the error of writing, if there
  was one, and items without a literal. The result carries the bytes written.\<close>

datatype body_item = Section string "go_error option" | OtherItem

definition section_bytes :: "body_item \<Rightarrow> string" where
  "section_bytes i = (case i of Section b _ \<Rightarrow> b | OtherItem \<Rightarrow> [])"

definition section_error :: "body_item \<Rightarrow> go_error option" where
  "section_error i = (case i of Section _ e \<Rightarrow> e | OtherItem \<Rightarrow> None)"

definition fetch_whole :: "go_error option \<Rightarrow> nat \<Rightarrow> body_item list list \<Rightarrow> go_error option \<Rightarrow> nat sent \<times> string" where
  "fetch_whole over u items ending =
     (case over of
        Some e \<Rightarrow> ((Inl (WrapErr [e]), []), [])
      | None \<Rightarrow>
          (let is = concat items; written = concat (map section_bytes is); cmd = CmdFetchBody u in
           case ending of
             Some e \<Rightarrow> ((Inl (WrapErr [e]), [(cmd, False)]), written)
           | None \<Rightarrow>
               (case first_some (map section_error is) of
                  Some e \<Rightarrow> ((Inl (WrapErr [e]), [(cmd, True)]), written)
                | None \<Rightarrow>
                    if list_all (\<lambda>i. i = OtherItem) is then ((Inl (WrapErr [Sentinel ErrMessageGone]), [(cmd, True)]), [])
                    else ((Inr (length written), [(cmd, True)]), written))))"

text \<open>An APPEND: how many bytes of the literal went out and how reading the body ended, how closing the literal
  ended, and the server's answer, \<open>None\<close> where it does not say where the message is. The result carries whether the
  connection is closed.\<close>

record append_answer =
  aa_sent :: int
  aa_copy :: "go_error option"
  aa_close :: "go_error option"
  aa_wait :: "go_error + (nat \<times> nat) option"

definition append_message ::
  "go_error option \<Rightarrow> string \<Rightarrow> int \<Rightarrow> string list \<Rightarrow> go_time \<Rightarrow> append_answer \<Rightarrow> (nat \<times> nat) sent \<times> bool" where
  "append_message over name declared fs date a =
     (case over of
        Some e \<Rightarrow> ((Inl (WrapErr [e]), []), False)
      | None \<Rightarrow>
          (let cmd = CmdAppend name declared fs date in
           if aa_sent a \<noteq> declared \<or> aa_close a \<noteq> None
             then ((Inl (WrapErr [Sentinel ErrConnectionBroken]), [(cmd, False)]), True)
           else
             (case (aa_copy a, aa_wait a) of
                (Some e, w) \<Rightarrow> ((Inl (WrapErr [e]), [(cmd, \<not> isl w)]), False)
              | (None, Inl e) \<Rightarrow> ((Inl (WrapErr [e]), [(cmd, False)]), False)
              | (None, Inr None) \<Rightarrow> ((Inr (0, 0), [(cmd, True)]), False)
              | (None, Inr (Some (validity, u))) \<Rightarrow> ((Inr (validity, u), [(cmd, True)]), False))))"

section \<open>Deleting\<close>

definition no_uid_expunge :: go_error where
  "no_uid_expunge = PlainErr ''server does not support UID EXPUNGE (UIDPLUS)''"

definition delete_messages :: "caps \<Rightarrow> go_error option \<Rightarrow> nat list \<Rightarrow> go_error option \<Rightarrow> go_error option \<Rightarrow> unit sent" where
  "delete_messages c over us marked expunged =
     (case over of
        Some e \<Rightarrow> (Inl (WrapErr [e]), [])
      | None \<Rightarrow>
          if us = [] then (Inr (), [])
          else if \<not> ca_uidplus c then (Inl no_uid_expunge, [])
          else
            (case marked of
               Some e \<Rightarrow> (Inl (WrapErr [e]), [(CmdMarkDeleted us, False)])
             | None \<Rightarrow>
                 (case expunged of
                    Some e \<Rightarrow> (Inl (WrapErr [e]), [(CmdMarkDeleted us, True), (CmdExpunge us, False)])
                  | None \<Rightarrow> (Inr (), [(CmdMarkDeleted us, True), (CmdExpunge us, True)]))))"

text \<open>A mailbox on the server, and what RFC 3501 and RFC 4315 say of the two commands: each has to do with the
  messages it names alone, completed or not; completed, the first marks them and the second removes those of them
  that are marked.\<close>

record stored =
  sg_uid :: nat
  sg_flags :: "string set"
  sg_body :: string

definition unnamed :: "nat list \<Rightarrow> stored list \<Rightarrow> stored list" where
  "unnamed us b = filter (\<lambda>m. sg_uid m \<notin> set us) b"

definition deleted_mark :: string where
  "deleted_mark = CHR 0x5C # ''Deleted''"

definition marks_only :: "(command \<times> bool \<Rightarrow> stored list \<Rightarrow> stored list) \<Rightarrow> bool" where
  "marks_only effect \<longleftrightarrow> (\<forall>us k b. unnamed us (effect (CmdMarkDeleted us, k) b) = unnamed us b) \<and>
     (\<forall>us b. effect (CmdMarkDeleted us, True) b = map (\<lambda>m. if sg_uid m \<in> set us then m\<lparr>sg_flags := insert deleted_mark (sg_flags m)\<rparr> else m) b)"

definition expunges_only :: "(command \<times> bool \<Rightarrow> stored list \<Rightarrow> stored list) \<Rightarrow> bool" where
  "expunges_only effect \<longleftrightarrow> (\<forall>us k b. unnamed us (effect (CmdExpunge us, k) b) = unnamed us b) \<and>
     (\<forall>us b. effect (CmdExpunge us, True) b = filter (\<lambda>m. \<not> (sg_uid m \<in> set us \<and> deleted_mark \<in> sg_flags m)) b)"

text \<open>C17: Deleting on a server touches the messages named and no others - those the owner has marked for deletion
  himself stay marked and stay there -, whatever fails on the way; and where it succeeds the messages named are gone
  and everything else is as it was. A server that can only expunge everything is sent nothing.\<close>

theorem only_the_named_are_deleted:
  assumes "marks_only effect" and "expunges_only effect" and "delete_messages c over us marked expunged = (r, cmds)"
  shows "unnamed us (fold effect cmds b) = unnamed us b \<and> (r = Inr () \<longrightarrow> fold effect cmds b = unnamed us b) \<and>
    (\<not> ca_uidplus c \<longrightarrow> cmds = [])"
proof -
  have mark: "unnamed us (effect (CmdMarkDeleted us, k) d) = unnamed us d" for k d using assms(1) by (simp add: marks_only_def)
  have expunge: "unnamed us (effect (CmdExpunge us, k) d) = unnamed us d" for k d using assms(2) by (simp add: expunges_only_def)
  have both: "effect (CmdExpunge us, True) (effect (CmdMarkDeleted us, True) b) = unnamed us b"
    using assms(1,2) unfolding marks_only_def expunges_only_def
    by (induction b) (simp_all add: unnamed_def)
  have none: "unnamed [] b = b" "unnamed us (unnamed us b) = unnamed us b" by (simp_all add: unnamed_def)
  show ?thesis
    using assms(3) mark expunge both none
    by (auto simp: delete_messages_def no_uid_expunge_def split: option.splits if_splits)
qed

definition standard_effect :: "command \<times> bool \<Rightarrow> stored list \<Rightarrow> stored list" where
  "standard_effect x b =
     (case x of
        (CmdMarkDeleted us, True) \<Rightarrow> map (\<lambda>m. if sg_uid m \<in> set us then m\<lparr>sg_flags := insert deleted_mark (sg_flags m)\<rparr> else m) b
      | (CmdExpunge us, True) \<Rightarrow> filter (\<lambda>m. \<not> (sg_uid m \<in> set us \<and> deleted_mark \<in> sg_flags m)) b
      | _ \<Rightarrow> b)"

lemma standard_effect_laws: "marks_only standard_effect" "expunges_only standard_effect"
proof -
  have u: "unnamed us (map (\<lambda>m. if sg_uid m \<in> set us then m\<lparr>sg_flags := insert deleted_mark (sg_flags m)\<rparr> else m) b) = unnamed us b" for us b
    by (induction b) (simp_all add: unnamed_def)
  then show "marks_only standard_effect" by (simp add: marks_only_def standard_effect_def split: bool.split)
  have "unnamed us (filter (\<lambda>m. \<not> (sg_uid m \<in> set us \<and> deleted_mark \<in> sg_flags m)) b) = unnamed us b" for us b
    by (induction b) (auto simp: unnamed_def)
  then show "expunges_only standard_effect" by (simp add: expunges_only_def standard_effect_def split: bool.split)
qed

definition sample_caps :: caps where
  "sample_caps = caps_of (\<lambda>x. x = ''UIDPLUS'') [] None [''UIDPLUS'']"

theorem only_the_named_are_deleted_witness:
  "(case delete_messages sample_caps None [7] None None of (r, cmds) \<Rightarrow>
      r = Inr () \<and> fold standard_effect cmds
        [\<lparr>sg_uid = 6, sg_flags = {deleted_mark}, sg_body = ''a''\<rparr>, \<lparr>sg_uid = 7, sg_flags = {}, sg_body = ''b''\<rparr>] =
      [\<lparr>sg_uid = 6, sg_flags = {deleted_mark}, sg_body = ''a''\<rparr>])"
proof -
  let ?b = "[\<lparr>sg_uid = 6, sg_flags = {deleted_mark}, sg_body = ''a''\<rparr>, \<lparr>sg_uid = 7, sg_flags = {}, sg_body = ''b''\<rparr>]"
  obtain r cmds where d: "delete_messages sample_caps None [7] None None = (r, cmds)" by fastforce
  then have "r = Inr ()" by (simp add: delete_messages_def sample_caps_def caps_of_def)
  with only_the_named_are_deleted [OF standard_effect_laws d, of ?b] d show ?thesis by (simp add: unnamed_def)
qed

section \<open>What an answer is worth\<close>

text \<open>A search index may hold more than the mailbox does, but EXISTS is counted by the mailbox itself.\<close>

text \<open>C19: The list of a mailbox is exact even where the server's search index keeps messages that are gone: with a
  count that is right, an index that leaves nothing out, and a walk that shows every message once, what is returned
  is every UID there is and no other, in order.\<close>

theorem listing_survives_a_stale_index:
  assumes "live \<subseteq> set found" and "sorted found" and "distinct found" and "finite live"
    and "set (List.map_filter (\<lambda>x. x) (concat items)) = live" and "distinct (List.map_filter (\<lambda>x. x) (concat items))"
    and "all_uids over (Inr (Some found)) (Some (card live)) over' items ending = (Inr us, cmds)"
  shows "set us = live \<and> sorted us \<and> distinct us"
proof (cases "length found = card live")
  case True
  then have "us = found" using assms(7) by (simp add: all_uids_def one_command_def search_answer_def split: option.splits)
  moreover have "live = set found" using True assms(1,3) by (intro card_subset_eq) (simp_all add: distinct_card)
  ultimately show ?thesis using assms(2,3) by simp
next
  case False
  then have "us = sort (List.map_filter (\<lambda>x. x) (concat items))" using assms(7)
    by (auto simp: all_uids_def one_command_def search_answer_def enumerate_uids_def answered_def Let_def split: option.splits)
  with assms(5,6) show ?thesis by simp
qed

theorem listing_survives_a_stale_index_witness:
  "fst (all_uids None (Inr (Some [2, 3, 5])) (Some 2) None [[Some 5], [None, Some 2]] None) = Inr [2, 5]"
proof -
  have r: "all_uids None (Inr (Some [2, 3, 5])) (Some 2) None [[Some 5], [None, Some 2]] None = (Inr [2, 5],
      [(CmdSearch no_criteria, True), (CmdWalk, True)])"
    by (simp add: all_uids_def one_command_def search_answer_def enumerate_uids_def answered_def List.map_filter_def)
  have "card {2, 5 :: nat} = 2" by simp
  with listing_survives_a_stale_index [of "{2, 5}" "[2, 3, 5]" "[[Some 5], [None, Some 2]]" None None None "[2, 5]"] r
  show ?thesis by (simp add: List.map_filter_def)
qed

text \<open>A mailbox that has been emptied is walked too if the index still holds something, by message numbers that it does
  not have; a server that refuses them makes the listing fail.\<close>

lemma emptied_mailbox_is_walked:
  "found \<noteq> [] \<Longrightarrow> fst (all_uids None (Inr (Some found)) (Some 0) None [] (Some e)) = Inl (WrapErr [e])"
  by (simp add: all_uids_def one_command_def search_answer_def enumerate_uids_def answered_def)

text \<open>C18: An append is believed only for the bytes that went out: it succeeds only when exactly the declared bytes were
  sent, the body was read to its end without an error and the server said so; where the literal is cut short or not
  closed the connection is closed and the error says so, and in every other case it stays open and in step.\<close>

theorem append_is_believed_for_its_bytes:
  assumes "append_message None name declared fs date a = ((r, cmds), shut)"
  shows "(shut \<longleftrightarrow> aa_sent a \<noteq> declared \<or> aa_close a \<noteq> None) \<and>
    (shut \<longrightarrow> (\<exists>e. r = Inl e \<and> err_is e ErrConnectionBroken)) \<and>
    (\<forall>w. r = Inr w \<longrightarrow> aa_sent a = declared \<and> aa_close a = None \<and> aa_copy a = None \<and> \<not> isl (aa_wait a) \<and>
       (w = (0, 0) \<or> aa_wait a = Inr (Some w)))"
  using assms by (auto simp: append_message_def Let_def split: if_splits option.splits sum.splits)

theorem append_is_believed_for_its_bytes_witness:
  "snd (append_message None ''x'' 5 [] 0 \<lparr>aa_sent = 4, aa_copy = None, aa_close = None, aa_wait = Inr None\<rparr>)"
proof -
  let ?a = "\<lparr>aa_sent = 4, aa_copy = None, aa_close = None, aa_wait = Inr None\<rparr>"
  obtain r cmds shut where a: "append_message None ''x'' 5 [] 0 ?a = ((r, cmds), shut)" by (metis prod.collapse)
  from append_is_believed_for_its_bytes [OF a] a show ?thesis by simp
qed

text \<open>The count that an APPEND is declared with is the number of bytes written, all of them without an error; and a
  message is gone where the fetch completes and no part of it was sent, when nothing was written.\<close>

lemma fetched_count_is_exact:
  "fetch_whole None u items ending = ((Inr n, cmds), written) \<Longrightarrow>
    n = length written \<and> ending = None \<and> written = concat (map section_bytes (concat items)) \<and> (\<forall>i \<in> set (concat items). section_error i = None)"
  by (auto simp: fetch_whole_def Let_def first_some_None split: option.splits if_splits)

lemma gone_without_a_byte:
  assumes "fetch_whole None u items None = ((r, cmds), written)" and "\<forall>i \<in> set (concat items). section_error i = None"
  shows "r = Inl (WrapErr [Sentinel ErrMessageGone]) \<longleftrightarrow> (\<forall>i \<in> set (concat items). i = OtherItem)"
proof -
  have "first_some (map section_error (concat items)) = None" using assms(2) unfolding first_some_None by auto
  with assms(1) show ?thesis by (auto simp: fetch_whole_def Let_def list_all_iff split: if_splits)
qed

section \<open>Listing folders\<close>

lemma statuses_known:
  "with_statuses True status es = (Inr fs, cs) \<Longrightarrow> f \<in> set fs \<Longrightarrow> fi_selectable f \<Longrightarrow> fi_status f \<noteq> None"
proof (induction es arbitrary: fs cs)
  case (Cons e es)
  obtain r ds where rest: "with_statuses True status es = (r, ds)" by fastforce
  show ?case
  proof (cases "fi_selectable (new_folder e)")
    case False
    with Cons.prems rest obtain gs where "r = Inr gs" "fs = new_folder e # gs" by (cases r) (auto simp: Let_def)
    with False Cons rest show ?thesis by auto
  next
    case True
    with Cons.prems rest obtain st gs where "r = Inr gs" "fs = (new_folder e)\<lparr>fi_status := Some st\<rparr> # gs"
      by (cases r) (auto simp: Let_def split: sum.splits option.splits)
    with Cons rest show ?thesis by auto
  qed
qed simp

lemma statuses_commands: "with_statuses ask status es = (r, cs) \<Longrightarrow> (CmdList x, k) \<notin> set cs"
  by (induction es arbitrary: r cs) (auto simp: Let_def split: if_splits sum.splits option.splits prod.splits)



text \<open>With LIST-STATUS the same omission passes: a server that leaves out the status of a folder has it reported
  with no UIDVALIDITY.\<close>

lemma inline_status_may_be_missing:
  "fst (list_folders (caps_of (\<lambda>_. True) [] None []) True (\<lambda>x. Inr [\<lparr>ld_mailbox = ''b'', ld_delim = None, ld_attrs = [], ld_status = None\<rparr>])
     (\<lambda>_. Inl (PlainErr [])))
   = Inr [\<lparr>fi_name = ''b'', fi_delim = [], fi_attrs = [], fi_use = [], fi_selectable = True, fi_status = None\<rparr>]"
  by code_simp

end
