(* ===== verification/Probe.thy ===== *)
theory Probe
  imports DedupCommand ImapOps
begin

text \<open>
  The probe (\<open>src/internal/probe/probe.go\<close> and the choice of what to probe in
  \<open>src/cmd/imapsync-go/probe.go\<close>): one connection whose answers make up the report, and the search for the number
  of connections a server holds at once. What the connections answer is an argument.
\<close>

section \<open>What to probe\<close>

record probe_flags =
  pb_config :: string
  pb_pair :: string
  pb_side :: string
  pb_end :: side_flags
  pb_max :: int
  pb_status :: bool

datatype target_error = Chosen cmd_error | BadSide string | NothingToProbe | NotAServer string | BadTarget config_error

definition probeable :: "string \<Rightarrow> endpoint \<Rightarrow> target_error option" where
  "probeable label pt = (if is_local (ep_url pt) then Some (NotAServer label) else None)"

definition probe_targets ::
  "(string \<Rightarrow> config_error + cfg_pair list) \<Rightarrow> string option \<Rightarrow> string option \<Rightarrow> probe_flags \<Rightarrow> target_error + (string \<times> endpoint) list" where
  "probe_targets conf home cwd f =
     (if pb_config f \<noteq> [] then
        bind_err (case conf (pb_config f) of
                    Inl e \<Rightarrow> Inl (Chosen (Configured e))
                  | Inr ps \<Rightarrow>
                      if pb_pair f \<noteq> [] then
                        (case find_pair ps (pb_pair f) of Inl e \<Rightarrow> Inl (Chosen (Configured e)) | Inr p \<Rightarrow> Inr p)
                      else if length ps > 1 then Inl (Chosen (ManyPairs (length ps)))
                      else Inr (hd ps)) (\<lambda>p.
        let s = go_lower (pb_side f); src = (''source'', cp_source p); dst = (''dest'', cp_dest p) in
        bind_err (if s = ''source'' then Inr [src] else if s = ''dest'' then Inr [dst]
                  else if s = ''both'' then Inr [src, dst] else Inl (BadSide (pb_side f))) (\<lambda>ts.
          case first_some (map (\<lambda>(l, e). probeable l e) ts) of Some e \<Rightarrow> Inl e | None \<Rightarrow> Inr ts))
      else if sf_url (pb_end f) = [] then Inl NothingToProbe
      else
        (let e = side_endpoint (pb_end f) in
         case probeable ''--url'' e of
           Some x \<Rightarrow> Inl x
         | None \<Rightarrow> (case check_endpoint home cwd e of Some x \<Rightarrow> Inl (BadTarget x) | None \<Rightarrow> Inr [(''endpoint'', e)])))"

section \<open>The ceiling\<close>

datatype stop = Interrupted | ServerSays string | ReachedCap nat

definition refusal_words :: "(go_error \<Rightarrow> string) \<Rightarrow> go_error \<Rightarrow> string" where
  "refusal_words words e = (if as_net e = Some True then ''server stopped responding (timeout)'' else words e)"

text \<open>\<open>opened\<close> connections are held besides the caller's own; \<open>one_more n\<close> is the error of one more.\<close>

function measure_from :: "(nat \<Rightarrow> bool) \<Rightarrow> (nat \<Rightarrow> go_error option) \<Rightarrow> (go_error \<Rightarrow> string) \<Rightarrow> nat \<Rightarrow> nat \<Rightarrow> nat \<times> stop \<times> bool" where
  "measure_from over one_more words limit opened =
     (if opened + 1 < limit then
        (if over opened then (opened + 1, Interrupted, False)
         else
           (case one_more opened of
              Some e \<Rightarrow> (opened + 1, ServerSays (refusal_words words e), True)
            | None \<Rightarrow> measure_from over one_more words limit (opened + 1)))
      else (limit, ReachedCap limit, False))"
  by pat_completeness auto
termination by (relation "measure (\<lambda>(over, one_more, words, limit, opened). limit - opened)") auto

declare measure_from.simps [simp del]

definition measure_ceiling :: "(nat \<Rightarrow> bool) \<Rightarrow> (nat \<Rightarrow> go_error option) \<Rightarrow> (go_error \<Rightarrow> string) \<Rightarrow> nat \<Rightarrow> nat \<times> stop \<times> bool" where
  "measure_ceiling over one_more words limit = measure_from over one_more words limit 0"

section \<open>The report\<close>

record probe_report =
  pr_account :: string
  pr_server :: string
  pr_tls :: tls_mode
  pr_caps :: caps
  pr_namespaces :: namespaces
  pr_folders :: "folder_info list"
  pr_special :: "string \<rightharpoonup> string"
  pr_max :: nat
  pr_limited :: "stop option"
  pr_refused :: bool

text \<open>The counts are 32 bits wide, and so is their sum.\<close>

definition total_messages :: "probe_report \<Rightarrow> nat" where
  "total_messages r =
     sum_list (List.map_filter (\<lambda>f. Option.bind (fi_status f) sx_messages) (pr_folders r)) mod 2 ^ 32"

definition suggested_concurrency :: "probe_report \<Rightarrow> nat" where
  "suggested_concurrency r =
     (if pr_max r = 0 then 0 else if \<not> pr_refused r then pr_max r else if pr_max r \<le> 2 then 1 else pr_max r - 1)"

datatype probe_error = AtAddress config_error | AtCredential source_error | AtServer go_error

text \<open>The connection's own answers, and those to the search.\<close>

record probe_says =
  ps_dial :: "go_error option"
  ps_caps :: caps
  ps_namespaces :: "go_error + (string \<times> char option) list option"
  ps_list :: "(bool \<times> bool option) option \<Rightarrow> go_error + list_data list"
  ps_status :: "string \<Rightarrow> go_error + status_data option"
  ps_over :: "nat \<Rightarrow> bool"
  ps_more :: "nat \<Rightarrow> go_error option"
  ps_words :: "go_error \<Rightarrow> string"

definition run_probe :: "world \<Rightarrow> endpoint \<Rightarrow> nat \<Rightarrow> bool \<Rightarrow> probe_says \<Rightarrow> probe_error + probe_report" where
  "run_probe w pt limit with_status says =
     (case resolve_end w pt of
        Inl (BadAddress e) \<Rightarrow> Inl (AtAddress e)
      | Inl (NoCredential e) \<Rightarrow> Inl (AtCredential e)
      | Inr (a, cred) \<Rightarrow>
          (case ps_dial says of
             Some e \<Rightarrow> Inl (AtServer e)
           | None \<Rightarrow>
               (case fst (imap_namespaces (ps_caps says) (ps_namespaces says)) of
                  Inl e \<Rightarrow> Inl (AtServer e)
                | Inr ns \<Rightarrow>
                    (case fst (list_folders (ps_caps says) with_status (ps_list says) (ps_status says)) of
                       Inl e \<Rightarrow> Inl (AtServer e)
                     | Inr fs \<Rightarrow>
                         (let special = fold (\<lambda>f m. if fi_use f \<noteq> [] then m(fi_use f \<mapsto> fi_name f) else m) fs Map.empty;
                              (held, why, turned) =
                                (if limit > 0
                                 then (let (n, s, b) = measure_ceiling (ps_over says) (ps_more says) (ps_words says) limit in (n, Some s, b))
                                 else (0, None, False))
                          in Inr \<lparr>pr_account = a_user a, pr_server = host_port a, pr_tls = a_tls a, pr_caps = ps_caps says,
                               pr_namespaces = ns, pr_folders = fs, pr_special = special, pr_max = held, pr_limited = why,
                               pr_refused = turned\<rparr>)))))"

section \<open>Properties\<close>

text \<open>A server that holds \<open>n\<close> connections at once, the caller's among them.\<close>

definition holds_at_most :: "nat \<Rightarrow> (nat \<Rightarrow> go_error option) \<Rightarrow> bool" where
  "holds_at_most n one_more \<longleftrightarrow> 1 \<le> n \<and> (\<forall>k. one_more k = None \<longleftrightarrow> k + 1 < n)"

lemma measure_finds:
  assumes "holds_at_most n one_more" and "\<forall>k. \<not> over k" and "k + 1 \<le> min n limit"
  shows "\<exists>s. measure_from over one_more words limit k = (min n limit, s, n < limit)"
  using assms(3)
proof (induction "limit - k" arbitrary: k)
  case 0
  then show ?case using assms(1) by simp
next
  case (Suc m)
  show ?case
  proof (cases "k + 1 < min n limit")
    case True
    then have "one_more k = None" using assms(1) by (simp add: holds_at_most_def)
    moreover have "\<exists>s. measure_from over one_more words limit (k + 1) = (min n limit, s, n < limit)"
      using True Suc.hyps(2) by (intro Suc.hyps(1)) simp_all
    ultimately show ?thesis using True assms(2) by (subst measure_from.simps) simp
  next
    case False
    with Suc.prems consider "k + 1 = n" "n < limit" | "k + 1 = limit" "limit \<le> n" by linarith
    then show ?thesis
    proof cases
      case 1
      then obtain e where "one_more k = Some e" using assms(1) by (auto simp: holds_at_most_def)
      with 1 assms(2) show ?thesis by (subst measure_from.simps) simp
    next
      case 2
      then show ?thesis by (subst measure_from.simps) simp
    qed
  qed
qed

text \<open>C24: Of a server that holds a certain number of connections the search finds exactly that number, or the cap it was
  given if that is lower; it says that the server refused exactly when it did; and the number it suggests is at least
  one, never more than the server was seen to hold, and one less than that where it refused.\<close>

theorem ceiling_is_found:
  assumes "run_probe w pt limit with_status says = Inr r" and "0 < limit"
    and "holds_at_most n (ps_more says)" and "\<forall>k. \<not> ps_over says k"
  shows "pr_max r = min n limit \<and> (pr_refused r \<longleftrightarrow> n < limit) \<and>
    suggested_concurrency r = (if n < limit then max 1 (n - 1) else limit)"
proof -
  have "1 \<le> min n limit" using assms(2,3) by (simp add: holds_at_most_def)
  then obtain s where m: "measure_ceiling (ps_over says) (ps_more says) (ps_words says) limit = (min n limit, s, n < limit)"
    using measure_finds [OF assms(3,4), of 0 limit "ps_words says"] by (auto simp: measure_ceiling_def)
  have f: "pr_max r = min n limit \<and> pr_refused r = (n < limit)"
    using assms(1,2) by (auto simp: run_probe_def m Let_def split: sum.splits dial_error.splits option.splits prod.splits)
  have "1 \<le> n" using assms(3) by (simp add: holds_at_most_def)
  with f assms(2) show ?thesis by (auto simp: suggested_concurrency_def)
qed

definition sample_world :: world where
  "sample_world =
     \<lparr>wo_outside = \<lparr>ou_env = (\<lambda>_. Some ''pw''), ou_file = (\<lambda>_. None), ou_mac = False, ou_keychain = (\<lambda>_. None)\<rparr>,
      wo_credentials = (\<lambda>_. None), wo_reply = (\<lambda>_. \<lparr>re_access = [], re_refresh = [], re_expires = 0, re_error = [], re_description = []\<rparr>),
      wo_post = (\<lambda>_ _ _. NoAnswer []), wo_run = (\<lambda>_ _ _. (None, [], [])), wo_token_file = (\<lambda>_ _. None)\<rparr>"

text \<open>A server that holds three connections.\<close>

definition sample_probe :: probe_says where
  "sample_probe =
     \<lparr>ps_dial = None, ps_caps = sample_caps, ps_namespaces = Inr None, ps_list = (\<lambda>_. Inr []), ps_status = (\<lambda>_. Inr None),
      ps_over = (\<lambda>_. False), ps_more = (\<lambda>k. if k + 1 < 3 then None else Some (PlainErr ''too many'')), ps_words = (\<lambda>_. ''too many'')\<rparr>"

theorem ceiling_is_found_witness:
  "(case run_probe sample_world (sample_end ''imaps://me@example.org'' ''PW'') 16 False sample_probe of
      Inl _ \<Rightarrow> False
    | Inr r \<Rightarrow> pr_max r = 3 \<and> pr_refused r \<and> suggested_concurrency r = 2)"
proof -
  let ?p = "run_probe sample_world (sample_end ''imaps://me@example.org'' ''PW'') 16 False sample_probe"
  have "\<not> isl ?p" by code_simp
  then obtain r where r: "?p = Inr r" by (metis sum.collapse(2))
  have "holds_at_most 3 (ps_more sample_probe)" "\<forall>k. \<not> ps_over sample_probe k"
    by (simp_all add: holds_at_most_def sample_probe_def)
  from ceiling_is_found [OF r _ this] show ?thesis by (simp add: r)
qed

text \<open>The search always ends, and never holds more than its cap.\<close>

lemma measure_bounded: "opened < limit \<Longrightarrow> fst (measure_from over one_more words limit opened) \<le> limit"
proof (induction over one_more words limit opened rule: measure_from.induct)
  case (1 over one_more words limit opened)
  then show ?case by (subst measure_from.simps) (auto split: option.split)
qed

text \<open>A connection that fails because the probe was interrupted, or for any other reason, counts as a refusal: what was
  held by then is reported as the server's ceiling.\<close>

lemma interrupted_dial_is_called_a_ceiling:
  "measure_ceiling (\<lambda>k. k > 3) (\<lambda>k. if k < 3 then None else Some (WrapErr [Sentinel Canceled])) words 16
     = (4, ServerSays (words (WrapErr [Sentinel Canceled])), True)"
  by (simp add: measure_ceiling_def measure_from.simps refusal_words_def sentinel_timeout_def)

text \<open>What is probed is a server.\<close>

lemma targets_are_servers:
  "probe_targets conf home cwd f = Inr ts \<Longrightarrow> (l, e) \<in> set ts \<Longrightarrow> \<not> is_local (ep_url e)"
  by (auto simp: probe_targets_def probeable_def bind_err_Inr_iff Let_def split: if_splits option.splits)

end
