(* ===== verification/Spec2Isabelle.thy ===== *)
theory Spec2Isabelle
  imports Retry Selection Budget Dedup FolderPlan LocalSearch LocalStore Pool StateDb Throttle CompatRun Trace Credential Probe
begin

text \<open>
  A verification of imapsync-go, a tool that copies mailboxes between IMAP servers.

  How the program works. The sync command merges its flags with a configuration file
  (\<open>cmd/imapsync-go/sync.go\<close>, \<open>internal/config\<close>), opens both ends - a server (\<open>internal/imapx\<close>) or
  a directory of mail (\<open>internal/localstore\<close>) - behind a pool of connections each (\<open>internal/pool\<close>), and hands
  them to the engine (\<open>internal/syncer\<close>). The engine lists both sides and plans which mailbox is copied where
  (\<open>internal/folder\<close>). For each pair it diffs the source's UIDs against the state database (\<open>internal/state\<close>),
  recognises messages already on the destination by the digest of their headers (\<open>internal/ident\<close>), selects by age
  and size (\<open>internal/selection\<close>) or by a search key (\<open>internal/searchkey\<close>), copies the rest within a memory budget
  (\<open>internal/budget\<close>) and a rate (\<open>internal/throttle\<close>), retrying by class of failure (\<open>internal/retry\<close>), and then
  may delete what is gone and what repeats (\<open>internal/dedup\<close>). Other commands remove duplicates alone, probe a
  server, obtain an OAuth credential (\<open>internal/oauthx\<close>), and take an imapsync command line (\<open>internal/compat\<close>).

  The theories, each a part of the program, with the Go names kept in snake case. The ground they share:
    \<^item> Prelude: Go's strings, decimal numbers, 64-bit integers and times, and their lemmas.
    \<^item> GoErrors: the tree of wrapped errors as \<open>errors.Is\<close> and \<open>errors.As\<close> see it.
    \<^item> Interfaces: the contracts shared by components, as locales: a codec, an allocator of numbers,
      a journal of appends. LocalStore, StateDb, CompatTranslate and OAuth interpret them on their own operations;
      the contract of a mail folder stands in StoreConn beside its interpretation.

  Components of the engine:
    \<^item> Retry: \<open>classify\<close> and \<open>wait\<close> of retry.go. A failure is retried only on evidence that it is
      transient; a pause never exceeds the policy's maximum, overflow included.
    \<^item> Selection: \<open>validate\<close>, \<open>wants\<close>, \<open>cap_size\<close> of selection.go. What is rejected and what a filter keeps.
    \<^item> Budget: \<open>acquire\<close> and \<open>release\<close> of budget.go over a semaphore given by its laws. Memory is bounded
      for every interleaving.
    \<^item> Throttle: throttle.go over a token bucket given as an argument. A wait ends, and an error it ends with is one
      that stops the retrying.
    \<^item> Ident: header reading, \<open>digest_text\<close>, \<open>parse_ident\<close>, \<open>stamp_bytes\<close> of ident.go. The digest's
      framing is injective, a stamp keeps the identity, refolding does too.
    \<^item> Dedup: \<open>candidates\<close> and \<open>partition_group\<close> of dedup.go. Exactly the true duplicates are grouped
      and exactly one of each group survives.
    \<^item> FolderPlan: \<open>build\<close> of plan.go and all it calls. Nothing is merged, nothing lost, parents are
      created first, translation round-trips, roles do not depend on listing order.
    \<^item> SearchKey: \<open>lex\<close>, \<open>key\<close>, \<open>keys\<close>, \<open>and_criteria\<close> of searchkey.go. The recursive descent
      terminates and accepts exactly the grammar; bounds are sane; dates mean calendar days.
    \<^item> Pool: pool.go. The record \<open>pool\<close> is what the mutex guards, one operation per critical section;
      \<open>pool_step\<close> interleaves workers, growth and shutdown. Leases are exclusive, tokens and connections
      are accounted for, Close waits for the right number.
    \<^item> StateDb: state.go. Tables are lists of rows, each operation one transaction. Keys stay unique, a
      crash leaves suspects, a fence touches one folder.

  The engine, \<open>internal/syncer\<close>:
    \<^item> SyncCore: the options, the reports, \<open>health\<close>, \<open>live\<close> and the decisions that need no server. A row of
      failures ends a run.
    \<^item> SyncDelete: \<open>verify_claims\<close>, \<open>delete_vanished\<close>, \<open>dedupe_dest\<close>. Only what is gone from the source is deleted,
      only what was compared byte for byte is removed as a repeat, and no record is left naming a removed copy.
    \<^item> SyncCopy: \<open>copy_step\<close>, the readers and writers of one folder interleaved: chunks, fetches, appends, breaks.
      Copying ends, every message is accounted for once, each append is journalled first, the budget comes back.
    \<^item> SyncFolder: a folder from its selection to its report, real and dry, and the recovery of suspects. A dry run
      writes no message row and previews the deletions of the run.
    \<^item> Watermark: a folder is passed over by a later run only where every message was settled.
    \<^item> SyncRun: the run over the account with its second pass, and the run that removes duplicates alone. Each planned
      folder has one report.

  A directory as an account, \<open>internal/localstore\<close>:
    \<^item> LocalStore: name.go and the folder state of folder.go. Names round-trip and are safe, \<open>reconcile\<close> makes the
      database agree with the directory, UIDs are never reused but for the overflow recorded there.
    \<^item> LocalSearch: \<open>evaluate\<close> and \<open>matches\<close> of search.go and the header access of conn.go.
      A search means its logical reading, and keys in a row intersect.
    \<^item> StoreConn: store.go and conn.go, the tree, the handles and each operation of a connection; an append step by
      step with a failure at any of them. It refines a map from UIDs to mail, survives a crash, and reads back.

  Servers, \<open>internal/imapx\<close> and \<open>internal/probe\<close>:
    \<^item> ImapOps: ops.go and client.go as the commands that are sent, in which order and on which condition. Only the
      messages named are deleted; a listing is exact in spite of a stale index; an append is believed for its bytes.
    \<^item> Credential: credential.go, token.go, xoauth2.go and the dialling of client.go. A secret is offered only as the
      address allows, at most twice; a token is minted once per refusal.
    \<^item> Trace: trace.go. Conversations that differ in their secrets leave the same trace; the cases that escape it.
    \<^item> Probe: probe.go of both directories. The number of connections a server holds is found.

  Commands, \<open>cmd/imapsync-go\<close>:
    \<^item> Config: config.go. Addresses, paths, secrets and sizes; a configuration that loads is sound, and a written URL
      reads back.
    \<^item> Command: the settings of the sync command and what it ends with.
    \<^item> Endpoints: both ends of a run as they are opened and closed. All that is opened is closed, the last first; a dry
      run spares the destination.
    \<^item> DedupCommand: the dedup command, which reads the records the sync command wrote.
    \<^item> Getopt, OptionTable, CompatTranslate, CompatRun: the option parser, the table of options, the translation with
      its echo, and its passage to the sync command. Parsing what was retyped gives the same options, nothing is dropped,
      passwords stay in the environment, every flag written is one the sync command has.
    \<^item> OAuth: oauthx.go, login.go and the oauth command. A login is bound to the consent it asked for.

  The commands meet in the engine through arguments: what a server, a disk or another worker answers is a record of
  answers (\<open>prepare_says\<close>, \<open>list_says\<close>, \<open>end_says\<close>, \<open>append_says\<close>, ...), so that each property holds whatever they
  are. Where a law of theirs is needed it is a named hypothesis (\<open>sem_laws\<close>, \<open>marks_only\<close>, \<open>expunges_only\<close>,
  \<open>answers_asked\<close>), and the property's witness gives a function that keeps it.

  Conventions. Strings are lists of bytes. An error is a value of a sum type. Integers are int or nat
  with the wrap-around written out, or 32-bit words where UIDs wrap. Code that is not in the
  repository is an argument: the semaphore, the token bucket, SHA-256, the parser of mail dates, of URLs and of
  durations, regular expressions, membership in go-imap's number sets, floating-point formatting, the random source,
  the network. No fuel is used: every recursion has a proved measure, the parser's by the lemma that a key consumes a
  token; the waiting of the throttle, which a bucket of no size would keep going, has an option for its value, and the
  interleaved copying is a relation whose runs are proved to end.

  Not modelled: opening and migrating SQLite files, locks and pragmas; the system calls of files, sockets, browsers and
  signals; the YAML and JSON decoders; the registration of flags with the flag library and the texts of help; logging
  and progress lines; the reports as they are printed (\<open>writeSyncReport\<close>, \<open>writeReport\<close>, \<open>writeDedupReport\<close>), whose
  numbers are those of the modelled reports; and the generator of documentation. They call libraries or format text.
\<close>

end
